(* ===== verification/Prelude.thy ===== *)
theory Prelude
  imports Main "HOL-Library.Word"
begin

unbundle bit_operations_syntax

text \<open>
  The vocabulary every component of the development shares.

  \<^item> \<open>res\<close> is the outcome of a C function of the kernel: it returns a value and the new state
    (\<open>Ok\<close>), it stops the machine (\<open>Panic\<close>, with the message of the source's \<open>panic\<close> call), the
    calling process goes to sleep inside the function (\<open>Sleep\<close>, with the state in which the
    processor is given up), or it does not return within the bound given to a recursion whose depth
    the data decides (\<open>Diverge\<close>). \<open>bindr\<close> is the sequencing of C statements.
  \<^item> The little-endian encoding of machine words as bytes (\<open>le_word\<close>, \<open>word_le\<close>), byte memory
    (\<open>rd\<close>, \<open>wr\<close>, \<open>load64\<close>, \<open>store64\<close>) and the lemmas on reading back what was written.
  \<^item> List update and search lemmas.
\<close>

section \<open>Outcomes of kernel functions\<close>

datatype ('s, 'a) res = Ok 'a 's | Panic string | Sleep 's | Diverge

fun bindr :: "('s, 'a) res \<Rightarrow> ('a \<Rightarrow> 's \<Rightarrow> ('s, 'b) res) \<Rightarrow> ('s, 'b) res" where
  "bindr (Ok a s) f = f a s"
| "bindr (Panic m) f = Panic m"
| "bindr (Sleep s) f = Sleep s"
| "bindr Diverge f = Diverge"

lemma bindr_eq_Ok:
  "bindr r f = Ok b t \<longleftrightarrow> (\<exists>a s. r = Ok a s \<and> f a s = Ok b t)"
  by (cases r) auto

lemma bindr_eq_OkE:
  assumes "bindr r f = Ok b t"
  obtains a s where "r = Ok a s" "f a s = Ok b t"
  using assms by (auto simp: bindr_eq_Ok)

lemma bindr_eq_Panic:
  "bindr r f = Panic m \<longleftrightarrow> r = Panic m \<or> (\<exists>a s. r = Ok a s \<and> f a s = Panic m)"
  by (cases r) auto

lemma bindr_eq_Sleep:
  "bindr r f = Sleep t \<longleftrightarrow> r = Sleep t \<or> (\<exists>a s. r = Ok a s \<and> f a s = Sleep t)"
  by (cases r) auto

lemma bindr_eq_Diverge:
  "bindr r f = Diverge \<longleftrightarrow> r = Diverge \<or> (\<exists>a s. r = Ok a s \<and> f a s = Diverge)"
  by (cases r) auto

lemma bindr_assoc [simp]:
  "bindr (bindr r f) g = bindr r (\<lambda>a s. bindr (f a s) g)"
  by (cases r) auto

lemma bindr_cong [fundef_cong]:
  "r = r' \<Longrightarrow> (\<And>a s. r' = Ok a s \<Longrightarrow> f a s = g a s) \<Longrightarrow> bindr r f = bindr r' g"
  by (cases r') auto

text \<open>A function that neither stops the machine nor sleeps.\<close>

definition returns :: "('s, 'a) res \<Rightarrow> bool" where
  "returns r \<longleftrightarrow> (\<exists>a s. r = Ok a s)"

lemma returns_Ok [simp]: "returns (Ok a s)"
  by (simp add: returns_def)

lemma returns_Panic [simp]: "\<not> returns (Panic m)"
  by (simp add: returns_def)

lemma returns_Sleep [simp]: "\<not> returns (Sleep s)"
  by (simp add: returns_def)

lemma returns_Diverge [simp]: "\<not> returns Diverge"
  by (simp add: returns_def)

lemma returns_bindr:
  "returns (bindr r f) \<longleftrightarrow> (\<exists>a s. r = Ok a s \<and> returns (f a s))"
  by (cases r) auto

text \<open>A counting loop whose body may fail.\<close>

fun forM :: "'b list \<Rightarrow> ('b \<Rightarrow> 's \<Rightarrow> ('s, unit) res) \<Rightarrow> 's \<Rightarrow> ('s, unit) res" where
  "forM [] f s = Ok () s"
| "forM (x # xs) f s = bindr (f x s) (\<lambda>_ s. forM xs f s)"

lemma forM_append: "forM (xs @ ys) f s = bindr (forM xs f s) (\<lambda>_ s. forM ys f s)"
proof (induction xs arbitrary: s)
  case (Cons x xs)
  then show ?case by (cases "f x s") auto
qed simp

lemma forM_upt_Suc: "forM [0..<Suc k] f s = bindr (forM [0..<k] f s) (\<lambda>_ t. f k t)"
proof -
  have "bindr r (\<lambda>_. forM [] f) = r" for r by (cases r) auto
  then show ?thesis by (cases "forM [0..<k] f s") (simp_all add: forM_append)
qed

text \<open>A loop that a \<open>break\<close> or \<open>return\<close> leaves with a value.\<close>

fun loopM :: "'x list \<Rightarrow> ('x \<Rightarrow> 's \<Rightarrow> ('s, 'r option) res) \<Rightarrow> 's \<Rightarrow> ('s, 'r option) res" where
  "loopM [] f s = Ok None s"
| "loopM (x # xs) f s = bindr (f x s) (\<lambda>r s. case r of None \<Rightarrow> loopM xs f s | Some v \<Rightarrow> Ok (Some v) s)"

text \<open>A loop that leaves at the first element with \<open>P\<close>.\<close>

lemma loopM_cases:
  assumes "I s"
    and "\<And>x s. x \<in> set xs \<Longrightarrow> I s \<Longrightarrow> (\<exists>t. f x s = Ok None t \<and> I t \<and> \<not> P x) \<or> (\<exists>v t. f x s = Ok (Some v) t \<and> P x \<and> Q x v t)"
  shows "(\<exists>t. loopM xs f s = Ok None t \<and> I t \<and> (\<forall>x \<in> set xs. \<not> P x)) \<or>
    (\<exists>x v t. loopM xs f s = Ok (Some v) t \<and> x \<in> set xs \<and> P x \<and> Q x v t)"
  using assms
proof (induction xs arbitrary: s)
  case (Cons x xs)
  have ih: "(\<exists>u. loopM xs f t = Ok None u \<and> I u \<and> (\<forall>x \<in> set xs. \<not> P x)) \<or>
      (\<exists>x v u. loopM xs f t = Ok (Some v) u \<and> x \<in> set xs \<and> P x \<and> Q x v u)" if "I t" for t
    by (rule Cons.IH [OF that]) (intro Cons.prems(2), simp_all)
  have "(\<exists>t. f x s = Ok None t \<and> I t \<and> \<not> P x) \<or> (\<exists>v t. f x s = Ok (Some v) t \<and> P x \<and> Q x v t)"
    by (intro Cons.prems(2)) (simp_all add: Cons.prems(1))
  then show ?case
  proof
    assume "\<exists>t. f x s = Ok None t \<and> I t \<and> \<not> P x"
    then obtain t where t: "f x s = Ok None t" "I t" "\<not> P x" by blast
    then have "loopM (x # xs) f s = loopM xs f t" by simp
    then show ?thesis using ih [OF t(2)] t(3) by auto
  next
    assume "\<exists>v t. f x s = Ok (Some v) t \<and> P x \<and> Q x v t"
    then obtain v t where "f x s = Ok (Some v) t" "P x" "Q x v t" by blast
    then show ?thesis by (intro disjI2 exI [of _ x] exI [of _ v] exI [of _ t]) simp
  qed
qed simp

lemma forM_invariant:
  assumes "forM xs f s = Ok u t" and "I s"
    and "\<And>x s u t. x \<in> set xs \<Longrightarrow> f x s = Ok u t \<Longrightarrow> I s \<Longrightarrow> I t"
  shows "I t"
  using assms
proof (induction xs arbitrary: s)
  case (Cons x xs)
  from Cons.prems(1) obtain v r where r: "f x s = Ok v r" "forM xs f r = Ok u t"
    by (auto simp: bindr_eq_Ok)
  have "I r" using Cons.prems(3) [OF _ r(1) Cons.prems(2)] by simp
  moreover have "\<And>x s u t. x \<in> set xs \<Longrightarrow> f x s = Ok u t \<Longrightarrow> I s \<Longrightarrow> I t"
    using Cons.prems(3) by (meson list.set_intros(2))
  ultimately show ?case using Cons.IH [OF r(2)] by blast
qed simp

lemma forM_cong [fundef_cong]:
  "xs = ys \<Longrightarrow> s = t \<Longrightarrow> (\<And>x s. x \<in> set ys \<Longrightarrow> f x s = g x s) \<Longrightarrow> forM xs f s = forM ys g t"
proof (induction ys arbitrary: xs s t)
  case (Cons y ys)
  then show ?case by (auto intro!: bindr_cong)
qed simp

section \<open>Machine words as little-endian bytes\<close>

type_synonym byte = "8 word"
type_synonym addr = "64 word"
type_synonym memory = "addr \<Rightarrow> byte"

fun le_word :: "byte list \<Rightarrow> 'a::len word" where
  "le_word [] = 0"
| "le_word (b # bs) = ucast b OR push_bit 8 (le_word bs)"

definition word_le :: "nat \<Rightarrow> 'a::len word \<Rightarrow> byte list" where
  "word_le k w = map (\<lambda>i. ucast (drop_bit (8 * i) w)) [0..<k]"

lemma length_word_le [simp]: "length (word_le k w) = k"
  by (simp add: word_le_def)

lemma bit_le_word:
  "bit (le_word bs :: 'a::len word) n \<longleftrightarrow>
     n < LENGTH('a) \<and> n div 8 < length bs \<and> bit (bs ! (n div 8)) (n mod 8)"
proof (induction bs arbitrary: n)
  case Nil
  show ?case by simp
next
  case (Cons b bs)
  show ?case
  proof (cases "n < 8")
    case True
    then show ?thesis by (auto simp: bit_simps)
  next
    case False
    then obtain m where m: "n = m + 8" by (metis add.commute le_Suc_ex not_less)
    moreover have "\<not> bit b n" using False by (auto dest: bit_imp_le_length)
    moreover have "(m + 8) div 8 = Suc (m div 8)" by simp
    ultimately show ?thesis using Cons.IH [of m]
      by (auto simp: bit_simps)
  qed
qed

lemma bit_word_le_nth:
  fixes w :: "'a::len word"
  shows "i < k \<Longrightarrow> bit (word_le k w ! i) n \<longleftrightarrow> n < 8 \<and> bit w (8 * i + n)"
  by (auto simp: word_le_def bit_simps)

lemma le_word_word_le:
  fixes w :: "'a::len word"
  assumes "LENGTH('a) \<le> 8 * k"
  shows "le_word (word_le k w) = w"
proof (rule bit_word_eqI)
  fix n assume "n < LENGTH('a)"
  moreover from this assms have "n div 8 < k" by auto
  ultimately show "bit (le_word (word_le k w) :: 'a word) n = bit w n"
    by (simp add: bit_le_word bit_word_le_nth)
qed

lemma word_le_le_word:
  assumes "length bs = k" and "8 * k \<le> LENGTH('a::len)"
  shows "word_le k (le_word bs :: 'a word) = bs"
proof (rule nth_equalityI)
  show "length (word_le k (le_word bs :: 'a word)) = length bs" using assms by simp
next
  fix i assume "i < length (word_le k (le_word bs :: 'a word))"
  then have i: "i < k" by simp
  show "word_le k (le_word bs :: 'a word) ! i = bs ! i"
  proof (rule bit_word_eqI)
    fix n assume n: "n < LENGTH(8)"
    then have "(8 * i + n) div 8 = i" and "(8 * i + n) mod 8 = n" and "8 * i + n < LENGTH('a)"
      using i assms(2) by auto
    then show "bit (word_le k (le_word bs :: 'a word) ! i) n = bit (bs ! i) n"
      using n i assms(1) by (simp add: bit_word_le_nth bit_le_word)
  qed
qed

lemma le_word_zeros [simp]: "le_word (replicate n 0) = 0"
  by (induction n) auto

lemma not_bit_small:
  fixes w :: "'a::len word"
  assumes "unat w < 2 ^ n" and "n \<le> k"
  shows "\<not> bit w k"
proof -
  have "unat w < 2 ^ k" using assms(1) power_increasing [OF assms(2), of "2::nat"] by linarith
  then have "take_bit k (unat w) = unat w" by (rule take_bit_nat_eq_self)
  then have "\<not> bit (unat w) k" by (metis bit_take_bit_iff less_irrefl)
  then show ?thesis by (simp add: bit_simps)
qed

lemma unat_of_nat32: "i < 2 ^ 32 \<Longrightarrow> unat (of_nat i :: 32 word) = i"
  by (simp add: unat_of_nat take_bit_eq_mod)

lemma sint_of_nat32: "k < 2 ^ 31 \<Longrightarrow> sint (of_nat k :: 32 word) = int k"
proof -
  assume "k < 2 ^ 31"
  then have "- (2 ^ 31) \<le> int k" "int k < 2 ^ 31" by simp_all
  then have "signed_take_bit 31 (int k) = int k" by (simp add: signed_take_bit_int_eq_self)
  then show ?thesis by (simp add: signed_of_nat)
qed

section \<open>Byte memory\<close>

definition rd :: "memory \<Rightarrow> addr \<Rightarrow> nat \<Rightarrow> byte list" where
  "rd m a n = map (\<lambda>i. m (a + of_nat i)) [0..<n]"

definition wr :: "memory \<Rightarrow> addr \<Rightarrow> byte list \<Rightarrow> memory" where
  "wr m a bs = (\<lambda>x. if unat (x - a) < length bs then bs ! unat (x - a) else m x)"

definition load64 :: "memory \<Rightarrow> addr \<Rightarrow> 64 word" where
  "load64 m a = le_word (rd m a 8)"

definition store64 :: "memory \<Rightarrow> addr \<Rightarrow> 64 word \<Rightarrow> memory" where
  "store64 m a v = wr m a (word_le 8 v)"

text \<open>Two address ranges do not meet (addresses wrap around at \<open>2 ^ 64\<close>).\<close>

definition apart :: "addr \<Rightarrow> nat \<Rightarrow> addr \<Rightarrow> nat \<Rightarrow> bool" where
  "apart a n b k \<longleftrightarrow> n \<le> unat (b - a) \<and> k \<le> unat (a - b)"

lemma apart_sym: "apart a n b k \<Longrightarrow> apart b k a n"
  by (simp add: apart_def)

lemma length_rd [simp]: "length (rd m a n) = n"
  by (simp add: rd_def)

lemma nth_rd [simp]: "i < n \<Longrightarrow> rd m a n ! i = m (a + of_nat i)"
  by (simp add: rd_def)

lemma wr_Nil [simp]: "wr m a [] = m"
  by (simp add: wr_def)

lemma unat_of_nat64: "i < 2 ^ 64 \<Longrightarrow> unat (of_nat i :: addr) = i"
  by (simp add: unat_of_nat take_bit_nat_eq_self)

lemma rd_wr_same:
  assumes "length bs = n" and "n < 2 ^ 64"
  shows "rd (wr m a bs) a n = bs"
proof (rule nth_equalityI)
  fix i assume "i < length (rd (wr m a bs) a n)"
  then have "i < n" by simp
  moreover from this assms(2) have "unat (of_nat i :: addr) = i"
    by (intro unat_of_nat64) simp
  ultimately show "rd (wr m a bs) a n ! i = bs ! i"
    using assms(1) by (simp add: wr_def)
qed (use assms in simp)

lemma div_add_mod:
  fixes a :: nat
  assumes "a mod n + i < n"
  shows "(a + i) div n = a div n"
proof (rule div_nat_eqI)
  have a: "n * (a div n) + a mod n = a" by simp
  then show "n * (a div n) \<le> a + i" by linarith
  show "a + i < n * Suc (a div n)" unfolding mult_Suc_right using a assms by linarith
qed

lemma mod_zero_unique:
  fixes x n :: nat
  assumes "x mod n = 0" and "0 < x" and "x < 2 * n"
  shows "x = n"
proof -
  from assms(1) obtain k where k: "x = n * k" by (auto elim: dvdE)
  with assms(2,3) have "0 < k" "k < 2" by auto
  then have "k = 1" by simp
  with k show ?thesis by simp
qed
lemma unat_diff_sym:
  fixes a b :: "'a::len word"
  assumes "a \<noteq> b"
  shows "unat (a - b) + unat (b - a) = 2 ^ LENGTH('a)"
proof (rule mod_zero_unique)
  have "(unat (a - b) + unat (b - a)) mod 2 ^ LENGTH('a) = unat ((a - b) + (b - a))"
    by (rule unat_word_ariths(1) [symmetric])
  then show "(unat (a - b) + unat (b - a)) mod 2 ^ LENGTH('a) = 0" by simp
  have "0 < unat (a - b)" using assms by (simp add: unat_gt_0)
  then show "0 < unat (a - b) + unat (b - a)" by simp
  show "unat (a - b) + unat (b - a) < 2 * 2 ^ LENGTH('a)"
    by (rule less_le_trans [OF add_strict_mono [OF unsigned_less unsigned_less]]) simp
qed

lemma apart_offset:
  assumes "apart a n b k" and "i < k"
  shows "n \<le> unat (b + of_nat i - a)"
proof (cases "a = b")
  case True
  with assms show ?thesis by (simp add: apart_def)
next
  case False
  have n: "n \<le> unat (b - a)" and k: "k \<le> unat (a - b)"
    using assms(1) by (simp_all add: apart_def)
  have d: "unat (a - b) + unat (b - a) = 2 ^ 64"
    using unat_diff_sym [OF False] by simp
  with k assms(2) have i: "unat (b - a) + i < 2 ^ 64" by linarith
  then have "unat (of_nat i :: addr) = i" by (intro unat_of_nat64) linarith
  then have "unat ((b - a) + of_nat i) = unat (b - a) + i"
    using i by (simp add: unat_word_ariths(1))
  moreover have "b + of_nat i - a = (b - a) + of_nat i" by simp
  ultimately show ?thesis using n by (metis trans_le_add1)
qed

lemma rd_wr_apart:
  assumes "apart a (length bs) b n"
  shows "rd (wr m a bs) b n = rd m b n"
  using apart_offset [OF assms] by (intro nth_equalityI) (auto simp: wr_def leD)

lemma load_store64_same [simp]: "load64 (store64 m a v) a = v"
  by (simp add: load64_def store64_def rd_wr_same le_word_word_le)

lemma load_store64_apart:
  "apart a 8 b 8 \<Longrightarrow> load64 (store64 m a v) b = load64 m b"
  by (simp add: load64_def store64_def rd_wr_apart)

lemma store64_apart:
  "8 \<le> unat (x - a) \<Longrightarrow> store64 m a v x = m x"
  by (simp add: store64_def wr_def)

section \<open>Lists\<close>

lemma map_upt_split:
  "k \<le> n \<Longrightarrow> map f [0..<n] = map f [0..<k] @ map (\<lambda>i. f (k + i)) [0..<n - k]"
  by (intro nth_equalityI) (auto simp: nth_append)

text \<open>The index of the first element that satisfies a predicate: the C idiom of a scan over a
  table with an early exit.\<close>

fun find_idx :: "('a \<Rightarrow> bool) \<Rightarrow> 'a list \<Rightarrow> nat option" where
  "find_idx P [] = None"
| "find_idx P (x # xs) = (if P x then Some 0 else map_option Suc (find_idx P xs))"

lemma find_idx_None: "find_idx P xs = None \<longleftrightarrow> (\<forall>x \<in> set xs. \<not> P x)"
  by (induction xs) auto

lemma find_idx_Some:
  "find_idx P xs = Some i \<longleftrightarrow> i < length xs \<and> P (xs ! i) \<and> (\<forall>j < i. \<not> P (xs ! j))"
proof (induction xs arbitrary: i)
  case Nil
  show ?case by simp
next
  case (Cons x xs)
  show ?case
  proof (cases i)
    case 0
    then show ?thesis by auto
  next
    case (Suc k)
    then show ?thesis using Cons.IH [of k] by (auto simp: less_Suc_eq_0_disj)
  qed
qed

lemma find_idx_SomeD:
  assumes "find_idx P xs = Some i"
  shows "i < length xs" "P (xs ! i)"
  using assms by (simp_all add: find_idx_Some)

section \<open>Structures inside byte arrays\<close>

text \<open>The \<open>n\<close> bytes at an offset, and writing some: how the code reads and writes a C structure
  through a pointer into a disk block.\<close>

definition sub :: "byte list \<Rightarrow> nat \<Rightarrow> nat \<Rightarrow> byte list" where
  "sub xs off n = take n (drop off xs)"

definition patch :: "byte list \<Rightarrow> nat \<Rightarrow> byte list \<Rightarrow> byte list" where
  "patch xs off bs = take off xs @ bs @ drop (off + length bs) xs"

definition get32 :: "byte list \<Rightarrow> nat \<Rightarrow> 32 word" where
  "get32 xs off = le_word (sub xs off 4)"

definition put32 :: "byte list \<Rightarrow> nat \<Rightarrow> 32 word \<Rightarrow> byte list" where
  "put32 xs off w = patch xs off (word_le 4 w)"

definition get16 :: "byte list \<Rightarrow> nat \<Rightarrow> 16 word" where
  "get16 xs off = le_word (sub xs off 2)"

definition put16 :: "byte list \<Rightarrow> nat \<Rightarrow> 16 word \<Rightarrow> byte list" where
  "put16 xs off w = patch xs off (word_le 2 w)"

definition get64 :: "byte list \<Rightarrow> nat \<Rightarrow> 64 word" where
  "get64 xs off = le_word (sub xs off 8)"

lemma length_sub [simp]: "off + n \<le> length xs \<Longrightarrow> length (sub xs off n) = n"
  by (simp add: sub_def)

lemma length_patch [simp]: "off + length bs \<le> length xs \<Longrightarrow> length (patch xs off bs) = length xs"
  by (simp add: patch_def)

lemma length_put [simp]:
  "off + 4 \<le> length xs \<Longrightarrow> length (put32 xs off w) = length xs"
  "off + 2 \<le> length xs \<Longrightarrow> length (put16 xs off v) = length xs"
  by (simp_all add: put32_def put16_def)

lemma nth_patch:
  assumes "off + length bs \<le> length xs" and "i < length xs"
  shows "patch xs off bs ! i = (if off \<le> i \<and> i < off + length bs then bs ! (i - off) else xs ! i)"
proof -
  consider "i < off" | "off \<le> i" "i < off + length bs" | "off + length bs \<le> i" by linarith
  then show ?thesis
    by cases (use assms in \<open>auto simp: patch_def nth_append min_def\<close>)
qed

lemma sub_patch_same: "off + length bs \<le> length xs \<Longrightarrow> n = length bs \<Longrightarrow> sub (patch xs off bs) off n = bs"
  by (simp add: sub_def patch_def)

lemma sub_patch_other:
  assumes "off + length bs \<le> length xs" "o' + n \<le> length xs" "o' + n \<le> off \<or> off + length bs \<le> o'"
  shows "sub (patch xs off bs) o' n = sub xs o' n"
  using assms by (intro nth_equalityI) (auto simp: sub_def nth_patch)

lemma get_put32_same [simp]: "off + 4 \<le> length xs \<Longrightarrow> get32 (put32 xs off w) off = w"
  by (simp add: get32_def put32_def sub_patch_same le_word_word_le)

lemma get_put32_other:
  "off + 4 \<le> length xs \<Longrightarrow> o' + 4 \<le> length xs \<Longrightarrow> o' + 4 \<le> off \<or> off + 4 \<le> o' \<Longrightarrow>
     get32 (put32 xs off w) o' = get32 xs o'"
  by (simp add: get32_def put32_def sub_patch_other)

lemma get_put16_same [simp]: "off + 2 \<le> length xs \<Longrightarrow> get16 (put16 xs off w) off = w"
  by (simp add: get16_def put16_def sub_patch_same le_word_word_le)

section \<open>Circular buffers\<close>

text \<open>The \<open>n\<close> elements from a counter on, where the counter runs modulo 2^32 and the index modulo the
  length of the buffer.\<close>

definition ring :: "'a list \<Rightarrow> 32 word \<Rightarrow> nat \<Rightarrow> 'a list" where
  "ring buf a n = map (\<lambda>i. buf ! ((unat a + i) mod length buf)) [0..<n]"

lemma length_ring [simp]: "length (ring buf a n) = n"
  by (simp add: ring_def)

lemma unat_add_mod:
  assumes "M dvd 2 ^ 32"
  shows "unat (x + of_nat k :: 32 word) mod M = (unat x + k) mod M"
proof -
  have "unat (x + of_nat k) = (unat x + k) mod 2 ^ 32"
    by (simp add: unat_word_ariths(1) unat_of_nat mod_add_right_eq)
  then show ?thesis using assms by (simp only: mod_mod_cancel)
qed

lemma ring_append:
  assumes "length buf dvd 2 ^ 32"
  shows "ring buf a (n + m) = ring buf a n @ ring buf (a + of_nat n) m"
proof (rule nth_equalityI)
  have shift: "(unat (a + of_nat n) + k) mod length buf = (unat a + (n + k)) mod length buf" for k
    using unat_add_mod [OF assms, of a n] by (metis add.assoc mod_add_left_eq)
  fix i assume "i < length (ring buf a (n + m))"
  then show "ring buf a (n + m) ! i = (ring buf a n @ ring buf (a + of_nat n) m) ! i"
    using shift [of "i - n"] by (auto simp: ring_def nth_append)
qed simp

lemma ring_Suc:
  "length buf dvd 2 ^ 32 \<Longrightarrow> ring buf a (Suc n) = ring buf a n @ [buf ! (unat (a + of_nat n) mod length buf)]"
  by (simp add: ring_def unat_add_mod)

lemma ring_Cons:
  "length buf dvd 2 ^ 32 \<Longrightarrow> ring buf a (Suc n) = buf ! (unat a mod length buf) # ring buf (a + 1) n"
  using ring_append [of buf a 1 n] by (simp add: ring_def)

lemma ring_update:
  assumes "length buf dvd 2 ^ 32" "n < length buf"
  shows "ring (buf[unat (a + of_nat n) mod length buf := c]) a n = ring buf a n"
    and "ring (buf[unat (a + of_nat n) mod length buf := c]) a (Suc n) = ring buf a n @ [c]"
proof -
  let ?b = "buf[unat (a + of_nat n) mod length buf := c]"
  have ne: "(unat a + k) mod length buf \<noteq> (unat a + n) mod length buf" if "k < n" for k
  proof
    assume "(unat a + k) mod length buf = (unat a + n) mod length buf"
    then have "length buf dvd (unat a + n) - (unat a + k)"
      by (metis mod_eq_dvd_iff_nat add_le_cancel_left less_imp_le that)
    then have "length buf dvd n - k" by simp
    then show False using that assms(2) by (auto dest: dvd_imp_le)
  qed
  show 1: "ring ?b a n = ring buf a n"
    by (rule nth_equalityI) (use ne [symmetric] in \<open>auto simp: ring_def unat_add_mod [OF assms(1)]\<close>)
  have "ring ?b a (Suc n) = ring ?b a n @ [?b ! (unat (a + of_nat n) mod length buf)]"
    using ring_Suc [of ?b a n] assms(1) by simp
  moreover have "?b ! (unat (a + of_nat n) mod length buf) = c"
    using assms(2) by (intro nth_list_update_eq mod_less_divisor) auto
  ultimately show "ring ?b a (Suc n) = ring buf a n @ [c]" using 1 by simp
qed

end
