(* ===== verification/Kstring.thy ===== *)
theory Kstring
  imports Prelude
begin

text \<open>
  The memory and string routines of \<open>kernel/string.c\<close>, as the loops of the source over byte
  memory, and what each computes: \<open>memset\<close> and \<open>memmove\<close> are the range writes of the prelude
  (\<open>memmove\<close> also when source and destination overlap), the string functions agree with
  functions on byte lists, which the components that keep names in records use.
\<close>

section \<open>The routines\<close>

primrec memset :: "memory \<Rightarrow> addr \<Rightarrow> 32 word \<Rightarrow> nat \<Rightarrow> memory" where
  "memset m dst c 0 = m"
| "memset m dst c (Suc n) = (memset m dst c n)(dst + of_nat n := ucast c)"

primrec memcmp :: "memory \<Rightarrow> addr \<Rightarrow> addr \<Rightarrow> nat \<Rightarrow> int" where
  "memcmp m s1 s2 0 = 0"
| "memcmp m s1 s2 (Suc n) =
     (if m s1 \<noteq> m s2 then uint (m s1) - uint (m s2) else memcmp m (s1 + 1) (s2 + 1) n)"

primrec copy_up :: "memory \<Rightarrow> addr \<Rightarrow> addr \<Rightarrow> nat \<Rightarrow> memory" where
  "copy_up m d s 0 = m"
| "copy_up m d s (Suc n) = copy_up (m(d := m s)) (d + 1) (s + 1) n"

primrec copy_down :: "memory \<Rightarrow> addr \<Rightarrow> addr \<Rightarrow> nat \<Rightarrow> memory" where
  "copy_down m d s 0 = m"
| "copy_down m d s (Suc n) = copy_down (m(d - 1 := m (s - 1))) (d - 1) (s - 1) n"

definition memmove :: "memory \<Rightarrow> addr \<Rightarrow> addr \<Rightarrow> nat \<Rightarrow> memory" where
  "memmove m dst src n =
     (if n = 0 then m
      else if src < dst \<and> src + of_nat n > dst
      then copy_down m (dst + of_nat n) (src + of_nat n) n
      else copy_up m dst src n)"

definition memcpy :: "memory \<Rightarrow> addr \<Rightarrow> addr \<Rightarrow> nat \<Rightarrow> memory" where
  "memcpy m dst src n = memmove m dst src n"

primrec strncmp :: "memory \<Rightarrow> addr \<Rightarrow> addr \<Rightarrow> nat \<Rightarrow> int" where
  "strncmp m p q 0 = 0"
| "strncmp m p q (Suc n) =
     (if m p \<noteq> 0 \<and> m p = m q then strncmp m (p + 1) (q + 1) n
      else uint (m p) - uint (m q))"

primrec zero_fill :: "memory \<Rightarrow> addr \<Rightarrow> nat \<Rightarrow> memory" where
  "zero_fill m s 0 = m"
| "zero_fill m s (Suc n) = zero_fill (m(s := 0)) (s + 1) n"

primrec strncpy :: "memory \<Rightarrow> addr \<Rightarrow> addr \<Rightarrow> nat \<Rightarrow> memory" where
  "strncpy m s t 0 = m"
| "strncpy m s t (Suc n) =
     (if m t \<noteq> 0 then strncpy (m(s := m t)) (s + 1) (t + 1) n
      else zero_fill (m(s := m t)) (s + 1) n)"

fun safestrcpy :: "memory \<Rightarrow> addr \<Rightarrow> addr \<Rightarrow> nat \<Rightarrow> memory" where
  "safestrcpy m s t 0 = m"
| "safestrcpy m s t (Suc 0) = m(s := 0)"
| "safestrcpy m s t (Suc (Suc n)) =
     (if m t \<noteq> 0 then safestrcpy (m(s := m t)) (s + 1) (t + 1) (Suc n)
      else (m(s := m t))(s + 1 := 0))"

text \<open>The loop of \<open>strlen\<close> counts up from \<open>n\<close>; without a NUL byte it does not end.\<close>

partial_function (option) strlen_from :: "memory \<Rightarrow> addr \<Rightarrow> nat \<Rightarrow> nat option" where
  "strlen_from m s n = (if m (s + of_nat n) = 0 then Some n else strlen_from m s (Suc n))"

definition strlen :: "memory \<Rightarrow> addr \<Rightarrow> nat option" where
  "strlen m s = strlen_from m s 0"

section \<open>The same routines on byte lists\<close>

text \<open>A C array or string is a list of bytes; reading past the end of the list reads NUL, the
  terminator a C string has there.\<close>

definition chr_at :: "byte list \<Rightarrow> nat \<Rightarrow> byte" where
  "chr_at xs i = (if i < length xs then xs ! i else 0)"

fun lstrncmp :: "byte list \<Rightarrow> byte list \<Rightarrow> nat \<Rightarrow> int" where
  "lstrncmp p q 0 = 0"
| "lstrncmp p q (Suc n) =
     (if chr_at p 0 \<noteq> 0 \<and> chr_at p 0 = chr_at q 0 then lstrncmp (tl p) (tl q) n
      else uint (chr_at p 0) - uint (chr_at q 0))"

text \<open>The bytes of a string before its NUL, at most \<open>n\<close> of them.\<close>

definition cstr :: "nat \<Rightarrow> byte list \<Rightarrow> byte list" where
  "cstr n t = takeWhile (\<lambda>c. c \<noteq> 0) (take n t)"

definition lstrncpy :: "byte list \<Rightarrow> nat \<Rightarrow> byte list" where
  "lstrncpy t n = cstr n t @ replicate (n - length (cstr n t)) 0"

fun lsafestrcpy :: "byte list \<Rightarrow> byte list \<Rightarrow> nat \<Rightarrow> byte list" where
  "lsafestrcpy s t 0 = s"
| "lsafestrcpy s t (Suc 0) = s[0 := 0]"
| "lsafestrcpy s t (Suc (Suc n)) =
     (if chr_at t 0 \<noteq> 0 then chr_at t 0 # lsafestrcpy (tl s) (tl t) (Suc n)
      else s[0 := 0, Suc 0 := 0])"

section \<open>Range writes\<close>

lemma rd_Suc: "rd m s (Suc n) = m s # rd m (s + 1) n"
  by (rule nth_equalityI) (auto simp: nth_Cons' algebra_simps of_nat_diff)

lemma rd_snoc: "rd m s (Suc n) = rd m s n @ [m (s + of_nat n)]"
  by (simp add: rd_def)

lemma rd_upd_other:
  "(\<And>i. i < n \<Longrightarrow> a + of_nat i \<noteq> x) \<Longrightarrow> rd (m(x := v)) a n = rd m a n"
  by (rule nth_equalityI) auto

lemma wr_Cons:
  assumes "length bs < 2 ^ 64"
  shows "wr (m(d := b)) (d + 1) bs = wr m d (b # bs)"
proof
  fix x
  show "wr (m(d := b)) (d + 1) bs x = wr m d (b # bs) x"
  proof (cases "x = d")
    case True
    have "unat (d - (d + 1)) = 2 ^ 64 - 1"
      by (simp add: unsigned_minus_1_eq_mask mask_eq_exp_minus_1)
    with True assms show ?thesis by (simp add: wr_def)
  next
    case False
    then have "unat (x - d) = Suc (unat (x - (d + 1)))"
      using unat_minus_one [of "x - d"] by (simp add: diff_diff_eq unat_gt_0)
    with False show ?thesis by (simp add: wr_def)
  qed
qed

lemma wr_snoc:
  assumes "length bs < 2 ^ 64"
  shows "wr m a (bs @ [b]) = wr (m(a + of_nat (length bs) := b)) a bs"
proof
  fix x
  have "unat (x - a) = length bs \<longleftrightarrow> x = a + of_nat (length bs)"
  proof
    assume "unat (x - a) = length bs"
    then have "x - a = of_nat (length bs)" by (metis ucast_id of_nat_unat)
    then show "x = a + of_nat (length bs)" by (simp add: algebra_simps)
  qed (simp add: unat_of_nat64 [OF assms])
  then show "wr m a (bs @ [b]) x = wr (m(a + of_nat (length bs) := b)) a bs x"
    by (auto simp: wr_def nth_append)
qed


lemma wr_replicate: "n < 2 ^ 64 \<Longrightarrow> memset m dst c n = wr m dst (replicate n (ucast c))"
proof (induction n)
  case 0
  show ?case by simp
next
  case (Suc n)
  have "replicate (Suc n) (ucast c) = replicate n (ucast c) @ [ucast c :: byte]"
    by (simp add: replicate_append_same)
  moreover have "(wr m dst (replicate n (ucast c)))(dst + of_nat n := ucast c) =
      wr (m(dst + of_nat n := ucast c)) dst (replicate n (ucast c))"
  proof
    fix x
    have "unat (of_nat n :: addr) = n" using Suc.prems by (simp add: unat_of_nat64)
    then show "((wr m dst (replicate n (ucast c)))(dst + of_nat n := ucast c)) x =
        wr (m(dst + of_nat n := ucast c)) dst (replicate n (ucast c)) x"
      by (auto simp: wr_def)
  qed
  ultimately show ?case using Suc by (simp only: memset.simps) (simp add: wr_snoc)
qed

lemma copy_up_eq:
  assumes "\<And>i j. i < j \<Longrightarrow> j < n \<Longrightarrow> d + of_nat i \<noteq> s + of_nat j" and "n < 2 ^ 64"
  shows "copy_up m d s n = wr m d (rd m s n)"
  using assms
proof (induction n arbitrary: m d s)
  case 0
  show ?case by (simp add: rd_def)
next
  case (Suc n)
  have "(d + 1) + of_nat i \<noteq> (s + 1) + of_nat j" if "i < j" "j < n" for i j
    using Suc.prems(1) [of "Suc i" "Suc j"] that by (simp add: add.assoc)
  then have "copy_up m d s (Suc n) = wr (m(d := m s)) (d + 1) (rd (m(d := m s)) (s + 1) n)"
    using Suc by simp
  also have "rd (m(d := m s)) (s + 1) n = rd m (s + 1) n"
  proof (rule rd_upd_other)
    fix j assume "j < n"
    then show "s + 1 + of_nat j \<noteq> d" using Suc.prems(1) [of 0 "Suc j"] by (auto simp: add.assoc)
  qed
  also have "wr (m(d := m s)) (d + 1) (rd m (s + 1) n) = wr m d (m s # rd m (s + 1) n)"
    using Suc.prems(2) by (intro wr_Cons) simp
  finally show ?case by (simp only: rd_Suc)
qed

lemma copy_down_eq:
  assumes "\<And>i j. i < j \<Longrightarrow> j < n \<Longrightarrow> d + of_nat j \<noteq> s + of_nat i" and "n < 2 ^ 64"
  shows "copy_down m (d + of_nat n) (s + of_nat n) n = wr m d (rd m s n)"
  using assms
proof (induction n arbitrary: m)
  case 0
  show ?case by (simp add: rd_def)
next
  case (Suc n)
  let ?m = "m(d + of_nat n := m (s + of_nat n))"
  have "copy_down m (d + of_nat (Suc n)) (s + of_nat (Suc n)) (Suc n) =
      copy_down ?m (d + of_nat n) (s + of_nat n) n"
    by (simp add: algebra_simps)
  also have "\<dots> = wr ?m d (rd ?m s n)" using Suc by simp
  also have "rd ?m s n = rd m s n"
  proof (rule rd_upd_other)
    fix i assume "i < n"
    then show "s + of_nat i \<noteq> d + of_nat n" using Suc.prems(1) [of i n] by auto
  qed
  also have "wr ?m d (rd m s n) = wr m d (rd m s n @ [m (s + of_nat n)])"
    using Suc.prems(2) wr_snoc [of "rd m s n"] by simp
  finally show ?case by (simp only: rd_snoc)
qed

lemma word_add_of_nat_eq:
  assumes "unat d + i < 2 ^ 64" and "unat s + j < 2 ^ 64"
  shows "d + of_nat i = s + of_nat j \<longleftrightarrow> unat d + i = unat (s :: addr) + j"
proof -
  have *: "unat (a + of_nat k) = unat a + k" if "unat a + k < 2 ^ 64" for a :: addr and k
  proof -
    have "unat (of_nat k :: addr) = k" using that by (intro unat_of_nat64) linarith
    then show ?thesis using that by (simp add: unat_word_ariths(1))
  qed
  show ?thesis using * [OF assms(1)] * [OF assms(2)] by (metis word_eq_iff_unsigned)
qed


section \<open>What the routines compute\<close>

lemma memmove_eq_wr:
  assumes "unat src + n < 2 ^ 64" and "unat dst + n < 2 ^ 64"
  shows "memmove m dst src n = wr m dst (rd m src n)"
proof -
  have n: "n < 2 ^ 64" using assms(1) by linarith
  have end_src: "unat (src + of_nat n) = unat src + n"
    using assms(1) n by (simp add: unat_word_ariths(1) unat_of_nat64)
  have eq: "dst + of_nat i = src + of_nat j \<longleftrightarrow> unat dst + i = unat src + j"
    if "i < n" "j < n" for i j
    using assms that by (intro word_add_of_nat_eq) linarith+
  show ?thesis
  proof (cases "src < dst \<and> src + of_nat n > dst")
    case True
    then have "unat src < unat dst" by (simp add: word_less_nat_alt)
    then have "dst + of_nat j \<noteq> src + of_nat i" if "i < j" "j < n" for i j
      using eq [of j i] that by auto
    then show ?thesis using True n by (auto simp: memmove_def copy_down_eq rd_def)
  next
    case False
    then have "unat dst \<le> unat src \<or> unat src + n \<le> unat dst"
      using end_src by (auto simp: word_less_nat_alt not_less)
    then have "dst + of_nat i \<noteq> src + of_nat j" if "i < j" "j < n" for i j
      using eq [of i j] that by auto
    then show ?thesis using False n by (auto simp: memmove_def copy_up_eq rd_def)
  qed
qed

lemma unat_diff_Suc:
  assumes "0 < unat (x - s)"
  shows "unat (x - (s + 1)) = unat (x - s :: addr) - 1"
proof -
  have "x - (s + 1) = (x - s) - 1" by simp
  moreover have "x - s \<noteq> 0" using assms by auto
  ultimately show ?thesis by (metis unat_minus_one)
qed

lemma apart_Suc:
  assumes "apart s (Suc n) t (Suc n)"
  shows "apart (s + 1) n (t + 1) n" "rd (m(s := v)) (t + 1) n = rd m (t + 1) n" "s \<noteq> t"
proof -
  show "apart (s + 1) n (t + 1) n" using assms by (simp add: apart_def)
  show "s \<noteq> t" using assms by (auto simp: apart_def)
  show "rd (m(s := v)) (t + 1) n = rd m (t + 1) n"
  proof (rule rd_upd_other)
    fix i assume "i < n"
    then have "Suc n \<le> unat (t + of_nat (Suc i) - s)"
      using apart_offset [OF assms, of "Suc i"] by simp
    then show "t + 1 + of_nat i \<noteq> s" by (auto simp: algebra_simps)
  qed
qed

lemma safestrcpy_frame:
  "n \<le> unat (x - s) \<Longrightarrow> safestrcpy m s t n x = m x"
proof (induction m s t n rule: safestrcpy.induct)
  case (3 m s t n)
  then have "x \<noteq> s" and *: "unat (x - (s + 1)) = unat (x - s) - 1"
    using unat_diff_Suc [of x s] by auto
  moreover from * 3(2) have "x \<noteq> s + 1" by auto
  ultimately show ?case using 3 by (auto simp: fun_upd_def)
qed auto

lemma cstr_Suc: "cstr (Suc n) (x # xs) = (if x = 0 then [] else x # cstr n xs)"
  by (simp add: cstr_def)

lemma cstr_0 [simp]: "cstr 0 xs = []" "cstr n [] = []"
  by (simp_all add: cstr_def)

lemma length_cstr: "length (cstr n xs) \<le> min n (length xs)"
  unfolding cstr_def using length_takeWhile_le [of _ "take n xs"] by (simp add: min.commute)

lemma safestrcpy_cstr:
  "apart s n t n \<Longrightarrow> 0 < n \<Longrightarrow>
     cstr n (rd (safestrcpy m s t n) s n) = cstr (n - 1) (rd m t n)"
proof (induction m s t n rule: safestrcpy.induct)
  case (1 m s t)
  then show ?case by simp
next
  case (2 m s t)
  show ?case by (simp add: rd_def cstr_def)
next
  case (3 m s t n)
  let ?m = "m(s := m t)"
  note ap = apart_Suc [OF 3(2)]
  show ?case
  proof (cases "m t = 0")
    case True
    then show ?thesis by (simp add: rd_Suc cstr_Suc)
  next
    case False
    have "safestrcpy ?m (s + 1) (t + 1) (Suc n) s = m t"
    proof -
      have "unat (s - t) < 2 ^ 64" using unsigned_less [of "s - t"] by simp
      then have "Suc n \<le> unat (s - (s + 1))" using 3(2)
        by (simp add: apart_def unsigned_minus_1_eq_mask mask_eq_exp_minus_1)
      then show ?thesis by (simp add: safestrcpy_frame)
    qed
    moreover have "cstr (Suc n) (rd (safestrcpy ?m (s + 1) (t + 1) (Suc n)) (s + 1) (Suc n)) =
        cstr n (rd ?m (t + 1) (Suc n))"
      using 3(1) [OF False ap(1)] by (simp add: fun_upd_def)
    ultimately show ?thesis using False ap(2)
      by (simp add: rd_Suc [of _ s "Suc n"] rd_Suc [of _ t "Suc n"] cstr_Suc)
  qed
qed

lemma strncmp_list: "strncmp m p q n = lstrncmp (rd m p n) (rd m q n) n"
  by (induction n arbitrary: p q) (simp_all add: rd_Suc chr_at_def)

lemma lstrncmp_eq_0: "lstrncmp p q n = 0 \<longleftrightarrow> cstr n p = cstr n q"
proof (induction p q n rule: lstrncmp.induct)
  case (1 p q)
  show ?case by simp
next
  case (2 p q n)
  then show ?case
    by (cases p; cases q) (auto simp: chr_at_def cstr_Suc cstr_def unsigned_word_eqI)
qed


lemma strlen_from_Some:
  assumes "m (s + of_nat n) = 0" and "\<And>i. i < n \<Longrightarrow> m (s + of_nat i) \<noteq> 0" and "k \<le> n"
  shows "strlen_from m s k = Some n"
  using assms(3)
proof (induction rule: inc_induct)
  case base
  show ?case using assms(1) by (simp add: strlen_from.simps)
next
  case (step k)
  then show ?case using assms(2) [of k] by (simp add: strlen_from.simps [of m s k])
qed

lemma strlen_from_SomeD:
  assumes "strlen_from m s k = Some n"
  shows "m (s + of_nat n) = 0 \<and> k \<le> n \<and> (\<forall>i. k \<le> i \<longrightarrow> i < n \<longrightarrow> m (s + of_nat i) \<noteq> 0)"
proof (rule strlen_from.raw_induct [OF _ assms, where P = "\<lambda>m s k n. m (s + of_nat n) = 0 \<and>
      k \<le> n \<and> (\<forall>i. k \<le> i \<longrightarrow> i < n \<longrightarrow> m (s + of_nat i) \<noteq> 0)"])
  fix f and m :: memory and s :: addr and k n :: nat
  assume IH: "\<And>m s k n. f m s k = Some n \<Longrightarrow> m (s + of_nat n) = 0 \<and> k \<le> n \<and>
      (\<forall>i. k \<le> i \<longrightarrow> i < n \<longrightarrow> m (s + of_nat i) \<noteq> 0)"
    and eq: "(if m (s + of_nat k) = 0 then Some k else f m s (Suc k)) = Some n"
  show "m (s + of_nat n) = 0 \<and> k \<le> n \<and> (\<forall>i. k \<le> i \<longrightarrow> i < n \<longrightarrow> m (s + of_nat i) \<noteq> 0)"
  proof (cases "m (s + of_nat k) = 0")
    case True
    with eq show ?thesis by auto
  next
    case False
    with eq have "f m s (Suc k) = Some n" by simp
    from IH [OF this] False show ?thesis by (metis Suc_leD Suc_leI le_neq_implies_less)
  qed
qed

lemma strlen_Some_iff:
  "strlen m s = Some n \<longleftrightarrow> m (s + of_nat n) = 0 \<and> (\<forall>i < n. m (s + of_nat i) \<noteq> 0)"
proof
  assume "strlen m s = Some n"
  then show "m (s + of_nat n) = 0 \<and> (\<forall>i < n. m (s + of_nat i) \<noteq> 0)"
    using strlen_from_SomeD [of m s 0 n] by (simp add: strlen_def)
next
  assume "m (s + of_nat n) = 0 \<and> (\<forall>i < n. m (s + of_nat i) \<noteq> 0)"
  then show "strlen m s = Some n" unfolding strlen_def by (intro strlen_from_Some) simp_all
qed

lemma length_cstr_less: "length (cstr n xs) < n \<Longrightarrow> n \<le> length xs \<Longrightarrow> xs ! length (cstr n xs) = 0"
  unfolding cstr_def using nth_length_takeWhile [of "\<lambda>c. c \<noteq> 0" "take n xs"] by simp

lemma zero_fill_eq: "n < 2 ^ 64 \<Longrightarrow> zero_fill m s n = wr m s (replicate n 0)"
proof (induction n arbitrary: m s)
  case 0
  show ?case by simp
next
  case (Suc n)
  then have "zero_fill m s (Suc n) = wr (m(s := 0)) (s + 1) (replicate n 0)" by simp
  also have "\<dots> = wr m s (0 # replicate n 0)"
    using Suc.prems by (intro wr_Cons) simp
  finally show ?case by simp
qed

section \<open>Properties\<close>

text \<open>
  C36. \<open>memmove\<close> copies the \<open>n\<close> bytes that were at \<open>src\<close> when it was called to \<open>dst\<close> and changes
  no other byte, whatever the overlap of the two ranges, as long as neither range runs over the
  end of the address space.
\<close>

theorem memmove_correct:
  assumes "unat src + n < 2 ^ 64" and "unat dst + n < 2 ^ 64"
  shows "rd (memmove m dst src n) dst n = rd m src n \<and>
    (\<forall>x. n \<le> unat (x - dst) \<longrightarrow> memmove m dst src n x = m x)"
proof -
  have "n < 2 ^ 64" using assms(1) by linarith
  then show ?thesis using assms by (simp add: memmove_eq_wr rd_wr_same) (simp add: wr_def)
qed

text \<open>Two overlapping ranges, the destination two bytes above the source.\<close>

theorem memmove_correct_witness:
  "rd (memmove (\<lambda>a. ucast a) 1002 1000 4) 1002 4 = rd (\<lambda>a. ucast a) 1000 4 \<and>
   memmove (\<lambda>a. ucast a) 1002 1000 4 1001 = ucast (1001 :: addr)"
proof -
  have src: "unat (1000 :: addr) + 4 < 2 ^ 64" and dst: "unat (1002 :: addr) + 4 < 2 ^ 64"
    by simp_all
  have "4 \<le> unat (1001 - 1002 :: addr)" by (simp add: unsigned_minus_1_eq_mask mask_eq_exp_minus_1)
  then show ?thesis using memmove_correct [OF src dst, of "\<lambda>a. ucast a"] by blast
qed

text \<open>
  \<open>safestrcpy\<close> with a buffer of \<open>n > 0\<close> bytes leaves in it the source string cut to at most
  \<open>n - 1\<close> bytes, always terminated by a NUL inside the buffer, and writes no byte outside it.
\<close>

theorem safestrcpy_correct:
  assumes "apart s n t n" and "0 < n"
  shows "cstr n (rd (safestrcpy m s t n) s n) = cstr (n - 1) (rd m t n) \<and>
    length (cstr n (rd (safestrcpy m s t n) s n)) < n \<and>
    (\<forall>x. n \<le> unat (x - s) \<longrightarrow> safestrcpy m s t n x = m x)"
proof -
  have "length (cstr (n - 1) (rd m t n)) < n"
    using length_cstr [of "n - 1" "rd m t n"] assms(2) by simp
  then show ?thesis using safestrcpy_cstr [OF assms, of m] safestrcpy_frame [of n _ s m t] by auto
qed

text \<open>A name of five bytes and more copied into a buffer of four.\<close>

theorem safestrcpy_correct_witness:
  "cstr 4 (rd (safestrcpy (\<lambda>a. 7) 100 200 4) 100 4) = [7, 7, 7]"
proof -
  have ap: "apart (100 :: addr) 4 200 4" by (simp add: apart_def)
  have n: "(0 :: nat) < 4" by simp
  have "rd (\<lambda>a. 7) 200 4 = [7, 7, 7, 7]" by (simp add: rd_def upt_rec)
  then have "cstr (4 - 1) (rd (\<lambda>a. 7) 200 4) = [7, 7, 7]" by (simp add: cstr_def)
  with safestrcpy_correct [OF ap n, of "\<lambda>a. 7"] show ?thesis by metis
qed

text \<open>
  \<open>strlen\<close> returns exactly when the string has a NUL byte, and then returns the number of bytes
  before the first one.
\<close>

theorem strlen_correct:
  "strlen m s = Some n \<longleftrightarrow> m (s + of_nat n) = 0 \<and> 0 \<notin> set (rd m s n)"
  unfolding strlen_Some_iff by (auto simp: rd_def)

end
