(* ===== verification/Kalloc.thy ===== *)
theory Kalloc
  imports Kstring
begin

text \<open>
  The physical page allocator of \<open>kernel/kalloc.c\<close>: free pages are linked through their own first
  eight bytes, \<open>kmem.freelist\<close> is the first of them. The critical sections under \<open>kmem.lock\<close> are
  single steps. The linker symbol \<open>end\<close> is the field \<open>kend\<close>, which no operation writes.

  \<open>kmem_inv s ps\<close> is the abstraction: the list in memory holds the pages \<open>ps\<close>, each once, all of
  them pages that \<open>kfree\<close> accepts. The locale \<open>page_allocator\<close> is what the clients (page tables,
  trap frames, pipes) rely on; \<open>kalloc\<close> and \<open>kfree\<close> are an interpretation of it.
\<close>

section \<open>The allocator\<close>

record kmem =
  mem :: memory
  freelist :: addr
  kend :: addr

definition PGSIZE :: "64 word" where
  "PGSIZE = 4096"

definition KERNBASE :: addr where
  "KERNBASE = 0x80000000"

definition PHYSTOP :: addr where
  "PHYSTOP = KERNBASE + 128 * 1024 * 1024"

definition PGROUNDUP :: "64 word \<Rightarrow> 64 word" where
  "PGROUNDUP sz = (sz + PGSIZE - 1) AND NOT (PGSIZE - 1)"

definition PGROUNDDOWN :: "64 word \<Rightarrow> 64 word" where
  "PGROUNDDOWN a = a AND NOT (PGSIZE - 1)"

definition kfree :: "addr \<Rightarrow> 'a kmem_scheme \<Rightarrow> ('a kmem_scheme, unit) res" where
  "kfree pa s =
     (if pa mod PGSIZE \<noteq> 0 \<or> pa < kend s \<or> pa \<ge> PHYSTOP then Panic ''kfree''
      else let m = memset (mem s) pa 1 (unat PGSIZE)
           in Ok () (s\<lparr>mem := store64 m pa (freelist s), freelist := pa\<rparr>))"

definition kalloc :: "'a kmem_scheme \<Rightarrow> ('a kmem_scheme, addr) res" where
  "kalloc s =
     (let r = freelist s;
          s = (if r \<noteq> 0 then s\<lparr>freelist := load64 (mem s) r\<rparr> else s);
          s = (if r \<noteq> 0 then s\<lparr>mem := memset (mem s) r 5 (unat PGSIZE)\<rparr> else s)
      in Ok r s)"

lemma kfree_Ok_bound: "kfree p s = Ok u t \<Longrightarrow> p < PHYSTOP"
  by (auto simp: kfree_def split: if_splits)

text \<open>The loop of \<open>freerange\<close>. It ends because \<open>kfree\<close> panics on an address past \<open>PHYSTOP\<close>.\<close>

function freerange_from :: "addr \<Rightarrow> addr \<Rightarrow> 'a kmem_scheme \<Rightarrow> ('a kmem_scheme, unit) res" where
  "freerange_from p pa_end s =
     (if p + PGSIZE \<le> pa_end
      then bindr (kfree p s) (\<lambda>_ s. freerange_from (p + PGSIZE) pa_end s)
      else Ok () s)"
  by pat_completeness auto
termination
proof (relation "measure (\<lambda>(p, e, s). 2 ^ 32 - unat p)")
  fix p e :: addr and s t :: "'a kmem_scheme" and u
  assume "kfree p s = Ok u t"
  then have "p < PHYSTOP" by (rule kfree_Ok_bound)
  then have "unat p < 0x88000000" by (simp add: PHYSTOP_def KERNBASE_def word_less_nat_alt)
  then show "((p + PGSIZE, e, t), p, e, s) \<in> measure (\<lambda>(p, e, s). 2 ^ 32 - unat p)"
    by (simp add: PGSIZE_def unat_word_ariths(1))
qed simp

declare freerange_from.simps [simp del]

definition freerange :: "addr \<Rightarrow> addr \<Rightarrow> 'a kmem_scheme \<Rightarrow> ('a kmem_scheme, unit) res" where
  "freerange pa_start pa_end s = freerange_from (PGROUNDUP pa_start) pa_end s"

definition kinit :: "'a kmem_scheme \<Rightarrow> ('a kmem_scheme, unit) res" where
  "kinit s = freerange (kend s) PHYSTOP s"

section \<open>Pages\<close>

definition page :: "addr \<Rightarrow> bool" where
  "page p \<longleftrightarrow> p mod PGSIZE = 0"

definition in_page :: "addr \<Rightarrow> addr \<Rightarrow> bool" where
  "in_page p x \<longleftrightarrow> unat (x - p) < 4096"

lemma unat_PGSIZE [simp]: "unat PGSIZE = 4096"
  by (simp add: PGSIZE_def)

lemma unat_page: "page p \<longleftrightarrow> 4096 dvd unat p"
  unfolding page_def by (metis dvd_eq_mod_eq_0 unat_PGSIZE unat_eq_zero unat_mod_distrib)

lemma unat_addr_less: "unat (a :: addr) < 2 ^ 64"
  using unsigned_less [of a] by simp

lemma page_bound: "page p \<Longrightarrow> unat p + 4096 \<le> 2 ^ 64"
proof -
  assume "page p"
  then obtain k where k: "unat p = 4096 * k" by (auto simp: unat_page elim: dvdE)
  with unat_addr_less [of p] have "k < 2 ^ 52" by simp
  with k show ?thesis by simp
qed

lemma apart_natI:
  assumes "unat a + n \<le> unat b \<or> unat b + k \<le> unat a"
    and "unat a + n \<le> 2 ^ 64" and "unat b + k \<le> 2 ^ 64" and "0 < n" and "0 < k"
  shows "apart a n b k"
proof (cases "a = b")
  case True
  then show ?thesis using assms by auto
next
  case False
  have "unat a < 2 ^ 64" "unat b < 2 ^ 64" by (rule unat_addr_less)+
  with assms False show ?thesis
    by (auto simp: apart_def unat_sub_if_size word_size)
qed

lemma unat_page_off: "page p \<Longrightarrow> i < 4096 \<Longrightarrow> unat (p + of_nat i) = unat p + i"
  using page_bound [of p] by (simp add: unat_word_ariths(1) unat_of_nat64)

lemma page_order:
  assumes "page p" "page q" "p \<noteq> q"
  shows "unat p + 4096 \<le> unat q \<or> unat q + 4096 \<le> unat p"
proof -
  from assms obtain i j where "unat p = 4096 * i" "unat q = 4096 * j"
    by (auto simp: unat_page elim!: dvdE)
  moreover have "unat p \<noteq> unat q" using assms(3) by (metis unsigned_word_eqI)
  ultimately show ?thesis by (cases i j rule: linorder_cases) auto
qed

lemma pages_apart:
  assumes "page p" "page q" "p \<noteq> q"
  shows "apart p 4096 q 4096"
  using page_order [OF assms] assms by (intro apart_natI) (auto dest: page_bound)

lemma in_page_self [simp]: "in_page p p"
  by (simp add: in_page_def)

lemma in_page_off: "i < 4096 \<Longrightarrow> in_page p (p + of_nat i)"
  by (simp add: in_page_def unat_of_nat64)

lemma not_in_page:
  assumes "page p" "page q" "p \<noteq> q" "in_page q x"
  shows "\<not> in_page p x"
proof -
  have "4096 \<le> unat (q + of_nat (unat (x - q)) - p)"
    using assms(4) by (intro apart_offset [OF pages_apart [OF assms(1-3)]]) (simp add: in_page_def)
  moreover have "q + of_nat (unat (x - q)) = x" by (simp add: ucast_id)
  ultimately show ?thesis by (simp add: in_page_def)
qed

text \<open>Reading inside a page whose bytes did not change.\<close>

lemma rd_page_cong:
  assumes "\<And>x. in_page p x \<Longrightarrow> m' x = m x" and "i + n \<le> 4096"
  shows "rd m' (p + of_nat i) n = rd m (p + of_nat i) n"
proof (rule nth_equalityI)
  fix j assume "j < length (rd m' (p + of_nat i) n)"
  then have "j < n" by simp
  then have "in_page p (p + of_nat (i + j))" using assms(2) by (intro in_page_off) simp
  then show "rd m' (p + of_nat i) n ! j = rd m (p + of_nat i) n ! j"
    using \<open>j < n\<close> assms(1) by (simp add: add.assoc)
qed simp

lemma memset_page_other: "\<not> in_page p x \<Longrightarrow> memset m p c 4096 x = m x"
  by (simp add: wr_replicate wr_def in_page_def)

lemma store64_page_other:
  "page p \<Longrightarrow> \<not> in_page p x \<Longrightarrow> store64 m p v x = m x"
  by (rule store64_apart) (simp add: in_page_def)


section \<open>Rounding\<close>

lemma PGROUNDDOWN_alt: "PGROUNDDOWN a = a - a mod PGSIZE"
proof -
  have m: "PGSIZE - 1 = (mask 12 :: addr)" by (simp add: PGSIZE_def mask_eq_exp_minus_1)
  have "(a AND mask 12) + (a AND NOT (mask 12)) = (a AND mask 12) OR (a AND NOT (mask 12))"
    by (rule disjunctive_add_eq_or) (simp add: bit_eq_iff bit_simps)
  also have "\<dots> = a" by (rule bit_eqI) (auto simp: bit_simps)
  also have "a AND mask 12 = a mod PGSIZE"
    by (simp add: PGSIZE_def take_bit_eq_mask [symmetric] take_bit_eq_mod)
  finally show ?thesis by (simp add: PGROUNDDOWN_def m algebra_simps)
qed

lemma unat_PGROUNDDOWN: "unat (PGROUNDDOWN a) = unat a div 4096 * 4096"
proof -
  have "unat (a mod PGSIZE) = unat a mod 4096" by (simp add: unat_mod_distrib)
  moreover have "a mod PGSIZE \<le> a"
    by (simp add: word_le_nat_alt unat_mod_distrib)
  ultimately have "unat (a - a mod PGSIZE) = unat a - unat a mod 4096"
    by (simp add: unat_sub_if_size word_le_nat_alt)
  then show ?thesis by (simp add: PGROUNDDOWN_alt minus_mod_eq_div_mult)
qed

lemma page_PGROUNDDOWN [simp]: "page (PGROUNDDOWN a)"
  by (simp add: unat_page unat_PGROUNDDOWN)

lemma PGROUNDUP_alt: "PGROUNDUP a = PGROUNDDOWN (a + PGSIZE - 1)"
  by (simp add: PGROUNDUP_def PGROUNDDOWN_def)

lemma page_PGROUNDUP [simp]: "page (PGROUNDUP a)"
  by (simp add: PGROUNDUP_alt)

lemma unat_PGROUNDUP:
  assumes "unat a + 4095 < 2 ^ 64"
  shows "unat (PGROUNDUP a) = (unat a + 4095) div 4096 * 4096"
proof -
  have a: "a + PGSIZE - 1 = a + 4095" by (simp add: PGSIZE_def)
  have u: "unat (a + 4095) = unat a + 4095"
    using assms by (simp add: unat_word_ariths(1))
  show ?thesis unfolding PGROUNDUP_alt a unat_PGROUNDDOWN u ..
qed

section \<open>The free list\<close>

primrec flist :: "memory \<Rightarrow> addr \<Rightarrow> addr list \<Rightarrow> bool" where
  "flist m p [] \<longleftrightarrow> p = 0"
| "flist m p (a # as) \<longleftrightarrow> p = a \<and> a \<noteq> 0 \<and> flist m (load64 m a) as"

text \<open>A page \<open>kfree\<close> accepts.\<close>

definition usable :: "'a kmem_scheme \<Rightarrow> addr \<Rightarrow> bool" where
  "usable s p \<longleftrightarrow> page p \<and> kend s \<le> p \<and> p < PHYSTOP"

definition kmem_inv :: "'a kmem_scheme \<Rightarrow> addr list \<Rightarrow> bool" where
  "kmem_inv s ps \<longleftrightarrow>
     flist (mem s) (freelist s) ps \<and> distinct ps \<and> (\<forall>p \<in> set ps. usable s p) \<and> 0 < kend s"

lemma flist_frame:
  "(\<And>a. a \<in> set as \<Longrightarrow> load64 m' a = load64 m a) \<Longrightarrow> flist m' p as = flist m p as"
  by (induction as arbitrary: p) auto

lemma load64_page_cong:
  assumes "\<And>x. in_page p x \<Longrightarrow> m' x = m x"
  shows "load64 m' p = load64 m p"
  using rd_page_cong [of p m' m 0 8] assms by (simp add: load64_def)

lemma flist_other_pages:
  assumes "\<And>x. \<not> in_page q x \<Longrightarrow> m' x = m x" and "page q" and "q \<notin> set as"
    and "\<And>a. a \<in> set as \<Longrightarrow> page a"
  shows "flist m' p as = flist m p as"
proof (rule flist_frame, rule load64_page_cong)
  fix a x assume "a \<in> set as" "in_page a x"
  then show "m' x = m x" using assms not_in_page [of q a x] by auto
qed

lemma usable_page: "usable s p \<Longrightarrow> page p"
  by (simp add: usable_def)

lemma usable_nonzero: "usable s p \<Longrightarrow> 0 < kend s \<Longrightarrow> p \<noteq> 0"
  by (auto simp: usable_def)

lemma kalloc_none: "kmem_inv s [] \<Longrightarrow> kalloc s = Ok 0 s"
  by (simp add: kmem_inv_def kalloc_def Let_def)

lemma kalloc_some:
  assumes "kmem_inv s (p # ps)"
  shows "\<exists>t. kalloc s = Ok p t \<and> kmem_inv t ps \<and> usable t = usable s \<and>
    (\<forall>x. \<not> in_page p x \<longrightarrow> mem t x = mem s x) \<and> rd (mem t) p 4096 = replicate 4096 5"
proof -
  let ?m = "memset (mem s) p 5 4096"
  let ?t = "s\<lparr>freelist := load64 (mem s) p, mem := ?m\<rparr>"
  from assms have inv: "freelist s = p" "p \<noteq> 0" "flist (mem s) (load64 (mem s) p) ps"
      "distinct ps" "p \<notin> set ps" "\<forall>q \<in> set (p # ps). usable s q" "0 < kend s"
    by (auto simp: kmem_inv_def)
  have "kalloc s = Ok p ?t" using inv(1,2) by (simp add: kalloc_def Let_def)
  moreover have "flist ?m (load64 (mem s) p) ps"
    using inv by (subst flist_other_pages [of p ?m "mem s"]) (auto simp: memset_page_other usable_def)
  then have "kmem_inv ?t ps" using inv by (auto simp: kmem_inv_def usable_def)
  moreover have "rd ?m p 4096 = replicate 4096 5"
    by (simp add: wr_replicate rd_wr_same)
  ultimately show ?thesis by (intro exI [of _ ?t]) (auto simp: usable_def memset_page_other)
qed

lemma kfree_ok:
  assumes "kmem_inv s ps" and "usable s p" and "p \<notin> set ps"
  shows "\<exists>t. kfree p s = Ok () t \<and> kmem_inv t (p # ps) \<and> usable t = usable s \<and>
    (\<forall>x. \<not> in_page p x \<longrightarrow> mem t x = mem s x)"
proof -
  let ?m = "store64 (memset (mem s) p 1 4096) p (freelist s)"
  let ?t = "s\<lparr>mem := ?m, freelist := p\<rparr>"
  have p: "page p" "p \<noteq> 0" using assms by (auto simp: kmem_inv_def usable_def)
  then have frame: "\<not> in_page p x \<Longrightarrow> ?m x = mem s x" for x
    by (simp add: store64_page_other memset_page_other)
  have "kfree p s = Ok () ?t"
    using assms(2) by (simp add: kfree_def usable_def page_def Let_def not_le not_less)
  moreover have "flist ?m (freelist s) ps"
    using assms p frame
    by (subst flist_other_pages [of p ?m "mem s"]) (auto simp: kmem_inv_def usable_def)
  then have "kmem_inv ?t (p # ps)" using assms p by (auto simp: kmem_inv_def usable_def)
  ultimately show ?thesis using frame by (intro exI [of _ ?t]) (auto simp: usable_def)
qed

section \<open>The interface\<close>

locale page_allocator =
  fixes alloc :: "'s \<Rightarrow> ('s, addr) res"
    and free :: "addr \<Rightarrow> 's \<Rightarrow> ('s, unit) res"
    and free_pages :: "'s \<Rightarrow> addr list \<Rightarrow> bool"
    and accepts :: "'s \<Rightarrow> addr \<Rightarrow> bool"
    and bytes :: "'s \<Rightarrow> memory"
  assumes alloc_none: "free_pages s [] \<Longrightarrow> alloc s = Ok 0 s"
    and alloc_some: "free_pages s (p # ps) \<Longrightarrow>
      \<exists>t. alloc s = Ok p t \<and> free_pages t ps \<and> accepts t = accepts s \<and>
        (\<forall>x. \<not> in_page p x \<longrightarrow> bytes t x = bytes s x)"
    and free_ok: "free_pages s ps \<Longrightarrow> accepts s p \<Longrightarrow> p \<notin> set ps \<Longrightarrow>
      \<exists>t. free p s = Ok () t \<and> free_pages t (p # ps) \<and> accepts t = accepts s \<and>
        (\<forall>x. \<not> in_page p x \<longrightarrow> bytes t x = bytes s x)"
    and free_pages_wf: "free_pages s ps \<Longrightarrow>
      distinct ps \<and> (\<forall>p \<in> set ps. accepts s p \<and> page p \<and> p \<noteq> 0)"
begin

lemma alloc_cases:
  assumes "free_pages s ps"
  obtains "ps = []" "alloc s = Ok 0 s"
  | p qs t where "ps = p # qs" "alloc s = Ok p t" "free_pages t qs" "accepts t = accepts s"
      "\<And>x. \<not> in_page p x \<Longrightarrow> bytes t x = bytes s x" "p \<noteq> 0" "page p" "p \<notin> set qs" "accepts s p"
proof (cases ps)
  case Nil
  then show ?thesis using assms alloc_none that(1) by blast
next
  case (Cons p qs)
  with assms alloc_some obtain t where t: "alloc s = Ok p t" "free_pages t qs" "accepts t = accepts s"
      "\<And>x. \<not> in_page p x \<Longrightarrow> bytes t x = bytes s x" by blast
  moreover have "p \<noteq> 0" "page p" "p \<notin> set qs" "accepts s p"
    using free_pages_wf [OF assms] Cons by auto
  ultimately show ?thesis using Cons that(2) by blast
qed

lemma alloc_always_returns: "free_pages s ps \<Longrightarrow> returns (alloc s)"
  by (rule alloc_cases, assumption, simp_all)

lemma alloc_fresh:
  assumes "free_pages s ps" and "alloc s = Ok p t" and "p \<noteq> 0"
  shows "ps = p # tl ps" and "free_pages t (tl ps)" and "p \<notin> set (tl ps)" and "page p"
  by (rule alloc_cases [OF assms(1)]; use assms(2,3) in simp)+

lemma alloc_twice_distinct:
  assumes "free_pages s ps" and "alloc s = Ok p t" and "alloc t = Ok q u" and "p \<noteq> 0" and "q \<noteq> 0"
  shows "p \<noteq> q"
proof -
  note p = alloc_fresh [OF assms(1,2,4)]
  from alloc_fresh [OF p(2) assms(3,5)] have "q \<in> set (tl ps)" by (metis list.set_intros(1))
  with p(3) show ?thesis by auto
qed

lemma alloc_free:
  assumes "free_pages s ps" and "alloc s = Ok p t" and "p \<noteq> 0"
  shows "\<exists>u. free p t = Ok () u \<and> free_pages u ps \<and> (\<forall>x. \<not> in_page p x \<longrightarrow> bytes u x = bytes s x)"
proof -
  define qs where "qs = tl ps"
  have *: "ps = p # qs" "free_pages t qs" "accepts t = accepts s" "p \<notin> set qs" "accepts s p"
      "\<forall>x. \<not> in_page p x \<longrightarrow> bytes t x = bytes s x"
    by (rule alloc_cases [OF assms(1)]; use assms(2,3) in \<open>simp add: qs_def\<close>)+
  then obtain u where "free p t = Ok () u" "free_pages u (p # qs)"
      "\<And>x. \<not> in_page p x \<Longrightarrow> bytes u x = bytes t x"
    using free_ok [of t qs p] by auto
  with * show ?thesis by auto
qed

end

interpretation ka: page_allocator kalloc kfree kmem_inv usable mem
proof
  fix s :: "'a kmem_scheme" and ps
  assume "kmem_inv s ps"
  then show "distinct ps \<and> (\<forall>p \<in> set ps. usable s p \<and> page p \<and> p \<noteq> 0)"
    by (auto simp: kmem_inv_def usable_def)
next
  fix s :: "'a kmem_scheme" and p ps
  assume "kmem_inv s (p # ps)"
  then show "\<exists>t. kalloc s = Ok p t \<and> kmem_inv t ps \<and> usable t = usable s \<and>
      (\<forall>x. \<not> in_page p x \<longrightarrow> mem t x = mem s x)"
    using kalloc_some by blast
qed (simp_all add: kalloc_none kfree_ok)


section \<open>Initialisation\<close>

text \<open>The pages that lie whole in the range from the page \<open>p\<close> up to \<open>e\<close>.\<close>

definition page_range :: "addr \<Rightarrow> addr \<Rightarrow> addr list" where
  "page_range p e = map (\<lambda>i. p + of_nat (4096 * i)) [0..<(unat e - unat p) div 4096]"

lemma page_range_Nil: "unat e < unat p + 4096 \<Longrightarrow> page_range p e = []"
  by (simp add: page_range_def)

lemma page_range_Cons:
  assumes "unat p + 4096 \<le> unat e"
  shows "page_range p e = p # page_range (p + PGSIZE) e"
proof -
  have p': "unat (p + PGSIZE) = unat p + 4096"
    using assms unat_addr_less [of e] by (simp add: unat_word_ariths(1))
  have "(unat e - unat p) div 4096 = Suc ((unat e - unat (p + PGSIZE)) div 4096)"
    using assms unfolding p' by (simp add: le_div_geq)
  then show ?thesis
    unfolding page_range_def by (simp add: upt_conv_Cons map_Suc_upt [symmetric] PGSIZE_def algebra_simps del: upt_Suc)
qed

lemma unat_PHYSTOP [simp]: "unat PHYSTOP = 0x88000000"
  by (simp add: PHYSTOP_def KERNBASE_def)

lemma freerange_from_inv:
  assumes "kmem_inv s ps" and "page p" and "kend s \<le> p" and "p \<le> PHYSTOP" and "e \<le> PHYSTOP"
    and "\<forall>q \<in> set ps. q < p"
  shows "\<exists>t. freerange_from p e s = Ok () t \<and> kmem_inv t (rev (page_range p e) @ ps) \<and>
    usable t = usable s"
  using assms
proof (induction p e s arbitrary: ps rule: freerange_from.induct)
  case (1 p e s)
  have up: "unat (p + PGSIZE) = unat p + 4096"
    using 1(5) by (simp add: unat_word_ariths(1) word_le_nat_alt)
  show ?case
  proof (cases "p + PGSIZE \<le> e")
    case False
    then have "page_range p e = []"
      using up by (intro page_range_Nil) (simp add: word_le_nat_alt)
    with False 1(2) show ?thesis by (simp add: freerange_from.simps)
  next
    case True
    then have e: "unat p + 4096 \<le> unat e" using up by (simp add: word_le_nat_alt)
    with 1(4,6) have "usable s p" using 1(3) by (simp add: usable_def word_le_nat_alt word_less_nat_alt)
    moreover have "p \<notin> set ps" using 1(7) by auto
    ultimately obtain s' where s': "kfree p s = Ok () s'" "kmem_inv s' (p # ps)" "usable s' = usable s"
        "kend s' = kend s"
      using kfree_ok [OF 1(2), of p] by (auto simp: kfree_def Let_def split: if_splits)
    have "page (p + PGSIZE)" using 1(3) up by (simp add: unat_page)
    moreover have "kend s' \<le> p + PGSIZE" "p + PGSIZE \<le> PHYSTOP" "\<forall>q \<in> set (p # ps). q < p + PGSIZE"
      using 1(4,6,7) s'(4) True up by (auto simp: word_le_nat_alt word_less_nat_alt)
    ultimately obtain t where "freerange_from (p + PGSIZE) e s' = Ok () t"
        "kmem_inv t (rev (page_range (p + PGSIZE) e) @ p # ps)" "usable t = usable s'"
      using 1(1) [OF True s'(1) s'(2)] 1(6) by auto
    then show ?thesis using True s' e by (simp add: freerange_from.simps [of p] page_range_Cons)
  qed
qed

section \<open>Properties\<close>

text \<open>
  C5. Page ownership: when \<open>kalloc\<close> hands out a page, the page was free and is no longer on the
  free list, so no later \<open>kalloc\<close> returns it before it is freed; only its own 4096 bytes change (to
  the junk value 5), and \<open>kfree\<close> of it restores exactly the free list \<open>kalloc\<close> found.
\<close>

theorem kalloc_ownership:
  assumes "kmem_inv s ps" and "kalloc s = Ok p t" and "p \<noteq> 0"
  shows "ps = p # tl ps \<and> kmem_inv t (tl ps) \<and> p \<notin> set (tl ps) \<and>
    rd (mem t) p 4096 = replicate 4096 5 \<and> (\<forall>x. \<not> in_page p x \<longrightarrow> mem t x = mem s x) \<and>
    (\<exists>u. kfree p t = Ok () u \<and> kmem_inv u ps \<and> (\<forall>x. \<not> in_page p x \<longrightarrow> mem u x = mem s x))"
proof -
  note fresh = ka.alloc_fresh [OF assms]
  from kalloc_some [of s p "tl ps"] assms(1,2) fresh(1)
  have "rd (mem t) p 4096 = replicate 4096 5" "\<forall>x. \<not> in_page p x \<longrightarrow> mem t x = mem s x" by auto
  with fresh ka.alloc_free [OF assms] show ?thesis by blast
qed

text \<open>A machine with one free page, whose link is NULL.\<close>

definition one_page :: kmem where
  "one_page = \<lparr>mem = \<lambda>_. 0, freelist = 0x80001000, kend = 0x80001000\<rparr>"

lemma load64_zero [simp]: "load64 (\<lambda>_. 0) a = 0"
proof -
  have "rd (\<lambda>_. 0) a 8 = replicate 8 0" by (simp add: rd_def map_replicate_const)
  then show ?thesis by (simp only: load64_def le_word_zeros)
qed

lemma one_page_inv: "kmem_inv one_page [0x80001000]"
  by (simp add: kmem_inv_def one_page_def usable_def page_def PGSIZE_def PHYSTOP_def KERNBASE_def)

theorem kalloc_ownership_witness:
  "\<exists>t u. kalloc one_page = Ok 0x80001000 t \<and> kmem_inv t [] \<and>
     kfree 0x80001000 t = Ok () u \<and> kmem_inv u [0x80001000]"
proof -
  obtain t where t: "kalloc one_page = Ok 0x80001000 t"
    using kalloc_some [OF one_page_inv] by blast
  have "(0x80001000 :: addr) \<noteq> 0" by simp
  from kalloc_ownership [OF one_page_inv t this] t show ?thesis by auto
qed

text \<open>
  C34. Boot: from an empty free list \<open>kinit\<close> puts exactly the whole pages between the end of the
  kernel image and \<open>PHYSTOP\<close> on the free list, the highest address first, and does not panic.
\<close>

theorem kinit_frees_all:
  assumes "freelist s = 0" and "0 < kend s" and "kend s \<le> PHYSTOP"
  shows "\<exists>t. kinit s = Ok () t \<and> kmem_inv t (rev (page_range (PGROUNDUP (kend s)) PHYSTOP))"
proof -
  have k: "unat (kend s) \<le> 0x88000000" using assms(3) by (simp add: word_le_nat_alt)
  then have up: "unat (PGROUNDUP (kend s)) = (unat (kend s) + 4095) div 4096 * 4096"
    by (intro unat_PGROUNDUP) simp
  have "kend s \<le> PGROUNDUP (kend s)" "PGROUNDUP (kend s) \<le> PHYSTOP"
    unfolding word_le_nat_alt up using k by simp_all
  moreover have "kmem_inv s []" using assms(1,2) by (simp add: kmem_inv_def)
  ultimately show ?thesis
    using freerange_from_inv [of s "[]" "PGROUNDUP (kend s)" PHYSTOP] by (auto simp: kinit_def freerange_def)
qed

text \<open>A kernel that ends one byte into the last but one page of memory.\<close>

theorem kinit_frees_all_witness:
  "\<exists>t. kinit (one_page\<lparr>freelist := 0, kend := 0x87FFE001\<rparr>) = Ok () t \<and> kmem_inv t [0x87FFF000]"
proof -
  let ?s = "one_page\<lparr>freelist := 0, kend := 0x87FFE001\<rparr>"
  have h: "freelist ?s = 0" "0 < kend ?s" "kend ?s \<le> PHYSTOP"
    by (simp_all add: PHYSTOP_def KERNBASE_def)
  have "PGROUNDUP 0x87FFE001 = 0x87FFF000" by (simp add: PGROUNDUP_def PGSIZE_def)
  then have "page_range (PGROUNDUP (kend ?s)) PHYSTOP = [0x87FFF000]"
    by (simp add: page_range_def)
  with kinit_frees_all [OF h] show ?thesis by (metis rev_singleton_conv)
qed

end
