(* ===== verification/Spinlock.thy ===== *)
theory Spinlock
  imports Prelude
begin

text \<open>
  Spin locks and the nesting of interrupt disabling (\<open>kernel/spinlock.c\<close>), on any number of
  processors and locks. \<open>push_off\<close> and \<open>pop_off\<close> act on one processor; \<open>acquire\<close> and \<open>release\<close> are
  split where another processor can interleave: the atomic swap, the store of \<open>lk->cpu\<close>, and the
  two stores of \<open>release\<close>. The step relation \<open>lock_step\<close> interleaves processors arbitrarily; the
  fields \<open>pc\<close>, \<open>held\<close> and \<open>offs\<close> record where each processor is, which locks it has and how many
  \<open>push_off\<close> calls of its own are open.

  The other theories take a critical section under one spin lock to be a single step; mutual
  exclusion, proved here, is what justifies that.
\<close>

section \<open>State\<close>

record cpu =
  noff :: int
  intena :: bool
  sie :: bool

record spinlock =
  locked :: bool
  lkcpu :: "nat option"

record smp =
  cpus :: "nat \<Rightarrow> cpu"
  locks :: "nat \<Rightarrow> spinlock"

definition upd_cpu :: "nat \<Rightarrow> (cpu \<Rightarrow> cpu) \<Rightarrow> 'a smp_scheme \<Rightarrow> 'a smp_scheme" where
  "upd_cpu c f s = s\<lparr>cpus := (cpus s)(c := f (cpus s c))\<rparr>"

definition upd_lock :: "nat \<Rightarrow> (spinlock \<Rightarrow> spinlock) \<Rightarrow> 'a smp_scheme \<Rightarrow> 'a smp_scheme" where
  "upd_lock l f s = s\<lparr>locks := (locks s)(l := f (locks s l))\<rparr>"

section \<open>Operations\<close>

definition initlock :: "spinlock" where
  "initlock = \<lparr>locked = False, lkcpu = None\<rparr>"

definition holding :: "nat \<Rightarrow> nat \<Rightarrow> 'a smp_scheme \<Rightarrow> bool" where
  "holding c l s \<longleftrightarrow> locked (locks s l) \<and> lkcpu (locks s l) = Some c"

definition push_off :: "nat \<Rightarrow> 'a smp_scheme \<Rightarrow> 'a smp_scheme" where
  "push_off c s =
     (let old = sie (cpus s c);
          s = upd_cpu c (\<lambda>k. k\<lparr>sie := False\<rparr>) s;
          s = (if noff (cpus s c) = 0 then upd_cpu c (\<lambda>k. k\<lparr>intena := old\<rparr>) s else s)
      in upd_cpu c (\<lambda>k. k\<lparr>noff := noff k + 1\<rparr>) s)"

definition pop_off :: "nat \<Rightarrow> 'a smp_scheme \<Rightarrow> ('a smp_scheme, unit) res" where
  "pop_off c s =
     (if sie (cpus s c) then Panic ''pop_off - interruptible''
      else if noff (cpus s c) < 1 then Panic ''pop_off''
      else let s = upd_cpu c (\<lambda>k. k\<lparr>noff := noff k - 1\<rparr>) s
           in Ok () (if noff (cpus s c) = 0 \<and> intena (cpus s c)
                     then upd_cpu c (\<lambda>k. k\<lparr>sie := True\<rparr>) s else s))"

text \<open>\<open>acquire\<close> up to the swap loop, one try of the atomic swap (true when the lock was free), and
  the store of the owner.\<close>

definition acquire_enter :: "nat \<Rightarrow> nat \<Rightarrow> 'a smp_scheme \<Rightarrow> ('a smp_scheme, unit) res" where
  "acquire_enter c l s =
     (let s = push_off c s in if holding c l s then Panic ''acquire'' else Ok () s)"

definition test_and_set :: "nat \<Rightarrow> 'a smp_scheme \<Rightarrow> bool \<times> 'a smp_scheme" where
  "test_and_set l s = (\<not> locked (locks s l), upd_lock l (\<lambda>k. k\<lparr>locked := True\<rparr>) s)"

definition acquire_record :: "nat \<Rightarrow> nat \<Rightarrow> 'a smp_scheme \<Rightarrow> 'a smp_scheme" where
  "acquire_record c l s = upd_lock l (\<lambda>k. k\<lparr>lkcpu := Some c\<rparr>) s"

text \<open>\<open>release\<close> up to the store of the owner, and the atomic store that frees the lock with the
  closing \<open>pop_off\<close>.\<close>

definition release_enter :: "nat \<Rightarrow> nat \<Rightarrow> 'a smp_scheme \<Rightarrow> ('a smp_scheme, unit) res" where
  "release_enter c l s =
     (if \<not> holding c l s then Panic ''release''
      else Ok () (upd_lock l (\<lambda>k. k\<lparr>lkcpu := None\<rparr>) s))"

definition release_exit :: "nat \<Rightarrow> nat \<Rightarrow> 'a smp_scheme \<Rightarrow> ('a smp_scheme, unit) res" where
  "release_exit c l s = pop_off c (upd_lock l (\<lambda>k. k\<lparr>locked := False\<rparr>) s)"

section \<open>Interleavings\<close>

datatype lock_pc = Run | Spin nat | Swapped nat | Releasing nat

record lock_sys = smp +
  pc :: "nat \<Rightarrow> lock_pc"
  held :: "nat \<Rightarrow> nat list"
  offs :: "nat \<Rightarrow> nat"

definition init_locks :: "(nat \<Rightarrow> bool) \<Rightarrow> lock_sys" where
  "init_locks on =
     \<lparr>cpus = (\<lambda>c. \<lparr>noff = 0, intena = False, sie = on c\<rparr>), locks = (\<lambda>_. initlock),
      pc = (\<lambda>_. Run), held = (\<lambda>_. []), offs = (\<lambda>_. 0)\<rparr>"

inductive lock_step :: "lock_sys \<Rightarrow> lock_sys \<Rightarrow> bool" where
  enter: "pc s c = Run \<Longrightarrow> acquire_enter c l s = Ok () t \<Longrightarrow>
    lock_step s (t\<lparr>pc := (pc t)(c := Spin l)\<rparr>)"
| spin: "pc s c = Spin l \<Longrightarrow> test_and_set l s = (False, t) \<Longrightarrow> lock_step s t"
| swap: "pc s c = Spin l \<Longrightarrow> test_and_set l s = (True, t) \<Longrightarrow>
    lock_step s (t\<lparr>pc := (pc t)(c := Swapped l), held := (held t)(c := l # held t c)\<rparr>)"
| got: "pc s c = Swapped l \<Longrightarrow> t = acquire_record c l s \<Longrightarrow>
    lock_step s (t\<lparr>pc := (pc t)(c := Run)\<rparr>)"
| rel: "pc s c = Run \<Longrightarrow> release_enter c l s = Ok () t \<Longrightarrow>
    lock_step s (t\<lparr>pc := (pc t)(c := Releasing l)\<rparr>)"
| freed: "pc s c = Releasing l \<Longrightarrow> release_exit c l s = Ok () t \<Longrightarrow>
    lock_step s (t\<lparr>pc := (pc t)(c := Run), held := (held t)(c := remove1 l (held t c))\<rparr>)"
| pushed: "pc s c = Run \<Longrightarrow> t = push_off c s \<Longrightarrow>
    lock_step s (t\<lparr>offs := (offs t)(c := Suc (offs t c))\<rparr>)"
| popped: "pc s c = Run \<Longrightarrow> 0 < offs s c \<Longrightarrow> pop_off c s = Ok () t \<Longrightarrow>
    lock_step s (t\<lparr>offs := (offs t)(c := offs t c - 1)\<rparr>)"

inductive lock_reach :: "(nat \<Rightarrow> bool) \<Rightarrow> lock_sys \<Rightarrow> bool" for on where
  start: "lock_reach on (init_locks on)"
| step: "lock_reach on s \<Longrightarrow> lock_step s t \<Longrightarrow> lock_reach on t"

section \<open>The invariant\<close>

text \<open>A lock is on the list of a processor exactly when that processor has done the swap and not
  yet the freeing store; the word \<open>lk->cpu\<close> names the owner except in the two short windows.\<close>

definition lock_inv :: "(nat \<Rightarrow> bool) \<Rightarrow> lock_sys \<Rightarrow> bool" where
  "lock_inv on s \<longleftrightarrow>
     (\<forall>l. locked (locks s l) \<longleftrightarrow> (\<exists>c. l \<in> set (held s c))) \<and>
     (\<forall>c d l. l \<in> set (held s c) \<longrightarrow> l \<in> set (held s d) \<longrightarrow> c = d) \<and>
     (\<forall>c. distinct (held s c)) \<and>
     (\<forall>c l. lkcpu (locks s l) = Some c \<longleftrightarrow>
        l \<in> set (held s c) \<and> pc s c \<noteq> Swapped l \<and> pc s c \<noteq> Releasing l) \<and>
     (\<forall>c l. pc s c = Swapped l \<or> pc s c = Releasing l \<longrightarrow> l \<in> set (held s c)) \<and>
     (\<forall>c. noff (cpus s c) = int (length (held s c) + offs s c +
        (case pc s c of Spin _ \<Rightarrow> 1 | _ \<Rightarrow> 0))) \<and>
     (\<forall>c. sie (cpus s c) = (noff (cpus s c) = 0 \<and> on c)) \<and>
     (\<forall>c. noff (cpus s c) \<noteq> 0 \<longrightarrow> intena (cpus s c) = on c)"

lemma push_off_eq:
  "push_off c s = s\<lparr>cpus := (cpus s)(c := (cpus s c)\<lparr>noff := noff (cpus s c) + 1,
     intena := (if noff (cpus s c) = 0 then sie (cpus s c) else intena (cpus s c)), sie := False\<rparr>)\<rparr>"
  by (cases "cpus s c") (simp add: push_off_def upd_cpu_def Let_def)

lemma pop_off_Ok:
  "pop_off c s = Ok u t \<longleftrightarrow> \<not> sie (cpus s c) \<and> 1 \<le> noff (cpus s c) \<and>
     t = s\<lparr>cpus := (cpus s)(c := (cpus s c)\<lparr>noff := noff (cpus s c) - 1,
       sie := (noff (cpus s c) = 1 \<and> intena (cpus s c))\<rparr>)\<rparr>"
  by (cases "cpus s c") (auto simp: pop_off_def upd_cpu_def Let_def not_less)

lemma lock_inv_init: "lock_inv on (init_locks on)"
  by (simp add: lock_inv_def init_locks_def initlock_def)

lemma lock_inv_enter:
  assumes "lock_inv on s" and "pc s c = Run" and "acquire_enter c l s = Ok () t"
  shows "lock_inv on (t\<lparr>pc := (pc t)(c := Spin l)\<rparr>)"
  using assms by (auto simp: lock_inv_def acquire_enter_def push_off_eq Let_def split: if_splits)

lemma lock_inv_spin:
  assumes "lock_inv on s" and "test_and_set l s = (False, t)"
  shows "lock_inv on t"
  using assms by (auto simp: lock_inv_def test_and_set_def upd_lock_def split: if_splits)

lemma lock_inv_swap:
  assumes "lock_inv on s" and "pc s c = Spin l" and "test_and_set l s = (True, t)"
  shows "lock_inv on (t\<lparr>pc := (pc t)(c := Swapped l), held := (held t)(c := l # held t c)\<rparr>)"
  using assms by (auto simp: lock_inv_def test_and_set_def upd_lock_def split: if_splits)

lemma lock_inv_got:
  assumes "lock_inv on s" and "pc s c = Swapped l"
  shows "lock_inv on ((acquire_record c l s)\<lparr>pc := (pc (acquire_record c l s))(c := Run)\<rparr>)"
  using assms by (auto simp: lock_inv_def acquire_record_def upd_lock_def split: if_splits)

lemma lock_inv_rel:
  assumes "lock_inv on s" and "pc s c = Run" and "release_enter c l s = Ok () t"
  shows "lock_inv on (t\<lparr>pc := (pc t)(c := Releasing l)\<rparr>)"
  using assms by (auto simp: lock_inv_def release_enter_def holding_def upd_lock_def split: if_splits)

lemma lock_inv_freed:
  assumes "lock_inv on s" and "pc s c = Releasing l" and "release_exit c l s = Ok () t"
  shows "lock_inv on (t\<lparr>pc := (pc t)(c := Run), held := (held t)(c := remove1 l (held t c))\<rparr>)"
proof -
  have "l \<in> set (held s c)" using assms(1,2) by (auto simp: lock_inv_def)
  then have "1 \<le> length (held s c)" by (cases "held s c") auto
  with assms show ?thesis
    by (auto simp: lock_inv_def release_exit_def pop_off_Ok upd_lock_def length_remove1 of_nat_diff
      split: if_splits)
qed

lemma lock_inv_pushed:
  assumes "lock_inv on s" and "pc s c = Run"
  shows "lock_inv on ((push_off c s)\<lparr>offs := (offs (push_off c s))(c := Suc (offs (push_off c s) c))\<rparr>)"
  using assms by (auto simp: lock_inv_def push_off_eq split: if_splits)

lemma lock_inv_popped:
  assumes "lock_inv on s" and "pc s c = Run" and "0 < offs s c" and "pop_off c s = Ok () t"
  shows "lock_inv on (t\<lparr>offs := (offs t)(c := offs t c - 1)\<rparr>)"
  using assms by (auto simp: lock_inv_def pop_off_Ok split: if_splits)


lemma lock_step_inv: "lock_step s t \<Longrightarrow> lock_inv on s \<Longrightarrow> lock_inv on t"
proof (induction rule: lock_step.induct)
  case enter
  then show ?case by (rule lock_inv_enter [rotated 1])
next
  case spin
  then show ?case by (blast intro: lock_inv_spin)
next
  case swap
  then show ?case by (blast intro: lock_inv_swap)
next
  case got
  then show ?case by (simp only: lock_inv_got)
next
  case rel
  then show ?case by (blast intro: lock_inv_rel)
next
  case freed
  then show ?case by (blast intro: lock_inv_freed)
next
  case pushed
  then show ?case by (simp only: lock_inv_pushed)
next
  case popped
  then show ?case by (blast intro: lock_inv_popped)
qed

lemma lock_reach_inv: "lock_reach on s \<Longrightarrow> lock_inv on s"
  by (induction rule: lock_reach.induct) (auto intro: lock_inv_init lock_step_inv)

section \<open>Properties\<close>

text \<open>
  C16. Mutual exclusion: in every interleaving of any number of processors acquiring and releasing
  any number of locks, a lock is owned (from the successful swap to the freeing store) by at most
  one processor; a processor that owns a lock has interrupts disabled, and when it owns none and
  has no open \<open>push_off\<close> its interrupt flag is what it was at the start.
\<close>

theorem spinlock_mutual_exclusion:
  assumes "lock_reach on s"
  shows "(l \<in> set (held s c) \<and> l \<in> set (held s d) \<longrightarrow> c = d) \<and>
    (held s c \<noteq> [] \<longrightarrow> \<not> sie (cpus s c)) \<and>
    (held s c = [] \<and> offs s c = 0 \<and> pc s c = Run \<longrightarrow> sie (cpus s c) = on c)"
proof -
  have inv: "lock_inv on s" using assms by (rule lock_reach_inv)
  then have "noff (cpus s c) = int (length (held s c) + offs s c +
        (case pc s c of Spin _ \<Rightarrow> 1 | _ \<Rightarrow> 0))"
      and "sie (cpus s c) = (noff (cpus s c) = 0 \<and> on c)"
    by (simp_all add: lock_inv_def)
  moreover from inv have "l \<in> set (held s c) \<and> l \<in> set (held s d) \<longrightarrow> c = d"
    by (auto simp: lock_inv_def)
  ultimately show ?thesis by (cases "held s c") auto
qed

text \<open>Processor 0 takes lock 7, processor 1 tries it and spins.\<close>

theorem spinlock_mutual_exclusion_witness:
  "\<exists>s. lock_reach (\<lambda>_. True) s \<and> held s 0 = [7] \<and> pc s 1 = Spin 7 \<and> \<not> sie (cpus s 0) \<and> 7 \<notin> set (held s 1)"
proof -
  let ?s0 = "init_locks (\<lambda>_. True)"
  let ?s1 = "(push_off 0 ?s0)\<lparr>pc := (pc (push_off 0 ?s0))(0 := Spin 7)\<rparr>"
  let ?t = "upd_lock 7 (\<lambda>k. k\<lparr>locked := True\<rparr>) ?s1"
  let ?s2 = "?t\<lparr>pc := (pc ?t)(0 := Swapped 7), held := (held ?t)(0 := 7 # held ?t 0)\<rparr>"
  let ?s3 = "(push_off 1 ?s2)\<lparr>pc := (pc (push_off 1 ?s2))(1 := Spin 7)\<rparr>"
  note defs = init_locks_def initlock_def push_off_eq upd_lock_def acquire_enter_def holding_def
    test_and_set_def Let_def
  have "lock_step ?s0 ?s1" by (rule lock_step.enter) (simp_all add: defs)
  moreover have "lock_step ?s1 ?s2" by (rule lock_step.swap) (simp_all add: defs)
  moreover have "lock_step ?s2 ?s3" by (rule lock_step.enter) (simp_all add: defs)
  ultimately have r: "lock_reach (\<lambda>_. True) ?s3" by (meson lock_reach.intros)
  have h: "held ?s3 0 = [7]" "pc ?s3 1 = Spin 7" by (simp_all add: defs)
  have "\<not> sie (cpus ?s3 0) \<and> 7 \<notin> set (held ?s3 1)"
    using spinlock_mutual_exclusion [OF r, of 7 0 1] spinlock_mutual_exclusion [OF r, of 7 0 0] h(1)
    by auto
  with r h show ?thesis by blast
qed

end
