(* ===== verification/Procs.thy ===== *)
theory Procs
  imports Kalloc
begin

text \<open>
  The process table of \<open>kernel/proc.h\<close> and the operations of \<open>kernel/proc.c\<close> that touch nothing
  else: allocation of process identifiers, sleeping and waking, killing and the priority call.

  A pointer to a process is its index in the table; \<open>curp\<close> is \<open>mycpu()->proc\<close> of the processor that
  executes the operation. A sleep channel is the address of a kernel object: \<open>chan\<close> names the
  objects the kernel sleeps on. C's \<open>int\<close> is a 32-bit word, compared through \<open>sint\<close>. The critical
  section under a process lock is one step.
\<close>

section \<open>Data\<close>

definition NPROC :: nat where
  "NPROC = 64"

definition NOFILE :: nat where
  "NOFILE = 16"

definition MAXVA :: addr where
  "MAXVA = push_bit (9 + 9 + 9 + 12 - 1) 1"

definition TRAMPOLINE :: addr where
  "TRAMPOLINE = MAXVA - PGSIZE"

definition TRAPFRAME :: addr where
  "TRAPFRAME = TRAMPOLINE - PGSIZE"

definition KSTACK :: "nat \<Rightarrow> addr" where
  "KSTACK p = TRAMPOLINE - of_nat (p + 1) * 2 * PGSIZE"

datatype procstate = UNUSED | USED | SLEEPING | RUNNABLE | RUNNING | ZOMBIE

datatype chan =
    ChNull | ChProc nat | ChTicks | ChLog | ChSleeplock nat | ChInodelock nat
  | ChPipeRead addr | ChPipeWrite addr | ChConsole | ChUart | ChDiskFree | ChBuf nat

record kcontext =
  cx_ra :: addr
  cx_sp :: addr
  cx_s :: "64 word list"

record proc =
  p_state :: procstate
  p_chan :: chan
  p_killed :: "32 word"
  p_xstate :: "32 word"
  p_pid :: "32 word"
  p_parent :: "nat option"
  p_kstack :: addr
  p_sz :: "64 word"
  p_pagetable :: addr
  p_trapframe :: addr
  p_context :: kcontext
  p_ofile :: "nat option list"
  p_cwd :: "nat option"
  p_name :: "byte list"
  p_priority :: "32 word"
  p_runs :: "64 word"

text \<open>Addresses fixed by the linker and the boot code.\<close>

record ksyms =
  trampoline :: addr
  uservec :: addr
  userret :: addr
  etext :: addr
  usertrap_pc :: addr
  kernelvec :: addr
  forkret_pc :: addr

record pstate = kmem +
  procs :: "proc list"
  nextpid :: "32 word"
  initproc :: "nat option"
  curp :: "nat option"
  ticks :: "32 word"
  kernel_pagetable :: addr
  ksym :: ksyms

definition upd_proc :: "nat \<Rightarrow> (proc \<Rightarrow> proc) \<Rightarrow> 'a pstate_scheme \<Rightarrow> 'a pstate_scheme" where
  "upd_proc i f s = s\<lparr>procs := (procs s)[i := f (procs s ! i)]\<rparr>"

definition myproc :: "'a pstate_scheme \<Rightarrow> proc" where
  "myproc s = procs s ! the (curp s)"

section \<open>Operations on the table\<close>

definition zero_context :: kcontext where
  "zero_context = \<lparr>cx_ra = 0, cx_sp = 0, cx_s = replicate 12 0\<rparr>"

text \<open>A slot of the table as the loader leaves it (the array is in the zeroed data segment).\<close>

definition bss_proc :: proc where
  "bss_proc =
     \<lparr>p_state = UNUSED, p_chan = ChNull, p_killed = 0, p_xstate = 0, p_pid = 0, p_parent = None,
      p_kstack = 0, p_sz = 0, p_pagetable = 0, p_trapframe = 0, p_context = zero_context,
      p_ofile = replicate NOFILE None, p_cwd = None, p_name = replicate 16 0, p_priority = 0,
      p_runs = 0\<rparr>"

definition procinit :: "'a pstate_scheme \<Rightarrow> 'a pstate_scheme" where
  "procinit s = s\<lparr>procs := map (\<lambda>(i, p). p\<lparr>p_state := UNUSED, p_kstack := KSTACK i\<rparr>)
     (enumerate 0 (procs s))\<rparr>"

definition allocpid :: "'a pstate_scheme \<Rightarrow> 32 word \<times> 'a pstate_scheme" where
  "allocpid s = (nextpid s, s\<lparr>nextpid := nextpid s + 1\<rparr>)"

text \<open>\<open>sleep\<close> up to the switch to the scheduler, and what it does when the process runs again.\<close>

definition sleep :: "chan \<Rightarrow> 'a pstate_scheme \<Rightarrow> ('a pstate_scheme, 'b) res" where
  "sleep ch s = Sleep (upd_proc (the (curp s)) (\<lambda>p. p\<lparr>p_chan := ch, p_state := SLEEPING\<rparr>) s)"

definition sleep_return :: "'a pstate_scheme \<Rightarrow> 'a pstate_scheme" where
  "sleep_return s = upd_proc (the (curp s)) (\<lambda>p. p\<lparr>p_chan := ChNull\<rparr>) s"

definition wakeup :: "chan \<Rightarrow> 'a pstate_scheme \<Rightarrow> 'a pstate_scheme" where
  "wakeup ch s = s\<lparr>procs := map (\<lambda>(i, p).
     if Some i \<noteq> curp s \<and> p_state p = SLEEPING \<and> p_chan p = ch then p\<lparr>p_state := RUNNABLE\<rparr> else p)
     (enumerate 0 (procs s))\<rparr>"

definition yield :: "'a pstate_scheme \<Rightarrow> 'a pstate_scheme" where
  "yield s = upd_proc (the (curp s)) (\<lambda>p. p\<lparr>p_state := RUNNABLE\<rparr>) s"

definition kkill :: "32 word \<Rightarrow> 'a pstate_scheme \<Rightarrow> 32 word \<times> 'a pstate_scheme" where
  "kkill pid s =
     (case find_idx (\<lambda>p. p_pid p = pid) (procs s) of
        Some i \<Rightarrow> (0, upd_proc i (\<lambda>p. let p = p\<lparr>p_killed := 1\<rparr>
                     in if p_state p = SLEEPING then p\<lparr>p_state := RUNNABLE\<rparr> else p) s)
      | None \<Rightarrow> (-1, s))"

definition setkilled :: "nat \<Rightarrow> 'a pstate_scheme \<Rightarrow> 'a pstate_scheme" where
  "setkilled i s = upd_proc i (\<lambda>p. p\<lparr>p_killed := 1\<rparr>) s"

definition killed :: "nat \<Rightarrow> 'a pstate_scheme \<Rightarrow> 32 word" where
  "killed i s = p_killed (procs s ! i)"

definition set_priority :: "32 word \<Rightarrow> 32 word \<Rightarrow> 'a pstate_scheme \<Rightarrow> 32 word \<times> 'a pstate_scheme" where
  "set_priority pid priority s =
     (if sint priority < 0 \<or> sint priority > 19 then (-1, s)
      else case find_idx (\<lambda>p. p_pid p = pid) (procs s) of
             Some i \<Rightarrow> (0, upd_proc i (\<lambda>p. p\<lparr>p_priority := priority\<rparr>) s)
           | None \<Rightarrow> (-1, s))"

definition reparent :: "nat \<Rightarrow> 'a pstate_scheme \<Rightarrow> 'a pstate_scheme" where
  "reparent i s = fold (\<lambda>k s. if p_parent (procs s ! k) = Some i
       then wakeup (ChProc (the (initproc s))) (upd_proc k (\<lambda>p. p\<lparr>p_parent := initproc s\<rparr>) s) else s)
     [0..<length (procs s)] s"

section \<open>Basic facts\<close>

lemma length_procs_simps [simp]:
  "length (procs (upd_proc i f s)) = length (procs s)"
  "length (procs (wakeup ch s)) = length (procs s)"
  "length (procs (procinit s)) = length (procs s)"
  "length (procs (yield s)) = length (procs s)"
  "length (procs (setkilled i s)) = length (procs s)"
  by (simp_all add: upd_proc_def wakeup_def procinit_def yield_def setkilled_def)

lemma procs_upd_proc:
  "k < length (procs s) \<Longrightarrow> procs (upd_proc i f s) ! k = (if k = i then f (procs s ! k) else procs s ! k)"
  by (simp add: upd_proc_def)

lemma upd_proc_simps [simp]:
  "curp (upd_proc i f s) = curp s" "nextpid (upd_proc i f s) = nextpid s"
  "initproc (upd_proc i f s) = initproc s" "mem (upd_proc i f s) = mem s"
  "freelist (upd_proc i f s) = freelist s" "kend (upd_proc i f s) = kend s"
  "ticks (upd_proc i f s) = ticks s"
  by (simp_all add: upd_proc_def)

lemma wakeup_simps [simp]:
  "curp (wakeup ch s) = curp s" "nextpid (wakeup ch s) = nextpid s"
  "initproc (wakeup ch s) = initproc s" "mem (wakeup ch s) = mem s"
  "freelist (wakeup ch s) = freelist s" "kend (wakeup ch s) = kend s"
  "ticks (wakeup ch s) = ticks s"
  by (simp_all add: wakeup_def)

lemma procs_wakeup:
  "k < length (procs s) \<Longrightarrow> procs (wakeup ch s) ! k =
     (let p = procs s ! k in
      if Some k \<noteq> curp s \<and> p_state p = SLEEPING \<and> p_chan p = ch then p\<lparr>p_state := RUNNABLE\<rparr> else p)"
  by (simp add: wakeup_def nth_enumerate_eq Let_def)

lemma procs_procinit:
  "k < length (procs s) \<Longrightarrow> procs (procinit s) ! k = (procs s ! k)\<lparr>p_state := UNUSED, p_kstack := KSTACK k\<rparr>"
  by (simp add: procinit_def nth_enumerate_eq)

text \<open>Concrete process tables.\<close>

definition demo_proc :: "procstate \<Rightarrow> 32 word \<Rightarrow> proc" where
  "demo_proc st pr = bss_proc\<lparr>p_state := st, p_priority := pr\<rparr>"

definition demo_table :: "proc list \<Rightarrow> pstate" where
  "demo_table ps = \<lparr>mem = (\<lambda>_. 0), freelist = 0, kend = 0, procs = ps, nextpid = 1, initproc = Some 0,
     curp = None, ticks = 0, kernel_pagetable = 0,
     ksym = \<lparr>trampoline = 0, uservec = 0, userret = 0, etext = 0, usertrap_pc = 0, kernelvec = 0,
       forkret_pc = 0\<rparr>\<rparr>"

end
