(* ===== verification/Sched.thy ===== *)
theory Sched
  imports Procs Spinlock
begin

text \<open>
  The scheduler of \<open>kernel/proc.c\<close>: one iteration of its endless loop on one processor, the whole
  machine as a step relation in which any number of processors interleave at the granularity of a
  process lock, and the lock discipline of \<open>sched\<close>, \<open>yield\<close> and \<open>sleep\<close>.
\<close>

section \<open>One round on one processor\<close>

text \<open>The first pass: the smallest priority number among the runnable processes, 9999 if none.\<close>

definition highest_pass :: "proc list \<Rightarrow> int" where
  "highest_pass ps = fold (\<lambda>p highest.
     if p_state p = RUNNABLE \<and> sint (p_priority p) < highest then sint (p_priority p) else highest) ps 9999"

text \<open>The second pass at slot \<open>i\<close>. What the chosen process does between the two context switches is
  the parameter \<open>run\<close>. The first component of the result lists the slots chosen so far.\<close>

definition dispatch ::
  "(nat \<Rightarrow> 'a pstate_scheme \<Rightarrow> 'a pstate_scheme) \<Rightarrow> int \<Rightarrow> nat \<Rightarrow>
    nat list \<times> 'a pstate_scheme \<Rightarrow> nat list \<times> 'a pstate_scheme" where
  "dispatch run highest i = (\<lambda>(tr, s).
     let p = procs s ! i in
     if p_state p = RUNNABLE \<and> sint (p_priority p) = highest
     then let s = upd_proc i (\<lambda>p. p\<lparr>p_state := RUNNING, p_runs := p_runs p + 1\<rparr>) s;
              s = s\<lparr>curp := Some i\<rparr>;
              s = run i s
          in (tr @ [i], s\<lparr>curp := None\<rparr>)
     else (tr, s))"

definition scheduler_round ::
  "(nat \<Rightarrow> 'a pstate_scheme \<Rightarrow> 'a pstate_scheme) \<Rightarrow> 'a pstate_scheme \<Rightarrow> nat list \<times> 'a pstate_scheme" where
  "scheduler_round run s =
     fold (dispatch run (highest_pass (procs s))) [0..<length (procs s)] ([], s)"

text \<open>The first \<open>n\<close> iterations of the scheduler loop.\<close>

fun scheduler ::
  "(nat \<Rightarrow> 'a pstate_scheme \<Rightarrow> 'a pstate_scheme) \<Rightarrow> nat \<Rightarrow> 'a pstate_scheme \<Rightarrow> nat list \<times> 'a pstate_scheme" where
  "scheduler run 0 s = ([], s\<lparr>curp := None\<rparr>)"
| "scheduler run (Suc n) s =
     (let (tr, s) = scheduler run n s; (tr', s) = scheduler_round run s in (tr @ tr', s))"

section \<open>Lock discipline of a context switch\<close>

definition acquire :: "nat \<Rightarrow> nat \<Rightarrow> 'a smp_scheme \<Rightarrow> ('a smp_scheme, unit) res" where
  "acquire c l s = bindr (acquire_enter c l s) (\<lambda>_ s.
     let (got, s) = test_and_set l s in if got then Ok () (acquire_record c l s) else Sleep s)"

definition release :: "nat \<Rightarrow> nat \<Rightarrow> 'a smp_scheme \<Rightarrow> ('a smp_scheme, unit) res" where
  "release c l s = bindr (release_enter c l s) (\<lambda>_ s. release_exit c l s)"

text \<open>\<open>sched\<close> up to the switch; its result is the saved \<open>intena\<close>, which it stores back on the
  processor \<open>d\<close> on which the process resumes.\<close>

definition sched :: "nat \<Rightarrow> nat \<Rightarrow> procstate \<Rightarrow> 'a smp_scheme \<Rightarrow> ('a smp_scheme, bool) res" where
  "sched c l st s =
     (if \<not> holding c l s then Panic ''sched p->lock''
      else if noff (cpus s c) \<noteq> 1 then Panic ''sched locks''
      else if st = RUNNING then Panic ''sched RUNNING''
      else if sie (cpus s c) then Panic ''sched interruptible''
      else Ok (intena (cpus s c)) s)"

definition sched_return :: "nat \<Rightarrow> bool \<Rightarrow> 'a smp_scheme \<Rightarrow> 'a smp_scheme" where
  "sched_return d ie s = upd_cpu d (\<lambda>k. k\<lparr>intena := ie\<rparr>) s"

text \<open>The lock operations of \<open>yield\<close> and \<open>sleep\<close> up to the switch: \<open>l\<close> is the lock of the calling
  process, \<open>lk\<close> the condition lock.\<close>

definition yield_locks :: "nat \<Rightarrow> nat \<Rightarrow> 'a smp_scheme \<Rightarrow> ('a smp_scheme, bool) res" where
  "yield_locks c l s = bindr (acquire c l s) (\<lambda>_ s. sched c l RUNNABLE s)"

definition sleep_locks :: "nat \<Rightarrow> nat \<Rightarrow> nat \<Rightarrow> 'a smp_scheme \<Rightarrow> ('a smp_scheme, bool) res" where
  "sleep_locks c l lk s =
     bindr (acquire c l s) (\<lambda>_ s. bindr (release c lk s) (\<lambda>_ s. sched c l SLEEPING s))"

section \<open>All processors together\<close>

text \<open>Where the scheduler thread of a processor is: in the first pass at a slot, in the second pass
  at a slot, or switched out to the process in a slot.\<close>

datatype sched_pc = Scan1 nat int | Scan2 nat int | Exec nat int

record machine = pstate +
  spc :: "nat \<Rightarrow> sched_pc"

definition at :: "nat \<Rightarrow> sched_pc \<Rightarrow> machine \<Rightarrow> machine" where
  "at c x s = s\<lparr>spc := (spc s)(c := x)\<rparr>"

definition set_state :: "nat \<Rightarrow> procstate \<Rightarrow> 'a pstate_scheme \<Rightarrow> 'a pstate_scheme" where
  "set_state i st s = upd_proc i (\<lambda>p. p\<lparr>p_state := st\<rparr>) s"

text \<open>The steps of a scheduler thread, and of the process it has switched to: leaving the processor
  (\<open>yield\<close>, \<open>sleep\<close>, \<open>kexit\<close>), waking, killing and setting priorities, and the changes of the table
  by \<open>allocproc\<close>, \<open>kfork\<close> and \<open>kwait\<close>. An interrupt handler wakes processes on any processor.\<close>

inductive machine_step :: "machine \<Rightarrow> machine \<Rightarrow> bool" where
  scan1: "spc s c = Scan1 i h \<Longrightarrow> i < length (procs s) \<Longrightarrow> p = procs s ! i \<Longrightarrow>
    h' = (if p_state p = RUNNABLE \<and> sint (p_priority p) < h then sint (p_priority p) else h) \<Longrightarrow>
    machine_step s (at c (Scan1 (Suc i) h') s)"
| scan1_end: "spc s c = Scan1 (length (procs s)) h \<Longrightarrow> machine_step s (at c (Scan2 0 h) s)"
| skip: "spc s c = Scan2 i h \<Longrightarrow> i < length (procs s) \<Longrightarrow> p = procs s ! i \<Longrightarrow>
    \<not> (p_state p = RUNNABLE \<and> sint (p_priority p) = h) \<Longrightarrow>
    machine_step s (at c (Scan2 (Suc i) h) s)"
| chosen: "spc s c = Scan2 i h \<Longrightarrow> i < length (procs s) \<Longrightarrow> p = procs s ! i \<Longrightarrow>
    p_state p = RUNNABLE \<and> sint (p_priority p) = h \<Longrightarrow>
    machine_step s (at c (Exec i h)
      (upd_proc i (\<lambda>p. p\<lparr>p_state := RUNNING, p_runs := p_runs p + 1\<rparr>) s))"
| scan2_end: "spc s c = Scan2 (length (procs s)) h \<Longrightarrow> machine_step s (at c (Scan1 0 9999) s)"
| yields: "spc s c = Exec i h \<Longrightarrow>
    machine_step s (at c (Scan2 (Suc i) h) ((yield (s\<lparr>curp := Some i\<rparr>))\<lparr>curp := None\<rparr>))"
| sleeps: "spc s c = Exec i h \<Longrightarrow> sleep ch (s\<lparr>curp := Some i\<rparr>) = (Sleep t :: (machine, unit) res) \<Longrightarrow>
    machine_step s (at c (Scan2 (Suc i) h) (t\<lparr>curp := None\<rparr>))"
| exits: "spc s c = Exec i h \<Longrightarrow> machine_step s (at c (Scan2 (Suc i) h) (set_state i ZOMBIE s))"
| wakes: "spc s c = Exec i h \<Longrightarrow>
    machine_step s ((wakeup ch (s\<lparr>curp := Some i\<rparr>))\<lparr>curp := None\<rparr>)"
| intr_wakes: "machine_step s ((wakeup ch (s\<lparr>curp := None\<rparr>))\<lparr>curp := None\<rparr>)"
| kills: "spc s c = Exec i h \<Longrightarrow> machine_step s (snd (kkill pid s))"
| sets: "spc s c = Exec i h \<Longrightarrow> machine_step s (snd (set_priority pid pr s))"
| allocs: "spc s c = Exec i h \<Longrightarrow> k < length (procs s) \<Longrightarrow> p_state (procs s ! k) = UNUSED \<Longrightarrow>
    machine_step s (upd_proc k (\<lambda>p. p\<lparr>p_state := USED, p_priority := 10, p_runs := 0\<rparr>) s)"
| forks: "spc s c = Exec i h \<Longrightarrow> k < length (procs s) \<Longrightarrow> p_state (procs s ! k) = USED \<Longrightarrow>
    machine_step s (set_state k RUNNABLE s)"
| reaps: "spc s c = Exec i h \<Longrightarrow> k < length (procs s) \<Longrightarrow>
    p_state (procs s ! k) = ZOMBIE \<or> p_state (procs s ! k) = USED \<Longrightarrow>
    machine_step s (set_state k UNUSED s)"


definition machine_init :: "machine \<Rightarrow> bool" where
  "machine_init s \<longleftrightarrow> (\<forall>c. spc s c = Scan1 0 9999) \<and>
     (\<forall>p \<in> set (procs s). p_state p \<noteq> RUNNING \<and> 0 \<le> sint (p_priority p) \<and> sint (p_priority p) \<le> 19)"

inductive machine_reach :: "machine \<Rightarrow> machine \<Rightarrow> bool" for s0 where
  start: "machine_reach s0 s0"
| step: "machine_reach s0 s \<Longrightarrow> machine_step s t \<Longrightarrow> machine_reach s0 t"

section \<open>The invariant of the machine\<close>

fun pc_ok :: "nat \<Rightarrow> sched_pc \<Rightarrow> bool" where
  "pc_ok n (Scan1 i h) \<longleftrightarrow> i \<le> n \<and> (h = 9999 \<or> 0 \<le> h \<and> h \<le> 19)"
| "pc_ok n (Scan2 i h) \<longleftrightarrow> i \<le> n \<and> (h = 9999 \<or> 0 \<le> h \<and> h \<le> 19)"
| "pc_ok n (Exec i h) \<longleftrightarrow> i < n \<and> 0 \<le> h \<and> h \<le> 19"

definition prio_ok :: "'a pstate_scheme \<Rightarrow> bool" where
  "prio_ok s \<longleftrightarrow> (\<forall>k < length (procs s).
     0 \<le> sint (p_priority (procs s ! k)) \<and> sint (p_priority (procs s ! k)) \<le> 19)"

definition machine_inv :: "machine \<Rightarrow> bool" where
  "machine_inv s \<longleftrightarrow> prio_ok s \<and> (\<forall>c. pc_ok (length (procs s)) (spc s c)) \<and>
     (\<forall>c i h. spc s c = Exec i h \<longrightarrow> p_state (procs s ! i) = RUNNING) \<and>
     (\<forall>c d i h g. spc s c = Exec i h \<longrightarrow> spc s d = Exec i g \<longrightarrow> c = d) \<and>
     (\<forall>k < length (procs s). p_state (procs s ! k) = RUNNING \<longrightarrow> (\<exists>c h. spc s c = Exec k h))"

lemma machine_invD:
  assumes "machine_inv s"
  shows "prio_ok s" "pc_ok (length (procs s)) (spc s c)"
    "spc s c = Exec i h \<Longrightarrow> p_state (procs s ! i) = RUNNING"
    "spc s c = Exec i h \<Longrightarrow> i < length (procs s)"
    "spc s c = Exec i h \<Longrightarrow> spc s d = Exec i g \<Longrightarrow> c = d"
    "k < length (procs s) \<Longrightarrow> p_state (procs s ! k) = RUNNING \<Longrightarrow> \<exists>c h. spc s c = Exec k h"
  using assms unfolding machine_inv_def by (blast, blast, blast, metis pc_ok.simps(3), blast, blast)

text \<open>Steps that keep which slots are running and where the scheduler threads are.\<close>

lemma machine_inv_table:
  assumes "machine_inv s" and "length (procs t) = length (procs s)" and "spc t = spc s" and "prio_ok t"
    and "\<And>k. k < length (procs s) \<Longrightarrow>
      (p_state (procs t ! k) = RUNNING) = (p_state (procs s ! k) = RUNNING)"
  shows "machine_inv t"
  using assms machine_invD(4) [OF assms(1)] unfolding machine_inv_def by metis

text \<open>Steps of a scheduler thread that is not switched out, which change no process.\<close>

lemma machine_inv_scan:
  assumes "machine_inv s" and "\<And>i h. spc s c \<noteq> Exec i h" and "pc_ok (length (procs s)) x"
    and "\<And>i h. x \<noteq> Exec i h"
  shows "machine_inv (at c x s)"
  using assms unfolding machine_inv_def prio_ok_def at_def by (simp; metis)

text \<open>The running process leaves processor \<open>c\<close>.\<close>

lemma machine_inv_leave:
  assumes inv: "machine_inv s" and c: "spc s c = Exec i h" and "spc t = spc s"
    and "length (procs t) = length (procs s)" and "prio_ok t" and "p_state (procs t ! i) \<noteq> RUNNING"
    and "\<And>k. k < length (procs s) \<Longrightarrow> k \<noteq> i \<Longrightarrow> procs t ! k = procs s ! k"
  shows "machine_inv (at c (Scan2 (Suc i) h) t)"
proof -
  have i: "i < length (procs s)" and h: "0 \<le> h \<and> h \<le> 19"
    using machine_invD(2) [OF inv, of c] c by auto
  have other: "j \<noteq> i" if "spc s d = Exec j g" "d \<noteq> c" for d j g
    using machine_invD(5) [OF inv] c that by blast
  let ?t = "at c (Scan2 (Suc i) h) t"
  have ex: "spc ?t d = Exec j g \<longleftrightarrow> d \<noteq> c \<and> spc s d = Exec j g" for d j g
    using assms(3) by (auto simp: at_def)
  have "procs ?t = procs t" "prio_ok ?t = prio_ok t" by (simp_all add: at_def prio_ok_def)
  moreover have "pc_ok (length (procs s)) (spc ?t d)" for d
    using machine_invD(2) [OF inv, of d] i h assms(3) by (simp add: at_def)
  moreover have "p_state (procs t ! j) = RUNNING" if "spc ?t d = Exec j g" for d j g
    using machine_invD(3,4) [OF inv] other assms(7) that unfolding ex by metis
  moreover have "d = e" if "spc ?t d = Exec j g" "spc ?t e = Exec j g'" for d e j g g'
    using machine_invD(5) [OF inv] that unfolding ex by blast
  moreover have "\<exists>d g. spc ?t d = Exec k g" if "k < length (procs s)" "p_state (procs t ! k) = RUNNING" for k
  proof -
    have k: "k \<noteq> i" using assms(6) that(2) by auto
    with assms(7) that have "p_state (procs s ! k) = RUNNING" by simp
    then have "\<exists>d g. spc s d = Exec k g" using machine_invD(6) [OF inv] that(1) by blast
    then obtain d g where "spc s d = Exec k g" by blast
    moreover from this k c have "d \<noteq> c" by auto
    ultimately show ?thesis unfolding ex by blast
  qed
  ultimately show ?thesis using assms(4,5) unfolding machine_inv_def by simp
qed

lemma machine_inv_init: "machine_init s \<Longrightarrow> machine_inv s"
  by (auto simp: machine_init_def machine_inv_def prio_ok_def)

lemma prio_ok_upd:
  assumes "prio_ok s" and "\<And>p. p_priority (f p) = p_priority p \<or>
    0 \<le> sint (p_priority (f p)) \<and> sint (p_priority (f p)) \<le> 19"
  shows "prio_ok (upd_proc i f s)"
  using assms unfolding prio_ok_def by (simp add: procs_upd_proc) metis

lemma prio_ok_curp [simp]: "prio_ok (s\<lparr>curp := c\<rparr>) = prio_ok s"
  by (simp add: prio_ok_def)

lemma prio_ok_wakeup: "prio_ok s \<Longrightarrow> prio_ok (wakeup ch s)"
  by (simp add: prio_ok_def procs_wakeup Let_def)

lemma spc_table [simp]:
  "spc (upd_proc i f s) = spc s" "spc (wakeup ch s) = spc s"
  by (simp_all add: upd_proc_def wakeup_def)

lemma machine_inv_chosen:
  assumes inv: "machine_inv s" and c: "spc s c = Scan2 i h" and i: "i < length (procs s)"
    and r: "p_state (procs s ! i) = RUNNABLE" and p: "sint (p_priority (procs s ! i)) = h"
  shows "machine_inv (at c (Exec i h)
    (upd_proc i (\<lambda>p. p\<lparr>p_state := RUNNING, p_runs := p_runs p + 1\<rparr>) s))" (is "machine_inv ?t")
proof -
  have ex: "spc ?t d = Exec j g \<longleftrightarrow> (if d = c then j = i \<and> g = h else spc s d = Exec j g)" for d j g
    by (auto simp: at_def)
  have st: "p_state (procs ?t ! k) = (if k = i then RUNNING else p_state (procs s ! k))"
      and pr: "p_priority (procs ?t ! k) = p_priority (procs s ! k)" if "k < length (procs s)" for k
    using that by (simp_all add: at_def procs_upd_proc)
  have len: "length (procs ?t) = length (procs s)" by (simp add: at_def)
  have h: "0 \<le> h \<and> h \<le> 19" using machine_invD(1) [OF inv] i p by (auto simp: prio_ok_def)
  have free: "spc s d \<noteq> Exec i g" for d g using machine_invD(3) [OF inv] r by force
  have "prio_ok ?t" using machine_invD(1) [OF inv] by (simp add: prio_ok_def pr len)
  moreover have "pc_ok (length (procs s)) (spc ?t d)" for d
    using machine_invD(2) [OF inv, of d] i h by (simp add: at_def)
  moreover have "p_state (procs ?t ! j) = RUNNING" if "spc ?t d = Exec j g" for d j g
  proof (cases "d = c")
    case True
    with that i show ?thesis by (simp add: ex st)
  next
    case False
    with that have "spc s d = Exec j g" by (simp add: ex)
    then show ?thesis using machine_invD(3,4) [OF inv] by (simp add: st)
  qed
  moreover have "d = e" if "spc ?t d = Exec j g" "spc ?t e = Exec j g'" for d e j g g'
    using machine_invD(5) [OF inv, of d j g e g'] free that unfolding ex by (auto split: if_splits)
  moreover have "\<exists>d g. spc ?t d = Exec k g" if k: "k < length (procs s)" "p_state (procs ?t ! k) = RUNNING" for k
  proof (cases "k = i")
    case True
    then have "spc ?t c = Exec k h" by (simp add: at_def)
    then show ?thesis by blast
  next
    case False
    with k have "p_state (procs s ! k) = RUNNING" by (simp add: st)
    then obtain d g where d: "spc s d = Exec k g" using machine_invD(6) [OF inv k(1)] by blast
    with c have "spc ?t d = Exec k g" by (auto simp: ex)
    then show ?thesis by blast
  qed
  ultimately show ?thesis unfolding machine_inv_def len by blast
qed

text \<open>Every step keeps the invariant.\<close>

lemma machine_step_inv: "machine_step s t \<Longrightarrow> machine_inv s \<Longrightarrow> machine_inv t"
proof (induction rule: machine_step.induct)
  case (scan1 s c i h p h')
  have "h = 9999 \<or> 0 \<le> h \<and> h \<le> 19" using machine_invD(2) [OF scan1.prems, of c] scan1.hyps(1) by simp
  moreover have "0 \<le> sint (p_priority p) \<and> sint (p_priority p) \<le> 19"
    using machine_invD(1) [OF scan1.prems] scan1.hyps(2,3) by (simp add: prio_ok_def)
  ultimately have "pc_ok (length (procs s)) (Scan1 (Suc i) h')"
    using scan1.hyps(2,4) by (simp split: if_splits)
  with scan1 show ?case by (intro machine_inv_scan) auto
next
  case (scan1_end s c h)
  then show ?case using machine_invD(2) [OF scan1_end.prems, of c] by (intro machine_inv_scan) auto
next
  case (skip s c i h p)
  then show ?case using machine_invD(2) [OF skip.prems, of c] by (intro machine_inv_scan) auto
next
  case (chosen s c i h p)
  then show ?case by (intro machine_inv_chosen) auto
next
  case (scan2_end s c h)
  then show ?case by (intro machine_inv_scan) auto
next
  case (yields s c i h)
  note i = machine_invD(4) [OF yields.prems yields.hyps]
  show ?case using yields i machine_invD(1) [OF yields.prems]
    by (intro machine_inv_leave [OF yields.prems]) (auto simp: yield_def procs_upd_proc intro!: prio_ok_upd)
next
  case (sleeps s c i h ch t)
  note i = machine_invD(4) [OF sleeps.prems sleeps.hyps(1)]
  have t: "t = upd_proc i (\<lambda>p. p\<lparr>p_chan := ch, p_state := SLEEPING\<rparr>) (s\<lparr>curp := Some i\<rparr>)"
    using sleeps.hyps(2) by (simp add: sleep_def)
  show ?case using sleeps.hyps(1) i machine_invD(1) [OF sleeps.prems] unfolding t
    by (intro machine_inv_leave [OF sleeps.prems]) (auto simp: procs_upd_proc intro!: prio_ok_upd)
next
  case (exits s c i h)
  note i = machine_invD(4) [OF exits.prems exits.hyps]
  show ?case using exits.hyps i machine_invD(1) [OF exits.prems]
    by (intro machine_inv_leave [OF exits.prems]) (auto simp: set_state_def procs_upd_proc intro!: prio_ok_upd)
next
  case (wakes s c i h ch)
  then show ?case using machine_invD(1) [OF wakes.prems]
    by (intro machine_inv_table [OF wakes.prems]) (auto simp: procs_wakeup Let_def intro!: prio_ok_wakeup)
next
  case (intr_wakes s ch)
  then show ?case using machine_invD(1) [OF intr_wakes]
    by (intro machine_inv_table [OF intr_wakes]) (auto simp: procs_wakeup Let_def intro!: prio_ok_wakeup)
next
  case (kills s c i h pid)
  show ?case using machine_invD(1) [OF kills.prems]
    by (intro machine_inv_table [OF kills.prems])
      (auto simp: kkill_def procs_upd_proc Let_def split: option.split if_splits intro!: prio_ok_upd)
next
  case (sets s c i h pid pr)
  show ?case using machine_invD(1) [OF sets.prems]
    by (intro machine_inv_table [OF sets.prems])
      (auto simp: set_priority_def procs_upd_proc split: option.split intro!: prio_ok_upd)
next
  case (allocs s c i h k)
  then show ?case using machine_invD(1) [OF allocs.prems]
    by (intro machine_inv_table [OF allocs.prems]) (auto simp: procs_upd_proc intro!: prio_ok_upd)
next
  case (forks s c i h k)
  then show ?case using machine_invD(1) [OF forks.prems]
    by (intro machine_inv_table [OF forks.prems]) (auto simp: set_state_def procs_upd_proc intro!: prio_ok_upd)
next
  case (reaps s c i h k)
  then show ?case using machine_invD(1) [OF reaps.prems]
    by (intro machine_inv_table [OF reaps.prems]) (auto simp: set_state_def procs_upd_proc intro!: prio_ok_upd)
qed

lemma machine_reach_inv: "machine_reach s0 s \<Longrightarrow> machine_init s0 \<Longrightarrow> machine_inv s"
  by (induction rule: machine_reach.induct) (auto intro: machine_inv_init machine_step_inv)

section \<open>What a round dispatches\<close>

text \<open>The first pass is a minimum.\<close>

lemma highest_fold:
  assumes "g = fold (\<lambda>p highest.
     if p_state p = RUNNABLE \<and> sint (p_priority p) < highest then sint (p_priority p) else highest) ps h"
  shows "g \<le> h \<and> (\<forall>p \<in> set ps. p_state p = RUNNABLE \<longrightarrow> g \<le> sint (p_priority p)) \<and>
    (g = h \<or> (\<exists>p \<in> set ps. p_state p = RUNNABLE \<and> g = sint (p_priority p)))"
  using assms
proof (induction ps arbitrary: h)
  case Nil
  then show ?case by simp
next
  case (Cons p ps)
  show ?case
  proof (cases "p_state p = RUNNABLE \<and> sint (p_priority p) < h")
    case True
    with Cons.prems have "g = fold (\<lambda>p highest. if p_state p = RUNNABLE \<and>
        sint (p_priority p) < highest then sint (p_priority p) else highest) ps (sint (p_priority p))"
      by simp
    from Cons.IH [OF this] True show ?thesis by auto
  next
    case False
    with Cons.prems have "g = fold (\<lambda>p highest. if p_state p = RUNNABLE \<and>
        sint (p_priority p) < highest then sint (p_priority p) else highest) ps h" by auto
    from Cons.IH [OF this] False show ?thesis by auto
  qed
qed

lemmas highest_pass_min = highest_fold [OF highest_pass_def, of ps for ps]

lemma highest_pass_eq:
  assumes "i < length ps" "p_state (ps ! i) = RUNNABLE" "sint (p_priority (ps ! i)) < 9999"
    and "\<And>k. k < length ps \<Longrightarrow> p_state (ps ! k) = RUNNABLE \<Longrightarrow>
      sint (p_priority (ps ! i)) \<le> sint (p_priority (ps ! k))"
  shows "highest_pass ps = sint (p_priority (ps ! i))"
proof -
  have "highest_pass ps \<le> sint (p_priority (ps ! i))"
    using highest_pass_min [of ps] assms(1,2) by simp
  moreover have "sint (p_priority (ps ! i)) \<le> highest_pass ps"
    using highest_pass_min [of ps] assms by (auto simp: in_set_conv_nth)
  ultimately show ?thesis by simp
qed

text \<open>A time slice: whatever the chosen process does, it leaves the other runnable processes
  runnable with their priorities. It may wake, create, kill or reap others, sleep or exit.\<close>

definition time_slice :: "(nat \<Rightarrow> 'a pstate_scheme \<Rightarrow> 'a pstate_scheme) \<Rightarrow> bool" where
  "time_slice run \<longleftrightarrow> (\<forall>i s. curp s = Some i \<longrightarrow> length (procs (run i s)) = length (procs s) \<and>
     (\<forall>k < length (procs s). k \<noteq> i \<longrightarrow> p_state (procs s ! k) = RUNNABLE \<longrightarrow>
        p_state (procs (run i s) ! k) = RUNNABLE \<and>
        p_priority (procs (run i s) ! k) = p_priority (procs s ! k)))"

lemma time_slice_yield: "time_slice (\<lambda>_. yield)"
  by (simp add: time_slice_def yield_def procs_upd_proc)

lemma dispatch_keeps:
  assumes "time_slice run" and "dispatch run h i (tr, s) = (tr', t)"
  shows "length (procs t) = length (procs s)"
    and "k < length (procs s) \<Longrightarrow> k \<noteq> i \<Longrightarrow> p_state (procs s ! k) = RUNNABLE \<Longrightarrow>
      p_state (procs t ! k) = RUNNABLE \<and> p_priority (procs t ! k) = p_priority (procs s ! k)"
    and "tr' = tr @ (if p_state (procs s ! i) = RUNNABLE \<and> sint (p_priority (procs s ! i)) = h
      then [i] else [])"
  using assms by (auto simp: dispatch_def time_slice_def procs_upd_proc Let_def split: if_splits)

lemma round_prefix:
  assumes "time_slice run" and "fold (dispatch run h) [0..<j] ([], s) = (tr, t)" and "j \<le> length (procs s)"
  shows "length (procs t) = length (procs s) \<and> sorted_wrt (<) tr \<and> set tr \<subseteq> {..<j} \<and>
    (\<forall>k < length (procs s). p_state (procs s ! k) = RUNNABLE \<longrightarrow>
       (if k < j then sint (p_priority (procs s ! k)) = h \<longrightarrow> k \<in> set tr
        else p_state (procs t ! k) = RUNNABLE \<and> p_priority (procs t ! k) = p_priority (procs s ! k)))"
  using assms(2,3)
proof (induction j arbitrary: tr t)
  case 0
  then show ?case by simp
next
  case (Suc j)
  obtain tr0 t0 where f: "fold (dispatch run h) [0..<j] ([], s) = (tr0, t0)" by fastforce
  with Suc.prems have d: "dispatch run h j (tr0, t0) = (tr, t)" by simp
  note IH = Suc.IH [OF f Suc_leD [OF Suc.prems(2)]] and K = dispatch_keeps [OF assms(1) d]
  have len: "length (procs t) = length (procs s)" using IH K(1) by simp
  have st: "sorted_wrt (<) tr \<and> set tr \<subseteq> {..<Suc j}"
    using IH unfolding K(3) by (auto simp: sorted_wrt_append)
  have run: "if k < Suc j then sint (p_priority (procs s ! k)) = h \<longrightarrow> k \<in> set tr
      else p_state (procs t ! k) = RUNNABLE \<and> p_priority (procs t ! k) = p_priority (procs s ! k)"
    if k: "k < length (procs s)" "p_state (procs s ! k) = RUNNABLE" for k
  proof (cases k j rule: linorder_cases)
    case less
    then show ?thesis using IH k unfolding K(3) by auto
  next
    case equal
    then show ?thesis using IH k unfolding K(3) by auto
  next
    case greater
    then have "p_state (procs t0 ! k) = RUNNABLE \<and> p_priority (procs t0 ! k) = p_priority (procs s ! k)"
      using IH k by auto
    then show ?thesis using K(2) [of k] IH k greater by auto
  qed
  show ?case using len st run by blast
qed

section \<open>Properties\<close>

text \<open>
  C1. Round robin among the best: in one iteration of the scheduler, every process that is runnable
  at its start with a priority number that no runnable process undercuts is chosen exactly once
  (the list of chosen slots is strictly increasing), whatever the chosen processes do in their
  slices short of taking a runnable process out of the ready state.
\<close>

theorem scheduler_round_robin:
  assumes "time_slice run" and "i < length (procs s)" and "p_state (procs s ! i) = RUNNABLE"
    and "sint (p_priority (procs s ! i)) < 9999"
    and "\<forall>k < length (procs s). p_state (procs s ! k) = RUNNABLE \<longrightarrow>
      sint (p_priority (procs s ! i)) \<le> sint (p_priority (procs s ! k))"
  shows "i \<in> set (fst (scheduler_round run s)) \<and> sorted_wrt (<) (fst (scheduler_round run s))"
proof -
  obtain tr t where r: "scheduler_round run s = (tr, t)" by fastforce
  have "highest_pass (procs s) = sint (p_priority (procs s ! i))"
    using assms by (intro highest_pass_eq) auto
  with r have "fold (dispatch run (sint (p_priority (procs s ! i)))) [0..<length (procs s)] ([], s) = (tr, t)"
    by (simp add: scheduler_round_def)
  from round_prefix [OF assms(1) this] assms(2,3) r show ?thesis by auto
qed

theorem scheduler_round_robin_witness:
  "let s = demo_table [demo_proc RUNNABLE 10, demo_proc RUNNABLE 3, demo_proc SLEEPING 0, demo_proc RUNNABLE 3]
   in 1 \<in> set (fst (scheduler_round (\<lambda>_. yield) s)) \<and> 3 \<in> set (fst (scheduler_round (\<lambda>_. yield) s))"
proof -
  let ?s = "demo_table [demo_proc RUNNABLE 10, demo_proc RUNNABLE 3, demo_proc SLEEPING 0, demo_proc RUNNABLE 3]"
  have d: "\<forall>k < length (procs ?s). p_state (procs ?s ! k) = RUNNABLE \<longrightarrow>
      3 \<le> sint (p_priority (procs ?s ! k))"
    by (auto simp: demo_table_def demo_proc_def less_Suc_eq nth_Cons')
  have "1 \<in> set (fst (scheduler_round (\<lambda>_. yield) ?s))"
    using scheduler_round_robin [OF time_slice_yield, of 1 ?s] d
    by (simp add: demo_table_def demo_proc_def)
  moreover have "3 \<in> set (fst (scheduler_round (\<lambda>_. yield) ?s))"
    using scheduler_round_robin [OF time_slice_yield, of 3 ?s] d
    by (simp add: demo_table_def demo_proc_def)
  ultimately show ?thesis by (simp add: Let_def)
qed

lemma starve_fold:
  assumes run: "\<forall>i s. curp s = Some i \<and> h < length (procs s) \<and> l < length (procs s) \<longrightarrow> length (procs (run i s)) = length (procs s) \<and>
      (p_state (procs s ! h) = RUNNABLE \<or> i = h \<longrightarrow> p_state (procs (run i s) ! h) = RUNNABLE) \<and>
      (\<forall>k \<in> {h, l}. p_priority (procs (run i s) ! k) = p_priority (procs s ! k))"
    and "l < length (procs s)" "h < length (procs s)" "p_state (procs s ! h) = RUNNABLE"
    and "g < sint (p_priority (procs s ! l))" and "\<forall>i \<in> set js. i < length (procs s)" and "l \<notin> set tr"
    and "fold (dispatch run g) js (tr, s) = (tr', t)"
  shows "length (procs t) = length (procs s) \<and> p_state (procs t ! h) = RUNNABLE \<and> l \<notin> set tr' \<and>
    (\<forall>k \<in> {h, l}. p_priority (procs t ! k) = p_priority (procs s ! k))"
  using assms(2-)
proof (induction js arbitrary: tr s)
  case Nil
  then show ?case by simp
next
  case (Cons i js)
  obtain tr1 s1 where d: "dispatch run g i (tr, s) = (tr1, s1)" by fastforce
  have "length (procs s1) = length (procs s) \<and> p_state (procs s1 ! h) = RUNNABLE \<and> l \<notin> set tr1 \<and>
      (\<forall>k \<in> {h, l}. p_priority (procs s1 ! k) = p_priority (procs s ! k))"
  proof (cases "p_state (procs s ! i) = RUNNABLE \<and> sint (p_priority (procs s ! i)) = g")
    case True
    let ?r = "upd_proc i (\<lambda>p. p\<lparr>p_state := RUNNING, p_runs := p_runs p + 1\<rparr>) s\<lparr>curp := Some i\<rparr>"
    have s1: "tr1 = tr @ [i]" "procs s1 = procs (run i ?r)"
      using d True by (auto simp: dispatch_def Let_def)
    have "i \<noteq> l" using True Cons.prems(4) by auto
    moreover have "procs ?r = (procs s)[i := (procs s ! i)\<lparr>p_state := RUNNING, p_runs := p_runs (procs s ! i) + 1\<rparr>]"
      by (simp add: upd_proc_def)
    moreover have "curp ?r = Some i" by simp
    ultimately show ?thesis
      using run [rule_format, of ?r i] Cons.prems(1-6) s1 by (cases "i = h") (auto simp: nth_list_update)
  next
    case False
    then show ?thesis using d Cons.prems(3,6) by (auto simp: dispatch_def Let_def)
  qed
  moreover have "fold (dispatch run g) js (tr1, s1) = (tr', t)" using Cons.prems(7) d by simp
  ultimately show ?case using Cons.IH [of s1 tr1] Cons.prems(1-5) by auto
qed

text \<open>
  C33. Strict priorities without ageing: as long as a process \<open>h\<close> gives up its slices only by being
  preempted, a process \<open>l\<close> with a larger priority number is never chosen, in any number of
  iterations of the scheduler.
\<close>

theorem scheduler_starvation:
  assumes run: "\<forall>i s. curp s = Some i \<and> h < length (procs s) \<and> l < length (procs s) \<longrightarrow> length (procs (run i s)) = length (procs s) \<and>
      (p_state (procs s ! h) = RUNNABLE \<or> i = h \<longrightarrow> p_state (procs (run i s) ! h) = RUNNABLE) \<and>
      (\<forall>k \<in> {h, l}. p_priority (procs (run i s) ! k) = p_priority (procs s ! k))"
    and "l < length (procs s)" and "h < length (procs s)" and "p_state (procs s ! h) = RUNNABLE"
    and "sint (p_priority (procs s ! h)) < sint (p_priority (procs s ! l))"
  shows "l \<notin> set (fst (scheduler run n s))"
proof -
  have "length (procs (snd (scheduler run n s))) = length (procs s) \<and>
    p_state (procs (snd (scheduler run n s)) ! h) = RUNNABLE \<and> l \<notin> set (fst (scheduler run n s)) \<and>
    (\<forall>k \<in> {h, l}. p_priority (procs (snd (scheduler run n s)) ! k) = p_priority (procs s ! k))"
  proof (induction n)
    case 0
    then show ?case using assms(4) by simp
  next
    case (Suc n)
    obtain tr t where n: "scheduler run n s = (tr, t)" by fastforce
    obtain tr' t' where r: "scheduler_round run t = (tr', t')" by fastforce
    have "highest_pass (procs t) \<le> sint (p_priority (procs t ! h))"
      using highest_pass_min [of "procs t"] Suc n assms(3) by (metis nth_mem snd_conv)
    with Suc n assms(5) have "highest_pass (procs t) < sint (p_priority (procs t ! l))" by simp
    then show ?case
      using starve_fold [OF run, where s = t and tr = "[]" and tr' = tr' and t = t'
          and g = "highest_pass (procs t)" and js = "[0..<length (procs t)]"] Suc n r assms(2,3)
      by (simp add: scheduler_round_def)
  qed
  then show ?thesis by blast
qed

theorem scheduler_starvation_witness:
  "let s = demo_table [demo_proc RUNNABLE 10, demo_proc RUNNABLE 3]
   in 0 \<notin> set (fst (scheduler (\<lambda>_. yield) 1000 s))"
proof -
  have "\<forall>i (s :: pstate). curp s = Some i \<and> 1 < length (procs s) \<and> 0 < length (procs s) \<longrightarrow>
      length (procs (yield s)) = length (procs s) \<and>
      (p_state (procs s ! 1) = RUNNABLE \<or> i = 1 \<longrightarrow> p_state (procs (yield s) ! 1) = RUNNABLE) \<and>
      (\<forall>k \<in> {1, 0}. p_priority (procs (yield s) ! k) = p_priority (procs s ! k))"
    by (simp add: yield_def procs_upd_proc)
  then show ?thesis
    using scheduler_starvation [where run = "\<lambda>_. yield" and h = 1 and l = 0 and n = 1000
        and s = "demo_table [demo_proc RUNNABLE 10, demo_proc RUNNABLE 3]"]
    by (simp add: demo_table_def demo_proc_def Let_def)
qed

text \<open>
  C2. On any number of processors, in every interleaving of scheduler passes with the yields,
  sleeps, exits, wakeups, kills, priority changes and table updates of the running processes: no
  process is on two processors at once, the processes in state \<open>RUNNING\<close> are exactly those on a
  processor, and every priority stays between 0 and 19.
\<close>

theorem scheduler_machine_safe:
  assumes "machine_init s0" and "machine_reach s0 s"
  shows "(spc s c = Exec i h \<and> spc s d = Exec i g \<longrightarrow> c = d) \<and>
    (k < length (procs s) \<longrightarrow> (p_state (procs s ! k) = RUNNING \<longleftrightarrow> (\<exists>c h. spc s c = Exec k h)) \<and>
      0 \<le> sint (p_priority (procs s ! k)) \<and> sint (p_priority (procs s ! k)) \<le> 19)"
  using machine_invD [OF machine_reach_inv [OF assms(2,1)]] unfolding prio_ok_def by metis

text \<open>One runnable process; processor 1 has finished its first pass and takes it.\<close>

theorem scheduler_machine_safe_witness:
  "\<exists>s0 s. machine_init s0 \<and> machine_reach s0 s \<and> spc s 1 = Exec 0 10 \<and> p_state (procs s ! 0) = RUNNING \<and>
     spc s 2 \<noteq> Exec 0 10"
proof -
  let ?s0 = "pstate.extend (demo_table [demo_proc RUNNABLE 10]) (machine.fields (\<lambda>_. Scan1 0 9999))"
  note defs = machine.defs pstate.defs demo_table_def demo_proc_def at_def upd_proc_def
  have i: "machine_init ?s0" by (simp add: machine_init_def defs)
  let ?s1 = "at 1 (Scan1 (Suc 0) 10) ?s0" let ?s2 = "at 1 (Scan2 0 10) ?s1"
  let ?s3 = "at 1 (Exec 0 10) (upd_proc 0 (\<lambda>p. p\<lparr>p_state := RUNNING, p_runs := p_runs p + 1\<rparr>) ?s2)"
  have "machine_step ?s0 (at 1 (Scan1 (Suc 0) 10) ?s0)"
    by (rule machine_step.scan1 [where h = 9999 and p = "demo_proc RUNNABLE 10"]) (simp_all add: defs)
  moreover have "machine_step ?s1 ?s2" by (rule machine_step.scan1_end) (simp add: defs)
  moreover have "machine_step ?s2 ?s3" by (rule machine_step.chosen [where p = "demo_proc RUNNABLE 10"]) (simp_all add: defs)
  ultimately have r: "machine_reach ?s0 ?s3" 
    using machine_reach.intros [of ?s0] by blast
  have e: "spc ?s3 1 = Exec 0 10" "0 < length (procs ?s3)" by (simp_all add: defs)
  have "p_state (procs ?s3 ! 0) = RUNNING \<and> spc ?s3 2 \<noteq> Exec 0 10"
    using scheduler_machine_safe [OF i r, of 1 0 10 2 10 0] e by auto
  with i r e show ?thesis by blast
qed

lemma acquire_free:
  assumes "\<not> locked (locks s l)"
  shows "acquire c l s = Ok () (upd_lock l (\<lambda>k. k\<lparr>locked := True, lkcpu := Some c\<rparr>) (push_off c s))"
  using assms
  by (simp add: acquire_def acquire_enter_def push_off_eq holding_def test_and_set_def
      acquire_record_def upd_lock_def Let_def)

lemma release_held:
  assumes "holding c l s" and "\<not> sie (cpus s c)" and "1 \<le> noff (cpus s c)"
  shows "release c l s = Ok () (s\<lparr>locks := (locks s)(l := \<lparr>locked = False, lkcpu = None\<rparr>),
    cpus := (cpus s)(c := (cpus s c)\<lparr>noff := noff (cpus s c) - 1,
      sie := (noff (cpus s c) = 1 \<and> intena (cpus s c))\<rparr>)\<rparr>)"
proof -
  have "release_exit c l (upd_lock l (\<lambda>k. k\<lparr>lkcpu := None\<rparr>) s) =
      Ok () (s\<lparr>locks := (locks s)(l := \<lparr>locked = False, lkcpu = None\<rparr>),
      cpus := (cpus s)(c := (cpus s c)\<lparr>noff := noff (cpus s c) - 1,
        sie := (noff (cpus s c) = 1 \<and> intena (cpus s c))\<rparr>)\<rparr>)"
    using assms(2,3) by (cases "locks s l") (simp add: release_exit_def pop_off_Ok upd_lock_def)
  then show ?thesis using assms(1) by (simp add: release_def release_enter_def)
qed

text \<open>
  C32. The lock discipline of a context switch: \<open>sleep\<close> called with exactly its condition lock held,
  and \<open>yield\<close> called with no lock held, pass all the checks of \<open>sched\<close>, and reach the switch with
  the condition lock free, the process lock held and interrupts off. With one more lock held,
  \<open>sleep\<close> panics.
\<close>

theorem context_switch_locks:
  assumes "\<not> locked (locks s l)" and "l \<noteq> lk"
  shows "(noff (cpus s c) = 0 \<longrightarrow> (\<exists>t. yield_locks c l s = Ok (sie (cpus s c)) t \<and> holding c l t)) \<and>
    (holding c lk s \<and> noff (cpus s c) = 1 \<longrightarrow> (\<exists>t. sleep_locks c l lk s = Ok (intena (cpus s c)) t \<and>
       holding c l t \<and> \<not> locked (locks t lk) \<and> \<not> sie (cpus t c))) \<and>
    (holding c lk s \<and> noff (cpus s c) > 1 \<longrightarrow> sleep_locks c l lk s = Panic ''sched locks'')"
proof -
  let ?a = "upd_lock l (\<lambda>k. k\<lparr>locked := True, lkcpu := Some c\<rparr>) (push_off c s)"
  have a: "acquire c l s = Ok () ?a" using assms(1) by (rule acquire_free)
  have lk: "holding c lk s \<Longrightarrow> holding c lk ?a" "\<not> sie (cpus ?a c)" "holding c l ?a"
    using assms(2) by (auto simp: holding_def upd_lock_def push_off_eq)
  have n: "noff (cpus ?a c) = noff (cpus s c) + 1" by (simp add: upd_lock_def push_off_eq)
  have 1: "noff (cpus s c) = 0 \<longrightarrow> (\<exists>t. yield_locks c l s = Ok (sie (cpus s c)) t \<and> holding c l t)"
    using lk n by (auto simp: yield_locks_def a sched_def upd_lock_def push_off_eq)
  have "release c lk ?a = Ok () (?a\<lparr>locks := (locks ?a)(lk := \<lparr>locked = False, lkcpu = None\<rparr>),
    cpus := (cpus ?a)(c := (cpus ?a c)\<lparr>noff := noff (cpus ?a c) - 1,
      sie := (noff (cpus ?a c) = 1 \<and> intena (cpus ?a c))\<rparr>)\<rparr>)" if "holding c lk s" "1 \<le> noff (cpus s c)"
    using that lk n by (intro release_held) auto
  then show ?thesis using 1 lk(3) n assms(2)
    by (auto simp: sleep_locks_def a sched_def holding_def upd_lock_def push_off_eq)
qed

theorem context_switch_locks_witness:
  "\<exists>t. yield_locks 0 3 (init_locks (\<lambda>_. True)) = Ok True t \<and> holding 0 3 t"
proof -
  have "\<not> locked (locks (init_locks (\<lambda>_. True)) 3)" "noff (cpus (init_locks (\<lambda>_. True)) 0) = 0"
      "sie (cpus (init_locks (\<lambda>_. True)) 0)"
    by (simp_all add: init_locks_def initlock_def)
  then show ?thesis using context_switch_locks [of "init_locks (\<lambda>_. True)" 3 4 0] by simp
qed

end
