(* ===== verification/Vm.thy ===== *)
theory Vm
  imports Procs
begin

text \<open>
  Sv39 page tables: \<open>kernel/vm.c\<close>. Page tables live in the byte memory of the allocator: an entry is
  the 64-bit word at \<open>pagetable + 8 * index\<close>. The functions that only need memory and the free list
  work on every state that extends \<open>kmem\<close>; those that fault in lazily allocated pages also need the
  current process.

  Kernel objects are not in the modelled memory, so \<open>copyout\<close> takes the bytes to copy and \<open>copyin\<close>
  returns the bytes it stored before it succeeded or failed.
\<close>

section \<open>Page table entries\<close>

definition PTE_V :: "64 word" where "PTE_V = push_bit 0 1"
definition PTE_R :: "64 word" where "PTE_R = push_bit 1 1"
definition PTE_W :: "64 word" where "PTE_W = push_bit 2 1"
definition PTE_X :: "64 word" where "PTE_X = push_bit 3 1"
definition PTE_U :: "64 word" where "PTE_U = push_bit 4 1"

definition PA2PTE :: "addr \<Rightarrow> 64 word" where
  "PA2PTE pa = push_bit 10 (drop_bit 12 pa)"

definition PTE2PA :: "64 word \<Rightarrow> addr" where
  "PTE2PA pte = push_bit 12 (drop_bit 10 pte)"

definition PTE_FLAGS :: "64 word \<Rightarrow> 64 word" where
  "PTE_FLAGS pte = pte AND 0x3FF"

definition PXSHIFT :: "nat \<Rightarrow> nat" where
  "PXSHIFT level = 12 + 9 * level"

definition PX :: "nat \<Rightarrow> 64 word \<Rightarrow> 64 word" where
  "PX level va = drop_bit (PXSHIFT level) va AND 0x1FF"

definition MAKE_SATP :: "addr \<Rightarrow> 64 word" where
  "MAKE_SATP pt = push_bit 60 8 OR drop_bit 12 pt"

section \<open>Walking and mapping\<close>

fun walk_from :: "nat \<Rightarrow> addr \<Rightarrow> 64 word \<Rightarrow> bool \<Rightarrow> 'a kmem_scheme \<Rightarrow> ('a kmem_scheme, addr) res" where
  "walk_from 0 pagetable va alloc s = Ok (pagetable + 8 * PX 0 va) s"
| "walk_from (Suc l) pagetable va alloc s =
     (let pte = pagetable + 8 * PX (Suc l) va; e = load64 (mem s) pte
      in if e AND PTE_V \<noteq> 0 then walk_from l (PTE2PA e) va alloc s
         else if \<not> alloc then Ok 0 s
         else bindr (kalloc s) (\<lambda>pagetable s.
           if pagetable = 0 then Ok 0 s
           else let s = s\<lparr>mem := memset (mem s) pagetable 0 (unat PGSIZE)\<rparr>;
                    s = s\<lparr>mem := store64 (mem s) pte (PA2PTE pagetable OR PTE_V)\<rparr>
                in walk_from l pagetable va alloc s))"

definition walk :: "addr \<Rightarrow> 64 word \<Rightarrow> bool \<Rightarrow> 'a kmem_scheme \<Rightarrow> ('a kmem_scheme, addr) res" where
  "walk pagetable va alloc s =
     (if va \<ge> MAXVA then Panic ''walk'' else walk_from 2 pagetable va alloc s)"

definition walkaddr :: "addr \<Rightarrow> 64 word \<Rightarrow> 'a kmem_scheme \<Rightarrow> ('a kmem_scheme, addr) res" where
  "walkaddr pagetable va s =
     (if va \<ge> MAXVA then Ok 0 s
      else bindr (walk pagetable va False s) (\<lambda>pte s.
        if pte = 0 then Ok 0 s
        else let e = load64 (mem s) pte in
          if e AND PTE_V = 0 then Ok 0 s
          else if e AND PTE_U = 0 then Ok 0 s
          else Ok (PTE2PA e) s))"

definition ismapped :: "addr \<Rightarrow> 64 word \<Rightarrow> 'a kmem_scheme \<Rightarrow> ('a kmem_scheme, bool) res" where
  "ismapped pagetable va s = bindr (walk pagetable va False s) (\<lambda>pte s.
     if pte = 0 then Ok False s else Ok (load64 (mem s) pte AND PTE_V \<noteq> 0) s)"

lemma walk_Ok_bound: "walk pt va al s = Ok a t \<Longrightarrow> va < MAXVA"
  by (auto simp: walk_def split: if_splits)

text \<open>Loops over virtual addresses end because \<open>walk\<close> panics from \<open>MAXVA\<close> on.\<close>

definition va_left :: "64 word \<Rightarrow> nat" where
  "va_left va = 2 ^ 39 - unat va"

lemma va_loop_decreases [intro]:
  assumes "va < MAXVA"
  shows "va_left (va + PGSIZE) < va_left va"
proof -
  have "unat va < 0x4000000000" using assms by (simp add: MAXVA_def word_less_nat_alt)
  then show ?thesis by (simp add: va_left_def PGSIZE_def unat_word_ariths(1))
qed

function mappages_from ::
  "addr \<Rightarrow> 64 word \<Rightarrow> 64 word \<Rightarrow> addr \<Rightarrow> 64 word \<Rightarrow> 'a kmem_scheme \<Rightarrow> ('a kmem_scheme, 32 word) res" where
  "mappages_from pagetable a la pa perm s = bindr (walk pagetable a True s) (\<lambda>pte s.
     if pte = 0 then Ok (-1) s
     else if load64 (mem s) pte AND PTE_V \<noteq> 0 then Panic ''mappages: remap''
     else let s = s\<lparr>mem := store64 (mem s) pte (PA2PTE pa OR perm OR PTE_V)\<rparr>
          in if a = la then Ok 0 s
             else mappages_from pagetable (a + PGSIZE) la (pa + PGSIZE) perm s)"
  by pat_completeness auto
termination
  by (relation "measure (\<lambda>(pt, a, la, pa, perm, s). va_left a)")
    (auto dest!: walk_Ok_bound simp del: bindr.simps)

declare mappages_from.simps [simp del]

definition mappages ::
  "addr \<Rightarrow> 64 word \<Rightarrow> 64 word \<Rightarrow> addr \<Rightarrow> 64 word \<Rightarrow> 'a kmem_scheme \<Rightarrow> ('a kmem_scheme, 32 word) res" where
  "mappages pagetable va sz pa perm s =
     (if va mod PGSIZE \<noteq> 0 then Panic ''mappages: va not aligned''
      else if sz mod PGSIZE \<noteq> 0 then Panic ''mappages: size not aligned''
      else if sz = 0 then Panic ''mappages: size''
      else mappages_from pagetable va (va + sz - PGSIZE) pa perm s)"

lemma mappages_Ok_bound: "mappages pt va n pa perm s = Ok r t \<Longrightarrow> va < MAXVA"
  by (auto simp: mappages_def mappages_from.simps [of pt va] bindr_eq_Ok dest: walk_Ok_bound split: if_splits)

definition uvmcreate :: "'a kmem_scheme \<Rightarrow> ('a kmem_scheme, addr) res" where
  "uvmcreate s = bindr (kalloc s) (\<lambda>pagetable s.
     if pagetable = 0 then Ok 0 s
     else Ok pagetable (s\<lparr>mem := memset (mem s) pagetable 0 (unat PGSIZE)\<rparr>))"

function uvmunmap_from ::
  "addr \<Rightarrow> 64 word \<Rightarrow> 64 word \<Rightarrow> bool \<Rightarrow> 'a kmem_scheme \<Rightarrow> ('a kmem_scheme, unit) res" where
  "uvmunmap_from pagetable a la do_free s =
     (if a < la
      then bindr (walk pagetable a False s) (\<lambda>pte s.
        if pte = 0 then uvmunmap_from pagetable (a + PGSIZE) la do_free s
        else let e = load64 (mem s) pte in
          if e AND PTE_V = 0 then uvmunmap_from pagetable (a + PGSIZE) la do_free s
          else bindr (if do_free then kfree (PTE2PA e) s else Ok () s) (\<lambda>_ s.
            uvmunmap_from pagetable (a + PGSIZE) la do_free (s\<lparr>mem := store64 (mem s) pte 0\<rparr>)))
      else Ok () s)"
  by pat_completeness auto
termination
  by (relation "measure (\<lambda>(pt, a, la, f, s). va_left a)")
    (auto dest!: walk_Ok_bound simp del: bindr.simps)

declare uvmunmap_from.simps [simp del]

definition uvmunmap ::
  "addr \<Rightarrow> 64 word \<Rightarrow> 64 word \<Rightarrow> bool \<Rightarrow> 'a kmem_scheme \<Rightarrow> ('a kmem_scheme, unit) res" where
  "uvmunmap pagetable va npages do_free s =
     (if va mod PGSIZE \<noteq> 0 then Panic ''uvmunmap: not aligned''
      else uvmunmap_from pagetable va (va + npages * PGSIZE) do_free s)"

section \<open>User memory\<close>

definition uvmdealloc ::
  "addr \<Rightarrow> 64 word \<Rightarrow> 64 word \<Rightarrow> 'a kmem_scheme \<Rightarrow> ('a kmem_scheme, 64 word) res" where
  "uvmdealloc pagetable oldsz newsz s =
     (if newsz \<ge> oldsz then Ok oldsz s
      else bindr
        (if PGROUNDUP newsz < PGROUNDUP oldsz
         then let npages = (ucast ((PGROUNDUP oldsz - PGROUNDUP newsz) div PGSIZE) :: 32 word)
              in uvmunmap pagetable (PGROUNDUP newsz) (scast npages) True s
         else Ok () s)
        (\<lambda>_ s. Ok newsz s))"

function uvmalloc_from ::
  "addr \<Rightarrow> 64 word \<Rightarrow> 64 word \<Rightarrow> 64 word \<Rightarrow> 64 word \<Rightarrow> 'a kmem_scheme \<Rightarrow> ('a kmem_scheme, 64 word) res" where
  "uvmalloc_from pagetable a oldsz newsz xperm s =
     (if a < newsz
      then bindr (kalloc s) (\<lambda>pg s.
        if pg = 0 then bindr (uvmdealloc pagetable a oldsz s) (\<lambda>_ s. Ok 0 s)
        else let s = s\<lparr>mem := memset (mem s) pg 0 (unat PGSIZE)\<rparr>
          in bindr (mappages pagetable a PGSIZE pg (PTE_R OR PTE_U OR xperm) s) (\<lambda>r s.
            if r \<noteq> 0
            then bindr (kfree pg s) (\<lambda>_ s. bindr (uvmdealloc pagetable a oldsz s) (\<lambda>_ s. Ok 0 s))
            else uvmalloc_from pagetable (a + PGSIZE) oldsz newsz xperm s))
      else Ok newsz s)"
  by pat_completeness auto
termination
  by (relation "measure (\<lambda>(pt, a, o1, n, x, s). va_left a)")
    (auto dest!: mappages_Ok_bound simp del: bindr.simps)

declare uvmalloc_from.simps [simp del]

definition uvmalloc ::
  "addr \<Rightarrow> 64 word \<Rightarrow> 64 word \<Rightarrow> 64 word \<Rightarrow> 'a kmem_scheme \<Rightarrow> ('a kmem_scheme, 64 word) res" where
  "uvmalloc pagetable oldsz newsz xperm s =
     (if newsz < oldsz then Ok oldsz s
      else let oldsz = PGROUNDUP oldsz in uvmalloc_from pagetable oldsz oldsz newsz xperm s)"

text \<open>The depth of a page table is decided by the data: the first argument bounds the recursion.\<close>

fun freewalk :: "nat \<Rightarrow> addr \<Rightarrow> 'a kmem_scheme \<Rightarrow> ('a kmem_scheme, unit) res" where
  "freewalk 0 pagetable s = Diverge"
| "freewalk (Suc d) pagetable s = bindr (forM [0..<512] (\<lambda>i s.
     let pte = load64 (mem s) (pagetable + 8 * of_nat i) in
     if pte AND PTE_V \<noteq> 0 \<and> pte AND (PTE_R OR PTE_W OR PTE_X) = 0
     then bindr (freewalk d (PTE2PA pte) s) (\<lambda>_ s.
       Ok () (s\<lparr>mem := store64 (mem s) (pagetable + 8 * of_nat i) 0\<rparr>))
     else if pte AND PTE_V \<noteq> 0 then Panic ''freewalk: leaf''
     else Ok () s) s) (\<lambda>_ s. kfree pagetable s)"

definition uvmfree :: "addr \<Rightarrow> 64 word \<Rightarrow> 'a kmem_scheme \<Rightarrow> ('a kmem_scheme, unit) res" where
  "uvmfree pagetable sz s =
     bindr (if sz > 0 then uvmunmap pagetable 0 (PGROUNDUP sz div PGSIZE) True s else Ok () s)
       (\<lambda>_ s. freewalk 3 pagetable s)"

function uvmcopy_from ::
  "addr \<Rightarrow> addr \<Rightarrow> 64 word \<Rightarrow> 64 word \<Rightarrow> 'a kmem_scheme \<Rightarrow> ('a kmem_scheme, 32 word) res" where
  "uvmcopy_from old new i sz s =
     (if i < sz
      then bindr (walk old i False s) (\<lambda>pte s.
        if pte = 0 then uvmcopy_from old new (i + PGSIZE) sz s
        else let e = load64 (mem s) pte in
          if e AND PTE_V = 0 then uvmcopy_from old new (i + PGSIZE) sz s
          else let pa = PTE2PA e; flags = PTE_FLAGS e in
            bindr (kalloc s) (\<lambda>pg s.
              if pg = 0 then bindr (uvmunmap new 0 (i div PGSIZE) True s) (\<lambda>_ s. Ok (-1) s)
              else let s = s\<lparr>mem := memmove (mem s) pg pa (unat PGSIZE)\<rparr>
                in bindr (mappages new i PGSIZE pg flags s) (\<lambda>r s.
                  if r \<noteq> 0
                  then bindr (kfree pg s) (\<lambda>_ s. bindr (uvmunmap new 0 (i div PGSIZE) True s) (\<lambda>_ s. Ok (-1) s))
                  else uvmcopy_from old new (i + PGSIZE) sz s)))
      else Ok 0 s)"
  by pat_completeness auto
termination
  by (relation "measure (\<lambda>(o1, n, i, sz, s). va_left i)")
    (auto dest!: walk_Ok_bound simp del: bindr.simps)

declare uvmcopy_from.simps [simp del]

definition uvmcopy :: "addr \<Rightarrow> addr \<Rightarrow> 64 word \<Rightarrow> 'a kmem_scheme \<Rightarrow> ('a kmem_scheme, 32 word) res" where
  "uvmcopy old new sz s = uvmcopy_from old new 0 sz s"

definition uvmclear :: "addr \<Rightarrow> 64 word \<Rightarrow> 'a kmem_scheme \<Rightarrow> ('a kmem_scheme, unit) res" where
  "uvmclear pagetable va s = bindr (walk pagetable va False s) (\<lambda>pte s.
     if pte = 0 then Panic ''uvmclear''
     else Ok () (s\<lparr>mem := store64 (mem s) pte (load64 (mem s) pte AND NOT PTE_U)\<rparr>))"

section \<open>Lazy allocation and copying between kernel and user space\<close>

definition vmfault :: "addr \<Rightarrow> 64 word \<Rightarrow> 'a pstate_scheme \<Rightarrow> ('a pstate_scheme, addr) res" where
  "vmfault pagetable va s =
     (let p = myproc s in
      if va \<ge> p_sz p then Ok 0 s
      else let va = PGROUNDDOWN va in
        bindr (ismapped pagetable va s) (\<lambda>b s.
          if b then Ok 0 s
          else bindr (kalloc s) (\<lambda>pg s.
            if pg = 0 then Ok 0 s
            else let s = s\<lparr>mem := memset (mem s) pg 0 (unat PGSIZE)\<rparr>
              in bindr (mappages (p_pagetable p) va PGSIZE pg (PTE_W OR PTE_U OR PTE_R) s) (\<lambda>r s.
                if r \<noteq> 0 then bindr (kfree pg s) (\<lambda>_ s. Ok 0 s) else Ok pg s))))"

text \<open>The number of bytes from \<open>va\<close> to the end of its page.\<close>

definition page_rest :: "64 word \<Rightarrow> nat" where
  "page_rest va = unat (PGSIZE - (va - PGROUNDDOWN va))"

lemma page_rest: "page_rest va = 4096 - unat va mod 4096"
proof -
  have "va - PGROUNDDOWN va = va mod PGSIZE" by (simp add: PGROUNDDOWN_alt)
  moreover have "unat (va mod PGSIZE) = unat va mod 4096" by (simp add: unat_mod_distrib)
  moreover have "va mod PGSIZE \<le> PGSIZE" by (simp add: word_le_nat_alt unat_mod_distrib less_imp_le)
  ultimately show ?thesis by (simp add: page_rest_def unat_sub_if_size word_le_nat_alt)
qed

lemma page_rest_pos [simp]: "0 < page_rest va"
  by (simp add: page_rest)

text \<open>A null \<open>pte\<close> would be dereferenced at address 0, which the kernel does not map: the machine
  stops in \<open>kerneltrap\<close>.\<close>

function copyout :: "addr \<Rightarrow> 64 word \<Rightarrow> byte list \<Rightarrow> 'a pstate_scheme \<Rightarrow> ('a pstate_scheme, 32 word) res" where
  "copyout pagetable dstva src s =
     (if src = [] then Ok 0 s
      else let va0 = PGROUNDDOWN dstva in
        if va0 \<ge> MAXVA then Ok (-1) s
        else bindr (bindr (walkaddr pagetable va0 s) (\<lambda>pa0 s.
              if pa0 = 0 then vmfault pagetable va0 s else Ok pa0 s)) (\<lambda>pa0 s.
          if pa0 = 0 then Ok (-1) s
          else bindr (walk pagetable va0 False s) (\<lambda>pte s.
            if pte = 0 then Panic ''kerneltrap''
            else if load64 (mem s) pte AND PTE_W = 0 then Ok (-1) s
            else let n = min (page_rest dstva) (length src);
                     s = s\<lparr>mem := wr (mem s) (pa0 + (dstva - va0)) (take n src)\<rparr>
                 in copyout pagetable (va0 + PGSIZE) (drop n src) s)))"
  by pat_completeness auto
termination
  by (relation "measure (\<lambda>(pt, va, src, s). length src)") auto

declare copyout.simps [simp del]

function copyin :: "addr \<Rightarrow> 64 word \<Rightarrow> nat \<Rightarrow> 'a pstate_scheme \<Rightarrow> ('a pstate_scheme, 32 word \<times> byte list) res" where
  "copyin pagetable srcva len s =
     (if len = 0 then Ok (0, []) s
      else let va0 = PGROUNDDOWN srcva in
        bindr (bindr (walkaddr pagetable va0 s) (\<lambda>pa0 s.
              if pa0 = 0 then vmfault pagetable va0 s else Ok pa0 s)) (\<lambda>pa0 s.
          if pa0 = 0 then Ok (-1, []) s
          else let n = min (page_rest srcva) len;
                   bs = rd (mem s) (pa0 + (srcva - va0)) n
               in bindr (copyin pagetable (va0 + PGSIZE) (len - n) s) (\<lambda>(r, cs) s. Ok (r, bs @ cs) s)))"
  by pat_completeness auto
termination
  by (relation "measure (\<lambda>(pt, va, len, s). len)") auto

declare copyin.simps [simp del]

text \<open>The inner loop of \<open>copyinstr\<close>: the bytes before a null byte among the \<open>n\<close> bytes at \<open>p\<close>, and
  whether there is one.\<close>

fun copyinstr_page :: "memory \<Rightarrow> addr \<Rightarrow> nat \<Rightarrow> bool \<times> byte list" where
  "copyinstr_page m p 0 = (False, [])"
| "copyinstr_page m p (Suc n) =
     (if m p = 0 then (True, [0])
      else let (got, bs) = copyinstr_page m (p + 1) n in (got, m p # bs))"

function copyinstr :: "addr \<Rightarrow> 64 word \<Rightarrow> nat \<Rightarrow> 'a pstate_scheme \<Rightarrow> ('a pstate_scheme, 32 word \<times> byte list) res" where
  "copyinstr pagetable srcva mx s =
     (if mx = 0 then Ok (-1, []) s
      else let va0 = PGROUNDDOWN srcva in
        bindr (walkaddr pagetable va0 s) (\<lambda>pa0 s.
          if pa0 = 0 then Ok (-1, []) s
          else let n = min (page_rest srcva) mx;
                   (got, bs) = copyinstr_page (mem s) (pa0 + (srcva - va0)) n
               in if got then Ok (0, bs) s
                  else bindr (copyinstr pagetable (va0 + PGSIZE) (mx - n) s) (\<lambda>(r, cs) s.
                    Ok (r, bs @ cs) s)))"
  by pat_completeness auto
termination
  by (relation "measure (\<lambda>(pt, va, mx, s). mx)") auto

declare copyinstr.simps [simp del]

section \<open>The kernel's page table\<close>

definition UART0 :: addr where "UART0 = 0x10000000"
definition VIRTIO0 :: addr where "VIRTIO0 = 0x10001000"
definition PLIC :: addr where "PLIC = 0x0c000000"

definition kvmmap ::
  "addr \<Rightarrow> 64 word \<Rightarrow> addr \<Rightarrow> 64 word \<Rightarrow> 64 word \<Rightarrow> 'a kmem_scheme \<Rightarrow> ('a kmem_scheme, unit) res" where
  "kvmmap kpgtbl va pa sz perm s = bindr (mappages kpgtbl va sz pa perm s) (\<lambda>r s.
     if r \<noteq> 0 then Panic ''kvmmap'' else Ok () s)"

definition proc_mapstacks :: "addr \<Rightarrow> 'a kmem_scheme \<Rightarrow> ('a kmem_scheme, unit) res" where
  "proc_mapstacks kpgtbl s = forM [0..<NPROC] (\<lambda>i s. bindr (kalloc s) (\<lambda>pa s.
     if pa = 0 then Panic ''kalloc''
     else kvmmap kpgtbl (KSTACK i) pa PGSIZE (PTE_R OR PTE_W) s)) s"

definition kvmmake :: "'a pstate_scheme \<Rightarrow> ('a pstate_scheme, addr) res" where
  "kvmmake s = bindr (kalloc s) (\<lambda>kpgtbl s.
     let s = s\<lparr>mem := memset (mem s) kpgtbl 0 (unat PGSIZE)\<rparr>; et = etext (ksym s) in
     bindr (kvmmap kpgtbl UART0 UART0 PGSIZE (PTE_R OR PTE_W) s) (\<lambda>_ s.
     bindr (kvmmap kpgtbl VIRTIO0 VIRTIO0 PGSIZE (PTE_R OR PTE_W) s) (\<lambda>_ s.
     bindr (kvmmap kpgtbl PLIC PLIC 0x4000000 (PTE_R OR PTE_W) s) (\<lambda>_ s.
     bindr (kvmmap kpgtbl KERNBASE KERNBASE (et - KERNBASE) (PTE_R OR PTE_X) s) (\<lambda>_ s.
     bindr (kvmmap kpgtbl et et (PHYSTOP - et) (PTE_R OR PTE_W) s) (\<lambda>_ s.
     bindr (kvmmap kpgtbl TRAMPOLINE (trampoline (ksym s)) PGSIZE (PTE_R OR PTE_X) s) (\<lambda>_ s.
     bindr (proc_mapstacks kpgtbl s) (\<lambda>_ s. Ok kpgtbl s))))))))"

definition kvminit :: "'a pstate_scheme \<Rightarrow> ('a pstate_scheme, unit) res" where
  "kvminit s = bindr (kvmmake s) (\<lambda>pt s. Ok () (s\<lparr>kernel_pagetable := pt\<rparr>))"

section \<open>Page tables of processes\<close>

definition proc_pagetable :: "nat \<Rightarrow> 'a pstate_scheme \<Rightarrow> ('a pstate_scheme, addr) res" where
  "proc_pagetable i s = bindr (uvmcreate s) (\<lambda>pagetable s.
     if pagetable = 0 then Ok 0 s
     else bindr (mappages pagetable TRAMPOLINE PGSIZE (trampoline (ksym s)) (PTE_R OR PTE_X) s) (\<lambda>r s.
       if sint r < 0 then bindr (uvmfree pagetable 0 s) (\<lambda>_ s. Ok 0 s)
       else bindr (mappages pagetable TRAPFRAME PGSIZE (p_trapframe (procs s ! i)) (PTE_R OR PTE_W) s) (\<lambda>r s.
         if sint r < 0
         then bindr (uvmunmap pagetable TRAMPOLINE 1 False s) (\<lambda>_ s.
           bindr (uvmfree pagetable 0 s) (\<lambda>_ s. Ok 0 s))
         else Ok pagetable s)))"

definition proc_freepagetable :: "addr \<Rightarrow> 64 word \<Rightarrow> 'a kmem_scheme \<Rightarrow> ('a kmem_scheme, unit) res" where
  "proc_freepagetable pagetable sz s =
     bindr (uvmunmap pagetable TRAMPOLINE 1 False s) (\<lambda>_ s.
     bindr (uvmunmap pagetable TRAPFRAME 1 False s) (\<lambda>_ s. uvmfree pagetable sz s))"

definition growproc :: "32 word \<Rightarrow> 'a pstate_scheme \<Rightarrow> ('a pstate_scheme, 32 word) res" where
  "growproc n s =
     (let p = myproc s; sz = p_sz p;
          fin = (\<lambda>sz s. Ok 0 (upd_proc (the (curp s)) (\<lambda>p. p\<lparr>p_sz := sz\<rparr>) s))
      in if sint n > 0
         then if sz + scast n > TRAPFRAME then Ok (-1) s
              else bindr (uvmalloc (p_pagetable p) sz (sz + scast n) PTE_W s) (\<lambda>sz s.
                if sz = 0 then Ok (-1) s else fin sz s)
         else if sint n < 0 then bindr (uvmdealloc (p_pagetable p) sz (sz + scast n) s) fin
         else fin sz s)"

text \<open>The pair of a flag \<open>user_dst\<close> and an address: a user address, a kernel address in the modelled
  memory, or an object of the caller (a local variable of the C function). For such an object the
  bytes to read are part of the source, and the bytes written are returned by the operations.\<close>

datatype dest = UserDst addr | KernDst addr | ObjDst
datatype source = UserSrc addr | KernSrc addr | ObjSrc "byte list"

fun dst_add :: "dest \<Rightarrow> nat \<Rightarrow> dest" where
  "dst_add (UserDst a) n = UserDst (a + of_nat n)"
| "dst_add (KernDst a) n = KernDst (a + of_nat n)"
| "dst_add ObjDst n = ObjDst"

fun src_add :: "source \<Rightarrow> nat \<Rightarrow> source" where
  "src_add (UserSrc a) n = UserSrc (a + of_nat n)"
| "src_add (KernSrc a) n = KernSrc (a + of_nat n)"
| "src_add (ObjSrc bs) n = ObjSrc (drop n bs)"

fun either_copyout :: "dest \<Rightarrow> byte list \<Rightarrow> 'a pstate_scheme \<Rightarrow> ('a pstate_scheme, 32 word) res" where
  "either_copyout (UserDst dst) src s = copyout (p_pagetable (myproc s)) dst src s"
| "either_copyout (KernDst dst) src s = Ok 0 (s\<lparr>mem := wr (mem s) dst src\<rparr>)"
| "either_copyout ObjDst src s = Ok 0 s"

fun either_copyin :: "source \<Rightarrow> nat \<Rightarrow> 'a pstate_scheme \<Rightarrow> ('a pstate_scheme, 32 word \<times> byte list) res" where
  "either_copyin (UserSrc src) len s = copyin (p_pagetable (myproc s)) src len s"
| "either_copyin (KernSrc src) len s = Ok (0, rd (mem s) src len) s"
| "either_copyin (ObjSrc bs) len s = Ok (0, take len bs) s"

end
