(* ===== verification/Pagetable.thy ===== *)
theory Pagetable
  imports Vm Sched
begin

text \<open>
  Correctness of the page-table code: a page table in memory is a tree of pages
  (\<open>pt_pages\<close>, \<open>pt_wf\<close>), and \<open>lookup\<close> is the abstract map from virtual addresses to entries that it
  stands for. \<open>walk\<close> with allocation grows the tree and keeps the map, \<open>mappages\<close> updates it at one
  page, and \<open>copyout\<close> and \<open>copyin\<close> are inverse through it.
\<close>

section \<open>Entries of a table page\<close>

definition entry :: "memory \<Rightarrow> addr \<Rightarrow> nat \<Rightarrow> 64 word" where
  "entry m pt i = load64 m (pt + 8 * of_nat i)"

definition idx :: "nat \<Rightarrow> 64 word \<Rightarrow> nat" where
  "idx l va = unat (PX l va)"

definition valid :: "64 word \<Rightarrow> bool" where
  "valid e \<longleftrightarrow> e AND PTE_V \<noteq> 0"

text \<open>Two memories agree on a page.\<close>

definition same :: "memory \<Rightarrow> memory \<Rightarrow> addr \<Rightarrow> bool" where
  "same m m' p \<longleftrightarrow> (\<forall>x. in_page p x \<longrightarrow> m' x = m x)"

lemma idx_less [simp]: "idx l va < 512"
proof -
  have "PX l va = take_bit 9 (drop_bit (PXSHIFT l) va)"
    by (simp add: PX_def take_bit_eq_mask mask_eq_exp_minus_1)
  then have "unat (PX l va) = take_bit 9 (unat (drop_bit (PXSHIFT l) va))"
    by (simp add: unsigned_take_bit_eq)
  then show ?thesis using take_bit_nat_less_exp [of 9] by (simp add: idx_def)
qed

lemma slot_idx: "pt + 8 * PX l va = pt + 8 * of_nat (idx l va)"
  by (simp add: idx_def ucast_id)

lemma entry_idx: "load64 m (pt + 8 * PX l va) = entry m pt (idx l va)"
  by (simp add: entry_def slot_idx)

lemma slot_of_nat: "(pt::addr) + 8 * of_nat i = pt + of_nat (8 * i)"
  by simp

lemma entry_same: "same m m' pt \<Longrightarrow> i < 512 \<Longrightarrow> entry m' pt i = entry m pt i"
  unfolding entry_def load64_def slot_of_nat same_def by (subst rd_page_cong [of pt m' m]) auto

lemma slots_apart:
  assumes "page pt" "i < 512" "j < 512" "i \<noteq> j"
  shows "apart (pt + 8 * of_nat i) 8 (pt + 8 * of_nat j) 8"
  unfolding slot_of_nat using assms page_bound [OF assms(1)]
  by (intro apart_natI) (auto simp: unat_page_off simp del: of_nat_mult)

lemma entry_store:
  assumes "page pt" "i < 512" "j < 512"
  shows "entry (store64 m (pt + 8 * of_nat i) v) pt j = (if j = i then v else entry m pt j)"
  using assms slots_apart [OF assms(1,2,3)] by (auto simp: entry_def load_store64_apart)

lemma store_slot_other:
  assumes "page pt" "i < 512" "\<not> in_page pt x"
  shows "store64 m (pt + 8 * of_nat i) v x = m x"
proof (rule store64_apart)
  have "unat (x - pt - of_nat (8 * i)) = unat (x - pt) - 8 * i"
    using assms(2,3) by (simp add: unat_sub_if_size word_size word_le_nat_alt unat_of_nat64 in_page_def
        del: of_nat_mult)
  then show "8 \<le> unat (x - (pt + 8 * of_nat i))"
    using assms(2,3) by (simp add: in_page_def diff_diff_eq)
qed

lemma slot_nonzero:
  assumes "page pt" "pt \<noteq> 0" "i < 512"
  shows "pt + 8 * of_nat i \<noteq> 0"
proof -
  have "unat (pt + of_nat (8 * i)) = unat pt + 8 * i" using assms by (intro unat_page_off) auto
  moreover have "0 < unat pt" using assms(2) by (simp add: unat_gt_0)
  ultimately have "unat (pt + of_nat (8 * i)) \<noteq> 0" by simp
  then show ?thesis unfolding slot_of_nat by (metis unat_0)
qed

lemma same_store_slot:
  assumes "page pt" "i < 512" "page q" "q \<noteq> pt"
  shows "same m (store64 m (pt + 8 * of_nat i) v) q"
  unfolding same_def using assms store_slot_other not_in_page by blast

lemma same_refl [simp]: "same m m p"
  by (simp add: same_def)

lemma same_trans: "same m1 m2 p \<Longrightarrow> same m2 m3 p \<Longrightarrow> same m1 m3 p"
  by (simp add: same_def)

lemma PTE2PA_PA2PTE:
  assumes "page p"
  shows "PTE2PA (PA2PTE p OR PTE_V) = p"
proof (rule bit_word_eqI)
  fix n assume n: "n < LENGTH(64)"
  have "take_bit 12 p = 0"
    using assms by (simp add: page_def PGSIZE_def take_bit_eq_mod)
  then have low: "n < 12 \<Longrightarrow> \<not> bit p n" by (metis bit_0_eq bit_take_bit_iff bot_apply bot_bool_def)
  show "bit (PTE2PA (PA2PTE p OR PTE_V)) n = bit p n"
  proof (cases "n < 12")
    case True
    then show ?thesis using low by (simp add: PTE2PA_def bit_simps)
  next
    case False
    then have "12 + (n - 12) = n" by simp
    then show ?thesis using n False by (auto simp: PTE2PA_def PA2PTE_def PTE_V_def bit_simps)
  qed
qed

lemma valid_PTE: "valid (e OR PTE_V)" "\<not> valid 0"
proof -
  have "bit ((e OR PTE_V) AND PTE_V) 0" by (simp add: PTE_V_def bit_simps)
  then show "valid (e OR PTE_V)" by (auto simp: valid_def)
qed (simp add: valid_def)

section \<open>The tree of a page table\<close>

fun pt_pages :: "memory \<Rightarrow> nat \<Rightarrow> addr \<Rightarrow> addr set" where
  "pt_pages m 0 pt = {pt}"
| "pt_pages m (Suc l) pt =
     insert pt (\<Union>i \<in> {i. i < 512 \<and> valid (entry m pt i)}. pt_pages m l (PTE2PA (entry m pt i)))"

fun pt_wf :: "memory \<Rightarrow> nat \<Rightarrow> addr \<Rightarrow> bool" where
  "pt_wf m 0 pt \<longleftrightarrow> page pt \<and> pt \<noteq> 0"
| "pt_wf m (Suc l) pt \<longleftrightarrow> page pt \<and> pt \<noteq> 0 \<and>
     (\<forall>i < 512. valid (entry m pt i) \<longrightarrow>
        pt_wf m l (PTE2PA (entry m pt i)) \<and> pt \<notin> pt_pages m l (PTE2PA (entry m pt i))) \<and>
     (\<forall>i < 512. \<forall>j < 512. i \<noteq> j \<longrightarrow> valid (entry m pt i) \<longrightarrow> valid (entry m pt j) \<longrightarrow>
        pt_pages m l (PTE2PA (entry m pt i)) \<inter> pt_pages m l (PTE2PA (entry m pt j)) = {})"

text \<open>The entry for a virtual address, 0 when a table page on the way is missing, and where it is.\<close>

fun lookup :: "memory \<Rightarrow> nat \<Rightarrow> addr \<Rightarrow> 64 word \<Rightarrow> 64 word" where
  "lookup m 0 pt va = entry m pt (idx 0 va)"
| "lookup m (Suc l) pt va =
     (let e = entry m pt (idx (Suc l) va) in if valid e then lookup m l (PTE2PA e) va else 0)"

fun leaf :: "memory \<Rightarrow> nat \<Rightarrow> addr \<Rightarrow> 64 word \<Rightarrow> addr option" where
  "leaf m 0 pt va = Some (pt + 8 * of_nat (idx 0 va))"
| "leaf m (Suc l) pt va =
     (let e = entry m pt (idx (Suc l) va) in if valid e then leaf m l (PTE2PA e) va else None)"

lemma lookup_leaf: "lookup m l pt va = (case leaf m l pt va of None \<Rightarrow> 0 | Some a \<Rightarrow> load64 m a)"
  by (induction l arbitrary: pt) (auto simp: Let_def entry_def)

lemma pt_wf_page: "pt_wf m l pt \<Longrightarrow> page pt \<and> pt \<noteq> 0"
  by (cases l) auto

lemma pt_self [simp]: "pt \<in> pt_pages m l pt"
  by (cases l) auto

lemma pt_pages_wf: "pt_wf m l pt \<Longrightarrow> p \<in> pt_pages m l pt \<Longrightarrow> page p \<and> p \<noteq> 0"
  by (induction l arbitrary: pt) auto

lemma pt_child:
  assumes "i < 512" "valid (entry m pt i)"
  shows "pt_pages m l (PTE2PA (entry m pt i)) \<subseteq> pt_pages m (Suc l) pt"
  using assms by auto

lemma pt_frame:
  assumes "\<And>p. p \<in> pt_pages m l pt \<Longrightarrow> same m m' p"
  shows "pt_pages m' l pt = pt_pages m l pt \<and> pt_wf m' l pt = pt_wf m l pt \<and>
    lookup m' l pt = lookup m l pt \<and> leaf m' l pt = leaf m l pt"
  using assms
proof (induction l arbitrary: pt)
  case 0
  then have "same m m' pt" by simp
  then show ?case by (auto simp: fun_eq_iff entry_same)
next
  case (Suc l)
  have e: "i < 512 \<Longrightarrow> entry m' pt i = entry m pt i" for i
    using Suc.prems [of pt] by (simp add: entry_same)
  have IH: "pt_pages m' l (PTE2PA (entry m pt i)) = pt_pages m l (PTE2PA (entry m pt i)) \<and>
      pt_wf m' l (PTE2PA (entry m pt i)) = pt_wf m l (PTE2PA (entry m pt i)) \<and>
      lookup m' l (PTE2PA (entry m pt i)) = lookup m l (PTE2PA (entry m pt i)) \<and>
      leaf m' l (PTE2PA (entry m pt i)) = leaf m l (PTE2PA (entry m pt i))"
    if "i < 512" "valid (entry m pt i)" for i
    using that Suc.prems by (intro Suc.IH) auto
  have "pt_pages m' (Suc l) pt = pt_pages m (Suc l) pt" using e IH by auto
  moreover have "pt_wf m' (Suc l) pt = pt_wf m (Suc l) pt"
    unfolding pt_wf.simps using e IH by (simp cong: imp_cong)
  moreover have "lookup m' (Suc l) pt = lookup m (Suc l) pt" "leaf m' (Suc l) pt = leaf m (Suc l) pt"
    using e IH by (auto simp: Let_def fun_eq_iff)
  ultimately show ?case by blast
qed

lemma leaf_slot:
  assumes "leaf m l pt va = Some a"
  shows "\<exists>p \<in> pt_pages m l pt. a = p + 8 * of_nat (idx 0 va)"
  using assms
proof (induction l arbitrary: pt)
  case 0
  then show ?case by simp
next
  case (Suc l)
  then have v: "valid (entry m pt (idx (Suc l) va))"
      and "leaf m l (PTE2PA (entry m pt (idx (Suc l) va))) va = Some a"
    by (auto simp: Let_def split: if_splits)
  from Suc.IH [OF this(2)] show ?case using pt_child [OF idx_less v, of l] by blast
qed

lemma walk_noalloc:
  "walk_from l pt va False s = Ok (case leaf (mem s) l pt va of None \<Rightarrow> 0 | Some a \<Rightarrow> a) s"
  by (induction l arbitrary: pt) (auto simp: Let_def slot_idx entry_def valid_def)

section \<open>Growing the tree\<close>

text \<open>An empty table page.\<close>

lemma pt_zero:
  assumes "page p" "p \<noteq> 0" "\<And>i. i < 512 \<Longrightarrow> entry m p i = 0"
  shows "pt_wf m l p \<and> pt_pages m l p = {p} \<and> lookup m l p va = 0"
  using assms by (cases l) (auto simp: valid_PTE Let_def)

text \<open>What stays of a table when only the pages of one child and some foreign pages change.\<close>

lemma pt_lift:
  assumes wf: "pt_wf m (Suc l) pt" and i: "i < 512" and v: "valid (entry m pt i)"
    and c: "c = PTE2PA (entry m pt i)"
    and F: "F \<inter> pt_pages m (Suc l) pt = {}"
    and same: "\<And>q. page q \<Longrightarrow> q \<notin> pt_pages m l c \<Longrightarrow> q \<notin> F \<Longrightarrow> same m m' q"
    and wf': "pt_wf m' l c" and sub: "pt_pages m' l c \<subseteq> pt_pages m l c \<union> F"
    and mono: "pt_pages m l c \<subseteq> pt_pages m' l c" and lk: "lookup m' l c = lookup m l c"
  shows "pt_wf m' (Suc l) pt \<and> pt_pages m' (Suc l) pt \<subseteq> pt_pages m (Suc l) pt \<union> F \<and>
    pt_pages m (Suc l) pt \<subseteq> pt_pages m' (Suc l) pt \<and> lookup m' (Suc l) pt = lookup m (Suc l) pt \<and>
    entry m' pt i = entry m pt i"
proof -
  let ?P = "\<lambda>m j. pt_pages m l (PTE2PA (entry m pt j))"
  have pt: "page pt" "pt \<noteq> 0" "pt \<notin> pt_pages m l c" "pt \<notin> F" using wf i v c F by auto
  then have e: "j < 512 \<Longrightarrow> entry m' pt j = entry m pt j" for j by (simp add: entry_same same)
  have fr: "?P m' j = ?P m j \<and> pt_wf m' l (PTE2PA (entry m pt j)) = pt_wf m l (PTE2PA (entry m pt j)) \<and>
      lookup m' l (PTE2PA (entry m pt j)) = lookup m l (PTE2PA (entry m pt j))"
    if j: "j < 512" "valid (entry m pt j)" "j \<noteq> i" for j
  proof -
    have "pt_wf m l (PTE2PA (entry m pt j))" "?P m i \<inter> ?P m j = {}" using wf i v j by simp_all
    moreover have "?P m j \<inter> F = {}" using F j by auto
    ultimately have "same m m' q" if "q \<in> ?P m j" for q
      using that c pt_pages_wf [of m l _ q] by (intro same) blast+
    from pt_frame [OF this] show ?thesis using e j by auto
  qed
  have ci: "?P m' i = pt_pages m' l c" "?P m i = pt_pages m l c" using e i c by simp_all
  have val: "j < 512 \<Longrightarrow> valid (entry m' pt j) = valid (entry m pt j)" for j using e by simp
  have up: "?P m' j \<subseteq> ?P m j \<union> F" "?P m j \<subseteq> ?P m' j" if "j < 512" "valid (entry m pt j)" for j
    using fr [OF that] ci sub mono by (cases "j = i"; blast)+
  have 1: "pt_pages m' (Suc l) pt \<subseteq> pt_pages m (Suc l) pt \<union> F"
      "pt_pages m (Suc l) pt \<subseteq> pt_pages m' (Suc l) pt"
    using up val by (fastforce simp: )+
  have 2: "lookup m' (Suc l) pt = lookup m (Suc l) pt"
  proof
    fix va
    show "lookup m' (Suc l) pt va = lookup m (Suc l) pt va"
      using e [OF idx_less, of "Suc l" va] fr [OF idx_less, of "Suc l" va] lk c
      by (cases "idx (Suc l) va = i") (auto simp: Let_def)
  qed
  have "?P m' j \<inter> ?P m' k = {}" if "j < 512" "k < 512" "j \<noteq> k" "valid (entry m pt j)" "valid (entry m pt k)" for j k
  proof -
    have "?P m j \<inter> ?P m k = {}" using wf that by simp
    moreover have "?P m j \<inter> F = {}" "?P m k \<inter> F = {}" using F that by auto
    ultimately show ?thesis
      using fr [of j] fr [of k] up [of j] up [of k] that e by (cases "j = i"; cases "k = i"; auto)
  qed
  moreover have "pt_wf m' l (PTE2PA (entry m' pt j)) \<and> pt \<notin> ?P m' j" if "j < 512" "valid (entry m pt j)" for j
  proof (cases "j = i")
    case True
    then show ?thesis using wf' sub pt e i c by auto
  next
    case False
    then show ?thesis using fr [OF that False] wf that e by simp
  qed
  ultimately have "pt_wf m' (Suc l) pt" using pt(1,2) val unfolding pt_wf.simps by blast
  with 1 2 e i show ?thesis by blast
qed

text \<open>Hanging an empty page below a missing entry.\<close>

lemma pt_hang:
  assumes wf: "pt_wf m (Suc l) pt" and i: "i < 512" and v: "\<not> valid (entry m pt i)"
    and p: "page p" "p \<noteq> 0" "p \<notin> pt_pages m (Suc l) pt"
    and same: "\<And>q. page q \<Longrightarrow> q \<noteq> pt \<Longrightarrow> q \<noteq> p \<Longrightarrow> same m m' q"
    and e: "\<And>j. j < 512 \<Longrightarrow> entry m' pt j = (if j = i then PA2PTE p OR PTE_V else entry m pt j)"
    and z: "\<And>j. j < 512 \<Longrightarrow> entry m' p j = 0"
  shows "pt_wf m' (Suc l) pt \<and> pt_pages m' (Suc l) pt = insert p (pt_pages m (Suc l) pt) \<and>
    lookup m' (Suc l) pt = lookup m (Suc l) pt"
proof -
  have c: "PTE2PA (entry m' pt i) = p" "valid (entry m' pt i)"
    using e i p by (simp_all add: PTE2PA_PA2PTE valid_PTE)
  have z': "pt_wf m' l p" "pt_pages m' l p = {p}" "lookup m' l p va = 0" for va
    using pt_zero [OF p(1,2) z] by auto
  have e': "entry m' pt j = entry m pt j" if "j < 512" "j \<noteq> i" for j using e that by simp
  have fr: "pt_pages m' l (PTE2PA (entry m pt j)) = pt_pages m l (PTE2PA (entry m pt j)) \<and>
      pt_wf m' l (PTE2PA (entry m pt j)) = pt_wf m l (PTE2PA (entry m pt j)) \<and>
      lookup m' l (PTE2PA (entry m pt j)) = lookup m l (PTE2PA (entry m pt j))"
    if j: "j < 512" "valid (entry m pt j)" for j
  proof -
    have "pt_wf m l (PTE2PA (entry m pt j))" using wf j by simp
    then have "same m m' q" if "q \<in> pt_pages m l (PTE2PA (entry m pt j))" for q
      using that wf j p pt_pages_wf [of m l _ q] by (intro same) auto
    from pt_frame [OF this] show ?thesis by blast
  qed
  have S: "{j. j < 512 \<and> valid (entry m' pt j)} = insert i {j. j < 512 \<and> valid (entry m pt j)}"
    using c i e' v by (auto split: if_splits) (metis)+
  have 1: "pt_pages m' (Suc l) pt = insert p (pt_pages m (Suc l) pt)"
  proof -
    have "pt_pages m' l (PTE2PA (entry m' pt j)) = pt_pages m l (PTE2PA (entry m pt j))"
      if "j < 512" "valid (entry m pt j)" for j
      using that v e' fr by (cases "j = i") auto
    then show ?thesis unfolding pt_pages.simps S using c z' by auto
  qed
  have 2: "lookup m' (Suc l) pt = lookup m (Suc l) pt"
  proof
    fix va
    show "lookup m' (Suc l) pt va = lookup m (Suc l) pt va"
      using e' [OF idx_less, of "Suc l" va] fr [OF idx_less, of "Suc l" va] c z' v
      by (cases "idx (Suc l) va = i") (auto simp: Let_def)
  qed
  have "pt_wf m' l (PTE2PA (entry m' pt j)) \<and> pt \<notin> pt_pages m' l (PTE2PA (entry m' pt j))"
    if "j < 512" "valid (entry m' pt j)" for j
    using that c z' p(3) e' fr wf by (cases "j = i") auto
  moreover have "pt_pages m' l (PTE2PA (entry m' pt j)) \<inter> pt_pages m' l (PTE2PA (entry m' pt k)) = {}"
    if "j < 512" "k < 512" "j \<noteq> k" "valid (entry m' pt j)" "valid (entry m' pt k)" for j k
  proof -
    have "p \<notin> pt_pages m l (PTE2PA (entry m pt n))" if "n < 512" "valid (entry m pt n)" for n
      using p(3) that by auto
    then show ?thesis using that c z' e' fr wf by (cases "j = i"; cases "k = i"; auto)
  qed
  ultimately have "pt_wf m' (Suc l) pt" using wf unfolding pt_wf.simps by blast
  with 1 2 show ?thesis by blast
qed

section \<open>Walking with allocation\<close>

lemma kmem_inv_frame:
  assumes "kmem_inv s ps" and "\<And>p. p \<in> set ps \<Longrightarrow> same (mem s) m' p"
  shows "kmem_inv (s\<lparr>mem := m'\<rparr>) ps"
proof -
  have "load64 m' p = load64 (mem s) p" if "p \<in> set ps" for p
    using assms(2) [OF that] by (intro load64_page_cong) (simp add: same_def)
  then have "flist m' (freelist s) ps = flist (mem s) (freelist s) ps" by (rule flist_frame)
  then show ?thesis using assms(1) by (simp add: kmem_inv_def usable_def)
qed

lemma usable_mem [simp]: "usable (s\<lparr>mem := m\<rparr>) = usable s"
  by (simp add: usable_def fun_eq_iff)

lemma kmem_inv_pages: "kmem_inv s ps \<Longrightarrow> p \<in> set ps \<Longrightarrow> page p \<and> p \<noteq> 0"
  by (auto simp: kmem_inv_def usable_def)

text \<open>From \<open>s\<close> to \<open>t\<close> the table grew by pages taken from the free list and kept its map.\<close>

definition pt_grows ::
  "'a kmem_scheme \<Rightarrow> 'a kmem_scheme \<Rightarrow> nat \<Rightarrow> addr \<Rightarrow> addr list \<Rightarrow> addr list \<Rightarrow> bool" where
  "pt_grows s t l pt ps ps' \<longleftrightarrow>
     kmem_inv t ps' \<and> set ps' \<subseteq> set ps \<and> usable t = usable s \<and> t = s\<lparr>mem := mem t, freelist := freelist t\<rparr> \<and>
     pt_wf (mem t) l pt \<and> pt_pages (mem t) l pt \<subseteq> pt_pages (mem s) l pt \<union> (set ps - set ps') \<and>
     pt_pages (mem s) l pt \<subseteq> pt_pages (mem t) l pt \<and> lookup (mem t) l pt = lookup (mem s) l pt \<and>
     (\<forall>q. page q \<longrightarrow> q \<notin> pt_pages (mem s) l pt \<longrightarrow> q \<notin> set ps - set ps' \<longrightarrow> same (mem s) (mem t) q)"

lemma pt_grows_refl: "kmem_inv s ps \<Longrightarrow> pt_wf (mem s) l pt \<Longrightarrow> pt_grows s s l pt ps ps"
  by (simp add: pt_grows_def)

lemma pt_grows_lift:
  assumes g: "pt_grows s t l c ps ps'" and wf: "pt_wf (mem s) (Suc l) pt" and i: "i < 512"
    and v: "valid (entry (mem s) pt i)" and c: "c = PTE2PA (entry (mem s) pt i)"
    and F: "pt_pages (mem s) (Suc l) pt \<inter> set ps = {}"
  shows "pt_grows s t (Suc l) pt ps ps' \<and> entry (mem t) pt i = entry (mem s) pt i"
proof -
  have "pt_wf (mem t) (Suc l) pt \<and>
    pt_pages (mem t) (Suc l) pt \<subseteq> pt_pages (mem s) (Suc l) pt \<union> (set ps - set ps') \<and>
    pt_pages (mem s) (Suc l) pt \<subseteq> pt_pages (mem t) (Suc l) pt \<and>
    lookup (mem t) (Suc l) pt = lookup (mem s) (Suc l) pt \<and> entry (mem t) pt i = entry (mem s) pt i"
    using g F unfolding pt_grows_def by (intro pt_lift [OF wf i v c]) auto
  moreover have "same (mem s) (mem t) q"
    if "page q" "q \<notin> pt_pages (mem s) (Suc l) pt" "q \<notin> set ps - set ps'" for q
  proof -
    have "q \<notin> pt_pages (mem s) l c" using that(2) pt_child [OF i v] c by blast
    then show ?thesis using g that unfolding pt_grows_def by blast
  qed
  ultimately show ?thesis using g unfolding pt_grows_def by blast
qed

lemma entry_memset:
  assumes "j < 512"
  shows "entry (memset m p 0 4096) p j = 0"
proof -
  have "rd (wr m p (replicate 4096 0)) (p + of_nat (8 * j)) 8 = replicate 8 0"
    using assms by (intro nth_equalityI)
      (auto simp: wr_def unat_of_nat64 add.assoc simp flip: of_nat_add of_nat_mult simp del: of_nat_mult of_nat_add)
  then show ?thesis unfolding entry_def load64_def slot_of_nat by (simp add: wr_replicate del: of_nat_mult)
qed

text \<open>The page \<open>kalloc\<close> returned is cleared and hung below the entry.\<close>

lemma kalloc_hang:
  assumes inv: "kmem_inv s (p # qs)" and wf: "pt_wf (mem s) (Suc l) pt" and i: "i < 512"
    and v: "\<not> valid (entry (mem s) pt i)" and F: "pt_pages (mem s) (Suc l) pt \<inter> set (p # qs) = {}"
    and k: "kalloc s = Ok p t1"
    and t: "t = t1\<lparr>mem := store64 (memset (mem t1) p 0 4096) (pt + 8 * of_nat i) (PA2PTE p OR PTE_V)\<rparr>"
  shows "pt_grows s t (Suc l) pt (p # qs) qs \<and> valid (entry (mem t) pt i) \<and> PTE2PA (entry (mem t) pt i) = p \<and>
    pt_pages (mem t) l p = {p} \<and> pt_wf (mem t) l p"
proof -
  from kalloc_some [OF inv] k have t1: "kmem_inv t1 qs" "usable t1 = usable s"
      "\<And>x. \<not> in_page p x \<Longrightarrow> mem t1 x = mem s x"
    by auto
  have fr: "t1 = s\<lparr>mem := mem t1, freelist := freelist t1\<rparr>"
    using k by (auto simp: kalloc_def Let_def)
  have p: "page p" "p \<noteq> 0" "p \<notin> set qs" using kmem_inv_pages [OF inv, of p] inv by (auto simp: kmem_inv_def)
  have pt: "page pt" "pt \<noteq> p" "pt \<notin> set qs" using wf F by auto
  let ?z = "memset (mem t1) p 0 4096"
  have other: "same (mem s) (mem t) q" if q: "page q" "q \<noteq> p" "q \<noteq> pt" for q
  proof -
    have "same (mem s) ?z q"
      using t1(3) not_in_page [OF p(1) q(1)] q(2) by (auto simp: same_def memset_page_other)
    then show ?thesis unfolding t using same_store_slot [OF pt(1) i q(1,3)] by (auto intro: same_trans)
  qed
  have "same (mem s) ?z pt"
    using t1(3) not_in_page [OF p(1) pt(1)] pt(2) by (auto simp: same_def memset_page_other)
  then have e: "entry (mem t) pt j = (if j = i then PA2PTE p OR PTE_V else entry (mem s) pt j)" if "j < 512" for j
    unfolding t using that i pt(1) by (simp add: entry_store entry_same)
  have z: "entry (mem t) p j = 0" if "j < 512" for j
  proof -
    have "entry (mem t) p j = entry ?z p j"
      unfolding t using that same_store_slot [OF pt(1) i p(1)] pt(2) by (simp add: entry_same)
    also have "\<dots> = 0" by (rule entry_memset [OF that])
    finally show ?thesis .
  qed
  note h = pt_hang [OF wf i v p(1,2) _ other e z]
  have "p \<notin> pt_pages (mem s) (Suc l) pt" using F by auto
  note h = h [OF this]
  have "kmem_inv t qs" unfolding t
  proof (rule kmem_inv_frame [OF t1(1)])
    fix q assume q: "q \<in> set qs"
    then have "page q" "q \<noteq> p" "q \<noteq> pt" using kmem_inv_pages [OF t1(1)] p pt by auto
    then show "same (mem t1) (store64 ?z (pt + 8 * of_nat i) (PA2PTE p OR PTE_V)) q"
      using same_store_slot [OF pt(1) i] not_in_page [OF p(1), of q]
      by (auto simp: memset_page_other same_def)
  qed
  moreover have "usable t = usable s" using t1(2) by (simp add: t)
  moreover have "t = s\<lparr>mem := mem t, freelist := freelist t\<rparr>" unfolding t by (subst fr) simp
  moreover have "set (p # qs) - set qs = {p}" using p by auto
  moreover have "\<forall>q. page q \<longrightarrow> q \<notin> pt_pages (mem s) (Suc l) pt \<longrightarrow> q \<noteq> p \<longrightarrow> same (mem s) (mem t) q"
    using other pt_self by metis
  ultimately have "pt_grows s t (Suc l) pt (p # qs) qs"
    unfolding pt_grows_def using h by (auto simp del: pt_pages.simps pt_wf.simps lookup.simps)
  then show ?thesis using e [OF i] z pt_zero [OF p(1,2), of "mem t" l] p(1)
    by (simp add: PTE2PA_PA2PTE valid_PTE)
qed

lemma pt_grows_trans:
  assumes a: "pt_grows s t l pt ps qs" and b: "pt_grows t u l pt qs rs"
    and F: "pt_pages (mem s) l pt \<inter> set ps = {}"
  shows "pt_grows s u l pt ps rs"
proof -
  have "same (mem s) (mem u) q"
    if q: "page q" "q \<notin> pt_pages (mem s) l pt" "q \<notin> set ps - set rs" for q
  proof -
    have "q \<notin> set ps - set qs" using q(3) b unfolding pt_grows_def by blast
    then have 1: "same (mem s) (mem t) q" using a q unfolding pt_grows_def by blast
    have "q \<notin> set qs - set rs" "q \<notin> pt_pages (mem t) l pt"
      using a b q unfolding pt_grows_def by blast+
    then have "same (mem t) (mem u) q" using b q(1) unfolding pt_grows_def by blast
    with 1 show ?thesis by (rule same_trans)
  qed
  moreover have "u = s\<lparr>mem := mem u, freelist := freelist u\<rparr>"
  proof -
    have "t = s\<lparr>mem := mem t, freelist := freelist t\<rparr>" "u = t\<lparr>mem := mem u, freelist := freelist u\<rparr>"
      using a b by (simp_all add: pt_grows_def)
    then have "u = s\<lparr>mem := mem t, freelist := freelist t\<rparr>\<lparr>mem := mem u, freelist := freelist u\<rparr>" by metis
    then show ?thesis by simp
  qed
  ultimately show ?thesis using a b unfolding pt_grows_def by auto
qed

lemma walk_alloc:
  assumes "kmem_inv s ps" and "pt_wf (mem s) l pt" and "pt_pages (mem s) l pt \<inter> set ps = {}"
  shows "\<exists>a t ps'. walk_from l pt va True s = Ok a t \<and> pt_grows s t l pt ps ps' \<and> length ps \<le> length ps' + l \<and>
    (if a = 0 then ps' = [] \<and> length ps < l else leaf (mem t) l pt va = Some a)"
  using assms
proof (induction l arbitrary: pt s ps)
  case 0
  then show ?case
    using pt_grows_refl [OF 0(1,2)] slot_nonzero [of pt "idx 0 va"] by (auto simp: slot_idx)
next
  case (Suc l)
  let ?i = "idx (Suc l) va"
  have i: "?i < 512" by simp
  show ?case
  proof (cases "valid (entry (mem s) pt ?i)")
    case True
    let ?c = "PTE2PA (entry (mem s) pt ?i)"
    have w: "walk_from (Suc l) pt va True s = walk_from l ?c va True s"
      using True by (simp add: Let_def entry_idx valid_def)
    have "pt_wf (mem s) l ?c" "pt_pages (mem s) l ?c \<inter> set ps = {}"
      using Suc.prems True pt_child [OF i True, of l] by auto
    from Suc.IH [OF Suc.prems(1) this] obtain a t ps' where t: "walk_from l ?c va True s = Ok a t"
        "pt_grows s t l ?c ps ps'" "length ps \<le> length ps' + l"
        "if a = 0 then ps' = [] \<and> length ps < l else leaf (mem t) l ?c va = Some a"
      by blast
    note g = pt_grows_lift [OF t(2) Suc.prems(2) i True refl Suc.prems(3)]
    then have "leaf (mem t) (Suc l) pt va = leaf (mem t) l ?c va" using True by (simp add: Let_def)
    with w t g show ?thesis by (metis add_Suc_right le_SucI less_SucI)
  next
    case False
    show ?thesis
    proof (cases ps)
      case Nil
      then have "walk_from (Suc l) pt va True s = Ok 0 s"
        using False kalloc_none [OF Suc.prems(1) [unfolded Nil]] by (simp add: Let_def entry_idx valid_def)
      then show ?thesis using Nil pt_grows_refl [OF Suc.prems(1,2)] by auto
    next
      case (Cons p qs)
      note inv = Suc.prems(1) [unfolded Cons] and F = Suc.prems(3) [unfolded Cons]
      obtain t1 where k: "kalloc s = Ok p t1" using kalloc_some [OF inv] by blast
      define t where "t = t1\<lparr>mem := store64 (memset (mem t1) p 0 4096) (pt + 8 * of_nat ?i) (PA2PTE p OR PTE_V)\<rparr>"
      note h = kalloc_hang [OF inv Suc.prems(2) i False F k t_def]
      have p: "p \<noteq> 0" using kmem_inv_pages [OF inv, of p] by simp
      have w: "walk_from (Suc l) pt va True s = walk_from l p va True t"
        using False k p by (simp add: Let_def entry_def valid_def t_def slot_idx)
      have q: "kmem_inv t qs" "p \<notin> set qs" using h inv by (auto simp: pt_grows_def kmem_inv_def)
      have "pt_pages (mem t) l p \<inter> set qs = {}" using h q by simp
      from Suc.IH [OF q(1) _ this] h obtain a u ps' where u: "walk_from l p va True t = Ok a u"
          "pt_grows t u l p qs ps'" "length qs \<le> length ps' + l"
          "if a = 0 then ps' = [] \<and> length qs < l else leaf (mem u) l p va = Some a"
        by blast
      have "pt_pages (mem t) (Suc l) pt \<subseteq> pt_pages (mem s) (Suc l) pt \<union> (set (p # qs) - set qs)"
        using h unfolding pt_grows_def by blast
      with F have "pt_pages (mem t) (Suc l) pt \<inter> set qs = {}" by (auto simp del: pt_pages.simps)
      then have g: "pt_grows t u (Suc l) pt qs ps' \<and> entry (mem u) pt ?i = entry (mem t) pt ?i"
        using h u(2) by (intro pt_grows_lift [where c = p]) (auto simp: pt_grows_def simp del: pt_pages.simps pt_wf.simps)
      then have "leaf (mem u) (Suc l) pt va = leaf (mem u) l p va" using h by (simp add: Let_def)
      moreover have "pt_grows s u (Suc l) pt ps ps'"
        using pt_grows_trans [OF conjunct1 [OF h] conjunct1 [OF g] F] Cons by simp
      moreover have "length ps \<le> length ps' + Suc l" using u(3) Cons by simp
      ultimately show ?thesis using w u(1,4) Cons by (metis length_Cons not_less_eq)
    qed
  qed
qed

section \<open>Storing an entry\<close>

text \<open>A store at the slot of \<open>va\<close> changes the map at the addresses with the indices of \<open>va\<close> only.\<close>

lemma store_leaf:
  assumes "pt_wf m l pt" and "leaf m l pt va = Some a"
  shows "pt_wf (store64 m a v) l pt \<and> pt_pages (store64 m a v) l pt = pt_pages m l pt \<and>
    (\<exists>p \<in> pt_pages m l pt. \<forall>q. page q \<longrightarrow> q \<noteq> p \<longrightarrow> same m (store64 m a v) q) \<and>
    (\<forall>va'. lookup (store64 m a v) l pt va' =
       (if \<forall>k \<le> l. idx k va' = idx k va then v else lookup m l pt va'))"
  using assms
proof (induction l arbitrary: pt)
  case 0
  then have a: "a = pt + 8 * of_nat (idx 0 va)" and pt: "page pt" "pt \<noteq> 0" by auto
  have "\<forall>q. page q \<longrightarrow> q \<noteq> pt \<longrightarrow> same m (store64 m a v) q" unfolding a using pt same_store_slot by simp
  then show ?case using pt by (simp add: a entry_store)
next
  case (Suc l)
  let ?i = "idx (Suc l) va" and ?m = "store64 m a v"
  let ?c = "PTE2PA (entry m pt ?i)"
  from Suc.prems have v: "valid (entry m pt ?i)" and lf: "leaf m l ?c va = Some a"
    by (auto simp: Let_def split: if_splits)
  have i: "?i < 512" by simp
  have wc: "pt_wf m l ?c" "pt \<notin> pt_pages m l ?c" and pt: "page pt" "pt \<noteq> 0"
    using Suc.prems(1) v i by simp_all
  note IH = Suc.IH [OF wc(1) lf]
  then obtain p where p: "p \<in> pt_pages m l ?c" "\<And>q. page q \<Longrightarrow> q \<noteq> p \<Longrightarrow> same m ?m q" by blast
  have e: "entry ?m pt j = entry m pt j" if "j < 512" for j
    using that p pt wc(2) by (intro entry_same) auto
  have fr: "pt_pages ?m l (PTE2PA (entry m pt j)) = pt_pages m l (PTE2PA (entry m pt j)) \<and>
      pt_wf ?m l (PTE2PA (entry m pt j)) = pt_wf m l (PTE2PA (entry m pt j)) \<and>
      lookup ?m l (PTE2PA (entry m pt j)) = lookup m l (PTE2PA (entry m pt j))"
    if j: "j < 512" "valid (entry m pt j)" "j \<noteq> ?i" for j
  proof -
    have "pt_wf m l (PTE2PA (entry m pt j))" "pt_pages m l (PTE2PA (entry m pt j)) \<inter> pt_pages m l ?c = {}"
      using Suc.prems(1) v j i by simp_all
    then have "same m ?m q" if "q \<in> pt_pages m l (PTE2PA (entry m pt j))" for q
      using that p pt_pages_wf [of m l _ q] by blast
    from pt_frame [OF this] show ?thesis by blast
  qed
  have all: "pt_pages ?m l (PTE2PA (entry m pt j)) = pt_pages m l (PTE2PA (entry m pt j)) \<and>
      pt_wf ?m l (PTE2PA (entry m pt j)) = pt_wf m l (PTE2PA (entry m pt j))"
    if "j < 512" "valid (entry m pt j)" for j
    using fr [OF that] IH wc(1) by (cases "j = ?i") auto
  have "pt_pages ?m (Suc l) pt = pt_pages m (Suc l) pt" using e all by auto
  moreover have "pt_wf ?m (Suc l) pt"
    using Suc.prems(1) unfolding pt_wf.simps by (simp add: e all cong: imp_cong)
  moreover have "p \<in> pt_pages m (Suc l) pt" using p(1) pt_child [OF i v, of l] by blast
  moreover have "lookup ?m (Suc l) pt va' =
      (if \<forall>k \<le> Suc l. idx k va' = idx k va then v else lookup m (Suc l) pt va')" for va'
  proof (cases "idx (Suc l) va' = ?i")
    case True
    then have iff: "(\<forall>k \<le> Suc l. idx k va' = idx k va) \<longleftrightarrow> (\<forall>k \<le> l. idx k va' = idx k va)"
      by (auto simp: le_Suc_eq)
    have "lookup ?m l ?c va' = (if \<forall>k \<le> l. idx k va' = idx k va then v else lookup m l ?c va')"
      using IH by blast
    moreover have "lookup ?m (Suc l) pt va' = lookup ?m l ?c va'" "lookup m (Suc l) pt va' = lookup m l ?c va'"
      using True e [OF i] v by (simp_all add: Let_def)
    ultimately show ?thesis unfolding iff by presburger
  next
    case False
    then show ?thesis using e [OF idx_less, of "Suc l" va'] fr [OF idx_less _ False] by (auto simp: Let_def)
  qed
  ultimately show ?case using p(2) by blast
qed

text \<open>Two addresses below \<open>MAXVA\<close> with the same three indices are in the same page.\<close>

lemma bit_PX: "bit (PX l va) n \<longleftrightarrow> n < 9 \<and> bit va (PXSHIFT l + n)"
proof -
  have "PX l va = take_bit 9 (drop_bit (PXSHIFT l) va)"
    by (simp add: PX_def take_bit_eq_mask mask_eq_exp_minus_1)
  then show ?thesis by (auto simp: bit_simps)
qed

lemma not_bit_MAXVA: "va < MAXVA \<Longrightarrow> 38 \<le> n \<Longrightarrow> \<not> bit va n"
  by (rule not_bit_small [of va 38]) (simp_all add: MAXVA_def word_less_nat_alt)

lemma bit_PGROUNDDOWN: "bit (PGROUNDDOWN va) n \<longleftrightarrow> 12 \<le> n \<and> bit va n"
proof -
  have "PGSIZE - 1 = (mask 12 :: addr)" by (simp add: PGSIZE_def mask_eq_exp_minus_1)
  then show ?thesis
    by (auto simp: PGROUNDDOWN_def bit_simps dest: bit_imp_le_length)
qed

lemma same_indices:
  assumes "va < MAXVA" and "va' < MAXVA"
  shows "(\<forall>k \<le> 2. idx k va' = idx k va) \<longleftrightarrow> PGROUNDDOWN va' = PGROUNDDOWN va"
proof
  assume eq: "\<forall>k \<le> 2. idx k va' = idx k va"
  show "PGROUNDDOWN va' = PGROUNDDOWN va"
  proof (rule bit_word_eqI)
    fix n :: nat assume "n < LENGTH(64)"
    show "bit (PGROUNDDOWN va') n = bit (PGROUNDDOWN va) n"
    proof (cases "12 \<le> n \<and> n < 38")
      case True
      then have k: "(n - 12) div 9 \<le> 2" and n: "PXSHIFT ((n - 12) div 9) + (n - 12) mod 9 = n"
        by (auto simp: PXSHIFT_def)
      from eq k have "PX ((n - 12) div 9) va' = PX ((n - 12) div 9) va"
        by (metis idx_def unsigned_word_eqI)
      then have "bit (PX ((n - 12) div 9) va') ((n - 12) mod 9) = bit (PX ((n - 12) div 9) va) ((n - 12) mod 9)"
        by simp
      then show ?thesis unfolding bit_PX n by (simp add: bit_PGROUNDDOWN)
    next
      case False
      then show ?thesis using not_bit_MAXVA assms by (auto simp: bit_PGROUNDDOWN not_less)
    qed
  qed
next
  assume eq: "PGROUNDDOWN va' = PGROUNDDOWN va"
  have "bit va' n = bit va n" if "12 \<le> n" for n
    using eq that bit_PGROUNDDOWN by metis
  then have "PX k va' = PX k va" for k
    by (intro bit_word_eqI) (simp add: bit_PX PXSHIFT_def)
  then show "\<forall>k \<le> 2. idx k va' = idx k va" by (simp add: idx_def)
qed

section \<open>Mapping a page\<close>

text \<open>What \<open>walkaddr\<close> reads in the map.\<close>

definition uaddr :: "memory \<Rightarrow> addr \<Rightarrow> 64 word \<Rightarrow> addr" where
  "uaddr m pt va =
     (let e = lookup m 2 pt va in if va < MAXVA \<and> valid e \<and> e AND PTE_U \<noteq> 0 then PTE2PA e else 0)"

lemma leaf_nonzero: "pt_wf m l pt \<Longrightarrow> leaf m l pt va = Some a \<Longrightarrow> a \<noteq> 0"
  using leaf_slot [of m l pt va a] pt_pages_wf [of m l pt] by (auto simp: slot_nonzero)

lemma walk_lookup:
  assumes "pt_wf (mem s) 2 pt" and "va < MAXVA"
  shows "walk pt va False s = Ok (case leaf (mem s) 2 pt va of None \<Rightarrow> 0 | Some a \<Rightarrow> a) s"
  using assms by (simp add: walk_def walk_noalloc not_le)

lemma walkaddr_uaddr:
  assumes "pt_wf (mem s) 2 pt"
  shows "walkaddr pt va s = Ok (uaddr (mem s) pt va) s"
proof (cases "va < MAXVA")
  case True
  then show ?thesis using assms leaf_nonzero [OF assms]
    by (auto simp: walkaddr_def walk_lookup uaddr_def lookup_leaf Let_def valid_def split: option.splits)
next
  case False
  then show ?thesis by (auto simp: walkaddr_def uaddr_def Let_def)
qed

lemma mappages_spec:
  assumes inv: "kmem_inv s ps" and wf: "pt_wf (mem s) 2 pt" and F: "pt_pages (mem s) 2 pt \<inter> set ps = {}"
    and va: "page va" "va < MAXVA" and new: "\<not> valid (lookup (mem s) 2 pt va)"
  shows "\<exists>r t ps'. mappages pt va PGSIZE pa perm s = Ok r t \<and> (r = 0 \<or> r = -1 \<and> length ps < 2) \<and>
    kmem_inv t ps' \<and> set ps' \<subseteq> set ps \<and> length ps \<le> length ps' + 2 \<and> kend t = kend s \<and> pt_wf (mem t) 2 pt \<and> pt_pages (mem t) 2 pt \<inter> set ps' = {} \<and>
    (\<forall>va' < MAXVA. lookup (mem t) 2 pt va' =
       (if r = 0 \<and> PGROUNDDOWN va' = va then PA2PTE pa OR perm OR PTE_V else lookup (mem s) 2 pt va')) \<and>
    (\<forall>q. page q \<longrightarrow> q \<notin> pt_pages (mem s) 2 pt \<longrightarrow> q \<notin> set ps \<longrightarrow> same (mem s) (mem t) q)"
proof -
  have m: "mappages pt va PGSIZE pa perm s = mappages_from pt va va pa perm s"
    using va(1) by (simp add: mappages_def page_def PGSIZE_def)
  obtain a t ps' where w: "walk_from 2 pt va True s = Ok a t" "pt_grows s t 2 pt ps ps'"
      "if a = 0 then ps' = [] \<and> length ps < 2 else leaf (mem t) 2 pt va = Some a"
      and len: "length ps \<le> length ps' + 2"
    using walk_alloc [OF inv wf F] by blast
  have wk: "walk pt va True s = Ok a t" using w(1) va(2) by (simp add: walk_def not_le)
  have g: "kmem_inv t ps'" "set ps' \<subseteq> set ps" "pt_wf (mem t) 2 pt" "lookup (mem t) 2 pt = lookup (mem s) 2 pt"
      "pt_pages (mem t) 2 pt \<subseteq> pt_pages (mem s) 2 pt \<union> (set ps - set ps')"
      "\<And>q. page q \<Longrightarrow> q \<notin> pt_pages (mem s) 2 pt \<Longrightarrow> q \<notin> set ps \<Longrightarrow> same (mem s) (mem t) q"
    using w(2) by (auto simp: pt_grows_def)
  have ke: "kend t = kend s" using w(2) unfolding pt_grows_def by (metis kmem.select_convs(3) kmem.surjective kmem.update_convs(1,2))
  have dj: "pt_pages (mem t) 2 pt \<inter> set ps' = {}" using g(2,5) F by blast
  show ?thesis
  proof (cases "a = 0")
    case True
    then have "mappages pt va PGSIZE pa perm s = Ok (-1) t"
      using wk by (simp add: m mappages_from.simps [of pt va])
    then show ?thesis using True w(3) g dj len ke by auto
  next
    case False
    with w(3) have lf: "leaf (mem t) 2 pt va = Some a" by simp
    then have "load64 (mem t) a = lookup (mem s) 2 pt va" using g(4) lookup_leaf [of "mem t" 2 pt va] by simp
    then have nv: "load64 (mem t) a AND PTE_V = 0" using new by (simp add: valid_def)
    let ?e = "PA2PTE pa OR perm OR PTE_V"
    let ?u = "t\<lparr>mem := store64 (mem t) a ?e\<rparr>"
    have ok: "mappages pt va PGSIZE pa perm s = Ok 0 ?u"
      using wk False nv by (simp add: m mappages_from.simps [of pt va])
    note st = store_leaf [OF g(3) lf, of ?e]
    then obtain p where p: "p \<in> pt_pages (mem t) 2 pt" "\<And>q. page q \<Longrightarrow> q \<noteq> p \<Longrightarrow> same (mem t) (mem ?u) q"
      by auto
    have "kmem_inv ?u ps'"
      using p dj kmem_inv_pages [OF g(1)] by (intro kmem_inv_frame [OF g(1)]) auto
    moreover have "lookup (mem ?u) 2 pt va' = (if PGROUNDDOWN va' = va then ?e else lookup (mem s) 2 pt va')"
      if "va' < MAXVA" for va'
    proof -
      have "PGROUNDDOWN va = va" using va(1) by (simp add: PGROUNDDOWN_alt page_def)
      then have "(\<forall>k \<le> 2. idx k va' = idx k va) \<longleftrightarrow> PGROUNDDOWN va' = va"
        using same_indices [OF va(2) that] by simp
      then show ?thesis using st g(4) by auto
    qed
    moreover have "same (mem s) (mem ?u) q" if q: "page q" "q \<notin> pt_pages (mem s) 2 pt" "q \<notin> set ps" for q
    proof -
      have "q \<noteq> p" using q p(1) g(5) by blast
      then show ?thesis using p(2) g(6) q by (blast intro: same_trans)
    qed
    moreover have "pt_wf (mem ?u) 2 pt" "pt_pages (mem ?u) 2 pt = pt_pages (mem t) 2 pt" using st by simp_all
    ultimately show ?thesis using ok g(2) dj len ke by auto
  qed
qed

lemma bit_PTE:
  "bit PTE_V n \<longleftrightarrow> n = 0" "bit PTE_W n \<longleftrightarrow> n = 2" "bit PTE_U n \<longleftrightarrow> n = 4"
  unfolding PTE_V_def PTE_W_def PTE_U_def
  by (simp_all only: push_bit_eq_mult mult_1 bit_exp_iff possible_bit_word) auto

lemma pte_fields:
  assumes "page pa" and "perm < 1024"
  shows "PTE2PA (PA2PTE pa OR perm OR PTE_V) = pa" and "(PA2PTE pa OR perm OR PTE_V) AND PTE_U = perm AND PTE_U"
    and "(PA2PTE pa OR perm OR PTE_V) AND PTE_W = perm AND PTE_W"
proof -
  have hi: "\<not> bit perm (10 + n)" for n
    using assms(2) by (intro not_bit_small [of perm 10]) (simp_all add: word_less_nat_alt)
  have "drop_bit 10 (PA2PTE pa OR perm OR PTE_V) = drop_bit 10 (PA2PTE pa OR PTE_V)"
    using hi by (intro bit_word_eqI) (auto simp: bit_simps)
  then show "PTE2PA (PA2PTE pa OR perm OR PTE_V) = pa"
    using PTE2PA_PA2PTE [OF assms(1)] by (simp add: PTE2PA_def)
  show "(PA2PTE pa OR perm OR PTE_V) AND PTE_U = perm AND PTE_U"
      "(PA2PTE pa OR perm OR PTE_V) AND PTE_W = perm AND PTE_W"
    by (rule bit_word_eqI, auto simp: PA2PTE_def bit_PTE bit_simps)+
qed

section \<open>Properties of mapping\<close>

text \<open>
  C13. Mapping a page: on a well-formed page table and a page not yet mapped, \<open>mappages\<close> returns 0,
  or -1 when fewer than two pages are free; it neither panics nor sleeps. Afterwards \<open>walkaddr\<close>
  gives the mapped physical page for the addresses of the page (0 without the user bit), and for
  every other address what it gave before. Pages outside the table and the free list keep their
  contents.
\<close>

theorem mappages_walkaddr:
  assumes "kmem_inv s ps" and "pt_wf (mem s) 2 pt" and "pt_pages (mem s) 2 pt \<inter> set ps = {}"
    and "page va" and "va < MAXVA" and "\<not> valid (lookup (mem s) 2 pt va)" and "page pa" and "perm < 1024"
  shows "\<exists>r t. mappages pt va PGSIZE pa perm s = Ok r t \<and> (r = 0 \<or> r = -1 \<and> length ps < 2) \<and>
    (\<forall>va' a. walkaddr pt va' s = Ok a s \<longrightarrow> walkaddr pt va' t =
       Ok (if r = 0 \<and> va' < MAXVA \<and> PGROUNDDOWN va' = va then if perm AND PTE_U \<noteq> 0 then pa else 0 else a) t) \<and>
    (\<forall>q x. page q \<longrightarrow> q \<notin> pt_pages (mem s) 2 pt \<longrightarrow> q \<notin> set ps \<longrightarrow> in_page q x \<longrightarrow> mem t x = mem s x)"
proof -
  obtain r t ps' where t: "mappages pt va PGSIZE pa perm s = Ok r t" "r = 0 \<or> r = -1 \<and> length ps < 2"
      "pt_wf (mem t) 2 pt"
      "\<And>va'. va' < MAXVA \<Longrightarrow> lookup (mem t) 2 pt va' =
         (if r = 0 \<and> PGROUNDDOWN va' = va then PA2PTE pa OR perm OR PTE_V else lookup (mem s) 2 pt va')"
      "\<forall>q. page q \<longrightarrow> q \<notin> pt_pages (mem s) 2 pt \<longrightarrow> q \<notin> set ps \<longrightarrow> same (mem s) (mem t) q"
    using mappages_spec [OF assms(1-6), of pa perm] by blast
  have "uaddr (mem t) pt va' = (if r = 0 \<and> va' < MAXVA \<and> PGROUNDDOWN va' = va
      then if perm AND PTE_U \<noteq> 0 then pa else 0 else uaddr (mem s) pt va')" for va'
    using t(4) [of va'] pte_fields [OF assms(7,8)] valid_PTE(1) [of "PA2PTE pa OR perm"]
    by (auto simp: uaddr_def Let_def or.assoc)
  then show ?thesis
    using t(1,2,5) walkaddr_uaddr [OF assms(2)] walkaddr_uaddr [OF t(3)] unfolding same_def by auto
qed

text \<open>Two free pages at \<open>0x80002000\<close> and an empty table at \<open>0x80001000\<close>.\<close>

definition two_pages :: kmem where
  "two_pages = \<lparr>mem = store64 (\<lambda>_. 0) (0x80002000 + 8 * of_nat 0) 0x80003000, freelist = 0x80002000,
     kend = 0x80001000\<rparr>"

lemma entry_zero: "entry (\<lambda>_. 0) pt i = 0"
  by (simp add: entry_def load64_zero)

lemma page_numeral: "page (numeral n) \<longleftrightarrow> (numeral n :: addr) mod 4096 = 0"
  by (simp add: page_def PGSIZE_def)

lemma two_pages_inv: "kmem_inv two_pages [0x80002000, 0x80003000]"
proof -
  have "page 0x80003000" "page 0x80002000" by (simp_all add: page_numeral)
  then have "entry (mem two_pages) 0x80003000 0 = 0"
    using same_store_slot [of "0x80002000" 0 "0x80003000" "\<lambda>_. 0" "0x80003000"]
    by (simp add: two_pages_def entry_same entry_zero)
  then show ?thesis
    using \<open>page 0x80003000\<close> \<open>page 0x80002000\<close>
    by (simp add: kmem_inv_def two_pages_def entry_def usable_def PHYSTOP_def KERNBASE_def)
qed

lemma two_pages_table: "i < 512 \<Longrightarrow> entry (mem two_pages) 0x80001000 i = 0"
  using same_store_slot [of "0x80002000" 0 "0x80001000" "\<lambda>_. 0" "0x80003000"]
  by (simp add: two_pages_def entry_same entry_zero page_numeral)

theorem mappages_walkaddr_witness:
  "\<exists>t. mappages 0x80001000 0x4000 PGSIZE 0x80004000 (PTE_R OR PTE_U) two_pages = Ok 0 t \<and>
     walkaddr 0x80001000 0x4123 t = Ok 0x80004000 t \<and> walkaddr 0x80001000 0x5000 t = Ok 0 t"
proof -
  have pt: "page 0x80001000" "(0x80001000 :: addr) \<noteq> 0" by (simp_all add: page_numeral)
  note z = pt_zero [OF pt two_pages_table, of 2]
  have perm: "PTE_R OR PTE_U < 1024" "(PTE_R OR PTE_U) AND PTE_U \<noteq> 0" by (simp_all add: PTE_R_def PTE_U_def)
  have va: "page 0x4000" "(0x4000 :: addr) < MAXVA" "page 0x80004000" by (simp_all add: page_numeral MAXVA_def)
  have w: "walkaddr 0x80001000 v two_pages = Ok 0 two_pages" for v
    using walkaddr_uaddr [of two_pages "0x80001000"] z by (simp add: uaddr_def valid_PTE)
  have "PGROUNDDOWN 0x4123 = 0x4000" "PGROUNDDOWN 0x5000 = 0x5000" "(0x4123 :: addr) < MAXVA"
    by (simp_all add: PGROUNDDOWN_alt PGSIZE_def MAXVA_def)
  moreover obtain r t where "mappages 0x80001000 0x4000 PGSIZE 0x80004000 (PTE_R OR PTE_U) two_pages = Ok r t"
      "r = 0" "\<And>va'. walkaddr 0x80001000 va' t = Ok (if r = 0 \<and> va' < MAXVA \<and> PGROUNDDOWN va' = 0x4000
         then if (PTE_R OR PTE_U) AND PTE_U \<noteq> 0 then 0x80004000 else 0 else 0) t"
    using mappages_walkaddr [OF two_pages_inv _ _ va(1,2) _ va(3) perm(1), of "0x80001000"] z w
    by (auto simp: valid_PTE simp del: pt_pages.simps pt_wf.simps lookup.simps)
  ultimately show ?thesis using perm(2) by auto
qed

section \<open>Copying to and from user space\<close>

text \<open>The physical address behind a user address, and the user addresses \<open>copyout\<close> may write
  without faulting a page in.\<close>

definition utrans :: "memory \<Rightarrow> addr \<Rightarrow> 64 word \<Rightarrow> addr" where
  "utrans m pt v = uaddr m pt (PGROUNDDOWN v) + (v - PGROUNDDOWN v)"

definition writable :: "memory \<Rightarrow> addr \<Rightarrow> 64 word \<Rightarrow> bool" where
  "writable m pt v \<longleftrightarrow> v < MAXVA \<and> uaddr m pt (PGROUNDDOWN v) \<noteq> 0 \<and>
     lookup m 2 pt (PGROUNDDOWN v) AND PTE_W \<noteq> 0 \<and> uaddr m pt (PGROUNDDOWN v) \<notin> pt_pages m 2 pt"

lemma page_uaddr: "page (uaddr m pt va)"
proof -
  have "take_bit 12 (PTE2PA e) = 0" for e by (rule bit_word_eqI) (auto simp: PTE2PA_def bit_simps)
  then have "page (PTE2PA e)" for e by (simp add: page_def PGSIZE_def take_bit_eq_mod)
  moreover have "page 0" by (simp add: page_def)
  ultimately show ?thesis by (simp add: uaddr_def Let_def)
qed

lemma PGROUNDDOWN_le: "PGROUNDDOWN v \<le> v"
  by (simp add: word_le_nat_alt unat_PGROUNDDOWN)

lemma in_same_page:
  assumes "i < page_rest va" and "unat va + i < 2 ^ 64"
  shows "PGROUNDDOWN (va + of_nat i) = PGROUNDDOWN va"
proof -
  have u: "unat (va + of_nat i) = unat va + i" using assms(2) by (simp add: unat_word_ariths(1) unat_of_nat64)
  have "unat va mod 4096 + i < 4096" using assms(1) by (simp add: page_rest)
  then have "(unat va + i) div 4096 = unat va div 4096" by (rule div_add_mod)
  then have "unat (PGROUNDDOWN (va + of_nat i)) = unat (PGROUNDDOWN va)"
    unfolding unat_PGROUNDDOWN u by (rule arg_cong)
  then show ?thesis by (rule unsigned_word_eqI)
qed

lemma next_page: "va + of_nat (page_rest va) = PGROUNDDOWN va + PGSIZE"
proof -
  have "of_nat (page_rest va) = PGSIZE - (va - PGROUNDDOWN va)" by (simp add: page_rest_def ucast_id)
  then show ?thesis by simp
qed

lemma copy_frame:
  assumes "\<And>p. p \<in> pt_pages m 2 pt \<Longrightarrow> same m m' p"
  shows "utrans m' pt = utrans m pt" "writable m' pt = writable m pt" "pt_wf m' 2 pt = pt_wf m 2 pt"
    "uaddr m' pt = uaddr m pt" "lookup m' 2 pt = lookup m 2 pt"
  using pt_frame [OF assms] by (auto simp: utrans_def writable_def uaddr_def fun_eq_iff)

text \<open>The bytes of a range inside one page.\<close>

lemma utrans_in_page:
  assumes "i < page_rest va" and "unat va + i < 2 ^ 64"
  shows "utrans m pt (va + of_nat i) = uaddr m pt (PGROUNDDOWN va) + (va - PGROUNDDOWN va) + of_nat i"
  using in_same_page [OF assms] by (simp add: utrans_def)

lemma wr_chunk:
  assumes wf: "pt_wf m 2 pt" and w: "writable m pt va" and n: "length bs \<le> page_rest va"
  defines "m' \<equiv> wr m (uaddr m pt (PGROUNDDOWN va) + (va - PGROUNDDOWN va)) bs"
  shows "p \<in> pt_pages m 2 pt \<Longrightarrow> same m m' p"
    and "i < length bs \<Longrightarrow> m' (uaddr m pt (PGROUNDDOWN va) + (va - PGROUNDDOWN va) + of_nat i) = bs ! i"
proof -
  let ?q = "uaddr m pt (PGROUNDDOWN va)" and ?o = "va - PGROUNDDOWN va"
  have o: "unat ?o = unat va mod 4096"
    by (simp add: PGROUNDDOWN_alt unat_mod_distrib)
  have len: "unat ?o + length bs \<le> 4096" using n by (simp add: o page_rest)
  show "m' (?q + ?o + of_nat i) = bs ! i" if "i < length bs" for i
    using that len by (simp add: m'_def wr_def unat_of_nat64)
  have "in_page ?q x" if "unat (x - (?q + ?o)) < length bs" for x
  proof -
    have "x - ?q = (x - (?q + ?o)) + ?o" by simp
    then have "unat (x - ?q) \<le> unat (x - (?q + ?o)) + unat ?o"
      by (metis mod_less_eq_dividend unat_word_ariths(1))
    then show ?thesis using that len by (simp add: in_page_def)
  qed
  moreover assume p: "p \<in> pt_pages m 2 pt"
  ultimately show "same m m' p"
    using w pt_pages_wf [OF wf p] not_in_page [OF page_uaddr, of p m pt "PGROUNDDOWN va"]
    by (auto simp: same_def m'_def wr_def writable_def)
qed

lemma copyin_spec:
  assumes "pt_wf (mem s) 2 pt" and "unat va + len \<le> unat MAXVA"
    and "\<And>i. i < len \<Longrightarrow> writable (mem s) pt (va + of_nat i)"
  shows "copyin pt va len s = Ok (0, map (\<lambda>i. mem s (utrans (mem s) pt (va + of_nat i))) [0..<len]) s"
  using assms(2,3)
proof (induction len arbitrary: va rule: less_induct)
  case (less len)
  show ?case
  proof (cases "len = 0")
    case True
    then show ?thesis by (simp add: copyin.simps [of pt va])
  next
    case False
    let ?n = "min (page_rest va) len" and ?q = "uaddr (mem s) pt (PGROUNDDOWN va)"
    have lt: "unat MAXVA < 2 ^ 64" by (simp add: MAXVA_def)
    have q: "?q \<noteq> 0" using less.prems(2) [of 0] False by (simp add: writable_def)
    have bs: "rd (mem s) (?q + (va - PGROUNDDOWN va)) ?n =
        map (\<lambda>i. mem s (utrans (mem s) pt (va + of_nat i))) [0..<?n]"
      using less.prems(1) lt by (intro nth_equalityI) (auto simp: utrans_in_page)
    have "copyin pt (PGROUNDDOWN va + PGSIZE) (len - ?n) s =
        Ok (0, map (\<lambda>i. mem s (utrans (mem s) pt (va + of_nat (?n + i)))) [0..<len - ?n]) s"
    proof (cases "len \<le> page_rest va")
      case True
      then show ?thesis by (simp add: copyin.simps [of pt _ 0])
    next
      case n: False
      let ?va = "va + of_nat ?n"
      have u: "unat ?va = unat va + ?n"
        using less.prems(1) lt n by (simp add: unat_word_ariths(1) unat_of_nat64)
      have "copyin pt ?va (len - ?n) s =
          Ok (0, map (\<lambda>i. mem s (utrans (mem s) pt (?va + of_nat i))) [0..<len - ?n]) s"
      proof (rule less.IH)
        show "len - ?n < len" using False by simp
        show "unat ?va + (len - ?n) \<le> unat MAXVA" using less.prems(1) u n by simp
        show "writable (mem s) pt (?va + of_nat i)" if "i < len - ?n" for i
          using less.prems(2) [of "?n + i"] that by (simp add: add.assoc)
      qed
      moreover have "PGROUNDDOWN va + PGSIZE = ?va" using n next_page [of va] by (simp add: min_def)
      ultimately show ?thesis by (simp add: add.assoc)
    qed
    then show ?thesis
      using False q bs map_upt_split [of ?n len "\<lambda>i. mem s (utrans (mem s) pt (va + of_nat i))"]
      by (simp add: copyin.simps [of pt va] walkaddr_uaddr [OF assms(1)] Let_def)
  qed
qed

lemma copyout_spec:
  assumes "pt_wf (mem s) 2 pt" and "unat va + length src \<le> unat MAXVA"
    and "\<And>i. i < length src \<Longrightarrow> writable (mem s) pt (va + of_nat i)"
    and "\<And>i j. i < length src \<Longrightarrow> j < length src \<Longrightarrow>
      utrans (mem s) pt (va + of_nat i) = utrans (mem s) pt (va + of_nat j) \<Longrightarrow> i = j"
  shows "\<exists>m'. copyout pt va src s = Ok 0 (s\<lparr>mem := m'\<rparr>) \<and> (\<forall>p \<in> pt_pages (mem s) 2 pt. same (mem s) m' p) \<and>
    (\<forall>i < length src. m' (utrans (mem s) pt (va + of_nat i)) = src ! i) \<and>
    (\<forall>x. (\<forall>i < length src. x \<noteq> utrans (mem s) pt (va + of_nat i)) \<longrightarrow> m' x = mem s x)"
  using assms
proof (induction "length src" arbitrary: va s src rule: less_induct)
  case less
  note IH = less(1) and wf = less(2) and top = less(3) and w = less(4) and inj = less(5)
  show ?case
  proof (cases "src = []")
    case True
    then show ?thesis by (intro exI [of _ "mem s"]) (simp add: copyout.simps [of pt va])
  next
    case False
    define n where "n = min (page_rest va) (length src)"
    define q where "q = uaddr (mem s) pt (PGROUNDDOWN va)"
    define m1 where "m1 = wr (mem s) (q + (va - PGROUNDDOWN va)) (take n src)"
    let ?va = "va + of_nat n" and ?tr = "\<lambda>i. utrans (mem s) pt (va + of_nat i)" and ?s = "s\<lparr>mem := m1\<rparr>"
    have n: "0 < n" "n \<le> length src" "n \<le> page_rest va" using False by (simp_all add: n_def)
    have lt: "unat MAXVA < 2 ^ 64" by (simp add: MAXVA_def)
    have w0: "writable (mem s) pt va" using w [of 0] False by simp
    then have q: "q \<noteq> 0" "PGROUNDDOWN va < MAXVA"
      using PGROUNDDOWN_le [of va] by (auto simp: writable_def q_def)
    have tr: "?tr i = q + (va - PGROUNDDOWN va) + of_nat i" if "i < n" for i
      unfolding q_def using top lt n that by (intro utrans_in_page) auto
    note ch = wr_chunk [OF wf w0, of "take n src", folded q_def, folded m1_def]
    have sm: "p \<in> pt_pages (mem s) 2 pt \<Longrightarrow> same (mem s) m1 p" for p using ch(1) n by simp
    have wrt: "i < n \<Longrightarrow> m1 (?tr i) = src ! i" for i using ch(2) [of i] tr n by simp
    have oth: "m1 x = mem s x" if "\<forall>i < n. x \<noteq> ?tr i" for x
    proof -
      have "x = q + (va - PGROUNDDOWN va) + of_nat (unat (x - (q + (va - PGROUNDDOWN va))))"
        by (simp add: ucast_id)
      then have "\<not> unat (x - (q + (va - PGROUNDDOWN va))) < n" using that tr by metis
      then show ?thesis unfolding wr_def m1_def by simp
    qed
    note fr = copy_frame [OF sm]
    have "lookup (mem s) 2 pt (PGROUNDDOWN va) AND PTE_W \<noteq> 0" using w0 by (simp add: writable_def)
    then obtain a where a: "leaf (mem s) 2 pt (PGROUNDDOWN va) = Some a" "load64 (mem s) a AND PTE_W \<noteq> 0"
      by (auto simp: lookup_leaf split: option.splits)
    then have step: "copyout pt va src s = copyout pt (PGROUNDDOWN va + PGSIZE) (drop n src) ?s"
      using False q(1) leaf_nonzero [OF wf a(1)] q(2)
      by (auto simp: copyout.simps [of pt va] walkaddr_uaddr [OF wf] walk_lookup [OF wf] Let_def n_def m1_def q_def)
    show ?thesis
    proof (cases "n = length src")
      case True
      then have "copyout pt va src s = Ok 0 ?s"
        unfolding step by (simp add: copyout.simps [of pt _ "[]"])
      then show ?thesis using True sm wrt oth by (intro exI [of _ m1]) simp
    next
      case False
      then have "n = page_rest va" by (simp add: n_def min_def split: if_splits)
      then have va: "PGROUNDDOWN va + PGSIZE = ?va" using next_page [of va] by simp
      have u: "unat ?va = unat va + n" using top lt n by (simp add: unat_word_ariths(1) unat_of_nat64)
      have sft: "?va + of_nat i = va + of_nat (n + i)" for i by (simp add: add.assoc)
      have "\<exists>m'. copyout pt ?va (drop n src) ?s = Ok 0 (?s\<lparr>mem := m'\<rparr>) \<and>
          (\<forall>p \<in> pt_pages (mem ?s) 2 pt. same (mem ?s) m' p) \<and>
          (\<forall>i < length (drop n src). m' (utrans (mem ?s) pt (?va + of_nat i)) = drop n src ! i) \<and>
          (\<forall>x. (\<forall>i < length (drop n src). x \<noteq> utrans (mem ?s) pt (?va + of_nat i)) \<longrightarrow> m' x = mem ?s x)"
      proof (rule IH)
        show "length (drop n src) < length src" using n by simp
        show "pt_wf (mem ?s) 2 pt" using fr(3) wf by simp
        show "unat ?va + length (drop n src) \<le> unat MAXVA" using top u n by simp
        show "writable (mem ?s) pt (?va + of_nat i)" if "i < length (drop n src)" for i
          unfolding sft using that fr(2) w [of "n + i"] n by simp
        show "i = j" if "i < length (drop n src)" "j < length (drop n src)"
            "utrans (mem ?s) pt (?va + of_nat i) = utrans (mem ?s) pt (?va + of_nat j)" for i j
          using that inj [of "n + i" "n + j"] fr(1) unfolding sft by simp
      qed
      then obtain m' where m': "copyout pt va src s = Ok 0 (s\<lparr>mem := m'\<rparr>)"
          "\<forall>p \<in> pt_pages m1 2 pt. same m1 m' p"
          "\<And>i. i < length src - n \<Longrightarrow> m' (?tr (n + i)) = src ! (n + i)"
          "\<And>x. \<forall>i < length src - n. x \<noteq> ?tr (n + i) \<Longrightarrow> m' x = m1 x"
        unfolding step va sft using fr(1) n by (auto simp: add.assoc)
      have "pt_pages m1 2 pt = pt_pages (mem s) 2 pt" using pt_frame [OF sm] by blast
      then have "\<forall>p \<in> pt_pages (mem s) 2 pt. same (mem s) m' p" using m'(2) sm same_trans by blast
      moreover have "m' (?tr i) = src ! i" if "i < length src" for i
      proof (cases "i < n")
        case True
        have "?tr i \<noteq> ?tr (n + k)" if "k < length src - n" for k
        proof -
          have "n + k < length src" using that by linarith
          then show ?thesis using inj [of i "n + k"] True n by auto
        qed
        then show ?thesis using m'(4) wrt True by simp
      next
        case False
        then show ?thesis using m'(3) [of "i - n"] that by simp
      qed
      moreover have "m' x = mem s x" if "\<forall>i < length src. x \<noteq> ?tr i" for x
      proof -
        have "x \<noteq> ?tr (n + i)" if "i < length src - n" for i
          using \<open>\<forall>i < length src. x \<noteq> ?tr i\<close> that by (metis less_diff_conv add.commute)
        then show ?thesis using that m'(4) [of x] oth [of x] n by simp
      qed
      ultimately show ?thesis using m'(1) by blast
    qed
  qed
qed

text \<open>The bytes of the process from an address on, and the state of the calling process that the
  results assume: a well-formed page table that maps the range to distinct bytes outside the table.\<close>

definition user_bytes :: "'a pstate_scheme \<Rightarrow> 64 word \<Rightarrow> nat \<Rightarrow> byte list" where
  "user_bytes s va n = map (\<lambda>i. mem s (utrans (mem s) (p_pagetable (myproc s)) (va + of_nat i))) [0..<n]"

definition user_range :: "'a pstate_scheme \<Rightarrow> 64 word \<Rightarrow> nat \<Rightarrow> bool" where
  "user_range s va n \<longleftrightarrow> pt_wf (mem s) 2 (p_pagetable (myproc s)) \<and> unat va + n \<le> unat MAXVA \<and>
     (\<forall>i < n. writable (mem s) (p_pagetable (myproc s)) (va + of_nat i)) \<and>
     inj_on (\<lambda>i. utrans (mem s) (p_pagetable (myproc s)) (va + of_nat i)) {..<n}"

lemma user_range_byte:
  assumes "user_range s va n" "i < n"
  shows "copyin (p_pagetable (myproc s)) (va + of_nat i) 1 s = Ok (0, [user_bytes s va n ! i]) s"
proof -
  have "unat (va + of_nat i) + 1 \<le> unat MAXVA"
  proof -
    have le: "unat va + i < unat MAXVA" using assms by (simp add: user_range_def)
    have "unat MAXVA < 2 ^ 64" by (simp add: MAXVA_def)
    then have "unat (va + of_nat i) = unat va + i"
      using le by (simp add: unat_word_ariths(1) unat_of_nat)
    then show ?thesis using le by simp
  qed
  then show ?thesis
    using copyin_spec [of s "p_pagetable (myproc s)" "va + of_nat i" 1] assms
    by (simp add: user_range_def user_bytes_def)
qed

lemma copyout_byte:
  assumes "user_range s va n" "i < n"
  shows "\<exists>m. copyout (p_pagetable (myproc s)) (va + of_nat i) [c] s = Ok 0 (s\<lparr>mem := m\<rparr>) \<and>
    utrans m (p_pagetable (myproc s)) = utrans (mem s) (p_pagetable (myproc s)) \<and> user_range (s\<lparr>mem := m\<rparr>) va n \<and>
    m = (mem s)(utrans (mem s) (p_pagetable (myproc s)) (va + of_nat i) := c)"
proof -
  let ?pt = "p_pagetable (myproc s)"
  have le: "unat va + i < unat MAXVA" using assms by (simp add: user_range_def)
  have "unat MAXVA < 2 ^ 64" by (simp add: MAXVA_def)
  then have "unat (va + of_nat i) = unat va + i" using le by (simp add: unat_word_ariths(1) unat_of_nat)
  then have b: "unat (va + of_nat i) + length [c] \<le> unat MAXVA" using le by simp
  obtain m where m: "copyout ?pt (va + of_nat i) [c] s = Ok 0 (s\<lparr>mem := m\<rparr>)"
      "\<And>p. p \<in> pt_pages (mem s) 2 ?pt \<Longrightarrow> same (mem s) m p"
      "m (utrans (mem s) ?pt (va + of_nat i)) = c"
      "\<And>x. x \<noteq> utrans (mem s) ?pt (va + of_nat i) \<Longrightarrow> m x = mem s x"
    using copyout_spec [OF _ b, of s ?pt] assms by (auto simp: user_range_def)
  note fr = copy_frame [OF m(2)]
  have "m = (mem s)(utrans (mem s) ?pt (va + of_nat i) := c)" using m(3,4) by auto
  moreover have "myproc (s\<lparr>mem := m\<rparr>) = myproc s" by (simp add: myproc_def)
  ultimately show ?thesis using m(1) fr assms(1) by (auto simp: user_range_def)
qed

text \<open>Memory \<open>m\<close> is \<open>m0\<close> with the bytes \<open>out\<close> at the addresses \<open>a i\<close>, \<open>a (i + 1)\<close> and so on.\<close>

definition fills :: "(nat \<Rightarrow> addr) \<Rightarrow> nat \<Rightarrow> byte list \<Rightarrow> memory \<Rightarrow> memory \<Rightarrow> bool" where
  "fills a i out m0 m \<longleftrightarrow> (\<forall>j < length out. m (a (i + j)) = out ! j) \<and>
     (\<forall>x. (\<forall>j < length out. x \<noteq> a (i + j)) \<longrightarrow> m x = m0 x)"

lemma fills_Nil [simp]: "fills a i [] m0 m \<longleftrightarrow> m = m0"
  by (auto simp: fills_def)

lemma fills_Cons:
  assumes "inj_on a {..<N}" "i + length out < N" "fills a (Suc i) out (m0(a i := c)) m"
  shows "fills a i (c # out) m0 m"
  unfolding fills_def
proof (intro conjI allI impI)
  have f: "\<And>j. j < length out \<Longrightarrow> m (a (Suc i + j)) = out ! j"
      "\<And>x. \<forall>j < length out. x \<noteq> a (Suc i + j) \<Longrightarrow> m x = (m0(a i := c)) x"
    using assms(3) by (auto simp: fills_def)
  fix j assume j: "j < length (c # out)"
  show "m (a (i + j)) = (c # out) ! j"
  proof (cases j)
    case 0
    have "a i \<noteq> a (Suc i + j)" if "j < length out" for j
      using inj_onD [OF assms(1), of i "Suc i + j"] assms(2) that by auto
    then show ?thesis using f(2) [of "a i"] 0 by simp
  next
    case (Suc k)
    then show ?thesis using f(1) [of k] j by simp
  qed
next
  fix x assume x: "\<forall>j < length (c # out). x \<noteq> a (i + j)"
  have "x \<noteq> a i" using x by (metis Nat.add_0_right length_Cons zero_less_Suc)
  moreover have "x \<noteq> a (Suc i + j)" if "j < length out" for j
    using x that by (metis Suc_less_eq add_Suc add_Suc_right length_Cons)
  ultimately show "m x = m0 x" using assms(3) by (auto simp: fills_def)
qed

text \<open>
  C21. Copying out and back: on a well-formed page table, for a range of mapped, user-writable
  addresses whose physical bytes are distinct and outside the table, \<open>copyout\<close> returns 0, a
  following \<open>copyin\<close> of the same range returns 0 with exactly the bytes that were copied, and no
  other byte of memory changes.
\<close>

theorem copyout_copyin:
  assumes "pt_wf (mem s) 2 pt" and "unat va + length src \<le> unat MAXVA"
    and "\<forall>i < length src. writable (mem s) pt (va + of_nat i)"
    and "\<forall>i < length src. \<forall>j < length src.
      utrans (mem s) pt (va + of_nat i) = utrans (mem s) pt (va + of_nat j) \<longrightarrow> i = j"
  shows "\<exists>t. copyout pt va src s = Ok 0 t \<and> copyin pt va (length src) t = Ok (0, src) t \<and>
    (\<forall>x. (\<forall>i < length src. x \<noteq> utrans (mem s) pt (va + of_nat i)) \<longrightarrow> mem t x = mem s x)"
proof -
  obtain m' where m': "copyout pt va src s = Ok 0 (s\<lparr>mem := m'\<rparr>)"
      "\<And>p. p \<in> pt_pages (mem s) 2 pt \<Longrightarrow> same (mem s) m' p"
      "\<And>i. i < length src \<Longrightarrow> m' (utrans (mem s) pt (va + of_nat i)) = src ! i"
      "\<And>x. \<forall>i < length src. x \<noteq> utrans (mem s) pt (va + of_nat i) \<Longrightarrow> m' x = mem s x"
    using copyout_spec [OF assms(1,2)] assms(3,4) by blast
  note fr = copy_frame [OF m'(2)]
  have "copyin pt va (length src) (s\<lparr>mem := m'\<rparr>) =
      Ok (0, map (\<lambda>i. m' (utrans m' pt (va + of_nat i))) [0..<length src]) (s\<lparr>mem := m'\<rparr>)"
    using copyin_spec [of "s\<lparr>mem := m'\<rparr>" pt va "length src"] assms(1-3) fr by simp
  also have "map (\<lambda>i. m' (utrans m' pt (va + of_nat i))) [0..<length src] = src"
    using m'(3) fr(1) by (intro nth_equalityI) auto
  finally show ?thesis using m'(1,4) by (intro exI [of _ "s\<lparr>mem := m'\<rparr>"]) simp
qed

text \<open>A table that maps the page at address 0 to the page at \<open>0x80004000\<close>.\<close>

definition one_map :: memory where
  "one_map = store64 (store64 (store64 (\<lambda>_. 0) 0x80001000 (PA2PTE 0x80002000 OR PTE_V))
     0x80002000 (PA2PTE 0x80003000 OR PTE_V))
     0x80003000 (PA2PTE 0x80004000 OR (PTE_W OR PTE_U) OR PTE_V)"

lemma entry_store_first:
  assumes "page pt" "page q" "j < 512"
  shows "entry (store64 m pt v) q j = (if q = pt \<and> j = 0 then v else entry m q j)"
  using assms entry_store [of pt 0 j m v] entry_same [OF same_store_slot [of pt 0 q m v], of j]
  by (cases "q = pt") auto

lemma one_map_pages:
  "page 0x80001000" "page 0x80002000" "page 0x80003000" "page 0x80004000"
  by (simp_all add: page_numeral)

lemma one_map_entries:
  assumes "i < 512"
  shows "entry one_map 0x80001000 i = (if i = 0 then PA2PTE 0x80002000 OR PTE_V else 0)"
    and "entry one_map 0x80002000 i = (if i = 0 then PA2PTE 0x80003000 OR PTE_V else 0)"
    and "entry one_map 0x80003000 i = (if i = 0 then PA2PTE 0x80004000 OR (PTE_W OR PTE_U) OR PTE_V else 0)"
  unfolding one_map_def using assms by (simp_all add: entry_store_first entry_zero one_map_pages)

lemma one_map_table:
  "pt_wf one_map 2 0x80001000" "pt_pages one_map 2 0x80001000 = {0x80001000, 0x80002000, 0x80003000}"
  "lookup one_map 2 0x80001000 0 = PA2PTE 0x80004000 OR (PTE_W OR PTE_U) OR PTE_V"
proof -
  have S: "{i. i < 512 \<and> valid (entry one_map 0x80001000 i)} = {0}"
      "{i. i < 512 \<and> valid (entry one_map 0x80002000 i)} = {0}"
    using one_map_entries by (auto simp: valid_PTE split: if_splits)
  note p = PTE2PA_PA2PTE [OF one_map_pages(2)] PTE2PA_PA2PTE [OF one_map_pages(3)]
  show P: "pt_pages one_map 2 0x80001000 = {0x80001000, 0x80002000, 0x80003000}"
    unfolding numeral_2_eq_2 by (simp add: S one_map_entries(1,2) [of 0] p)
  show "pt_wf one_map 2 0x80001000"
    unfolding numeral_2_eq_2 using one_map_pages
    by (auto simp: S one_map_entries p valid_PTE split: if_splits)
  have "idx k 0 = 0" for k by (simp add: idx_def PX_def)
  then show "lookup one_map 2 0x80001000 0 = PA2PTE 0x80004000 OR (PTE_W OR PTE_U) OR PTE_V"
    unfolding numeral_2_eq_2 by (simp add: one_map_entries p valid_PTE)
qed

lemma one_map_writable:
  "v \<in> {0, 1} \<Longrightarrow> writable one_map 0x80001000 v"
  "utrans one_map 0x80001000 0 = 0x80004000" "utrans one_map 0x80001000 1 = 0x80004001"
proof -
  have pg: "PGROUNDDOWN 0 = 0" "PGROUNDDOWN 1 = 0" by (simp_all add: PGROUNDDOWN_alt PGSIZE_def)
  have perm: "PTE_W OR PTE_U < 1024" "(PTE_W OR PTE_U) AND PTE_U \<noteq> 0" "(PTE_W OR PTE_U) AND PTE_W \<noteq> 0"
    by (simp_all add: PTE_W_def PTE_U_def)
  note f = pte_fields [OF one_map_pages(4) perm(1)]
  have u: "uaddr one_map 0x80001000 0 = 0x80004000"
    using f perm by (simp add: uaddr_def one_map_table valid_PTE Let_def MAXVA_def flip: or.assoc)
  show "writable one_map 0x80001000 v" if "v \<in> {0, 1}" for v
    using that f perm by (auto simp: writable_def pg u one_map_table MAXVA_def)
  show "utrans one_map 0x80001000 0 = 0x80004000" "utrans one_map 0x80001000 1 = 0x80004001"
    by (simp_all add: utrans_def pg u)
qed

theorem copyout_copyin_witness:
  "\<exists>t. copyout 0x80001000 0 [1, 2] (demo_table []\<lparr>mem := one_map\<rparr>) = Ok 0 t \<and>
     copyin 0x80001000 0 2 t = Ok (0, [1, 2]) t"
proof -
  let ?s = "demo_table []\<lparr>mem := one_map\<rparr>"
  have "\<exists>t. copyout 0x80001000 0 [1, 2] ?s = Ok 0 t \<and> copyin 0x80001000 0 (length [1, 2 :: byte]) t = Ok (0, [1, 2]) t"
  proof -
    have "pt_wf (mem ?s) 2 0x80001000" using one_map_table(1) by simp
    moreover have "unat (0 :: addr) + length [1, 2 :: byte] \<le> unat MAXVA" by (simp add: MAXVA_def)
    moreover have "\<forall>i < length [1, 2 :: byte]. writable (mem ?s) 0x80001000 (0 + of_nat i)"
      using one_map_writable(1) by (simp add: less_Suc_eq)
    moreover have "\<forall>i < length [1, 2 :: byte]. \<forall>j < length [1, 2 :: byte].
        utrans (mem ?s) 0x80001000 (0 + of_nat i) = utrans (mem ?s) 0x80001000 (0 + of_nat j) \<longrightarrow> i = j"
      using one_map_writable(2,3) by (simp add: less_Suc_eq all_conj_distrib)
    ultimately show ?thesis using copyout_copyin by blast
  qed
  then show ?thesis by (simp add: numeral_2_eq_2 [symmetric])
qed

end
