(* ===== verification/Bio.thy ===== *)
theory Bio
  imports Procs
begin

text \<open>
  Sleep locks (\<open>kernel/sleeplock.c\<close>) and the buffer cache (\<open>kernel/bio.c\<close>) above the disk.

  A buffer is an index into \<open>bufs\<close>; the circular list through \<open>prev\<close> and \<open>next\<close> is the list \<open>lru\<close>
  of indices from \<open>head.next\<close> to \<open>head.prev\<close>. The disk is a map from block numbers to blocks;
  \<open>disk_rw\<close> is the effect of a completed request to it, and \<open>dtrace\<close> records the writes in the
  order in which they reach the disk.

  The locale \<open>buffer_cache\<close> is what the log and the file system rely on. The abstract state of the
  cache is the contents of every block as a process reads it (\<open>view\<close>), the contents on disk, the
  number of references to every block and the set of locked blocks.
\<close>

section \<open>Sleep locks\<close>

record sleeplock =
  sl_locked :: bool
  sl_pid :: "32 word"

definition initsleeplock :: sleeplock where
  "initsleeplock = \<lparr>sl_locked = False, sl_pid = 0\<rparr>"

text \<open>A lock lives in a buffer or an inode: the operations get and return its value, \<open>ch\<close> is its
  address as a channel.\<close>

definition acquiresleep :: "chan \<Rightarrow> sleeplock \<Rightarrow> 'a pstate_scheme \<Rightarrow> ('a pstate_scheme, sleeplock) res" where
  "acquiresleep ch lk s =
     (if sl_locked lk then sleep ch s
      else Ok (lk\<lparr>sl_locked := True, sl_pid := p_pid (myproc s)\<rparr>) s)"

definition releasesleep :: "chan \<Rightarrow> sleeplock \<Rightarrow> 'a pstate_scheme \<Rightarrow> sleeplock \<times> 'a pstate_scheme" where
  "releasesleep ch lk s = (lk\<lparr>sl_locked := False, sl_pid := 0\<rparr>, wakeup ch s)"

definition holdingsleep :: "sleeplock \<Rightarrow> 'a pstate_scheme \<Rightarrow> bool" where
  "holdingsleep lk s \<longleftrightarrow> sl_locked lk \<and> sl_pid lk = p_pid (myproc s)"

section \<open>The buffer cache\<close>

definition BSIZE :: nat where
  "BSIZE = 1024"

definition MAXOPBLOCKS :: nat where
  "MAXOPBLOCKS = 10"

definition LOGBLOCKS :: nat where
  "LOGBLOCKS = MAXOPBLOCKS * 3"

definition NBUF :: nat where
  "NBUF = MAXOPBLOCKS * 3"

type_synonym block = "32 word"

record buf =
  b_valid :: bool
  b_dev :: "32 word"
  b_blockno :: block
  b_lock :: sleeplock
  b_refcnt :: "32 word"
  b_data :: "byte list"

record bstate = pstate +
  bufs :: "buf list"
  lru :: "nat list"
  disk :: "block \<Rightarrow> byte list"
  dtrace :: "(block \<times> byte list) list"

definition upd_buf :: "nat \<Rightarrow> (buf \<Rightarrow> buf) \<Rightarrow> 'a bstate_scheme \<Rightarrow> 'a bstate_scheme" where
  "upd_buf i f s = s\<lparr>bufs := (bufs s)[i := f (bufs s ! i)]\<rparr>"

definition bss_buf :: buf where
  "bss_buf = \<lparr>b_valid = False, b_dev = 0, b_blockno = 0, b_lock = initsleeplock, b_refcnt = 0,
     b_data = replicate BSIZE 0\<rparr>"

text \<open>\<open>binit\<close> inserts each buffer of the zeroed array at the front of the list.\<close>

definition binit :: "'a bstate_scheme \<Rightarrow> 'a bstate_scheme" where
  "binit s = fold (\<lambda>i s. upd_buf i (\<lambda>b. b\<lparr>b_lock := initsleeplock\<rparr>) s\<lparr>lru := i # lru s\<rparr>)
     [0..<length (bufs s)] (s\<lparr>lru := []\<rparr>)"

definition lock_buf :: "nat \<Rightarrow> 'a bstate_scheme \<Rightarrow> ('a bstate_scheme, nat) res" where
  "lock_buf i s = bindr (acquiresleep (ChSleeplock i) (b_lock (bufs s ! i)) s) (\<lambda>lk s.
     Ok i (upd_buf i (\<lambda>b. b\<lparr>b_lock := lk\<rparr>) s))"

definition bget :: "32 word \<Rightarrow> block \<Rightarrow> 'a bstate_scheme \<Rightarrow> ('a bstate_scheme, nat) res" where
  "bget dev blockno s =
     (case find (\<lambda>i. b_dev (bufs s ! i) = dev \<and> b_blockno (bufs s ! i) = blockno) (lru s) of
        Some i \<Rightarrow> lock_buf i (upd_buf i (\<lambda>b. b\<lparr>b_refcnt := b_refcnt b + 1\<rparr>) s)
      | None \<Rightarrow>
         (case find (\<lambda>i. b_refcnt (bufs s ! i) = 0) (rev (lru s)) of
            Some i \<Rightarrow> lock_buf i (upd_buf i (\<lambda>b. b\<lparr>b_dev := dev, b_blockno := blockno,
                b_valid := False, b_refcnt := 1\<rparr>) s)
          | None \<Rightarrow> Panic ''bget: no buffers''))"

text \<open>A completed disk request.\<close>

definition disk_rw :: "nat \<Rightarrow> bool \<Rightarrow> 'a bstate_scheme \<Rightarrow> 'a bstate_scheme" where
  "disk_rw i write s =
     (let b = bufs s ! i in
      if write then s\<lparr>disk := (disk s)(b_blockno b := b_data b), dtrace := dtrace s @ [(b_blockno b, b_data b)]\<rparr>
      else upd_buf i (\<lambda>b. b\<lparr>b_data := disk s (b_blockno b)\<rparr>) s)"

definition bread :: "32 word \<Rightarrow> block \<Rightarrow> 'a bstate_scheme \<Rightarrow> ('a bstate_scheme, nat) res" where
  "bread dev blockno s = bindr (bget dev blockno s) (\<lambda>i s.
     if \<not> b_valid (bufs s ! i)
     then Ok i (upd_buf i (\<lambda>b. b\<lparr>b_valid := True\<rparr>) (disk_rw i False s))
     else Ok i s)"

definition bwrite :: "nat \<Rightarrow> 'a bstate_scheme \<Rightarrow> ('a bstate_scheme, unit) res" where
  "bwrite i s =
     (if \<not> holdingsleep (b_lock (bufs s ! i)) s then Panic ''bwrite'' else Ok () (disk_rw i True s))"

definition brelse :: "nat \<Rightarrow> 'a bstate_scheme \<Rightarrow> ('a bstate_scheme, unit) res" where
  "brelse i s =
     (if \<not> holdingsleep (b_lock (bufs s ! i)) s then Panic ''brelse''
      else let (lk, s) = releasesleep (ChSleeplock i) (b_lock (bufs s ! i)) s;
               s = upd_buf i (\<lambda>b. b\<lparr>b_lock := lk\<rparr>) s;
               s = upd_buf i (\<lambda>b. b\<lparr>b_refcnt := b_refcnt b - 1\<rparr>) s
           in Ok () (if b_refcnt (bufs s ! i) = 0 then s\<lparr>lru := i # remove1 i (lru s)\<rparr> else s))"

definition bpin :: "nat \<Rightarrow> 'a bstate_scheme \<Rightarrow> 'a bstate_scheme" where
  "bpin i s = upd_buf i (\<lambda>b. b\<lparr>b_refcnt := b_refcnt b + 1\<rparr>) s"

definition bunpin :: "nat \<Rightarrow> 'a bstate_scheme \<Rightarrow> 'a bstate_scheme" where
  "bunpin i s = upd_buf i (\<lambda>b. b\<lparr>b_refcnt := b_refcnt b - 1\<rparr>) s"

text \<open>The C code reads and writes \<open>b->data\<close> of a locked buffer directly.\<close>

definition bdata :: "nat \<Rightarrow> 'a bstate_scheme \<Rightarrow> byte list" where
  "bdata i s = b_data (bufs s ! i)"

definition set_bdata :: "nat \<Rightarrow> byte list \<Rightarrow> 'a bstate_scheme \<Rightarrow> 'a bstate_scheme" where
  "set_bdata i d s = upd_buf i (\<lambda>b. b\<lparr>b_data := d\<rparr>) s"

section \<open>The abstract cache\<close>

definition is_buf :: "32 word \<Rightarrow> 'a bstate_scheme \<Rightarrow> block \<Rightarrow> nat \<Rightarrow> bool" where
  "is_buf d s b i \<longleftrightarrow> b_dev (bufs s ! i) = d \<and> b_blockno (bufs s ! i) = b"

definition slot :: "32 word \<Rightarrow> 'a bstate_scheme \<Rightarrow> block \<Rightarrow> nat option" where
  "slot d s b = find (is_buf d s b) [0..<length (bufs s)]"

definition bview :: "32 word \<Rightarrow> 'a bstate_scheme \<Rightarrow> block \<Rightarrow> byte list" where
  "bview d s b = (case slot d s b of None \<Rightarrow> disk s b
     | Some i \<Rightarrow> if b_valid (bufs s ! i) then b_data (bufs s ! i) else disk s b)"

definition bref :: "32 word \<Rightarrow> 'a bstate_scheme \<Rightarrow> block \<Rightarrow> nat" where
  "bref d s b = (case slot d s b of None \<Rightarrow> 0 | Some i \<Rightarrow> unat (b_refcnt (bufs s ! i)))"

definition blocked :: "32 word \<Rightarrow> 'a bstate_scheme \<Rightarrow> block set" where
  "blocked d s = {b. \<exists>i. slot d s b = Some i \<and> sl_locked (b_lock (bufs s ! i))}"

definition bholds :: "32 word \<Rightarrow> 'a bstate_scheme \<Rightarrow> nat \<Rightarrow> block \<Rightarrow> bool" where
  "bholds d s i b \<longleftrightarrow> slot d s b = Some i \<and> sl_locked (b_lock (bufs s ! i)) \<and>
     sl_pid (b_lock (bufs s ! i)) = p_pid (myproc s) \<and> b_valid (bufs s ! i)"

definition broom :: "32 word \<Rightarrow> 'a bstate_scheme \<Rightarrow> bool" where
  "broom d s \<longleftrightarrow> card {b. 0 < bref d s b} < length (bufs s)"

definition cur_ok :: "'a pstate_scheme \<Rightarrow> bool" where
  "cur_ok s \<longleftrightarrow> (\<exists>c. curp s = Some c \<and> c < length (procs s))"

definition cache_ok :: "32 word \<Rightarrow> 'a bstate_scheme \<Rightarrow> bool" where
  "cache_ok d s \<longleftrightarrow> cur_ok s \<and> distinct (lru s) \<and> set (lru s) = {..<length (bufs s)} \<and>
     (\<forall>i < length (bufs s). \<forall>j < length (bufs s). b_dev (bufs s ! i) = d \<longrightarrow> b_dev (bufs s ! j) = d \<longrightarrow>
        b_blockno (bufs s ! i) = b_blockno (bufs s ! j) \<longrightarrow> i = j) \<and>
     (\<forall>i < length (bufs s). let b = bufs s ! i in
        (b_dev b \<noteq> d \<longrightarrow> b_refcnt b = 0) \<and> (b_refcnt b = 0 \<longrightarrow> \<not> sl_locked (b_lock b)) \<and>
        (b_refcnt b = 0 \<longrightarrow> b_dev b = d \<longrightarrow> b_valid b \<longrightarrow> b_data b = disk s (b_blockno b)))"

lemma find_SomeD: "find P xs = Some x \<Longrightarrow> x \<in> set xs \<and> P x"
  by (induction xs) (auto split: if_splits)

lemma find_unique:
  assumes "i \<in> set xs" "P i" "\<And>j. j \<in> set xs \<Longrightarrow> P j \<Longrightarrow> j = i"
  shows "find P xs = Some i"
proof (cases "find P xs")
  case None
  then show ?thesis using assms(1,2) by (auto simp: find_None_iff)
next
  case (Some j)
  then show ?thesis using find_SomeD [OF Some] assms(3) by auto
qed

lemma slot_SomeD: "slot d s b = Some i \<Longrightarrow> i < length (bufs s) \<and> is_buf d s b i"
  unfolding slot_def by (drule find_SomeD) simp

lemma slot_None: "slot d s b = None \<longleftrightarrow> (\<forall>i < length (bufs s). \<not> is_buf d s b i)"
  by (auto simp: slot_def find_None_iff)

lemma cache_okD:
  assumes "cache_ok d s"
  shows "cur_ok s" "distinct (lru s)" "set (lru s) = {..<length (bufs s)}"
    "i < length (bufs s) \<Longrightarrow> j < length (bufs s) \<Longrightarrow> is_buf d s b i \<Longrightarrow> is_buf d s b j \<Longrightarrow> i = j"
    "i < length (bufs s) \<Longrightarrow> b_dev (bufs s ! i) \<noteq> d \<Longrightarrow> b_refcnt (bufs s ! i) = 0"
    "i < length (bufs s) \<Longrightarrow> b_refcnt (bufs s ! i) = 0 \<Longrightarrow> \<not> sl_locked (b_lock (bufs s ! i))"
    "i < length (bufs s) \<Longrightarrow> b_refcnt (bufs s ! i) = 0 \<Longrightarrow> b_dev (bufs s ! i) = d \<Longrightarrow>
      b_valid (bufs s ! i) \<Longrightarrow> b_data (bufs s ! i) = disk s (b_blockno (bufs s ! i))"
  using assms unfolding cache_ok_def Let_def is_buf_def by blast+

lemma slot_iff:
  assumes "cache_ok d s"
  shows "slot d s b = Some i \<longleftrightarrow> i < length (bufs s) \<and> is_buf d s b i"
proof
  assume "i < length (bufs s) \<and> is_buf d s b i"
  then show "slot d s b = Some i"
    unfolding slot_def using cache_okD(4) [OF assms] by (intro find_unique) auto
qed (rule slot_SomeD)

lemma cache_find:
  assumes "cache_ok d s" and "set xs = {..<length (bufs s)}"
  shows "find (is_buf d s b) xs = slot d s b"
proof (cases "slot d s b")
  case None
  then have "find (is_buf d s b) xs = None" using assms(2) by (auto simp: slot_None find_None_iff)
  then show ?thesis using None by simp
next
  case (Some i)
  with slot_SomeD [OF Some] show ?thesis
    using cache_okD(4) [OF assms(1)] assms(2) by (intro trans [OF find_unique]) auto
qed

text \<open>Room in the cache means a buffer without references.\<close>

lemma room_free:
  assumes ok: "cache_ok d s" and "broom d s"
  shows "\<exists>i < length (bufs s). b_refcnt (bufs s ! i) = 0"
proof (rule ccontr)
  assume "\<not> ?thesis"
  then have used: "i < length (bufs s) \<Longrightarrow> b_refcnt (bufs s ! i) \<noteq> 0" for i by blast
  let ?f = "\<lambda>i. b_blockno (bufs s ! i)"
  have dev: "i < length (bufs s) \<Longrightarrow> b_dev (bufs s ! i) = d" for i using used cache_okD(5) [OF ok] by blast
  have "inj_on ?f {..<length (bufs s)}"
    using dev cache_okD(4) [OF ok] by (auto simp: inj_on_def is_buf_def)
  then have c: "card (?f ` {..<length (bufs s)}) = length (bufs s)" by (simp add: card_image)
  have "{b. 0 < bref d s b} \<subseteq> ?f ` {..<length (bufs s)}"
    by (auto simp: bref_def is_buf_def dest!: slot_SomeD split: option.splits)
  moreover have "?f ` {..<length (bufs s)} \<subseteq> {b. 0 < bref d s b}"
  proof
    fix b assume "b \<in> ?f ` {..<length (bufs s)}"
    then obtain i where i: "i < length (bufs s)" "b = ?f i" by blast
    then have "slot d s b = Some i" using slot_iff [OF ok] dev by (simp add: is_buf_def)
    then show "b \<in> {b. 0 < bref d s b}" using used i by (simp add: bref_def unat_gt_0)
  qed
  ultimately have "{b. 0 < bref d s b} = ?f ` {..<length (bufs s)}" by blast
  then show False using assms(2) c by (simp add: broom_def)
qed

section \<open>Effects on the abstract cache\<close>

lemma upd_buf_simps [simp]:
  "length (bufs (upd_buf i f s)) = length (bufs s)" "disk (upd_buf i f s) = disk s"
  "lru (upd_buf i f s) = lru s" "dtrace (upd_buf i f s) = dtrace s" "procs (upd_buf i f s) = procs s"
  "curp (upd_buf i f s) = curp s"
  by (simp_all add: upd_buf_def)

lemma bufs_upd_buf:
  "j < length (bufs s) \<Longrightarrow> bufs (upd_buf i f s) ! j = (if j = i then f (bufs s ! j) else bufs s ! j)"
  by (simp add: upd_buf_def)

lemma upd_buf_twice [simp]: "upd_buf i g (upd_buf i f s) = upd_buf i (\<lambda>b. g (f b)) s"
proof (cases "i < length (bufs s)")
  case True
  then show ?thesis by (simp add: upd_buf_def)
next
  case False
  then show ?thesis by (simp add: upd_buf_def list_update_beyond)
qed

lemma cur_ok_upd_buf [simp]: "cur_ok (upd_buf i f s) = cur_ok s"
  by (simp add: cur_ok_def)

lemma myproc_upd_buf [simp]: "myproc (upd_buf i f s) = myproc s"
  by (simp add: myproc_def)

text \<open>An update of one buffer that keeps its identity.\<close>

lemma upd_buf_effect:
  assumes ok: "cache_ok d s" and i: "slot d s b = Some i"
    and keep: "\<And>B. b_dev (f B) = b_dev B \<and> b_blockno (f B) = b_blockno B"
  defines "t \<equiv> upd_buf i f s" and "B \<equiv> f (bufs s ! i)"
  shows "slot d t = slot d s"
    and "bview d t = (bview d s)(b := if b_valid B then b_data B else disk s b)"
    and "bref d t = (bref d s)(b := unat (b_refcnt B))"
    and "blocked d t = (if sl_locked (b_lock B) then insert b (blocked d s) else blocked d s - {b})"
    and "bholds d t j c \<longleftrightarrow> (if c = b then j = i \<and> sl_locked (b_lock B) \<and>
      sl_pid (b_lock B) = p_pid (myproc s) \<and> b_valid B else bholds d s j c)"
    and "(b_refcnt B = 0 \<longrightarrow> \<not> sl_locked (b_lock B) \<and> (b_valid B \<longrightarrow> b_data B = disk s b)) \<Longrightarrow> cache_ok d t"
proof -
  have iN: "i < length (bufs s)" "b_dev (bufs s ! i) = d" "b_blockno (bufs s ! i) = b"
    using slot_SomeD [OF i] by (auto simp: is_buf_def)
  have id: "k < length (bufs s) \<Longrightarrow> b_dev (bufs t ! k) = b_dev (bufs s ! k) \<and>
      b_blockno (bufs t ! k) = b_blockno (bufs s ! k)" for k
    using keep by (simp add: t_def bufs_upd_buf)
  have len: "length (bufs t) = length (bufs s)" by (simp add: t_def)
  have "find (is_buf d t c) [0..<length (bufs s)] = find (is_buf d s c) [0..<length (bufs s)]" for c
    using id by (intro find_cong) (auto simp: is_buf_def)
  then show sl: "slot d t = slot d s" by (simp add: slot_def fun_eq_iff len)
  have other: "bufs t ! k = bufs s ! k \<and> k \<noteq> i" if "slot d s c = Some k" "c \<noteq> b" for c k
    using slot_SomeD [OF that(1)] that(2) iN by (auto simp: t_def bufs_upd_buf is_buf_def)
  have self: "bufs t ! i = B" using iN by (simp add: t_def B_def bufs_upd_buf)
  have d: "disk t = disk s" "myproc t = myproc s" by (simp_all add: t_def)
  show "bview d t = (bview d s)(b := if b_valid B then b_data B else disk s b)"
    using other self i by (auto simp: fun_eq_iff bview_def sl d split: option.splits)
  show "bref d t = (bref d s)(b := unat (b_refcnt B))"
    using other self i by (auto simp: fun_eq_iff bref_def sl split: option.splits)
  show "blocked d t = (if sl_locked (b_lock B) then insert b (blocked d s) else blocked d s - {b})"
  proof (rule set_eqI)
    fix c
    show "c \<in> blocked d t \<longleftrightarrow> c \<in> (if sl_locked (b_lock B) then insert b (blocked d s) else blocked d s - {b})"
    proof (cases "c = b")
      case True
      then show ?thesis using self i by (simp add: blocked_def sl)
    next
      case False
      then have "c \<in> blocked d t \<longleftrightarrow> c \<in> blocked d s" using other by (auto simp: blocked_def sl)
      then show ?thesis using False by simp
    qed
  qed
  show "bholds d t j c \<longleftrightarrow> (if c = b then j = i \<and> sl_locked (b_lock B) \<and>
      sl_pid (b_lock B) = p_pid (myproc s) \<and> b_valid B else bholds d s j c)"
    using other [of c j] self i by (auto simp: bholds_def sl d)
  assume B: "b_refcnt B = 0 \<longrightarrow> \<not> sl_locked (b_lock B) \<and> (b_valid B \<longrightarrow> b_data B = disk s b)"
  have "let b = bufs t ! k in (b_dev b \<noteq> d \<longrightarrow> b_refcnt b = 0) \<and> (b_refcnt b = 0 \<longrightarrow> \<not> sl_locked (b_lock b)) \<and>
      (b_refcnt b = 0 \<longrightarrow> b_dev b = d \<longrightarrow> b_valid b \<longrightarrow> b_data b = disk t (b_blockno b))"
    if k: "k < length (bufs s)" for k
  proof (cases "k = i")
    case True
    then show ?thesis using B self iN id [OF k] by (simp add: d)
  next
    case False
    then have "bufs t ! k = bufs s ! k" using k by (simp add: t_def bufs_upd_buf)
    then show ?thesis using ok k by (simp add: d cache_ok_def Let_def)
  qed
  moreover have "cur_ok t \<and> distinct (lru t) \<and> set (lru t) = {..<length (bufs t)}"
    using ok by (simp add: t_def cache_ok_def)
  moreover have "j = k" if "j < length (bufs s)" "k < length (bufs s)" "b_dev (bufs t ! j) = d"
      "b_dev (bufs t ! k) = d" "b_blockno (bufs t ! j) = b_blockno (bufs t ! k)" for j k
    using that id cache_okD(4) [OF ok, of j k] by (simp add: is_buf_def)
  ultimately show "cache_ok d t" unfolding cache_ok_def len by blast
qed

text \<open>Giving an unreferenced buffer to another block.\<close>

lemma recycle_effect:
  assumes ok: "cache_ok d s" and b: "slot d s b = None" and i: "i < length (bufs s)" "b_refcnt (bufs s ! i) = 0"
  defines "t \<equiv> upd_buf i (\<lambda>B. B\<lparr>b_dev := d, b_blockno := b, b_valid := False\<rparr>) s"
  shows "cache_ok d t" "slot d t b = Some i" "bview d t = bview d s" "bref d t = bref d s"
    "blocked d t = blocked d s" "bholds d s j c \<Longrightarrow> bholds d t j c"
proof -
  have nl: "\<not> sl_locked (b_lock (bufs s ! i))" using cache_okD(6) [OF ok i] .
  have bt: "bufs t ! k = (if k = i then (bufs s ! i)\<lparr>b_dev := d, b_blockno := b, b_valid := False\<rparr> else bufs s ! k)"
    if "k < length (bufs s)" for k using that by (simp add: t_def bufs_upd_buf)
  have len: "length (bufs t) = length (bufs s)" and d: "disk t = disk s" "myproc t = myproc s"
    by (simp_all add: t_def)
  have fresh: "\<not> is_buf d s b k" if "k < length (bufs s)" for k using b that by (simp add: slot_None)
  have uniq: "j = k" if "j < length (bufs s)" "k < length (bufs s)" "b_dev (bufs t ! j) = d"
      "b_dev (bufs t ! k) = d" "b_blockno (bufs t ! j) = b_blockno (bufs t ! k)" for j k
    using that fresh [of j] fresh [of k] cache_okD(4) [OF ok, of j k]
    by (auto simp: bt is_buf_def split: if_splits)
  have "let b = bufs t ! k in (b_dev b \<noteq> d \<longrightarrow> b_refcnt b = 0) \<and> (b_refcnt b = 0 \<longrightarrow> \<not> sl_locked (b_lock b)) \<and>
      (b_refcnt b = 0 \<longrightarrow> b_dev b = d \<longrightarrow> b_valid b \<longrightarrow> b_data b = disk t (b_blockno b))"
    if k: "k < length (bufs s)" for k
    using ok k nl by (cases "k = i") (simp_all add: bt d cache_ok_def Let_def)
  moreover have "cur_ok t \<and> distinct (lru t) \<and> set (lru t) = {..<length (bufs t)}"
    using ok by (simp add: t_def cache_ok_def)
  ultimately show okt: "cache_ok d t" using uniq unfolding cache_ok_def len by blast
  show sb: "slot d t b = Some i" using i by (simp add: slot_iff [OF okt] len is_buf_def bt)
  have sl: "slot d t c = (if slot d s c = Some i then None else slot d s c)" if c: "c \<noteq> b" for c
  proof (cases "slot d s c")
    case None
    then have "slot d t c = None" using c fresh by (auto simp: slot_None is_buf_def bt len)
    then show ?thesis using None by simp
  next
    case (Some k)
    note k = slot_SomeD [OF Some]
    show ?thesis
    proof (cases "k = i")
      case True
      have "\<not> is_buf d t c n" if "n < length (bufs s)" for n
      proof (cases "n = i")
        case True
        then show ?thesis using that c by (simp add: is_buf_def bt)
      next
        case False
        then have "\<not> is_buf d s c n" using that k True cache_okD(4) [OF ok, of n i c] i(1) by blast
        then show ?thesis using that False by (simp add: is_buf_def bt)
      qed
      then show ?thesis using Some True by (simp add: slot_None len)
    next
      case False
      then have "slot d t c = Some k" using k by (simp add: slot_iff [OF okt] len is_buf_def bt)
      then show ?thesis using Some False by simp
    qed
  qed
  have old: "disk s c = b_data (bufs s ! i)" if "slot d s c = Some i" "b_valid (bufs s ! i)" for c
    using that slot_SomeD [OF that(1)] cache_okD(7) [OF ok i] by (simp add: is_buf_def)
  have ne: "k \<noteq> i \<Longrightarrow> slot d s c = Some k \<Longrightarrow> bufs t ! k = bufs s ! k" for k c
    using slot_SomeD [of d s c k] by (simp add: bt)
  have bv: "\<not> b_valid (bufs t ! i)" "unat (b_refcnt (bufs t ! i)) = 0" "\<not> sl_locked (b_lock (bufs t ! i))"
    using bt [OF i(1)] i(2) nl by simp_all
  have "bview d t c = bview d s c \<and> bref d t c = bref d s c \<and> (c \<in> blocked d t \<longleftrightarrow> c \<in> blocked d s)" for c
  proof (cases "c = b")
    case True
    then show ?thesis using sb b bv by (simp add: bview_def bref_def blocked_def d)
  next
    case False
    note slc = sl [OF False]
    show ?thesis
    proof (cases "slot d s c")
      case None
      then show ?thesis using slc by (simp add: bview_def bref_def blocked_def d)
    next
      case (Some k)
      show ?thesis
      proof (cases "k = i")
        case True
        then show ?thesis using slc Some old [of c] i(2) nl by (simp add: bview_def bref_def blocked_def d)
      next
        case False
        then show ?thesis using slc Some ne [OF False Some] by (simp add: bview_def bref_def blocked_def d)
      qed
    qed
  qed
  then show "bview d t = bview d s" "bref d t = bref d s" "blocked d t = blocked d s" by blast+
  show "bholds d t j c" if "bholds d s j c"
    using that sl [of c] ne [of j c] b nl by (cases "c = b") (auto simp: bholds_def d)
qed

lemma slot_cong: "bufs t = bufs s \<Longrightarrow> slot d t = slot d s"
  by (simp add: slot_def is_buf_def [abs_def] fun_eq_iff)

lemma cache_ok_lru:
  assumes "cache_ok d s" and "set xs = set (lru s)" and "distinct xs"
  shows "cache_ok d (s\<lparr>lru := xs\<rparr>)" "bview d (s\<lparr>lru := xs\<rparr>) = bview d s" "bref d (s\<lparr>lru := xs\<rparr>) = bref d s"
    "blocked d (s\<lparr>lru := xs\<rparr>) = blocked d s" "bholds d (s\<lparr>lru := xs\<rparr>) j c = bholds d s j c"
proof -
  have "slot d (s\<lparr>lru := xs\<rparr>) = slot d s" by (rule slot_cong) simp
  then show "bview d (s\<lparr>lru := xs\<rparr>) = bview d s" "bref d (s\<lparr>lru := xs\<rparr>) = bref d s"
    "blocked d (s\<lparr>lru := xs\<rparr>) = blocked d s" "bholds d (s\<lparr>lru := xs\<rparr>) j c = bholds d s j c"
    by (simp_all add: bview_def bref_def blocked_def bholds_def myproc_def fun_eq_iff cong: option.case_cong if_cong)
  show "cache_ok d (s\<lparr>lru := xs\<rparr>)" using assms by (simp add: cache_ok_def cur_ok_def)
qed

lemma wakeup_cache:
  assumes "cache_ok d s"
  shows "cache_ok d (wakeup ch s)" "bview d (wakeup ch s) = bview d s" "bref d (wakeup ch s) = bref d s"
    "blocked d (wakeup ch s) = blocked d s" "bholds d (wakeup ch s) j c = bholds d s j c"
    "slot d (wakeup ch s) = slot d s"
    "bufs (wakeup ch s) = bufs s" "p_pid (myproc (wakeup ch s)) = p_pid (myproc s)"
    "disk (wakeup ch s) = disk s" "dtrace (wakeup ch s) = dtrace s" "lru (wakeup ch s) = lru s"
proof -
  show b: "bufs (wakeup ch s) = bufs s" and d: "disk (wakeup ch s) = disk s"
      "dtrace (wakeup ch s) = dtrace s" "lru (wakeup ch s) = lru s"
    by (simp_all add: wakeup_def)
  obtain k where "curp s = Some k" "k < length (procs s)"
    using cache_okD(1) [OF assms] by (auto simp: cur_ok_def)
  then show p: "p_pid (myproc (wakeup ch s)) = p_pid (myproc s)"
    by (simp add: myproc_def procs_wakeup Let_def)
  show sl: "slot d (wakeup ch s) = slot d s" using b by (rule slot_cong)
  show "bview d (wakeup ch s) = bview d s" "bref d (wakeup ch s) = bref d s"
    "blocked d (wakeup ch s) = blocked d s" "bholds d (wakeup ch s) j c = bholds d s j c"
    by (simp_all add: bview_def bref_def blocked_def bholds_def fun_eq_iff sl b d p cong: option.case_cong if_cong)
  show "cache_ok d (wakeup ch s)" using assms by (simp add: cache_ok_def cur_ok_def b d)
qed

text \<open>The laws of the operations.\<close>

lemma bread_cached:
  assumes ok: "cache_ok d s" and i: "slot d s b = Some i" and nb: "b \<notin> blocked d s"
    and lim: "bref d s b + 1 < 2 ^ 32"
    and t1: "t1 = upd_buf i (\<lambda>B. B\<lparr>b_refcnt := b_refcnt B + 1\<rparr>) s"
  defines "r \<equiv> bindr (lock_buf i t1) (\<lambda>i s. if \<not> b_valid (bufs s ! i)
     then Ok i (upd_buf i (\<lambda>b. b\<lparr>b_valid := True\<rparr>) (disk_rw i False s)) else Ok i s)"
  shows "\<exists>t. r = Ok i t \<and> cache_ok d t \<and> bholds d t i b \<and> (\<forall>j c. bholds d s j c \<longrightarrow> bholds d t j c) \<and>
    bview d t = bview d s \<and> disk t = disk s \<and> dtrace t = dtrace s \<and>
    bref d t = (bref d s)(b := bref d s b + 1) \<and> blocked d t = insert b (blocked d s) \<and>
    length (bufs t) = length (bufs s)"
proof -
  let ?B = "bufs s ! i"
  have iN: "i < length (bufs s)" "b_blockno ?B = b" "b_dev ?B = d"
    using slot_SomeD [OF i] by (auto simp: is_buf_def)
  have nl: "\<not> sl_locked (b_lock ?B)" using nb i by (auto simp: blocked_def)
  define f :: "buf \<Rightarrow> buf" where "f = (\<lambda>B. B\<lparr>b_refcnt := b_refcnt B + 1,
      b_lock := \<lparr>sl_locked = True, sl_pid = p_pid (myproc s)\<rparr>,
      b_data := (if b_valid B then b_data B else disk s (b_blockno B)), b_valid := True\<rparr>)"
  have lb: "lock_buf i t1 = Ok i (upd_buf i (\<lambda>B. B\<lparr>b_refcnt := b_refcnt B + 1,
      b_lock := \<lparr>sl_locked = True, sl_pid = p_pid (myproc s)\<rparr>\<rparr>) s)"
    using nl iN by (cases "b_lock ?B") (simp add: lock_buf_def acquiresleep_def t1 bufs_upd_buf)
  have r: "r = Ok i (upd_buf i f s)"
  proof (cases "b_valid ?B")
    case True
    have "upd_buf i (\<lambda>B. B\<lparr>b_refcnt := b_refcnt B + 1,
        b_lock := \<lparr>sl_locked = True, sl_pid = p_pid (myproc s)\<rparr>\<rparr>) s = upd_buf i f s"
      using True by (cases ?B) (simp add: upd_buf_def f_def)
    moreover have "b_valid (f ?B)" by (simp add: f_def)
    ultimately show ?thesis using lb iN by (simp add: r_def bufs_upd_buf)
  next
    case False
    then show ?thesis using lb iN
      by (simp add: r_def bufs_upd_buf disk_rw_def f_def Let_def) (simp add: upd_buf_def)
  qed
  have keep: "b_dev (f B) = b_dev B \<and> b_blockno (f B) = b_blockno B" for B by (simp add: f_def)
  note eff = upd_buf_effect [OF ok i keep]
  have rf: "unat (b_refcnt ?B + 1) = bref d s b + 1"
    using lim i by (simp add: bref_def unat_word_ariths(1))
  then have nz: "b_refcnt ?B + 1 \<noteq> 0" by (metis add_is_0 one_neq_zero unat_0)
  have v: "bview d s b = (if b_valid ?B then b_data ?B else disk s b)" using i by (simp add: bview_def)
  have "cache_ok d (upd_buf i f s)" using nz by (intro eff(6)) (simp add: f_def)
  moreover have "bview d (upd_buf i f s) = bview d s" unfolding eff(2) using v iN by (auto simp: f_def)
  moreover have "bref d (upd_buf i f s) = (bref d s)(b := bref d s b + 1)" unfolding eff(3) using rf by (simp add: f_def)
  moreover have "blocked d (upd_buf i f s) = insert b (blocked d s)" unfolding eff(4) by (simp add: f_def)
  moreover have "bholds d (upd_buf i f s) i b" unfolding eff(5) by (simp add: f_def)
  moreover have "bholds d (upd_buf i f s) j c" if "bholds d s j c" for j c
    using that nb unfolding eff(5) by (auto simp: bholds_def blocked_def)
  ultimately show ?thesis using r by simp
qed

lemma bread_law:
  assumes ok: "cache_ok d s" and nb: "b \<notin> blocked d s" and lim: "bref d s b + 1 < 2 ^ 32"
    and room: "0 < bref d s b \<or> broom d s"
  shows "\<exists>i t. bread d b s = Ok i t \<and> cache_ok d t \<and> bholds d t i b \<and> (\<forall>j c. bholds d s j c \<longrightarrow> bholds d t j c) \<and>
    bview d t = bview d s \<and> disk t = disk s \<and> dtrace t = dtrace s \<and>
    bref d t = (bref d s)(b := bref d s b + 1) \<and> blocked d t = insert b (blocked d s) \<and>
    length (bufs t) = length (bufs s)"
proof (cases "slot d s b")
  case (Some i)
  have "find (is_buf d s b) (lru s) = Some i" using cache_find [OF ok cache_okD(3) [OF ok]] Some by simp
  then have bg: "bget d b s = lock_buf i (upd_buf i (\<lambda>B. B\<lparr>b_refcnt := b_refcnt B + 1\<rparr>) s)"
    by (simp add: bget_def is_buf_def [abs_def])
  show ?thesis unfolding bread_def bg using bread_cached [OF ok Some nb lim refl] by blast
next
  case None
  have fn: "find (is_buf d s b) (lru s) = None" using cache_find [OF ok cache_okD(3) [OF ok]] None by simp
  have "bref d s b = 0" using None by (simp add: bref_def)
  with room have "broom d s" by simp
  then obtain k where "k < length (bufs s)" "b_refcnt (bufs s ! k) = 0" using room_free [OF ok] by blast
  then have "find (\<lambda>i. b_refcnt (bufs s ! i) = 0) (rev (lru s)) \<noteq> None"
    using cache_okD(3) [OF ok] by (auto simp: find_None_iff)
  then obtain i where fi: "find (\<lambda>i. b_refcnt (bufs s ! i) = 0) (rev (lru s)) = Some i" by blast
  then have i: "i < length (bufs s)" "b_refcnt (bufs s ! i) = 0"
    using find_SomeD [OF fi] cache_okD(3) [OF ok] by auto
  define t where "t = upd_buf i (\<lambda>B. B\<lparr>b_dev := d, b_blockno := b, b_valid := False\<rparr>) s"
  note rc = recycle_effect [OF ok None i, folded t_def]
  have "upd_buf i (\<lambda>B. B\<lparr>b_dev := d, b_blockno := b, b_valid := False, b_refcnt := 1\<rparr>) s =
      upd_buf i (\<lambda>B. B\<lparr>b_refcnt := b_refcnt B + 1\<rparr>) t"
    using i unfolding t_def by (simp add: upd_buf_def)
  then have bg: "bget d b s = lock_buf i (upd_buf i (\<lambda>B. B\<lparr>b_refcnt := b_refcnt B + 1\<rparr>) t)"
    using fn fi by (simp add: bget_def is_buf_def [abs_def])
  have "disk t = disk s" "dtrace t = dtrace s" "length (bufs t) = length (bufs s)" by (simp_all add: t_def)
  moreover note bread_cached [OF rc(1,2) _ _ refl, unfolded rc(3-5), OF nb lim]
  ultimately show ?thesis unfolding bread_def bg using rc(6) by auto
qed

lemma bholds_facts:
  assumes "cache_ok d s" and "bholds d s i b"
  shows "slot d s b = Some i" "i < length (bufs s)" "b_blockno (bufs s ! i) = b"
    "holdingsleep (b_lock (bufs s ! i)) s" "b_refcnt (bufs s ! i) \<noteq> 0" "bdata i s = bview d s b"
    "b_valid (bufs s ! i)" "bref d s b = unat (b_refcnt (bufs s ! i))" "b \<in> blocked d s"
  using assms slot_SomeD [of d s b i] cache_okD(6) [OF assms(1), of i]
  by (auto simp: bholds_def is_buf_def holdingsleep_def bdata_def bview_def bref_def blocked_def)

lemma set_bdata_law:
  assumes ok: "cache_ok d s" and h: "bholds d s i b"
  shows "cache_ok d (set_bdata i dt s)" "bview d (set_bdata i dt s) = (bview d s)(b := dt)"
    "bref d (set_bdata i dt s) = bref d s" "blocked d (set_bdata i dt s) = blocked d s"
    "bholds d (set_bdata i dt s) j c = bholds d s j c"
    "disk (set_bdata i dt s) = disk s" "dtrace (set_bdata i dt s) = dtrace s"
    "length (bufs (set_bdata i dt s)) = length (bufs s)"
proof -
  note f = bholds_facts [OF ok h]
  note eff = upd_buf_effect [OF ok f(1), of "\<lambda>B. B\<lparr>b_data := dt\<rparr>", simplified, folded set_bdata_def]
  show "cache_ok d (set_bdata i dt s)" using eff(6) f(5) by simp
  show "bview d (set_bdata i dt s) = (bview d s)(b := dt)" unfolding eff(2) using f(7) by simp
  show "bref d (set_bdata i dt s) = bref d s" unfolding eff(3) using f(8) by (simp add: fun_eq_iff)
  show "blocked d (set_bdata i dt s) = blocked d s" unfolding eff(4) using h f(9) by (auto simp: bholds_def)
  show "bholds d (set_bdata i dt s) j c = bholds d s j c" unfolding eff(5) using h by (auto simp: bholds_def)
qed (simp_all add: set_bdata_def)

lemma bwrite_law:
  assumes ok: "cache_ok d s" and h: "bholds d s i b"
  shows "\<exists>t. bwrite i s = Ok () t \<and> cache_ok d t \<and> (\<forall>j c. bholds d s j c \<longrightarrow> bholds d t j c) \<and>
    bview d t = bview d s \<and> disk t = (disk s)(b := bview d s b) \<and> dtrace t = dtrace s @ [(b, bview d s b)] \<and>
    bref d t = bref d s \<and> blocked d t = blocked d s \<and> length (bufs t) = length (bufs s)"
proof -
  note f = bholds_facts [OF ok h]
  let ?t = "disk_rw i True s"
  have t: "?t = s\<lparr>disk := (disk s)(b := bview d s b), dtrace := dtrace s @ [(b, bview d s b)]\<rparr>"
    using f(3,6) by (simp add: disk_rw_def bdata_def Let_def)
  have sl: "slot d ?t = slot d s" by (rule slot_cong) (simp add: t)
  have "bview d ?t c = bview d s c" for c
  proof (cases "c = b")
    case True
    then show ?thesis unfolding bview_def sl using f(1,7) by (simp add: t bview_def)
  next
    case False
    then show ?thesis unfolding bview_def sl by (simp add: t cong: option.case_cong if_cong)
  qed
  then have v: "bview d ?t = bview d s" by blast
  have rest: "bref d ?t = bref d s" "blocked d ?t = blocked d s" "bholds d ?t j c = bholds d s j c" for j c
    unfolding bref_def blocked_def bholds_def sl by (simp_all add: fun_eq_iff t myproc_def cong: option.case_cong)
  have "cache_ok d ?t"
  proof -
    have "b_data (bufs s ! k) = ((disk s)(b := bview d s b)) (b_blockno (bufs s ! k))"
      if "k < length (bufs s)" "b_refcnt (bufs s ! k) = 0" "b_dev (bufs s ! k) = d" "b_valid (bufs s ! k)" for k
    proof -
      have "b_blockno (bufs s ! k) \<noteq> b"
        using that f(1,5) slot_iff [OF ok, of b k] by (auto simp: is_buf_def)
      then show ?thesis using that cache_okD(7) [OF ok] by simp
    qed
    then show ?thesis using ok unfolding cache_ok_def t by (simp add: Let_def cur_ok_def)
  qed
  then show ?thesis using f(4) v rest by (auto simp: bwrite_def t)
qed

lemma brelse_law:
  assumes ok: "cache_ok d s" and h: "bholds d s i b" and c: "1 < bref d s b \<or> bview d s b = disk s b"
  shows "\<exists>t. brelse i s = Ok () t \<and> cache_ok d t \<and> (\<forall>j c. c \<noteq> b \<longrightarrow> bholds d s j c \<longrightarrow> bholds d t j c) \<and>
    bview d t = bview d s \<and> disk t = disk s \<and> dtrace t = dtrace s \<and>
    bref d t = (bref d s)(b := bref d s b - 1) \<and> blocked d t = blocked d s - {b} \<and> length (bufs t) = length (bufs s)"
proof -
  let ?w = "wakeup (ChSleeplock i) s"
  note w = wakeup_cache [OF ok, of "ChSleeplock i"]
  have hw: "bholds d ?w i b" using h w(5) by simp
  note f = bholds_facts [OF w(1) hw]
  define g where "g = (\<lambda>B :: buf. B\<lparr>b_lock := (b_lock (bufs s ! i))\<lparr>sl_locked := False, sl_pid := 0\<rparr>, b_refcnt := b_refcnt B - 1\<rparr>)"
  have keep: "b_dev (g B) = b_dev B \<and> b_blockno (g B) = b_blockno B" for B by (simp add: g_def)
  note eff = upd_buf_effect [OF w(1) f(1) keep]
  let ?t = "upd_buf i g ?w"
  have rf: "unat (b_refcnt (bufs s ! i) - 1) = bref d s b - 1"
    using bholds_facts(5,8) [OF ok h] by (simp add: unat_minus_one)
  have "b_refcnt (bufs s ! i) - 1 = 0 \<longrightarrow> bview d s b = disk s b"
    using c rf by (metis unat_0 zero_less_diff less_not_refl)
  then have okt: "cache_ok d ?t"
    using w bholds_facts(6,7) [OF ok h] by (intro eff(6)) (simp add: g_def bdata_def)
  have v: "bview d ?t = bview d s"
    unfolding eff(2) using w bholds_facts(6,7) [OF ok h] by (auto simp: g_def bdata_def)
  have r: "bref d ?t = (bref d s)(b := bref d s b - 1)" unfolding eff(3) using w rf by (simp add: g_def)
  have l: "blocked d ?t = blocked d s - {b}" unfolding eff(4) using w by (simp add: g_def)
  have hd: "c \<noteq> b \<Longrightarrow> bholds d s j c \<Longrightarrow> bholds d ?t j c" for j c unfolding eff(5) using w by simp
  define u where "u = (if b_refcnt (bufs ?t ! i) = 0 then ?t\<lparr>lru := i # remove1 i (lru ?t)\<rparr> else ?t)"
  have "brelse i s = Ok () u"
    using bholds_facts(4) [OF ok h] w
    by (simp add: brelse_def releasesleep_def Let_def u_def g_def)
  moreover have "cache_ok d u \<and> bview d u = bview d ?t \<and> bref d u = bref d ?t \<and> blocked d u = blocked d ?t \<and>
      (\<forall>j c. bholds d u j c = bholds d ?t j c)"
  proof -
    have "set (i # remove1 i (lru ?t)) = set (lru ?t)" "distinct (i # remove1 i (lru ?t))"
      using cache_okD(2,3) [OF okt] f(2) by auto
    from cache_ok_lru [OF okt this] show ?thesis using okt by (simp add: u_def)
  qed
  moreover have "disk u = disk s" "dtrace u = dtrace s" "length (bufs u) = length (bufs s)"
    using w by (simp_all add: u_def)
  ultimately show ?thesis using v r l hd by simp
qed

lemma refcnt_law:
  assumes ok: "cache_ok d s" and h: "bholds d s i b"
  shows "bref d s b + 1 < 2 ^ 32 \<Longrightarrow> cache_ok d (bpin i s) \<and> bref d (bpin i s) = (bref d s)(b := bref d s b + 1) \<and>
      bview d (bpin i s) = bview d s \<and> blocked d (bpin i s) = blocked d s \<and> (\<forall>j c. bholds d (bpin i s) j c = bholds d s j c)"
    and "2 \<le> bref d s b \<Longrightarrow> cache_ok d (bunpin i s) \<and> bref d (bunpin i s) = (bref d s)(b := bref d s b - 1) \<and>
      bview d (bunpin i s) = bview d s \<and> blocked d (bunpin i s) = blocked d s \<and> (\<forall>j c. bholds d (bunpin i s) j c = bholds d s j c)"
proof -
  note f = bholds_facts [OF ok h]
  have l: "sl_locked (b_lock (bufs s ! i))" "sl_pid (b_lock (bufs s ! i)) = p_pid (myproc s)"
    using h by (auto simp: bholds_def)
  have gen: "cache_ok d t \<and> bref d t = (bref d s)(b := unat (g (b_refcnt (bufs s ! i)))) \<and> bview d t = bview d s \<and>
      blocked d t = blocked d s \<and> (\<forall>j c. bholds d t j c = bholds d s j c)"
    if t: "t = upd_buf i (\<lambda>B. B\<lparr>b_refcnt := g (b_refcnt B)\<rparr>) s" and nz: "g (b_refcnt (bufs s ! i)) \<noteq> 0" for g t
  proof -
    note eff = upd_buf_effect [OF ok f(1), of "\<lambda>B. B\<lparr>b_refcnt := g (b_refcnt B)\<rparr>", simplified, folded t]
    have "bview d t = bview d s" unfolding eff(2) using f(6,7) by (auto simp: bdata_def)
    moreover have "blocked d t = blocked d s" unfolding eff(4) using l f(9) by auto
    moreover have "bholds d t j c = bholds d s j c" for j c unfolding eff(5) using h l f(7) by (auto simp: bholds_def)
    ultimately show ?thesis using eff(3,6) nz by simp
  qed
  show "cache_ok d (bpin i s) \<and> bref d (bpin i s) = (bref d s)(b := bref d s b + 1) \<and>
      bview d (bpin i s) = bview d s \<and> blocked d (bpin i s) = blocked d s \<and> (\<forall>j c. bholds d (bpin i s) j c = bholds d s j c)"
    if "bref d s b + 1 < 2 ^ 32"
  proof -
    have "unat (b_refcnt (bufs s ! i) + 1) = bref d s b + 1" using that f(8) by (simp add: unat_word_ariths(1))
    moreover from this have "b_refcnt (bufs s ! i) + 1 \<noteq> 0" by (metis add_is_0 one_neq_zero unat_0)
    ultimately show ?thesis using gen [of "bpin i s" "\<lambda>r. r + 1"] by (simp add: bpin_def)
  qed
  show "cache_ok d (bunpin i s) \<and> bref d (bunpin i s) = (bref d s)(b := bref d s b - 1) \<and>
      bview d (bunpin i s) = bview d s \<and> blocked d (bunpin i s) = blocked d s \<and> (\<forall>j c. bholds d (bunpin i s) j c = bholds d s j c)"
    if "2 \<le> bref d s b"
  proof -
    have "unat (b_refcnt (bufs s ! i) - 1) = bref d s b - 1" using f(5,8) by (simp add: unat_minus_one)
    moreover from this that have "b_refcnt (bufs s ! i) - 1 \<noteq> 0" by (metis One_nat_def not_less_eq_eq numeral_2_eq_2 diff_is_0_eq unat_0)
    ultimately show ?thesis using gen [of "bunpin i s" "\<lambda>r. r - 1"] by (simp add: bunpin_def)
  qed
qed

section \<open>The interface\<close>

text \<open>The abstract cache and what the operations do to it.\<close>

record cache =
  c_view :: "block \<Rightarrow> byte list"
  c_disk :: "block \<Rightarrow> byte list"
  c_trace :: "(block \<times> byte list) list"
  c_ref :: "block \<Rightarrow> nat"
  c_locked :: "block set"
  c_size :: nat

definition a_read :: "block \<Rightarrow> cache \<Rightarrow> cache" where
  "a_read b a = a\<lparr>c_ref := (c_ref a)(b := c_ref a b + 1), c_locked := insert b (c_locked a)\<rparr>"

definition a_put :: "block \<Rightarrow> byte list \<Rightarrow> cache \<Rightarrow> cache" where
  "a_put b x a = a\<lparr>c_view := (c_view a)(b := x)\<rparr>"

definition a_write :: "block \<Rightarrow> cache \<Rightarrow> cache" where
  "a_write b a = a\<lparr>c_disk := (c_disk a)(b := c_view a b), c_trace := c_trace a @ [(b, c_view a b)]\<rparr>"

definition a_rel :: "block \<Rightarrow> cache \<Rightarrow> cache" where
  "a_rel b a = a\<lparr>c_ref := (c_ref a)(b := c_ref a b - 1), c_locked := c_locked a - {b}\<rparr>"

definition a_unpin :: "block \<Rightarrow> cache \<Rightarrow> cache" where
  "a_unpin b a = a\<lparr>c_ref := (c_ref a)(b := c_ref a b - 1)\<rparr>"

definition has_room :: "nat \<Rightarrow> cache \<Rightarrow> bool" where
  "has_room n a \<longleftrightarrow> card {c. 0 < c_ref a c} + n \<le> c_size a"

lemmas a_defs = a_read_def a_put_def a_write_def a_rel_def a_unpin_def

lemma has_room_read:
  assumes "has_room (Suc n) a"
  shows "has_room n (a_read b a)"
proof -
  have "{c. 0 < c_ref (a_read b a) c} \<subseteq> insert b {c. 0 < c_ref a c}" by (auto simp: a_read_def)
  then have "card {c. 0 < c_ref (a_read b a) c} \<le> card (insert b {c. 0 < c_ref a c})" by (intro card_mono) simp_all
  also have "\<dots> \<le> Suc (card {c. 0 < c_ref a c})" by (simp add: card_insert_if)
  finally have "card {c. 0 < c_ref (a_read b a) c} \<le> Suc (card {c. 0 < c_ref a c})" .
  then show ?thesis using assms by (simp add: has_room_def a_read_def)
qed

locale buffer_cache =
  fixes ok :: "'s \<Rightarrow> bool"
    and abs :: "'s \<Rightarrow> cache"
    and holds :: "'s \<Rightarrow> 'h \<Rightarrow> block \<Rightarrow> bool"
    and rdb :: "block \<Rightarrow> 's \<Rightarrow> ('s, 'h) res"
    and getd :: "'h \<Rightarrow> 's \<Rightarrow> byte list"
    and putd :: "'h \<Rightarrow> byte list \<Rightarrow> 's \<Rightarrow> 's"
    and wrb :: "'h \<Rightarrow> 's \<Rightarrow> ('s, unit) res"
    and rel :: "'h \<Rightarrow> 's \<Rightarrow> ('s, unit) res"
    and unpin :: "'h \<Rightarrow> 's \<Rightarrow> 's"
  assumes rdb: "ok s \<Longrightarrow> b \<notin> c_locked (abs s) \<Longrightarrow> c_ref (abs s) b + 1 < 2 ^ 32 \<Longrightarrow>
      0 < c_ref (abs s) b \<or> has_room 1 (abs s) \<Longrightarrow>
      \<exists>h t. rdb b s = Ok h t \<and> ok t \<and> abs t = a_read b (abs s) \<and> holds t h b \<and>
        (\<forall>g c. holds s g c \<longrightarrow> holds t g c)"
    and getd: "ok s \<Longrightarrow> holds s h b \<Longrightarrow> getd h s = c_view (abs s) b"
    and putd: "ok s \<Longrightarrow> holds s h b \<Longrightarrow> ok (putd h x s) \<and> abs (putd h x s) = a_put b x (abs s) \<and>
        (\<forall>g c. holds s g c \<longrightarrow> holds (putd h x s) g c)"
    and wrb: "ok s \<Longrightarrow> holds s h b \<Longrightarrow> \<exists>t. wrb h s = Ok () t \<and> ok t \<and> abs t = a_write b (abs s) \<and>
        (\<forall>g c. holds s g c \<longrightarrow> holds t g c)"
    and rel: "ok s \<Longrightarrow> holds s h b \<Longrightarrow> 1 < c_ref (abs s) b \<or> c_view (abs s) b = c_disk (abs s) b \<Longrightarrow>
      \<exists>t. rel h s = Ok () t \<and> ok t \<and> abs t = a_rel b (abs s) \<and> (\<forall>g c. c \<noteq> b \<longrightarrow> holds s g c \<longrightarrow> holds t g c)"
    and unpin: "ok s \<Longrightarrow> holds s h b \<Longrightarrow> 2 \<le> c_ref (abs s) b \<Longrightarrow>
      ok (unpin h s) \<and> abs (unpin h s) = a_unpin b (abs s) \<and> (\<forall>g c. holds s g c \<longrightarrow> holds (unpin h s) g c)"
    and clean: "ok s \<Longrightarrow> c_ref (abs s) b = 0 \<Longrightarrow> c_view (abs s) b = c_disk (abs s) b"
begin

text \<open>Reading a block and letting it go.\<close>

lemma read_release:
  assumes "ok s" "b \<notin> c_locked (abs s)" "c_ref (abs s) b + 1 < 2 ^ 32" "0 < c_ref (abs s) b \<or> has_room 1 (abs s)"
  shows "\<exists>h t u. rdb b s = Ok h t \<and> getd h t = c_view (abs s) b \<and> rel h t = Ok () u \<and> ok u \<and> abs u = abs s"
proof -
  obtain h t where t: "rdb b s = Ok h t" "ok t" "abs t = a_read b (abs s)" "holds t h b"
    using rdb [OF assms] by blast
  have "1 < c_ref (abs t) b \<or> c_view (abs t) b = c_disk (abs t) b"
    using clean [OF assms(1), of b] by (auto simp: t(3) a_read_def)
  then obtain u where u: "rel h t = Ok () u" "ok u" "abs u = a_rel b (abs t)" using rel [OF t(2,4)] by blast
  have "abs u = abs s" unfolding u(3) t(3) using assms(2) by (simp add: a_defs)
  moreover have "getd h t = c_view (abs s) b" using getd [OF t(2,4)] by (simp add: t(3) a_read_def)
  ultimately show ?thesis using t u by blast
qed

text \<open>Reading a block, changing it and writing it through.\<close>

lemma rewrite_block:
  assumes "ok s" "b \<notin> c_locked (abs s)" "c_ref (abs s) b + 1 < 2 ^ 32" "0 < c_ref (abs s) b \<or> has_room 1 (abs s)"
  shows "\<exists>u. bindr (rdb b s) (\<lambda>h s. bindr (wrb h (putd h (f (getd h s)) s)) (\<lambda>_ s. rel h s)) = Ok () u \<and> ok u \<and>
    abs u = a_write b (a_put b (f (c_view (abs s) b)) (abs s))"
proof -
  obtain h t where t: "rdb b s = Ok h t" "ok t" "abs t = a_read b (abs s)" "holds t h b"
    using rdb [OF assms] by blast
  have g: "getd h t = c_view (abs s) b" using getd [OF t(2,4)] by (simp add: t(3) a_read_def)
  let ?p = "putd h (f (c_view (abs s) b)) t"
  have p: "ok ?p" "abs ?p = a_put b (f (c_view (abs s) b)) (abs t)" "holds ?p h b"
    using putd [OF t(2,4)] t(4) by blast+
  obtain w where w: "wrb h ?p = Ok () w" "ok w" "abs w = a_write b (abs ?p)" "holds w h b"
    using wrb [OF p(1,3)] p(3) by blast
  have "c_view (abs w) b = c_disk (abs w) b" by (simp add: w(3) a_write_def)
  then obtain u where u: "rel h w = Ok () u" "ok u" "abs u = a_rel b (abs w)" using rel [OF w(2,4)] by blast
  have "abs u = a_write b (a_put b (f (c_view (abs s) b)) (abs s))"
    unfolding u(3) w(3) p(2) t(3) using assms(2) by (cases "abs s") (simp add: a_defs)
  then show ?thesis using t(1) w(1) u g by simp
qed

text \<open>Two blocks locked at once.\<close>

lemma read_two:
  assumes "ok s" "c_locked (abs s) = {}" "c_ref (abs s) a + 1 < 2 ^ 32" "c_ref (abs s) b + 1 < 2 ^ 32" "a \<noteq> b"
    and "has_room 2 (abs s) \<or> 0 < c_ref (abs s) b \<and> has_room 1 (abs s)"
  obtains h t g u where "rdb a s = Ok h t" "rdb b t = Ok g u" "ok u" "holds u h a" "holds u g b"
    "abs u = a_read b (a_read a (abs s))" "getd h u = c_view (abs s) a" "getd g u = c_view (abs s) b"
proof -
  have room: "has_room 1 (abs s)" using assms(6) by (auto simp: has_room_def)
  obtain h t where t: "rdb a s = Ok h t" "ok t" "abs t = a_read a (abs s)" "holds t h a"
    using rdb [OF assms(1), of a] assms(2,3) room by auto
  have "0 < c_ref (abs t) b \<or> has_room 1 (abs t)"
    using assms(5,6) has_room_read [of 1 "abs s" a] by (auto simp: t(3) a_read_def numeral_2_eq_2)
  then obtain g u where u: "rdb b t = Ok g u" "ok u" "abs u = a_read b (abs t)" "holds u g b" "holds u h a"
    using rdb [OF t(2), of b] assms(2,4,5) t(4) by (auto simp: t(3) a_read_def)
  show ?thesis
    using that [OF t(1) u(1,2,5,4)] getd [OF u(2,5)] getd [OF u(2,4)] by (simp add: u(3) t(3) a_read_def)
qed

text \<open>One iteration of writing the log: block \<open>a\<close> gets the contents of the referenced block \<open>b\<close>.\<close>

lemma copy_to_log:
  assumes "ok s" "c_locked (abs s) = {}" "c_ref (abs s) a + 1 < 2 ^ 32" "c_ref (abs s) b + 1 < 2 ^ 32" "a \<noteq> b"
    and "0 < c_ref (abs s) b" "has_room 1 (abs s)"
  shows "\<exists>u. bindr (rdb a s) (\<lambda>h s. bindr (rdb b s) (\<lambda>g s.
      bindr (wrb h (putd h (getd g s) s)) (\<lambda>_ s. bindr (rel g s) (\<lambda>_ s. rel h s)))) = Ok () u \<and> ok u \<and>
    abs u = a_write a (a_put a (c_view (abs s) b) (abs s))"
proof -
  obtain h t g u where r: "rdb a s = Ok h t" "rdb b t = Ok g u" and u: "ok u" "holds u h a" "holds u g b"
      "abs u = a_read b (a_read a (abs s))" "getd g u = c_view (abs s) b"
    by (rule read_two [OF assms(1-5)]) (use assms(6,7) in auto)
  let ?p = "putd h (c_view (abs s) b) u"
  have p: "ok ?p" "abs ?p = a_put a (c_view (abs s) b) (abs u)" "holds ?p h a" "holds ?p g b"
    using putd [OF u(1,2)] u(2,3) by blast+
  obtain w where w: "wrb h ?p = Ok () w" "ok w" "abs w = a_write a (abs ?p)" "holds w h a" "holds w g b"
    using wrb [OF p(1,3)] p(3,4) by blast
  have "1 < c_ref (abs w) b" using assms(5,6) by (simp add: w(3) p(2) u(4) a_defs)
  then obtain x where x: "rel g w = Ok () x" "ok x" "abs x = a_rel b (abs w)" "holds x h a"
    using rel [OF w(2,5)] w(4) assms(5) by blast
  have "c_view (abs x) a = c_disk (abs x) a" using assms(5) by (simp add: x(3) w(3) a_defs)
  then obtain y where y: "rel h x = Ok () y" "ok y" "abs y = a_rel a (abs x)" using rel [OF x(2,4)] by blast
  have "abs y = a_write a (a_put a (c_view (abs s) b) (abs s))"
    unfolding y(3) x(3) w(3) p(2) u(4) using assms(2,5)
    by (cases "abs s") (auto simp: a_defs fun_eq_iff)
  then show ?thesis using r w(1) x(1) y u(5) by auto
qed

text \<open>One iteration of installing: the home block \<open>b\<close> gets the contents of the log block \<open>a\<close> and,
  unless recovering, loses the reference that pinned it.\<close>

lemma install_block:
  assumes "ok s" "c_locked (abs s) = {}" "c_ref (abs s) a + 1 < 2 ^ 32" "c_ref (abs s) b + 1 < 2 ^ 32" "a \<noteq> b"
    and "if recovering then has_room 2 (abs s) else 0 < c_ref (abs s) b \<and> has_room 1 (abs s)"
  shows "\<exists>u. bindr (rdb a s) (\<lambda>h s. bindr (rdb b s) (\<lambda>g s.
      bindr (wrb g (putd g (getd h s) s)) (\<lambda>_ s.
      bindr (rel h (if recovering then s else unpin g s)) (\<lambda>_ s. rel g s)))) = Ok () u \<and> ok u \<and>
    abs u = (if recovering then id else a_unpin b) (a_write b (a_put b (c_view (abs s) a) (abs s)))"
proof -
  obtain h t g u where r: "rdb a s = Ok h t" "rdb b t = Ok g u" and u: "ok u" "holds u h a" "holds u g b"
      "abs u = a_read b (a_read a (abs s))" "getd h u = c_view (abs s) a"
    by (rule read_two [OF assms(1-5)]) (use assms(6) in \<open>auto split: if_splits\<close>)
  let ?p = "putd g (c_view (abs s) a) u"
  have p: "ok ?p" "abs ?p = a_put b (c_view (abs s) a) (abs u)" "holds ?p h a" "holds ?p g b"
    using putd [OF u(1,3)] u(2,3) by blast+
  obtain w where w: "wrb g ?p = Ok () w" "ok w" "abs w = a_write b (abs ?p)" "holds w h a" "holds w g b"
    using wrb [OF p(1,4)] p(3,4) by blast
  let ?v = "if recovering then w else unpin g w"
  have "recovering \<or> 2 \<le> c_ref (abs w) b"
    using assms(5,6) by (cases recovering) (simp_all add: w(3) p(2) u(4) a_defs)
  then have v: "ok ?v" "abs ?v = (if recovering then id else a_unpin b) (abs w)" "holds ?v h a" "holds ?v g b"
    using unpin [OF w(2,5)] w by auto
  have "c_ref (abs s) a = 0 \<longrightarrow> c_view (abs s) a = c_disk (abs s) a" using clean [OF assms(1)] by blast
  then have "1 < c_ref (abs ?v) a \<or> c_view (abs ?v) a = c_disk (abs ?v) a"
    using assms(5) by (auto simp: v(2) w(3) p(2) u(4) a_defs)
  then obtain x where x: "rel h ?v = Ok () x" "ok x" "abs x = a_rel a (abs ?v)" "holds x g b"
    using rel [OF v(1,3)] v(4) assms(5) by metis
  have "c_view (abs x) b = c_disk (abs x) b" using assms(5) by (simp add: x(3) v(2) w(3) a_defs)
  then obtain y where y: "rel g x = Ok () y" "ok y" "abs y = a_rel b (abs x)" using rel [OF x(2,4)] by blast
  have "abs y = (if recovering then id else a_unpin b) (a_write b (a_put b (c_view (abs s) a) (abs s)))"
    unfolding y(3) x(3) v(2) w(3) p(2) u(4) using assms(2,5)
    by (cases "abs s") (auto simp: a_defs fun_eq_iff)
  then show ?thesis using r w(1) x(1) y u(5) by auto
qed

end

text \<open>The cache of the code provides the interface, for every device.\<close>

definition acache :: "32 word \<Rightarrow> 'a bstate_scheme \<Rightarrow> cache" where
  "acache d s = \<lparr>c_view = bview d s, c_disk = disk s, c_trace = dtrace s, c_ref = bref d s,
     c_locked = blocked d s, c_size = length (bufs s)\<rparr>"

lemma broom_has_room: "broom d s = has_room 1 (acache d s)"
  by (auto simp: broom_def has_room_def acache_def)

lemma cache_ok_clean:
  assumes "cache_ok d s" and "bref d s b = 0"
  shows "bview d s b = disk s b"
proof (cases "slot d s b")
  case None
  then show ?thesis by (simp add: bview_def)
next
  case (Some i)
  then have "b_refcnt (bufs s ! i) = 0" using assms(2) by (simp add: bref_def unat_eq_0)
  then show ?thesis using slot_SomeD [OF Some] cache_okD(7) [OF assms(1), of i] Some
    by (auto simp: bview_def is_buf_def)
qed

text \<open>The cache operations keep everything that a layer above adds to the state.\<close>

lemma cache_more:
  "bread d b s = Ok i t \<Longrightarrow> bstate.more t = bstate.more s"
  "bwrite i s = Ok u t \<Longrightarrow> bstate.more t = bstate.more s"
  "brelse i s = Ok u t \<Longrightarrow> bstate.more t = bstate.more s"
  "bstate.more (set_bdata i x s) = bstate.more s" "bstate.more (bpin i s) = bstate.more s"
  "bstate.more (bunpin i s) = bstate.more s"
proof -
  have u: "bstate.more (upd_buf i f s) = bstate.more s" for i f and s :: "'a bstate_scheme" by (simp add: upd_buf_def)
  have w: "bstate.more (wakeup ch s) = bstate.more s" for ch and s :: "'a bstate_scheme" by (simp add: wakeup_def)
  have l: "lock_buf i s = Ok j t \<Longrightarrow> bstate.more t = bstate.more s" for i j and s t :: "'a bstate_scheme"
    by (auto simp: lock_buf_def acquiresleep_def sleep_def u split: if_splits)
  have g: "bget d b s = Ok i t \<Longrightarrow> bstate.more t = bstate.more s"
    for d b i and s t :: "'a bstate_scheme"
    by (auto simp: bget_def u split: option.splits dest!: l)
  show "bread d b s = Ok i t \<Longrightarrow> bstate.more t = bstate.more s"
    by (auto simp: bread_def bindr_eq_Ok u disk_rw_def Let_def split: if_splits dest!: g)
  show "bwrite i s = Ok u t \<Longrightarrow> bstate.more t = bstate.more s"
    by (auto simp: bwrite_def disk_rw_def Let_def split: if_splits)
  show "brelse i s = Ok u t \<Longrightarrow> bstate.more t = bstate.more s"
    by (auto simp: brelse_def releasesleep_def Let_def u w split: if_splits)
qed (simp_all add: set_bdata_def bpin_def bunpin_def upd_buf_def)

interpretation bc: buffer_cache "\<lambda>s. cache_ok d s \<and> bstate.more s = r" "acache d" "bholds d" "bread d"
  bdata set_bdata bwrite brelse bunpin
  for d :: "32 word" and r :: 'a
proof
  fix s :: "'a bstate_scheme" and b h x
  assume "cache_ok d s \<and> bstate.more s = r"
  then have ok: "cache_ok d s" and r: "bstate.more s = r" by auto
  {
    assume "b \<notin> c_locked (acache d s)" "c_ref (acache d s) b + 1 < 2 ^ 32"
      "0 < c_ref (acache d s) b \<or> has_room 1 (acache d s)"
    then show "\<exists>h t. bread d b s = Ok h t \<and> (cache_ok d t \<and> bstate.more t = r) \<and> acache d t = a_read b (acache d s) \<and> bholds d t h b \<and>
        (\<forall>g c. bholds d s g c \<longrightarrow> bholds d t g c)"
      using bread_law [OF ok, of b] r unfolding broom_has_room
      by (fastforce simp: acache_def a_read_def cache_more(1))
  }
  {
    assume "c_ref (acache d s) b = 0"
    then show "c_view (acache d s) b = c_disk (acache d s) b" using cache_ok_clean [OF ok] by (simp add: acache_def)
  }
  assume h: "bholds d s h b"
  show "bdata h s = c_view (acache d s) b" using bholds_facts(6) [OF ok h] by (simp add: acache_def)
  show "(cache_ok d (set_bdata h x s) \<and> bstate.more (set_bdata h x s) = r) \<and> acache d (set_bdata h x s) = a_put b x (acache d s) \<and>
      (\<forall>g c. bholds d s g c \<longrightarrow> bholds d (set_bdata h x s) g c)"
    using set_bdata_law [OF ok h] r by (simp add: acache_def a_put_def cache_more)
  show "\<exists>t. bwrite h s = Ok () t \<and> (cache_ok d t \<and> bstate.more t = r) \<and> acache d t = a_write b (acache d s) \<and>
      (\<forall>g c. bholds d s g c \<longrightarrow> bholds d t g c)"
    using bwrite_law [OF ok h] r by (auto simp: acache_def a_write_def cache_more(2))
  {
    assume "1 < c_ref (acache d s) b \<or> c_view (acache d s) b = c_disk (acache d s) b"
    then show "\<exists>t. brelse h s = Ok () t \<and> (cache_ok d t \<and> bstate.more t = r) \<and> acache d t = a_rel b (acache d s) \<and>
        (\<forall>g c. c \<noteq> b \<longrightarrow> bholds d s g c \<longrightarrow> bholds d t g c)"
      using brelse_law [OF ok h] r by (fastforce simp: acache_def a_rel_def cache_more(3))
  }
  assume "2 \<le> c_ref (acache d s) b"
  then show "(cache_ok d (bunpin h s) \<and> bstate.more (bunpin h s) = r) \<and> acache d (bunpin h s) = a_unpin b (acache d s) \<and>
      (\<forall>g c. bholds d s g c \<longrightarrow> bholds d (bunpin h s) g c)"
    using refcnt_law(2) [OF ok h] r by (simp add: acache_def a_unpin_def bunpin_def cache_more(6) [unfolded bunpin_def])
qed

end
