(* ===== verification/Klog.thy ===== *)
theory Klog
  imports Bio
begin

text \<open>
  The write-ahead log of \<open>kernel/log.c\<close>. The header is the number of logged blocks and their home
  addresses, in memory (\<open>l_n\<close>, \<open>l_block\<close>) and in the first block of the log on disk.

  The main results: whatever prefix of the disk writes of a commit a crash leaves behind, recovery
  at the next boot restores either the contents before the transaction or those after it, and the
  admission control of \<open>begin_op\<close> keeps the header from overflowing.
\<close>

section \<open>The log\<close>

record lstate = bstate +
  l_start :: "32 word"
  l_outstanding :: "32 word"
  l_committing :: bool
  l_dev :: "32 word"
  l_n :: "32 word"
  l_block :: "32 word list"

text \<open>The number of iterations of a loop \<open>for(i = 0; i < log.lh.n; i++)\<close>.\<close>

definition l_len :: "'a lstate_scheme \<Rightarrow> nat" where
  "l_len s = nat (sint (l_n s))"

definition install_trans :: "bool \<Rightarrow> 'a lstate_scheme \<Rightarrow> ('a lstate_scheme, unit) res" where
  "install_trans recovering s = forM [0..<l_len s] (\<lambda>tail s.
     bindr (bread (l_dev s) (l_start s + of_nat tail + 1) s) (\<lambda>lbuf s.
     bindr (bread (l_dev s) (l_block s ! tail) s) (\<lambda>dbuf s.
     bindr (bwrite dbuf (set_bdata dbuf (bdata lbuf s) s)) (\<lambda>_ s.
     bindr (brelse lbuf (if recovering then s else bunpin dbuf s)) (\<lambda>_ s. brelse dbuf s))))) s"

text \<open>\<open>struct logheader\<close> at the start of a block.\<close>

definition hdr_n :: "byte list \<Rightarrow> 32 word" where
  "hdr_n bs = get32 bs 0"

definition hdr_block :: "byte list \<Rightarrow> nat \<Rightarrow> 32 word" where
  "hdr_block bs i = get32 bs (4 + 4 * i)"

definition read_head :: "'a lstate_scheme \<Rightarrow> ('a lstate_scheme, unit) res" where
  "read_head s = bindr (bread (l_dev s) (l_start s) s) (\<lambda>b s.
     let lh = bdata b s;
         s = s\<lparr>l_n := hdr_n lh\<rparr>;
         s = fold (\<lambda>i s. s\<lparr>l_block := (l_block s)[i := hdr_block lh i]\<rparr>) [0..<l_len s] s
     in brelse b s)"

definition put_head :: "nat \<Rightarrow> 32 word \<Rightarrow> 32 word list \<Rightarrow> byte list \<Rightarrow> byte list" where
  "put_head k n blocks hb = fold (\<lambda>i hb. put32 hb (4 + 4 * i) (blocks ! i)) [0..<k] (put32 hb 0 n)"

definition write_head :: "'a lstate_scheme \<Rightarrow> ('a lstate_scheme, unit) res" where
  "write_head s = bindr (bread (l_dev s) (l_start s) s) (\<lambda>b s.
     bindr (bwrite b (set_bdata b (put_head (l_len s) (l_n s) (l_block s) (bdata b s)) s)) (\<lambda>_ s. brelse b s))"

definition recover_from_log :: "'a lstate_scheme \<Rightarrow> ('a lstate_scheme, unit) res" where
  "recover_from_log s =
     bindr (read_head s) (\<lambda>_ s.
     bindr (install_trans True s) (\<lambda>_ s. write_head (s\<lparr>l_n := 0\<rparr>)))"

definition initlog :: "32 word \<Rightarrow> 32 word \<Rightarrow> 'a lstate_scheme \<Rightarrow> ('a lstate_scheme, unit) res" where
  "initlog dev logstart s =
     (if 4 + 4 * LOGBLOCKS \<ge> BSIZE then Panic ''initlog: too big logheader''
      else recover_from_log (s\<lparr>l_start := logstart, l_dev := dev\<rparr>))"

definition begin_op :: "'a lstate_scheme \<Rightarrow> ('a lstate_scheme, unit) res" where
  "begin_op s =
     (if l_committing s then sleep ChLog s
      else if sint (l_n s) + (sint (l_outstanding s) + 1) * int MAXOPBLOCKS > int LOGBLOCKS then sleep ChLog s
      else Ok () (s\<lparr>l_outstanding := l_outstanding s + 1\<rparr>))"

definition write_log :: "'a lstate_scheme \<Rightarrow> ('a lstate_scheme, unit) res" where
  "write_log s = forM [0..<l_len s] (\<lambda>tail s.
     bindr (bread (l_dev s) (l_start s + of_nat tail + 1) s) (\<lambda>to s.
     bindr (bread (l_dev s) (l_block s ! tail) s) (\<lambda>from s.
     bindr (bwrite to (set_bdata to (bdata from s) s)) (\<lambda>_ s.
     bindr (brelse from s) (\<lambda>_ s. brelse to s))))) s"

definition commit :: "'a lstate_scheme \<Rightarrow> ('a lstate_scheme, unit) res" where
  "commit s =
     (if sint (l_n s) > 0
      then bindr (write_log s) (\<lambda>_ s.
           bindr (write_head s) (\<lambda>_ s.
           bindr (install_trans False s) (\<lambda>_ s. write_head (s\<lparr>l_n := 0\<rparr>))))
      else Ok () s)"

definition end_op :: "'a lstate_scheme \<Rightarrow> ('a lstate_scheme, unit) res" where
  "end_op s =
     (let s = s\<lparr>l_outstanding := l_outstanding s - 1\<rparr> in
      if l_committing s then Panic ''log.committing''
      else if l_outstanding s = 0
           then bindr (commit (s\<lparr>l_committing := True\<rparr>)) (\<lambda>_ s.
             Ok () (wakeup ChLog (s\<lparr>l_committing := False\<rparr>)))
           else Ok () (wakeup ChLog s))"

definition log_write :: "nat \<Rightarrow> 'a lstate_scheme \<Rightarrow> ('a lstate_scheme, unit) res" where
  "log_write b s =
     (if sint (l_n s) \<ge> int LOGBLOCKS then Panic ''too big a transaction''
      else if sint (l_outstanding s) < 1 then Panic ''log_write outside of trans''
      else let blockno = b_blockno (bufs s ! b);
               i = (case find_idx (\<lambda>x. x = blockno) (take (l_len s) (l_block s)) of Some i \<Rightarrow> i | None \<Rightarrow> l_len s);
               s = s\<lparr>l_block := (l_block s)[i := blockno]\<rparr>
           in Ok () (if i = l_len s then (bpin b s)\<lparr>l_n := l_n s + 1\<rparr> else s))"

section \<open>The log operations on the abstract cache\<close>

text \<open>Sequences of block writes.\<close>

definition upd_disk :: "(block \<times> byte list) list \<Rightarrow> (block \<Rightarrow> byte list) \<Rightarrow> block \<Rightarrow> byte list" where
  "upd_disk ws D = fold (\<lambda>(b, x) D. D(b := x)) ws D"

definition put_block :: "bool \<Rightarrow> block \<times> byte list \<Rightarrow> cache \<Rightarrow> cache" where
  "put_block keep = (\<lambda>(b, x) a. (if keep then id else a_unpin b) (a_write b (a_put b x a)))"

lemma upd_disk_simps [simp]:
  "upd_disk [] D = D" "upd_disk ((b, x) # ws) D = upd_disk ws (D(b := x))"
  by (simp_all add: upd_disk_def)

lemma upd_disk_append: "upd_disk (ws @ vs) D = upd_disk vs (upd_disk ws D)"
  by (simp add: upd_disk_def)

lemma upd_disk_other: "b \<notin> fst ` set ws \<Longrightarrow> upd_disk ws D b = D b"
  by (induction ws arbitrary: D) auto

lemma upd_disk_in:
  assumes "distinct (map fst ws)" and "(b, x) \<in> set ws"
  shows "upd_disk ws D b = x"
  using assms
proof (induction ws arbitrary: D)
  case (Cons w ws)
  show ?case
  proof (cases "w = (b, x)")
    case True
    then have "b \<notin> fst ` set ws" using Cons.prems(1) by auto
    then show ?thesis using True by (simp add: upd_disk_other)
  next
    case False
    then show ?thesis using Cons by (cases w) auto
  qed
qed simp

lemma put_block_sel [simp]:
  "c_view (put_block keep w a) = (c_view a)(fst w := snd w)"
  "c_disk (put_block keep w a) = (c_disk a)(fst w := snd w)"
  "c_trace (put_block keep w a) = c_trace a @ [w]"
  "c_locked (put_block keep w a) = c_locked a" "c_size (put_block keep w a) = c_size a"
  "c_ref (put_block keep w a) = (if keep then c_ref a else (c_ref a)(fst w := c_ref a (fst w) - 1))"
  by (cases w; simp add: put_block_def a_defs)+

lemma put_block_pair: "put_block keep (b, x) a = (if keep then id else a_unpin b) (a_write b (a_put b x a))"
  by (simp add: put_block_def)

lemma put_blocks_snoc: "fold (put_block keep) (map f [0..<Suc k]) a = put_block keep (f k) (fold (put_block keep) (map f [0..<k]) a)"
  by simp

lemma put_blocks:
  "c_view (fold (put_block keep) ws a) = upd_disk ws (c_view a)"
  "c_disk (fold (put_block keep) ws a) = upd_disk ws (c_disk a)"
  "c_trace (fold (put_block keep) ws a) = c_trace a @ ws"
  "c_locked (fold (put_block keep) ws a) = c_locked a"
  "c_size (fold (put_block keep) ws a) = c_size a"
  "c_ref (fold (put_block True) ws a) = c_ref a"
  "c_ref (fold (put_block keep) ws a) b \<le> c_ref a b"
  "b \<notin> fst ` set ws \<Longrightarrow> c_ref (fold (put_block keep) ws a) b = c_ref a b"
proof (induction ws arbitrary: a)
  case (Cons w ws)
  {
    case 7
    show ?case using Cons.IH(7) [of "put_block keep w a"] by (auto split: if_splits)
  }
qed (auto simp: upd_disk_def split: prod.splits)

lemma put_blocks_unpin:
  "distinct (map fst ws) \<Longrightarrow> b \<in> fst ` set ws \<Longrightarrow> c_ref (fold (put_block False) ws a) b = c_ref a b - 1"
proof (induction ws arbitrary: a)
  case (Cons w ws)
  obtain c x where w: "w = (c, x)" by fastforce
  show ?case
  proof (cases "b = c")
    case True
    then have "b \<notin> fst ` set ws" using Cons.prems w by auto
    then show ?thesis using True w by (simp add: put_blocks)
  next
    case False
    then show ?thesis using Cons w by auto
  qed
qed simp

lemma has_room_put_blocks: "has_room n a \<Longrightarrow> has_room n (fold (put_block keep) ws a)"
proof -
  assume a: "has_room n a"
  have "{c. 0 < c_ref (fold (put_block keep) ws a) c} \<subseteq> {c. 0 < c_ref a c}"
    using put_blocks(7) [of keep ws a] by (auto intro: less_le_trans)
  then have "card {c. 0 < c_ref (fold (put_block keep) ws a) c} \<le> card {c. 0 < c_ref a c}" by (intro card_mono) auto
  then show ?thesis using a by (simp add: has_room_def put_blocks)
qed

text \<open>The log's own fields are in the part of the state that the cache keeps.\<close>

lemma log_fields:
  assumes "bstate.more t = bstate.more (s :: 'a lstate_scheme)"
  shows "l_start t = l_start s" "l_dev t = l_dev s" "l_n t = l_n s" "l_block t = l_block s" "l_len t = l_len s"
    "l_outstanding t = l_outstanding s" "l_committing t = l_committing s" "lstate.more t = lstate.more s"
  using assms by (cases s; cases t; simp add: l_len_def)+

definition log_blk :: "'a lstate_scheme \<Rightarrow> nat \<Rightarrow> block" where
  "log_blk s i = l_start s + of_nat i + 1"

text \<open>What every log operation needs of the cache.\<close>

definition cache_idle :: "32 word \<Rightarrow> 'a bstate_scheme \<Rightarrow> bool" where
  "cache_idle d s \<longleftrightarrow> cache_ok d s \<and> blocked d s = {} \<and> has_room 1 (acache d s) \<and> (\<forall>b. bref d s b + 1 < 2 ^ 32)"

lemma acache_sel [simp]:
  "c_view (acache d s) = bview d s" "c_disk (acache d s) = disk s" "c_trace (acache d s) = dtrace s"
  "c_ref (acache d s) = bref d s" "c_locked (acache d s) = blocked d s" "c_size (acache d s) = length (bufs s)"
  by (simp_all add: acache_def)

lemma cache_idle_put:
  assumes "cache_idle d s" "cache_ok d t" "acache d t = fold (put_block keep) ws (acache d s)"
  shows "cache_idle d t"
proof -
  have "bref d t b \<le> bref d s b" for b using put_blocks(7) [of keep ws "acache d s" b] by (simp flip: assms(3))
  moreover have "blocked d t = blocked d s" using put_blocks(4) [of keep ws "acache d s"] by (simp flip: assms(3))
  ultimately show ?thesis
    using assms(1,2) has_room_put_blocks [of 1 "acache d s" keep ws]
    unfolding cache_idle_def assms(3) [symmetric] by (metis add_mono_thms_linordered_semiring(3) le_less_trans)
qed

lemma cache_idle_put1:
  "cache_idle d s \<Longrightarrow> cache_ok d t \<Longrightarrow> acache d t = put_block keep w (acache d s) \<Longrightarrow> cache_idle d t"
  using cache_idle_put [of d s t keep "[w]"] by simp

lemma write_log_spec:
  assumes "cache_idle (l_dev s) s" and "l_len s \<le> length (l_block s)"
    and "\<And>i. i < l_len s \<Longrightarrow> 0 < bref (l_dev s) s (l_block s ! i)"
    and "\<And>i j. i < l_len s \<Longrightarrow> j < l_len s \<Longrightarrow> log_blk s i \<noteq> l_block s ! j"
  shows "\<exists>t. write_log s = Ok () t \<and> cache_ok (l_dev s) t \<and> bstate.more t = bstate.more s \<and> acache (l_dev s) t =
    fold (put_block True) (map (\<lambda>i. (log_blk s i, bview (l_dev s) s (l_block s ! i))) [0..<l_len s]) (acache (l_dev s) s)"
proof -
  let ?d = "l_dev s" and ?body = "\<lambda>tail s. bindr (bread (l_dev s) (l_start s + of_nat tail + 1) s) (\<lambda>to s.
     bindr (bread (l_dev s) (l_block s ! tail) s) (\<lambda>from s.
     bindr (bwrite to (set_bdata to (bdata from s) s)) (\<lambda>_ s.
     bindr (brelse from s) (\<lambda>_ s. brelse to s))))"
  let ?ws = "\<lambda>k. map (\<lambda>i. (log_blk s i, bview ?d s (l_block s ! i))) [0..<k]"
  have "k \<le> l_len s \<Longrightarrow> \<exists>t. forM [0..<k] ?body s = Ok () t \<and> cache_ok ?d t \<and> bstate.more t = bstate.more s \<and>
      acache ?d t = fold (put_block True) (?ws k) (acache ?d s)" for k
  proof (induction k)
    case 0
    then show ?case using assms(1) by (simp add: cache_idle_def)
  next
    case (Suc k)
    then obtain t where t: "forM [0..<k] ?body s = Ok () t" "cache_ok ?d t" "bstate.more t = bstate.more s"
        "acache ?d t = fold (put_block True) (?ws k) (acache ?d s)" by auto
    note lf = log_fields [OF t(3)]
    have idle: "cache_idle ?d t" using cache_idle_put [OF assms(1) t(2,4)] .
    have ref: "bref ?d t = bref ?d s" using put_blocks(6) [of "?ws k" "acache ?d s"] by (simp flip: t(4))
    have view: "bview ?d t (l_block s ! k) = bview ?d s (l_block s ! k)"
    proof -
      have "log_blk s i \<noteq> l_block s ! k" if "i < k" for i using assms(4) that Suc.prems by auto
      then have "l_block s ! k \<notin> fst ` set (?ws k)" by force
      then show ?thesis using put_blocks(1) [of True "?ws k" "acache ?d s"] by (simp add: upd_disk_other flip: t(4))
    qed
    let ?b = "bindr (bread ?d (log_blk s k) t) (\<lambda>to t. bindr (bread ?d (l_block s ! k) t) (\<lambda>from t.
      bindr (bwrite to (set_bdata to (bdata from t) t)) (\<lambda>_ t. bindr (brelse from t) (\<lambda>_ t. brelse to t))))"
    have bd: "?body k t = ?b"
      unfolding log_blk_def lf by (rule bindr_cong [OF refl], rule bindr_cong)
        (auto dest!: cache_more(1) simp: log_fields [OF trans [OF _ t(3)]])
    have "\<exists>u. ?b = Ok () u \<and> (cache_ok ?d u \<and> bstate.more u = bstate.more s) \<and> acache ?d u =
        a_write (log_blk s k) (a_put (log_blk s k) (c_view (acache ?d t) (l_block s ! k)) (acache ?d t))"
      using idle t(3) assms(3) [of k] assms(4) [of k k] Suc.prems ref
      by (intro bc.copy_to_log) (auto simp: cache_idle_def)
    then obtain u where u: "?b = Ok () u" "cache_ok ?d u" "bstate.more u = bstate.more s" "acache ?d u =
        a_write (log_blk s k) (a_put (log_blk s k) (c_view (acache ?d t) (l_block s ! k)) (acache ?d t))" by blast
    have "forM [0..<Suc k] ?body s = Ok () u" unfolding forM_upt_Suc t(1) bindr.simps bd u(1) ..
    moreover have "acache ?d u = fold (put_block True) (?ws (Suc k)) (acache ?d s)"
      unfolding put_blocks_snoc t(4) [symmetric] using u(4) view by (simp add: put_block_pair)
    ultimately show ?case using u(2,3) by blast
  qed
  from this [OF order_refl] show ?thesis unfolding write_log_def .
qed

lemma install_trans_spec:
  assumes "cache_idle (l_dev s) s" and "l_len s \<le> length (l_block s)"
    and "\<And>i j. i < l_len s \<Longrightarrow> j < l_len s \<Longrightarrow> log_blk s i \<noteq> l_block s ! j"
    and "if recovering then has_room 2 (acache (l_dev s) s)
      else distinct (take (l_len s) (l_block s)) \<and> (\<forall>i < l_len s. 0 < bref (l_dev s) s (l_block s ! i))"
  shows "\<exists>t. install_trans recovering s = Ok () t \<and> cache_ok (l_dev s) t \<and> bstate.more t = bstate.more s \<and>
    acache (l_dev s) t = fold (put_block recovering)
      (map (\<lambda>i. (l_block s ! i, bview (l_dev s) s (log_blk s i))) [0..<l_len s]) (acache (l_dev s) s)"
proof -
  let ?d = "l_dev s" and ?body = "\<lambda>tail s. bindr (bread (l_dev s) (l_start s + of_nat tail + 1) s) (\<lambda>lbuf s.
     bindr (bread (l_dev s) (l_block s ! tail) s) (\<lambda>dbuf s.
     bindr (bwrite dbuf (set_bdata dbuf (bdata lbuf s) s)) (\<lambda>_ s.
     bindr (brelse lbuf (if recovering then s else bunpin dbuf s)) (\<lambda>_ s. brelse dbuf s))))"
  let ?ws = "\<lambda>k. map (\<lambda>i. (l_block s ! i, bview ?d s (log_blk s i))) [0..<k]"
  have "k \<le> l_len s \<Longrightarrow> \<exists>t. forM [0..<k] ?body s = Ok () t \<and> cache_ok ?d t \<and> bstate.more t = bstate.more s \<and>
      acache ?d t = fold (put_block recovering) (?ws k) (acache ?d s)" for k
  proof (induction k)
    case 0
    then show ?case using assms(1) by (simp add: cache_idle_def)
  next
    case (Suc k)
    then obtain t where t: "forM [0..<k] ?body s = Ok () t" "cache_ok ?d t" "bstate.more t = bstate.more s"
        "acache ?d t = fold (put_block recovering) (?ws k) (acache ?d s)" by auto
    note lf = log_fields [OF t(3)]
    have idle: "cache_idle ?d t" using cache_idle_put [OF assms(1) t(2,4)] .
    have room: "if recovering then has_room 2 (acache ?d t) else 0 < bref ?d t (l_block s ! k) \<and> has_room 1 (acache ?d t)"
    proof (cases recovering)
      case True
      then show ?thesis using assms(4) unfolding t(4) by (simp add: has_room_put_blocks)
    next
      case False
      have "l_block s ! i \<noteq> l_block s ! k" if "i < k" for i
        using that Suc.prems False assms(2,4) nth_eq_iff_index_eq [of "take (l_len s) (l_block s)" i k] by auto
      then have "l_block s ! k \<notin> fst ` set (?ws k)" by force
      then have "bref ?d t (l_block s ! k) = bref ?d s (l_block s ! k)"
        using put_blocks(8) [of _ "?ws k" recovering "acache ?d s"] by (simp flip: t(4))
      then show ?thesis using False assms(4) Suc.prems idle by (simp add: cache_idle_def)
    qed
    have view: "bview ?d t (log_blk s k) = bview ?d s (log_blk s k)"
    proof -
      have "l_block s ! i \<noteq> log_blk s k" if "i < k" for i using assms(3) [of k i] that Suc.prems by auto
      then have "log_blk s k \<notin> fst ` set (?ws k)" by force
      then show ?thesis using put_blocks(1) [of recovering "?ws k" "acache ?d s"] by (simp add: upd_disk_other flip: t(4))
    qed
    let ?b = "bindr (bread ?d (log_blk s k) t) (\<lambda>lbuf t. bindr (bread ?d (l_block s ! k) t) (\<lambda>dbuf t.
      bindr (bwrite dbuf (set_bdata dbuf (bdata lbuf t) t)) (\<lambda>_ t.
      bindr (brelse lbuf (if recovering then t else bunpin dbuf t)) (\<lambda>_ t. brelse dbuf t))))"
    have bd: "?body k t = ?b"
      unfolding log_blk_def lf by (rule bindr_cong [OF refl], rule bindr_cong)
        (auto dest!: cache_more(1) simp: log_fields [OF trans [OF _ t(3)]])
    have "\<exists>u. ?b = Ok () u \<and> (cache_ok ?d u \<and> bstate.more u = bstate.more s) \<and> acache ?d u =
        (if recovering then id else a_unpin (l_block s ! k))
          (a_write (l_block s ! k) (a_put (l_block s ! k) (c_view (acache ?d t) (log_blk s k)) (acache ?d t)))"
      using idle t(3) assms(3) [of k k] Suc.prems room
      by (intro bc.install_block) (auto simp: cache_idle_def)
    then obtain u where u: "?b = Ok () u" "cache_ok ?d u" "bstate.more u = bstate.more s" "acache ?d u =
        (if recovering then id else a_unpin (l_block s ! k))
          (a_write (l_block s ! k) (a_put (l_block s ! k) (c_view (acache ?d t) (log_blk s k)) (acache ?d t)))" by blast
    have "forM [0..<Suc k] ?body s = Ok () u" unfolding forM_upt_Suc t(1) bindr.simps bd u(1) ..
    moreover have "acache ?d u = fold (put_block recovering) (?ws (Suc k)) (acache ?d s)"
      unfolding put_blocks_snoc t(4) [symmetric] put_block_pair u(4) using view by simp
    ultimately show ?case using u(2,3) by blast
  qed
  from this [OF order_refl] show ?thesis unfolding install_trans_def .
qed

lemma write_head_spec:
  assumes "cache_idle (l_dev s) s"
  shows "\<exists>t. write_head s = Ok () t \<and> cache_ok (l_dev s) t \<and> bstate.more t = bstate.more s \<and>
    acache (l_dev s) t = put_block True
      (l_start s, put_head (l_len s) (l_n s) (l_block s) (bview (l_dev s) s (l_start s))) (acache (l_dev s) s)"
proof -
  let ?f = "put_head (l_len s) (l_n s) (l_block s)"
  have wh: "write_head s = bindr (bread (l_dev s) (l_start s) s) (\<lambda>b t.
     bindr (bwrite b (set_bdata b (?f (bdata b t)) t)) (\<lambda>_ t. brelse b t))"
    unfolding write_head_def
  proof (rule bindr_cong [OF refl])
    fix b t assume "bread (l_dev s) (l_start s) s = Ok b t"
    then have "bstate.more t = bstate.more s" by (rule cache_more(1))
    note lf = log_fields [OF this]
    show "bindr (bwrite b (set_bdata b (put_head (l_len t) (l_n t) (l_block t) (bdata b t)) t)) (\<lambda>_ t. brelse b t) =
      bindr (bwrite b (set_bdata b (?f (bdata b t)) t)) (\<lambda>_ t. brelse b t)" unfolding lf ..
  qed
  have "\<exists>u. bindr (bread (l_dev s) (l_start s) s) (\<lambda>b t. bindr (bwrite b (set_bdata b (?f (bdata b t)) t)) (\<lambda>_ t. brelse b t)) = Ok () u \<and>
      (cache_ok (l_dev s) u \<and> bstate.more u = bstate.more s) \<and> acache (l_dev s) u = a_write (l_start s)
        (a_put (l_start s) (?f (c_view (acache (l_dev s) s) (l_start s))) (acache (l_dev s) s))"
    using assms by (intro bc.rewrite_block) (auto simp: cache_idle_def)
  then show ?thesis unfolding wh by (auto simp: put_block_pair)
qed

section \<open>Recovery\<close>

text \<open>The header read back is the header written.\<close>

lemma put_head:
  assumes "4 + 4 * k \<le> length hb"
  shows "length (put_head k n bl hb) = length hb" "hdr_n (put_head k n bl hb) = n"
    "i < k \<Longrightarrow> hdr_block (put_head k n bl hb) i = bl ! i"
proof -
  have ind: "length (put_head j n bl hb) = length hb \<and> hdr_n (put_head j n bl hb) = n \<and>
      (\<forall>i < j. hdr_block (put_head j n bl hb) i = bl ! i)" if "j \<le> k" for j
    using that
  proof (induction j)
    case 0
    then show ?case using assms by (simp add: put_head_def hdr_n_def)
  next
    case (Suc j)
    have e: "put_head (Suc j) n bl hb = put32 (put_head j n bl hb) (4 + 4 * j) (bl ! j)" by (simp add: put_head_def)
    have IH: "length (put_head j n bl hb) = length hb" "hdr_n (put_head j n bl hb) = n"
        "\<And>i. i < j \<Longrightarrow> hdr_block (put_head j n bl hb) i = bl ! i" using Suc by auto
    have b: "4 + 4 * j + 4 \<le> length (put_head j n bl hb)" using Suc.prems assms IH(1) by simp
    show ?case unfolding e
    proof (intro conjI allI impI)
      show "length (put32 (put_head j n bl hb) (4 + 4 * j) (bl ! j)) = length hb" using b IH(1) by simp
      show "hdr_n (put32 (put_head j n bl hb) (4 + 4 * j) (bl ! j)) = n"
        using b IH(2) by (simp add: hdr_n_def get_put32_other)
      fix i assume "i < Suc j"
      then show "hdr_block (put32 (put_head j n bl hb) (4 + 4 * j) (bl ! j)) i = bl ! i"
        using b IH(3) [of i] by (cases "i = j") (simp_all add: hdr_block_def get_put32_other)
    qed
  qed
  show "length (put_head k n bl hb) = length hb" "hdr_n (put_head k n bl hb) = n"
    "i < k \<Longrightarrow> hdr_block (put_head k n bl hb) i = bl ! i" using ind by auto
qed

lemma cache_cong:
  assumes "bstate.truncate t = bstate.truncate s"
  shows "cache_ok d t = cache_ok d s" "acache d t = acache d s" "bholds d t = bholds d s" "cache_idle d t = cache_idle d s"
    "bview d t = bview d s"
proof -
  have f: "bufs t = bufs s" "lru t = lru s" "disk t = disk s" "dtrace t = dtrace s" "curp t = curp s" "procs t = procs s"
    using assms by (cases s; cases t; simp add: bstate.truncate_def)+
  then have ib: "is_buf d t = is_buf d s" by (simp add: fun_eq_iff is_buf_def)
  have sl: "slot d t = slot d s" by (rule ext) (simp add: slot_def ib f)
  show ok: "cache_ok d t = cache_ok d s" by (simp add: cache_ok_def cur_ok_def f)
  show ac: "acache d t = acache d s"
    unfolding acache_def bview_def bref_def blocked_def f sl ..
  show "bholds d t = bholds d s" using f sl by (simp add: fun_eq_iff bholds_def myproc_def)
  show "cache_idle d t = cache_idle d s" unfolding cache_idle_def ok ac unfolding bref_def blocked_def f sl ..
  show "bview d t = bview d s" unfolding bview_def f sl ..
qed

lemma head_loop:
  "fold (\<lambda>i s. s\<lparr>l_block := (l_block s)[i := f i]\<rparr>) is s = s\<lparr>l_block := fold (\<lambda>i bl. bl[i := f i]) is (l_block s)\<rparr>"
  by (induction "is" arbitrary: s) simp_all

lemma read_head_spec:
  assumes "cache_idle (l_dev s) s"
  defines "lh \<equiv> bview (l_dev s) s (l_start s)"
  shows "\<exists>t. read_head s = Ok () t \<and> cache_ok (l_dev s) t \<and> acache (l_dev s) t = acache (l_dev s) s \<and>
    l_n t = hdr_n lh \<and> l_start t = l_start s \<and> l_dev t = l_dev s \<and>
    l_block t = fold (\<lambda>i bl. bl[i := hdr_block lh i]) [0..<nat (sint (hdr_n lh))] (l_block s)"
proof -
  let ?d = "l_dev s" and ?st = "l_start s"
  have i: "cache_ok ?d s \<and> bstate.more s = bstate.more s" "?st \<notin> c_locked (acache ?d s)" "c_ref (acache ?d s) ?st + 1 < 2 ^ 32"
      "0 < c_ref (acache ?d s) ?st \<or> has_room 1 (acache ?d s)"
    using assms(1) by (auto simp: cache_idle_def)
  from bc.rdb [OF this] obtain h t where t: "bread ?d ?st s = Ok h t" "cache_ok ?d t" "bstate.more t = bstate.more s"
      "acache ?d t = a_read ?st (acache ?d s)" "bholds ?d t h ?st" by blast
  have g: "bdata h t = lh"
    using bc.getd [of ?d t "bstate.more t" h ?st] t(2,5) by (simp add: lh_def t(4) a_read_def)
  define u where "u = t\<lparr>l_n := hdr_n lh, l_block := fold (\<lambda>i bl. bl[i := hdr_block lh i]) [0..<nat (sint (hdr_n lh))] (l_block t)\<rparr>"
  have "bstate.truncate u = bstate.truncate t" by (simp add: u_def bstate.truncate_def)
  note c = cache_cong [OF this]
  have "1 < c_ref (acache ?d u) ?st \<or> c_view (acache ?d u) ?st = c_disk (acache ?d u) ?st"
    using bc.clean [OF i(1), of ?st] by (auto simp del: acache_sel simp: c t(4) a_read_def)
  moreover have "cache_ok ?d u \<and> bstate.more u = bstate.more u" "bholds ?d u h ?st" using t(2,5) c by auto
  ultimately obtain v where v: "brelse h u = Ok () v" "cache_ok ?d v" "bstate.more v = bstate.more u" "acache ?d v = a_rel ?st (acache ?d u)"
    using bc.rel [of ?d u "bstate.more u" h ?st] by blast
  have "acache ?d v = acache ?d s" unfolding v(4) c t(4) using i(2) by (simp add: a_defs del: acache_sel)
  moreover have "read_head s = Ok () v"
    unfolding read_head_def t(1) bindr.simps Let_def g head_loop using v(1) by (simp add: u_def l_len_def)
  ultimately show ?thesis using v(2) log_fields [OF v(3)] log_fields [OF t(3)] by (simp add: u_def)
qed

text \<open>A machine that has just booted: no buffer holds a block of the device.\<close>

definition cache_empty :: "32 word \<Rightarrow> 'a bstate_scheme \<Rightarrow> bool" where
  "cache_empty d s \<longleftrightarrow> cur_ok s \<and> distinct (lru s) \<and> set (lru s) = {..<length (bufs s)} \<and> 2 \<le> length (bufs s) \<and>
     (\<forall>b \<in> set (bufs s). b_dev b \<noteq> d \<and> b_refcnt b = 0 \<and> \<not> sl_locked (b_lock b))"

lemma cache_empty:
  assumes "cache_empty d s"
  shows "cache_idle d s" "has_room 2 (acache d s)" "bview d s = disk s"
proof -
  have no: "\<not> is_buf d s b i" if "i < length (bufs s)" for b i
    using assms that by (auto simp: cache_empty_def is_buf_def)
  have "slot d s b = None" for b using no by (auto simp: slot_def find_None_iff)
  then have e: "bview d s = disk s" "bref d s = (\<lambda>_. 0)" "blocked d s = {}"
    by (simp_all add: bview_def bref_def blocked_def fun_eq_iff)
  have "cache_ok d s" using assms by (auto simp: cache_empty_def cache_ok_def Let_def)
  then show "cache_idle d s" "has_room 2 (acache d s)" "bview d s = disk s"
    using assms e by (auto simp: cache_idle_def has_room_def cache_empty_def)
qed

text \<open>The effect of recovery on the disk.\<close>

definition log_replay :: "block \<Rightarrow> (block \<Rightarrow> byte list) \<Rightarrow> block \<Rightarrow> byte list" where
  "log_replay st D = upd_disk (map (\<lambda>i. (hdr_block (D st) i, D (st + of_nat i + 1))) [0..<nat (sint (hdr_n (D st)))]) D"

lemma fold_list_update:
  "n \<le> length bl \<Longrightarrow> i < n \<Longrightarrow> fold (\<lambda>i bl. bl[i := f i]) [0..<n] bl ! i = f i"
  "length (fold (\<lambda>i bl. bl[i := f i]) [0..<n] bl) = length bl"
proof (induction n)
  case (Suc n)
  {
    case 1
    then show ?case using Suc by (cases "i = n") simp_all
  next
    case 2
    then show ?case using Suc by simp
  }
qed simp_all

lemma initlog_spec:
  fixes st :: block
  assumes "cache_empty d s" "length (l_block s) = LOGBLOCKS"
  defines "lh \<equiv> disk s st" and "n \<equiv> nat (sint (hdr_n (disk s st)))"
  assumes "n \<le> LOGBLOCKS"
    and "\<And>i j. i < n \<Longrightarrow> j < n \<Longrightarrow> st + of_nat i + 1 \<noteq> hdr_block lh j"
  shows "\<exists>t. initlog d st s = Ok () t \<and> cache_idle d t \<and> l_n t = 0 \<and>
     (\<forall>b. disk t b = (if b = st then put32 (log_replay st (disk s) st) 0 0 else log_replay st (disk s) b))"
proof -
  let ?s = "s\<lparr>l_start := st, l_dev := d\<rparr>"
  have "bstate.truncate ?s = bstate.truncate s" by (simp add: bstate.truncate_def)
  note cs = cache_cong [OF this]
  note em = cache_empty [OF assms(1)]
  have vs: "bview d ?s = disk s" using cs(5) em(3) by simp
  obtain t where t: "read_head ?s = Ok () t" "cache_ok d t" "acache d t = acache d s" "l_n t = hdr_n lh" "l_start t = st"
      "l_dev t = d" "l_block t = fold (\<lambda>i bl. bl[i := hdr_block lh i]) [0..<n] (l_block s)"
  proof -
    have "cache_idle (l_dev ?s) ?s" using em(1) by (simp add: cs(4))
    from read_head_spec [OF this] show ?thesis using that by (simp add: cs(2) vs lh_def n_def) blast
  qed
  have idt: "cache_idle d t" using cache_idle_put [of d s t True "[]"] em(1) t(2,3) by simp
  have bl: "i < n \<Longrightarrow> l_block t ! i = hdr_block lh i" for i
    unfolding t(7) using assms(2,5) by (simp add: fold_list_update)
  have len: "l_len t = n" by (simp add: l_len_def t(4) n_def lh_def)
  have vt: "bview d t = disk s" using arg_cong [OF t(3), of c_view] em(3) by simp
  obtain u where u: "install_trans True t = Ok () u" "cache_ok d u" "bstate.more u = bstate.more t"
      "acache d u = fold (put_block True) (map (\<lambda>i. (l_block t ! i, disk s (log_blk t i))) [0..<n]) (acache d s)"
  proof -
    have "l_len t \<le> length (l_block t)" using assms(2,5) by (simp add: len t(7) fold_list_update)
    moreover have "log_blk t i \<noteq> l_block t ! j" if "i < l_len t" "j < l_len t" for i j
      using assms(6) that by (simp add: len bl log_blk_def t(5))
    moreover have "cache_idle (l_dev t) t" "has_room 2 (acache (l_dev t) t)" using idt em(2) by (simp_all add: t(3,6))
    ultimately have "\<exists>u. install_trans True t = Ok () u \<and> cache_ok d u \<and> bstate.more u = bstate.more t \<and>
      acache d u = fold (put_block True) (map (\<lambda>i. (l_block t ! i, disk s (log_blk t i))) [0..<n]) (acache d s)"
      using install_trans_spec [of t True] unfolding t(3,6) len vt by simp
    then show ?thesis using that by blast
  qed
  have ws: "map (\<lambda>i. (l_block t ! i, disk s (log_blk t i))) [0..<n] =
      map (\<lambda>i. (hdr_block (disk s st) i, disk s (st + of_nat i + 1))) [0..<nat (sint (hdr_n (disk s st)))]"
    using bl by (simp add: log_blk_def t(5) n_def lh_def)
  have du: "disk u = log_replay st (disk s)" "bview d u = log_replay st (disk s)"
    using arg_cong [OF u(4) [unfolded ws], of c_disk] arg_cong [OF u(4) [unfolded ws], of c_view] em(3)
    by (simp_all add: log_replay_def put_blocks)
  let ?u = "u\<lparr>l_n := 0\<rparr>"
  have "bstate.truncate ?u = bstate.truncate u" by (simp add: bstate.truncate_def)
  note cu = cache_cong [OF this]
  have idu: "cache_idle d u" using cache_idle_put [OF em(1) u(2,4)] .
  note lu = log_fields [OF u(3)]
  obtain v where v: "write_head ?u = Ok () v" "cache_ok d v" "bstate.more v = bstate.more ?u"
      "acache d v = put_block True (st, put_head 0 0 (l_block u) (log_replay st (disk s) st)) (acache d u)"
    using write_head_spec [of ?u] idu by (auto simp: lu t(5,6) cu du l_len_def)
  have idv: "cache_idle d v" using cache_idle_put1 [OF idu v(2,4)] .
  have "initlog d st s = Ok () v"
    using t(1) u(1) v(1) by (simp add: initlog_def LOGBLOCKS_def MAXOPBLOCKS_def BSIZE_def recover_from_log_def)
  moreover have "l_n v = 0" using log_fields [OF v(3)] by simp
  moreover have "disk v = (log_replay st (disk s))(st := put32 (log_replay st (disk s) st) 0 0)"
    using arg_cong [OF v(4), of c_disk] by (simp add: du put_head_def)
  ultimately show ?thesis using idv by simp
qed

section \<open>Commit\<close>

text \<open>The blocks of the log on disk, and the state in which \<open>end_op\<close> starts a commit: the log on disk is
  empty, the blocks of the transaction are distinct, pinned and outside the log, and no other block
  is dirty.\<close>

definition log_region :: "block \<Rightarrow> block set" where
  "log_region st = insert st ((\<lambda>i. st + of_nat i + 1) ` {..<LOGBLOCKS})"

definition log_ready :: "'a lstate_scheme \<Rightarrow> bool" where
  "log_ready s \<longleftrightarrow> cache_idle (l_dev s) s \<and> l_len s \<le> LOGBLOCKS \<and> length (l_block s) = LOGBLOCKS \<and>
     distinct (take (l_len s) (l_block s)) \<and>
     (\<forall>b \<in> set (take (l_len s) (l_block s)). 0 < bref (l_dev s) s b \<and> b \<notin> log_region (l_start s)) \<and>
     (\<forall>b. b \<notin> set (take (l_len s) (l_block s)) \<longrightarrow> bview (l_dev s) s b = disk s b) \<and>
     length (disk s (l_start s)) = BSIZE \<and> hdr_n (disk s (l_start s)) = 0"

definition to_log :: "'a lstate_scheme \<Rightarrow> (block \<times> byte list) list" where
  "to_log s = map (\<lambda>i. (log_blk s i, bview (l_dev s) s (l_block s ! i))) [0..<l_len s]"

definition to_home :: "'a lstate_scheme \<Rightarrow> (block \<times> byte list) list" where
  "to_home s = map (\<lambda>i. (l_block s ! i, bview (l_dev s) s (l_block s ! i))) [0..<l_len s]"

definition new_head :: "'a lstate_scheme \<Rightarrow> byte list" where
  "new_head s = put_head (l_len s) (l_n s) (l_block s) (disk s (l_start s))"

definition commit_writes :: "'a lstate_scheme \<Rightarrow> (block \<times> byte list) list" where
  "commit_writes s = to_log s @ [(l_start s, new_head s)] @ to_home s @ [(l_start s, put32 (new_head s) 0 0)]"

lemma log_readyD:
  assumes "log_ready s"
  shows "cache_idle (l_dev s) s" "l_len s \<le> 30" "length (l_block s) = LOGBLOCKS" "l_len s \<le> length (l_block s)"
    "distinct (take (l_len s) (l_block s))" "i < l_len s \<Longrightarrow> 0 < bref (l_dev s) s (l_block s ! i)"
    "i < l_len s \<Longrightarrow> j < LOGBLOCKS \<Longrightarrow> log_blk s j \<noteq> l_block s ! i" "i < l_len s \<Longrightarrow> l_block s ! i \<noteq> l_start s"
    "b \<notin> set (take (l_len s) (l_block s)) \<Longrightarrow> bview (l_dev s) s b = disk s b"
    "length (disk s (l_start s)) = BSIZE" "hdr_n (disk s (l_start s)) = 0"
    "l_start s \<notin> set (take (l_len s) (l_block s))"
proof -
  have len: "l_len s \<le> 30" using assms by (simp add: log_ready_def LOGBLOCKS_def MAXOPBLOCKS_def)
  have inn: "i < l_len s \<Longrightarrow> l_block s ! i \<in> set (take (l_len s) (l_block s))" for i
    using assms by (auto simp: log_ready_def in_set_conv_nth intro!: exI [of _ i])
  show "i < l_len s \<Longrightarrow> 0 < bref (l_dev s) s (l_block s ! i)" using inn assms by (simp add: log_ready_def)
  have out: "b \<in> set (take (l_len s) (l_block s)) \<Longrightarrow> b \<notin> log_region (l_start s)" for b
    using assms by (simp add: log_ready_def)
  then show "i < l_len s \<Longrightarrow> j < LOGBLOCKS \<Longrightarrow> log_blk s j \<noteq> l_block s ! i"
    using inn [of i] by (force simp: log_region_def log_blk_def)
  show "i < l_len s \<Longrightarrow> l_block s ! i \<noteq> l_start s" using inn [of i] out by (auto simp: log_region_def)
  show "l_start s \<notin> set (take (l_len s) (l_block s))" using out by (auto simp: log_region_def)
  show "l_len s \<le> 30" by (rule len)
qed (use assms in \<open>auto simp: log_ready_def\<close>)

lemma log_blk_inj: "i < 31 \<Longrightarrow> j < 31 \<Longrightarrow> log_blk s i = log_blk s j \<longleftrightarrow> i = j"
  by (auto simp: log_blk_def of_nat_eq_iff take_bit_nat_eq_self_iff word_of_nat_eq_iff take_bit_eq_mod)

lemma log_blk_start: "i < 31 \<Longrightarrow> log_blk s i \<noteq> l_start s"
proof
  assume "i < 31" "log_blk s i = l_start s"
  then have "of_nat (Suc i) = (of_nat 0 :: 32 word)" by (simp add: log_blk_def add.assoc add.commute)
  then have "2 ^ 32 dvd Suc i" by (simp add: word_of_nat_eq_0_iff del: of_nat_Suc)
  then show False using \<open>i < 31\<close> nat_dvd_not_less [of "Suc i" "2 ^ 32"] by simp
qed

text \<open>The blocks written by the two phases.\<close>

lemma commit_phases:
  assumes "log_ready s"
  shows "distinct (map fst (to_log s))" "distinct (map fst (to_home s))"
    "fst ` set (to_home s) = set (take (l_len s) (l_block s))" "fst ` set (to_log s) \<subseteq> log_region (l_start s)"
    "l_start s \<notin> fst ` set (to_log s)" "l_start s \<notin> fst ` set (to_home s)"
    "i < l_len s \<Longrightarrow> log_blk s i \<notin> fst ` set (to_home s)"
    "length (new_head s) = BSIZE" "hdr_n (new_head s) = l_n s" "i < l_len s \<Longrightarrow> hdr_block (new_head s) i = l_block s ! i"
    "hdr_n (put32 (new_head s) 0 0) = 0"
proof -
  note r = log_readyD [OF assms]
  show "distinct (map fst (to_log s))" using r(2) by (auto simp: to_log_def comp_def distinct_map inj_on_def log_blk_inj)
  have m: "map fst (to_home s) = take (l_len s) (l_block s)"
    using r(4) by (intro nth_equalityI) (auto simp: to_home_def)
  show "distinct (map fst (to_home s))" using r(5) by (simp add: m)
  show h: "fst ` set (to_home s) = set (take (l_len s) (l_block s))" by (simp flip: m)
  show "fst ` set (to_log s) \<subseteq> log_region (l_start s)"
    using r(2) by (auto simp: to_log_def log_region_def log_blk_def LOGBLOCKS_def MAXOPBLOCKS_def)
  have "log_blk s i \<noteq> l_start s" if "i < l_len s" for i using r(2) that log_blk_start [of i s] by simp
  then show "l_start s \<notin> fst ` set (to_log s)" by (auto simp: to_log_def dest: sym)
  show "l_start s \<notin> fst ` set (to_home s)" using r(12) by (simp add: h)
  show "i < l_len s \<Longrightarrow> log_blk s i \<notin> fst ` set (to_home s)"
    using r(2) r(7) [of j i for j] by (auto simp: to_home_def LOGBLOCKS_def MAXOPBLOCKS_def) blast
  have "4 + 4 * l_len s \<le> length (disk s (l_start s))" using r(2,10) by (simp add: BSIZE_def)
  note p = put_head [OF this]
  show l: "length (new_head s) = BSIZE" using p(1) r(10) by (simp add: new_head_def)
  show "hdr_n (new_head s) = l_n s" "i < l_len s \<Longrightarrow> hdr_block (new_head s) i = l_block s ! i"
    using p(2,3) by (simp_all add: new_head_def)
  show "hdr_n (put32 (new_head s) 0 0) = 0" using l by (simp add: hdr_n_def BSIZE_def)
qed

lemma commit_spec:
  assumes "log_ready s" "0 < l_len s"
  shows "\<exists>t. commit s = Ok () t \<and> cache_idle (l_dev s) t \<and> l_n t = 0 \<and> dtrace t = dtrace s @ commit_writes s \<and>
    disk t = upd_disk (commit_writes s) (disk s) \<and> bview (l_dev s) t = upd_disk (commit_writes s) (bview (l_dev s) s) \<and>
    (\<forall>b. bref (l_dev s) t b = (if b \<in> set (take (l_len s) (l_block s)) then bref (l_dev s) s b - 1 else bref (l_dev s) s b))"
proof -
  let ?d = "l_dev s" and ?st = "l_start s"
  note r = log_readyD [OF assms(1)] and ph = commit_phases [OF assms(1)]
  have lb: "i < l_len s \<Longrightarrow> i < LOGBLOCKS" for i using r(2) by (simp add: LOGBLOCKS_def MAXOPBLOCKS_def)
  obtain t where t: "write_log s = Ok () t" "cache_ok ?d t" "bstate.more t = bstate.more s"
      "acache ?d t = fold (put_block True) (to_log s) (acache ?d s)"
    using write_log_spec [OF r(1,4)] r(6,7) lb unfolding to_log_def by blast
  have idt: "cache_idle ?d t" using cache_idle_put [OF r(1) t(2,4)] .
  note lt = log_fields [OF t(3)]
  have vt: "bview ?d t = upd_disk (to_log s) (bview ?d s)" "bref ?d t = bref ?d s"
    using arg_cong [OF t(4), of c_view] arg_cong [OF t(4), of c_ref] by (simp_all add: put_blocks)
  have "bview ?d t ?st = disk s ?st" using r(9) [OF r(12)] ph(5) by (simp add: vt upd_disk_other)
  then obtain u where u: "write_head t = Ok () u" "cache_ok ?d u" "bstate.more u = bstate.more t"
      "acache ?d u = put_block True (?st, new_head s) (acache ?d t)"
    using write_head_spec [of t] idt unfolding lt new_head_def by auto
  have idu: "cache_idle ?d u" using cache_idle_put1 [OF idt u(2,4)] .
  note lu = log_fields [OF u(3)]
  have vu: "bview ?d u = (bview ?d t)(?st := new_head s)" "bref ?d u = bref ?d s"
    using arg_cong [OF u(4), of c_view] arg_cong [OF u(4), of c_ref] vt by simp_all
  have vl: "bview ?d u (log_blk s i) = bview ?d s (l_block s ! i)" if "i < l_len s" for i
    using that r(2) log_blk_start [of i s] ph(1) by (auto simp: vu vt to_log_def intro!: upd_disk_in)
  have lbu: "log_blk u = log_blk s" by (simp add: fun_eq_iff log_blk_def lu lt)
  obtain v where v: "install_trans False u = Ok () v" "cache_ok ?d v" "bstate.more v = bstate.more u"
      "acache ?d v = fold (put_block False) (to_home s) (acache ?d u)"
  proof -
    have "\<exists>v. install_trans False u = Ok () v \<and> cache_ok ?d v \<and> bstate.more v = bstate.more u \<and>
        acache ?d v = fold (put_block False) (map (\<lambda>i. (l_block s ! i, bview ?d u (log_blk s i))) [0..<l_len s]) (acache ?d u)"
      using install_trans_spec [of u False] idu r(4-7) lb unfolding lbu lu lt vu by simp
    moreover have "map (\<lambda>i. (l_block s ! i, bview ?d u (log_blk s i))) [0..<l_len s] = to_home s"
      using vl by (simp add: to_home_def)
    ultimately show ?thesis using that by auto
  qed
  have idv: "cache_idle ?d v" using cache_idle_put [OF idu v(2,4)] .
  let ?v = "v\<lparr>l_n := 0\<rparr>"
  have "bstate.truncate ?v = bstate.truncate v" by (simp add: bstate.truncate_def)
  note cv = cache_cong [OF this]
  note lv = log_fields [OF v(3)]
  have vv: "bview ?d v = upd_disk (to_home s) (bview ?d u)"
    using arg_cong [OF v(4), of c_view] by (simp add: put_blocks)
  then have "bview ?d v ?st = new_head s" using ph(6) by (simp add: upd_disk_other vu)
  then obtain w where w: "write_head ?v = Ok () w" "cache_ok ?d w" "bstate.more w = bstate.more ?v"
      "acache ?d w = put_block True (?st, put32 (new_head s) 0 0) (acache ?d v)"
    using write_head_spec [of ?v] idv cv lv lu lt by (auto simp: l_len_def put_head_def)
  have idw: "cache_idle ?d w" using cache_idle_put1 [OF idv w(2,4)] .
  have all: "acache ?d w = put_block True (?st, put32 (new_head s) 0 0) (fold (put_block False) (to_home s)
      (put_block True (?st, new_head s) (fold (put_block True) (to_log s) (acache ?d s))))"
    unfolding w(4) v(4) u(4) t(4) ..
  have "commit s = Ok () w"
    using assms(2) t(1) u(1) v(1) w(1) by (simp add: commit_def l_len_def)
  moreover have "l_n w = 0" using log_fields [OF w(3)] by simp
  moreover have "dtrace w = dtrace s @ commit_writes s" "disk w = upd_disk (commit_writes s) (disk s)"
      "bview ?d w = upd_disk (commit_writes s) (bview ?d s)"
    using arg_cong [OF all, of c_trace] arg_cong [OF all, of c_disk] arg_cong [OF all, of c_view]
    by (simp_all add: put_blocks commit_writes_def upd_disk_append)
  moreover have "bref ?d w b = (if b \<in> set (take (l_len s) (l_block s)) then bref ?d s b - 1 else bref ?d s b)" for b
    using fun_cong [OF arg_cong [OF all, of c_ref], of b] ph(2,3)
      put_blocks_unpin [OF ph(2), of b] put_blocks(8) [of b "to_home s"] by (simp add: put_blocks)
  ultimately show ?thesis using idw by blast
qed

text \<open>What recovery makes of a crash.\<close>

lemma log_replay_none: "hdr_n (D st) = 0 \<Longrightarrow> log_replay st D = D"
  by (simp add: log_replay_def)

lemma log_replay_new:
  assumes "log_ready s" "D (l_start s) = new_head s"
    and "\<And>i. i < l_len s \<Longrightarrow> D (log_blk s i) = bview (l_dev s) s (l_block s ! i)"
  shows "log_replay (l_start s) D = upd_disk (to_home s) D"
proof -
  have "map (\<lambda>i. (hdr_block (D (l_start s)) i, D (l_start s + of_nat i + 1))) [0..<l_len s] = to_home s"
    using assms(3) commit_phases(10) [OF assms(1)] by (simp add: to_home_def assms(2) log_blk_def)
  then show ?thesis by (simp add: log_replay_def assms(2) commit_phases(9) [OF assms(1)] flip: l_len_def)
qed

lemma to_home_view:
  assumes "log_ready s" "b \<notin> set (take (l_len s) (l_block s)) \<Longrightarrow> D b = disk s b"
  shows "upd_disk (to_home s) D b = bview (l_dev s) s b"
proof (cases "b \<in> set (take (l_len s) (l_block s))")
  case True
  then obtain i where "i < l_len s" "b = l_block s ! i" by (auto simp: in_set_conv_nth)
  then show ?thesis
    by (intro upd_disk_in commit_phases(2) [OF assms(1)]) (auto simp: to_home_def)
next
  case False
  then show ?thesis
    using assms(2) log_readyD(9) [OF assms(1)] commit_phases(3) [OF assms(1)] by (simp add: upd_disk_other)
qed

text \<open>The disk as a crash in the middle of a commit leaves it.\<close>

lemma crash_disk:
  assumes "log_ready s" "k \<le> length (commit_writes s)"
  defines "D \<equiv> upd_disk (take k (commit_writes s)) (disk s)"
  shows "k \<le> l_len s \<Longrightarrow> D (l_start s) = disk s (l_start s) \<and> (\<forall>b. b \<notin> log_region (l_start s) \<longrightarrow> D b = disk s b)"
    and "l_len s < k \<Longrightarrow> k < length (commit_writes s) \<Longrightarrow> D (l_start s) = new_head s \<and>
      (\<forall>i < l_len s. D (log_blk s i) = bview (l_dev s) s (l_block s ! i)) \<and>
      (\<forall>b. b \<notin> log_region (l_start s) \<longrightarrow> b \<notin> set (take (l_len s) (l_block s)) \<longrightarrow> D b = disk s b)"
    and "k = length (commit_writes s) \<Longrightarrow> D (l_start s) = put32 (new_head s) 0 0 \<and>
      (\<forall>b. b \<notin> log_region (l_start s) \<longrightarrow> D b = bview (l_dev s) s b)"
proof -
  note r = log_readyD [OF assms(1)] and ph = commit_phases [OF assms(1)]
  have len: "length (to_log s) = l_len s" "length (to_home s) = l_len s" by (simp_all add: to_log_def to_home_def)
  have st: "l_start s \<in> log_region (l_start s)" by (simp add: log_region_def)
  have sub: "fst ` set (take j (to_log s)) \<subseteq> log_region (l_start s)" "l_start s \<notin> fst ` set (take j (to_log s))"
      "fst ` set (take j (to_home s)) \<subseteq> set (take (l_len s) (l_block s))" for j
    using ph(3-5) set_take_subset [of j "to_log s"] set_take_subset [of j "to_home s"] by blast+
  show "D (l_start s) = disk s (l_start s) \<and> (\<forall>b. b \<notin> log_region (l_start s) \<longrightarrow> D b = disk s b)" if "k \<le> l_len s"
  proof -
    have "D = upd_disk (take k (to_log s)) (disk s)" using that by (simp add: D_def commit_writes_def len)
    moreover have "upd_disk (take k (to_log s)) (disk s) b = disk s b" if "b \<notin> log_region (l_start s)" for b
      by (rule upd_disk_other) (use that sub(1) in blast)
    ultimately show ?thesis using sub(2) by (simp add: upd_disk_other)
  qed
  let ?L = "(upd_disk (to_log s) (disk s))(l_start s := new_head s)"
  have L: "?L b = disk s b" if "b \<notin> log_region (l_start s)" for b
  proof -
    have "b \<notin> fst ` set (to_log s)" "b \<noteq> l_start s" using that ph(4) st by blast+
    then show ?thesis by (simp add: upd_disk_other)
  qed
  show "D (l_start s) = new_head s \<and>
      (\<forall>i < l_len s. D (log_blk s i) = bview (l_dev s) s (l_block s ! i)) \<and>
      (\<forall>b. b \<notin> log_region (l_start s) \<longrightarrow> b \<notin> set (take (l_len s) (l_block s)) \<longrightarrow> D b = disk s b)"
    if "l_len s < k" "k < length (commit_writes s)"
  proof -
    define j where "j = k - Suc (l_len s)"
    then have j: "k = Suc (l_len s + j)" "j \<le> l_len s" using that by (simp_all add: commit_writes_def len)
    then have D: "D = upd_disk (take j (to_home s)) ?L"
      by (simp add: D_def commit_writes_def len upd_disk_append)
    have "l_start s \<notin> fst ` set (take j (to_home s))" using sub(3) r(12) by blast
    then have "D (l_start s) = new_head s" by (simp add: D upd_disk_other)
    moreover have "D (log_blk s i) = bview (l_dev s) s (l_block s ! i)" if "i < l_len s" for i
    proof -
      have "log_blk s i \<notin> fst ` set (take j (to_home s))" using ph(7) [OF that] set_take_subset [of j "to_home s"] by blast
      moreover have "log_blk s i \<noteq> l_start s" using that r(2) log_blk_start [of i s] by simp
      ultimately show ?thesis using that ph(1) by (auto simp: D upd_disk_other to_log_def intro!: upd_disk_in)
    qed
    moreover have "D b = disk s b" if "b \<notin> log_region (l_start s)" "b \<notin> set (take (l_len s) (l_block s))" for b
      unfolding D using L [OF that(1)] that(2) sub(3) [of j] by (subst upd_disk_other) (auto simp: subset_iff)
    ultimately show ?thesis by blast
  qed
  show "D (l_start s) = put32 (new_head s) 0 0 \<and> (\<forall>b. b \<notin> log_region (l_start s) \<longrightarrow> D b = bview (l_dev s) s b)"
    if "k = length (commit_writes s)"
  proof -
    have D: "D = (upd_disk (to_home s) ?L)(l_start s := put32 (new_head s) 0 0)"
      by (simp add: D_def that) (simp add: commit_writes_def upd_disk_append)
    show ?thesis
      unfolding D using st to_home_view [OF assms(1), of _ ?L] L by auto
  qed
qed

lemma recover_empty:
  assumes "cache_empty d boot" "length (l_block boot) = LOGBLOCKS" "hdr_n (disk boot st) = 0" "length (disk boot st) = BSIZE"
  shows "\<exists>u. initlog d st boot = Ok () u \<and> hdr_n (disk u st) = 0 \<and> (\<forall>b. b \<noteq> st \<longrightarrow> disk u b = disk boot b)"
proof -
  obtain t where t: "initlog d st boot = Ok () t"
      "\<And>b. disk t b = (if b = st then put32 (disk boot st) 0 0 else disk boot b)"
    using initlog_spec [OF assms(1,2), of st] assms(3) log_replay_none [of "disk boot" st] by auto
  moreover have "hdr_n (disk t st) = 0" using assms(4) by (simp add: t(2) hdr_n_def BSIZE_def)
  ultimately show ?thesis by auto
qed

lemma crash_recovery:
  assumes ready: "log_ready s" "0 < l_len s" and boot: "cache_empty (l_dev s) boot" "length (l_block boot) = LOGBLOCKS"
    and D: "disk boot = upd_disk (take k (commit_writes s)) (disk s)" and k: "k \<le> length (commit_writes s)"
  shows "\<exists>u. initlog (l_dev s) (l_start s) boot = Ok () u \<and> hdr_n (disk u (l_start s)) = 0 \<and>
     (\<forall>b. b \<notin> log_region (l_start s) \<longrightarrow> disk u b = (if k \<le> l_len s then disk s b else bview (l_dev s) s b))"
proof -
  note r = log_readyD [OF ready(1)] and ph = commit_phases [OF ready(1)] and cd = crash_disk [OF ready(1) k, folded D]
  have st: "b \<notin> log_region (l_start s) \<Longrightarrow> b \<noteq> l_start s" for b by (auto simp: log_region_def)
  have lw: "length (commit_writes s) = 2 * l_len s + 2" by (simp add: commit_writes_def to_log_def to_home_def)
  consider (early) "k \<le> l_len s" | (mid) "l_len s < k" "k < length (commit_writes s)" | (late) "k = length (commit_writes s)"
    using k by linarith
  then show ?thesis
  proof cases
    case early
    then show ?thesis using recover_empty [OF boot, of "l_start s"] cd(1) r(10,11) st by fastforce
  next
    case late
    have "length (put32 (new_head s) 0 0) = BSIZE" using ph(8) by (simp add: BSIZE_def)
    then show ?thesis using late lw recover_empty [OF boot, of "l_start s"] cd(3) ph(11) st by fastforce
  next
    case mid
    note c = cd(2) [OF mid]
    have n: "nat (sint (hdr_n (disk boot (l_start s)))) = l_len s" using c ph(9) by (simp add: l_len_def)
    have bl: "hdr_block (disk boot (l_start s)) j = l_block s ! j" if "j < l_len s" for j using c ph(10) that by simp
    have lb: "i < l_len s \<Longrightarrow> i < LOGBLOCKS" for i using r(2) by (simp add: LOGBLOCKS_def MAXOPBLOCKS_def)
    have rep: "log_replay (l_start s) (disk boot) = upd_disk (to_home s) (disk boot)"
      using c by (intro log_replay_new [OF ready(1)]) auto
    obtain t where t: "initlog (l_dev s) (l_start s) boot = Ok () t"
        "\<And>b. disk t b = (if b = l_start s then put32 (upd_disk (to_home s) (disk boot) (l_start s)) 0 0
          else upd_disk (to_home s) (disk boot) b)"
      using initlog_spec [OF boot, of "l_start s"] r(2) r(7) lb bl unfolding n rep
      by (auto simp: log_blk_def LOGBLOCKS_def MAXOPBLOCKS_def)
    have "disk t (l_start s) = put32 (new_head s) 0 0" using c ph(6) by (simp add: t(2) upd_disk_other)
    moreover have "disk t b = bview (l_dev s) s b" if "b \<notin> log_region (l_start s)" for b
      using c st [OF that] that to_home_view [OF ready(1), of b "disk boot"] by (auto simp: t(2))
    ultimately show ?thesis using mid t(1) ph(11) by auto
  qed
qed

text \<open>
  C3. Crash safety of the log: a commit of a transaction succeeds, and for every prefix of the disk
  writes it makes (a crash after any number of them), booting from that disk and running \<open>initlog\<close>
  succeeds, leaves an empty log and, outside the log's own blocks, exactly the disk as it was before
  the transaction if the crash came before the header was written, and exactly the contents that the
  transaction's processes saw if it came after.
\<close>

theorem commit_crash_safe:
  assumes "log_ready s" "0 < l_len s"
  shows "\<exists>t. commit s = Ok () t \<and> dtrace t = dtrace s @ commit_writes s \<and>
    (\<forall>k \<le> length (commit_writes s). \<forall>boot :: 'b lstate_scheme.
       cache_empty (l_dev s) boot \<longrightarrow> length (l_block boot) = LOGBLOCKS \<longrightarrow>
       disk boot = upd_disk (take k (commit_writes s)) (disk s) \<longrightarrow>
       (\<exists>u. initlog (l_dev s) (l_start s) boot = Ok () u \<and> hdr_n (disk u (l_start s)) = 0 \<and>
         (\<forall>b. b \<notin> log_region (l_start s) \<longrightarrow> disk u b = (if k \<le> l_len s then disk s b else bview (l_dev s) s b))))"
  using commit_spec [OF assms] crash_recovery [OF assms] by blast

section \<open>Admission of transactions\<close>

lemma commit_fields:
  assumes "commit s = Ok () t"
  shows "l_outstanding t = l_outstanding s" "l_committing t = l_committing s" "l_n t = (if 0 < sint (l_n s) then 0 else l_n s)"
    "l_block t = l_block s"
proof -
  have wl: "bstate.more t = bstate.more s" if "write_log s = Ok () t" for s t :: "'a lstate_scheme"
    by (rule forM_invariant [OF that [unfolded write_log_def], where I = "\<lambda>t. bstate.more t = bstate.more s"])
      (auto simp: bindr_eq_Ok cache_more(4-6) dest!: cache_more(1-3))
  have it: "bstate.more t = bstate.more s" if "install_trans r s = Ok () t" for r and s t :: "'a lstate_scheme"
    by (rule forM_invariant [OF that [unfolded install_trans_def], where I = "\<lambda>t. bstate.more t = bstate.more s"])
      (auto simp: bindr_eq_Ok cache_more(4-6) dest!: cache_more(1-3) split: if_splits)
  have wh: "bstate.more t = bstate.more s" if "write_head s = Ok () t" for s t :: "'a lstate_scheme"
    using that by (auto simp: write_head_def bindr_eq_Ok cache_more(4-6) dest!: cache_more(1-3))
  have "l_outstanding t = l_outstanding s \<and> l_committing t = l_committing s \<and> l_n t = (if 0 < sint (l_n s) then 0 else l_n s) \<and>
    l_block t = l_block s"
  proof (cases "0 < sint (l_n s)")
    case True
    then obtain u v w where "write_log s = Ok () u" "write_head u = Ok () v" "install_trans False v = Ok () w"
        "write_head (w\<lparr>l_n := 0\<rparr>) = Ok () t"
      using assms by (auto simp: commit_def bindr_eq_Ok)
    then show ?thesis using log_fields [OF wl] log_fields [OF wh] log_fields [OF it] True by fastforce
  next
    case False
    then show ?thesis using assms by (simp add: commit_def)
  qed
  then show "l_outstanding t = l_outstanding s" "l_committing t = l_committing s" "l_n t = (if 0 < sint (l_n s) then 0 else l_n s)"
    "l_block t = l_block s" by auto
qed

text \<open>The calls of the system calls that are running, each with the number of blocks it may still log.
  \<open>other\<close> is any step that leaves the log's fields alone.\<close>

inductive log_step :: "'a lstate_scheme \<times> nat list \<Rightarrow> 'a lstate_scheme \<times> nat list \<Rightarrow> bool" where
  begins: "begin_op s = Ok () t \<Longrightarrow> log_step (s, ops) (t, MAXOPBLOCKS # ops)"
| writes: "i < length ops \<Longrightarrow> ops ! i = Suc k \<Longrightarrow> log_write b s = Ok () t \<Longrightarrow> log_step (s, ops) (t, ops[i := k])"
| ends: "i < length ops \<Longrightarrow> end_op s = Ok () t \<Longrightarrow> log_step (s, ops) (t, take i ops @ drop (Suc i) ops)"
| other: "l_n t = l_n s \<Longrightarrow> l_outstanding t = l_outstanding s \<Longrightarrow> l_committing t = l_committing s \<Longrightarrow>
    l_block t = l_block s \<Longrightarrow> log_step (s, ops) (t, ops)"

inductive log_reach :: "'a lstate_scheme \<times> nat list \<Rightarrow> bool" where
  boot: "l_n s = 0 \<Longrightarrow> l_outstanding s = 0 \<Longrightarrow> \<not> l_committing s \<Longrightarrow> length (l_block s) = LOGBLOCKS \<Longrightarrow> log_reach (s, [])"
| step: "log_reach x \<Longrightarrow> log_step x y \<Longrightarrow> log_reach y"

definition log_inv :: "'a lstate_scheme \<times> nat list \<Rightarrow> bool" where
  "log_inv = (\<lambda>(s, ops). unat (l_n s) + sum_list ops \<le> LOGBLOCKS \<and> length ops \<le> 3 \<and> (\<forall>k \<in> set ops. k \<le> MAXOPBLOCKS) \<and>
     unat (l_outstanding s) = length ops \<and> \<not> l_committing s \<and>
     length (l_block s) = LOGBLOCKS \<and> distinct (take (unat (l_n s)) (l_block s)))"

lemma sint_small: "unat x < 2 ^ 31 \<Longrightarrow> sint (x :: 32 word) = int (unat x)"
proof -
  assume "unat x < 2 ^ 31"
  then have "int (unat x) < 2 ^ 31" by (simp del: of_nat_unat)
  then have "uint x < 2 ^ 31" by simp
  moreover have "- (2 ^ 31) \<le> uint x" by (rule order_trans [OF _ uint_ge_0]) simp
  ultimately have "signed_take_bit 31 (uint x) = uint x" by (intro signed_take_bit_int_eq_self)
  then show ?thesis by (simp add: sint_uint)
qed

lemma l_len_block: "l_len (s\<lparr>l_block := bl\<rparr>) = l_len s"
  by (simp add: l_len_def)

lemma log_invD:
  assumes "log_inv (s, ops)"
  shows "sint (l_n s) = int (unat (l_n s))" "sint (l_outstanding s) = int (length ops)" "unat (l_n s) \<le> 30" "l_len s = unat (l_n s)"
  using assms sint_small [of "l_n s"] sint_small [of "l_outstanding s"]
  by (auto simp: log_inv_def LOGBLOCKS_def MAXOPBLOCKS_def l_len_def)

lemma begin_op_inv:
  assumes "log_inv (s, ops)" "begin_op s = Ok () t"
  shows "log_inv (t, MAXOPBLOCKS # ops)"
proof -
  note d = log_invD [OF assms(1)]
  have t: "t = s\<lparr>l_outstanding := l_outstanding s + 1\<rparr>" "unat (l_n s) + (length ops + 1) * 10 \<le> 30"
    using assms(2) d by (auto simp: begin_op_def sleep_def MAXOPBLOCKS_def LOGBLOCKS_def simp del: of_nat_unat split: if_splits)
  have "sum_list ops \<le> length ops * 10"
    using assms(1) sum_list_mono [of ops id "\<lambda>_. 10"] by (simp add: log_inv_def MAXOPBLOCKS_def sum_list_triv)
  moreover have "unat (l_outstanding s + 1) = length ops + 1"
    using assms(1) by (simp add: log_inv_def unat_word_ariths(1))
  ultimately show ?thesis using assms(1) t by (simp add: log_inv_def MAXOPBLOCKS_def LOGBLOCKS_def)
qed

lemma log_write_inv:
  assumes "log_inv (s, ops)" "i < length ops" "ops ! i = Suc k" "log_write b s = Ok () t"
  shows "log_inv (t, ops[i := k])"
proof -
  note d = log_invD [OF assms(1)]
  let ?blk = "b_blockno (bufs s ! b)" and ?n = "unat (l_n s)"
  have inv: "?n + sum_list ops \<le> 30" "\<forall>k \<in> set ops. k \<le> 10" "unat (l_outstanding s) = length ops" "length ops \<le> 3"
      "\<not> l_committing s" "length (l_block s) = 30" "distinct (take ?n (l_block s))"
    using assms(1) by (simp_all add: log_inv_def MAXOPBLOCKS_def LOGBLOCKS_def)
  have "Suc k \<le> 10" using inv(2) assms(2,3) nth_mem by metis
  then have c: "sum_list (ops[i := k]) + 1 = sum_list ops" "\<forall>k \<in> set (ops[i := k]). k \<le> 10"
    using assms(2,3) elem_le_sum_list [OF assms(2)] inv(2) set_update_subset_insert [of ops i k]
    by (auto simp: sum_list_update subset_iff)
  show ?thesis
  proof (cases "find_idx (\<lambda>x. x = ?blk) (take ?n (l_block s))")
    case (Some j)
    then have "t = s\<lparr>l_block := (l_block s)[j := ?blk]\<rparr>" "j < ?n" "l_block s ! j = ?blk"
      using assms(4) find_idx_SomeD [OF Some] by (auto simp: log_write_def Let_def d l_len_block simp del: of_nat_unat split: if_splits)
    moreover from this have "t = s" by (metis list_update_id lstate.surjective lstate.update_convs(6))
    ultimately show ?thesis using inv c by (simp add: log_inv_def MAXOPBLOCKS_def LOGBLOCKS_def)
  next
    case None
    then have t: "t = (bpin b (s\<lparr>l_block := (l_block s)[?n := ?blk]\<rparr>))\<lparr>l_n := l_n s + 1\<rparr>" "?n < 30"
      using assms(4) by (auto simp: log_write_def Let_def d l_len_block LOGBLOCKS_def MAXOPBLOCKS_def simp del: of_nat_unat split: if_splits)
    have u: "unat (l_n s + 1) = Suc ?n" using t(2) by (simp add: unat_word_ariths(1))
    have "take (Suc ?n) ((l_block s)[?n := ?blk]) = take ?n (l_block s) @ [?blk]"
      using t(2) inv(6) by (simp add: take_Suc_conv_app_nth)
    then have "distinct (take (Suc ?n) ((l_block s)[?n := ?blk]))" using inv(7) None by (auto simp: find_idx_None)
    then show ?thesis
      using inv c u by (simp add: t log_inv_def MAXOPBLOCKS_def LOGBLOCKS_def bpin_def upd_buf_def)
  qed
qed

lemma end_op_inv:
  assumes "log_inv (s, ops)" "i < length ops" "end_op s = Ok () t"
  shows "log_inv (t, take i ops @ drop (Suc i) ops)"
proof -
  note d = log_invD [OF assms(1)]
  have wf: "l_n (wakeup ch s) = l_n s" "l_outstanding (wakeup ch s) = l_outstanding s" "l_committing (wakeup ch s) = l_committing s"
      "l_block (wakeup ch s) = l_block s" for ch and s :: "'a lstate_scheme" by (simp_all add: wakeup_def)
  have le: "sum_list (take i ops @ drop (Suc i) ops) \<le> sum_list ops"
    using id_take_nth_drop [OF assms(2)] by (metis add_le_cancel_left le_add2 sum_list.Cons sum_list_append)
  have mem: "set (take i ops @ drop (Suc i) ops) \<subseteq> set ops" by (auto dest: in_set_takeD in_set_dropD)
  have o: "unat (l_outstanding s - 1) = length ops - 1"
  proof -
    have "l_outstanding s \<noteq> 0" using assms(1,2) by (auto simp: log_inv_def)
    then show ?thesis using assms(1) by (simp add: unat_minus_one log_inv_def)
  qed
  have "l_outstanding t = l_outstanding s - 1" "\<not> l_committing t" "l_block t = l_block s" "l_n t = 0 \<or> l_n t = l_n s"
    using assms(3) by (auto simp: end_op_def Let_def bindr_eq_Ok wf commit_fields split: if_splits)
  then show ?thesis using assms(1,2) le mem o by (auto simp: log_inv_def)
qed

lemma log_reach_inv: "log_reach x \<Longrightarrow> log_inv x"
proof (induction rule: log_reach.induct)
  case (boot s)
  then show ?case by (simp add: log_inv_def)
next
  case (step x y)
  from step.hyps(2) show ?case
  proof cases
    case (other t s ops)
    then show ?thesis using step.IH by (simp add: log_inv_def)
  qed (use step.IH in \<open>auto intro: begin_op_inv log_write_inv end_op_inv\<close>)
qed

text \<open>
  C17. Log reservation: in every state reached by system calls that begin, log blocks and end in any
  interleaving, a call that has logged fewer than \<open>MAXOPBLOCKS\<close> blocks can log another one:
  \<open>log_write\<close> neither finds the header full nor finds itself outside a transaction.
\<close>

theorem log_never_overflows:
  assumes "log_reach (s, ops)" "i < length ops" "0 < ops ! i"
  shows "\<exists>t. log_write b s = Ok () t"
proof -
  note inv = log_reach_inv [OF assms(1)] and d = log_invD [OF log_reach_inv [OF assms(1)]]
  have "ops ! i \<le> sum_list ops" using elem_le_sum_list [OF assms(2)] .
  then have "unat (l_n s) < 30" using inv assms(3) by (simp add: log_inv_def LOGBLOCKS_def MAXOPBLOCKS_def)
  then show ?thesis
    using assms(2) d by (auto simp: log_write_def LOGBLOCKS_def MAXOPBLOCKS_def Let_def simp del: of_nat_unat)
qed

text \<open>
  Nobody is left waiting for the log: after \<open>end_op\<close> no other process sleeps on the log, and when
  it ended the last running call the log is empty and \<open>begin_op\<close> admits the next one at once.
\<close>

theorem end_op_wakes:
  assumes "log_reach (s, ops)" "ops \<noteq> []" "end_op s = Ok () t"
  shows "(\<forall>i < length (procs t). Some i \<noteq> curp t \<longrightarrow> \<not> (p_state (procs t ! i) = SLEEPING \<and> p_chan (procs t ! i) = ChLog)) \<and>
    (length ops = 1 \<longrightarrow> (\<exists>u. begin_op t = Ok () u))"
proof
  note inv = log_reach_inv [OF assms(1)] and d = log_invD [OF log_reach_inv [OF assms(1)]]
  from assms(3) obtain u where t: "t = wakeup ChLog u" by (auto simp: end_op_def Let_def bindr_eq_Ok split: if_splits)
  then show "\<forall>i < length (procs t). Some i \<noteq> curp t \<longrightarrow> \<not> (p_state (procs t ! i) = SLEEPING \<and> p_chan (procs t ! i) = ChLog)"
    by (auto simp: length_procs_simps procs_wakeup Let_def)
  show "length ops = 1 \<longrightarrow> (\<exists>u. begin_op t = Ok () u)"
  proof
    assume one: "length ops = 1"
    let ?s = "s\<lparr>l_outstanding := l_outstanding s - 1, l_committing := True\<rparr>"
    have "unat (l_outstanding s) = 1" using inv one by (simp add: log_inv_def)
    then have o: "l_outstanding s - 1 = 0" by (metis diff_self unat_1 word_unat_eq_iff)
    then obtain v where v: "commit ?s = Ok () v" "t = wakeup ChLog (v\<lparr>l_committing := False\<rparr>)"
      using assms(3) inv by (auto simp: end_op_def Let_def bindr_eq_Ok log_inv_def)
    have "l_n v = 0"
    proof (cases "l_n s = 0")
      case False
      then have "0 < sint (l_n s)" using d(1) by (simp add: unat_gt_0 del: of_nat_unat)
      then show ?thesis using commit_fields(3) [OF v(1)] by simp
    qed (use commit_fields(3) [OF v(1)] in simp)
    moreover have "l_outstanding v = 0" using commit_fields(1) [OF v(1)] o by simp
    ultimately show "\<exists>u. begin_op t = Ok () u"
      by (simp add: begin_op_def v(2) wakeup_def MAXOPBLOCKS_def LOGBLOCKS_def)
  qed
qed

text \<open>
  The buffer cache has as many buffers as the log has blocks: when the blocks of a transaction
  have pinned every buffer, \<open>commit\<close> finds no buffer for the first block of the log and panics.
\<close>

theorem commit_full_cache:
  assumes "0 < l_len s" "set (lru s) = {..<length (bufs s)}"
    and "\<forall>b \<in> set (bufs s). b_refcnt b \<noteq> 0 \<and> \<not> (b_dev b = l_dev s \<and> b_blockno b = l_start s + 1)"
  shows "commit s = Panic ''bget: no buffers''"
proof -
  have "bread (l_dev s) (l_start s + 1) s = Panic ''bget: no buffers''"
  proof -
    have "find (\<lambda>i. b_dev (bufs s ! i) = l_dev s \<and> b_blockno (bufs s ! i) = l_start s + 1) (lru s) = None"
      "find (\<lambda>i. b_refcnt (bufs s ! i) = 0) (rev (lru s)) = None"
      using assms(2,3) by (auto simp: find_None_iff)
    then show ?thesis by (simp add: bread_def bget_def)
  qed
  moreover obtain k where "l_len s = Suc k" using assms(1) gr0_conv_Suc by blast
  ultimately have "write_log s = Panic ''bget: no buffers''"
    by (simp add: write_log_def upt_conv_Cons del: upt_Suc)
  then show ?thesis using assms(1) by (simp add: commit_def l_len_def)
qed

text \<open>A cache of three buffers whose first holds the only block of the transaction.\<close>

definition demo_log :: "buf list \<Rightarrow> (block \<Rightarrow> byte list) \<Rightarrow> 32 word \<Rightarrow> lstate" where
  "demo_log bs D n = bstate.extend (pstate.extend (demo_table [demo_proc RUNNING 10]\<lparr>curp := Some 0\<rparr>)
     (bstate.fields bs [0..<length bs] D [])) (lstate.fields 2 0 False 1 n (50 # replicate 29 0))"

lemmas demo_log_defs = demo_log_def bstate.defs pstate.defs lstate.defs demo_table_def demo_proc_def

definition demo_pinned :: buf where
  "demo_pinned = bss_buf\<lparr>b_valid := True, b_dev := 1, b_blockno := 50, b_refcnt := 1, b_data := replicate BSIZE 7\<rparr>"

theorem commit_crash_safe_witness:
  "let s = demo_log [demo_pinned, bss_buf, bss_buf] (\<lambda>_. replicate BSIZE 0) 1 in
   \<exists>t. commit s = Ok () t \<and>
     (\<exists>u. initlog 1 2 (demo_log [bss_buf, bss_buf] (upd_disk (take 2 (commit_writes s)) (disk s)) 0) = Ok () u \<and>
       disk u 50 = replicate BSIZE 7)"
proof -
  let ?s = "demo_log [demo_pinned, bss_buf, bss_buf] (\<lambda>_. replicate BSIZE 0) 1"
  let ?D = "upd_disk (take 2 (commit_writes ?s)) (disk ?s)"
  note d = demo_log_defs demo_pinned_def bss_buf_def initsleeplock_def
  have len: "l_len ?s = 1" by (simp add: l_len_def d)
  have sl: "slot 1 ?s b = (if b = 50 then Some 0 else None)" for b
    by (simp add: slot_def is_buf_def d numeral_2_eq_2)
  have e: "l_dev ?s = 1" "l_start ?s = 2" "l_block ?s = 50 # replicate 29 0" "bref 1 ?s = (\<lambda>b. if b = 50 then 1 else 0)"
      "bview 1 ?s = (\<lambda>b. if b = 50 then replicate BSIZE 7 else replicate BSIZE 0)" "blocked 1 ?s = {}" "disk ?s = (\<lambda>_. replicate BSIZE 0)"
    using sl by (auto simp: bref_def bview_def blocked_def d)
  have "(of_nat x :: 32 word) \<noteq> 47" if "x < 30" for x
    using word_of_nat_eq_iff [where 'a = 32, of x 47] that by (simp add: take_bit_eq_mod)
  then have reg: "50 \<notin> log_region 2"
    by (auto simp: log_region_def LOGBLOCKS_def MAXOPBLOCKS_def)
  have ok: "cache_ok 1 ?s" by (auto simp: cache_ok_def cur_ok_def d Let_def less_Suc_eq nth_Cons')
  have "{c. 0 < bref 1 ?s c} = {50}" by (auto simp: e)
  then have idle: "cache_idle 1 ?s" using ok by (simp add: cache_idle_def has_room_def e) (simp add: d)
  have h0: "hdr_n (replicate BSIZE 0) = 0" by (simp add: hdr_n_def get32_def sub_def BSIZE_def)
  let ?boot = "demo_log [bss_buf, bss_buf] ?D 0"
  have ready: "log_ready ?s" "0 < l_len ?s"
    using idle len reg h0 by (simp_all add: log_ready_def e LOGBLOCKS_def MAXOPBLOCKS_def)
  have boot: "2 \<le> length (commit_writes ?s)" "cache_empty (l_dev ?s) ?boot" "length (l_block ?boot) = LOGBLOCKS" "disk ?boot = ?D"
    by (simp_all add: commit_writes_def to_log_def to_home_def len e demo_log_defs LOGBLOCKS_def MAXOPBLOCKS_def)
      (auto simp: cache_empty_def cur_ok_def d)
  from commit_crash_safe [OF ready, where ?'b = unit] obtain t where t: "commit ?s = Ok () t" and
    all: "\<forall>k \<le> length (commit_writes ?s). \<forall>boot :: lstate. cache_empty (l_dev ?s) boot \<longrightarrow> length (l_block boot) = LOGBLOCKS \<longrightarrow>
       disk boot = upd_disk (take k (commit_writes ?s)) (disk ?s) \<longrightarrow>
       (\<exists>u. initlog (l_dev ?s) (l_start ?s) boot = Ok () u \<and> hdr_n (disk u (l_start ?s)) = 0 \<and>
         (\<forall>b. b \<notin> log_region (l_start ?s) \<longrightarrow> disk u b = (if k \<le> l_len ?s then disk ?s b else bview (l_dev ?s) ?s b)))" by blast
  obtain u where "initlog 1 2 ?boot = Ok () u" "\<And>b. b \<notin> log_region 2 \<Longrightarrow> disk u b = bview 1 ?s b"
    using all [rule_format, OF boot] len by (auto simp: e(1,2))
  then show ?thesis using t reg by (auto simp: e(5))
qed

lemma demo_begin:
  "log_reach (demo_log [demo_pinned, bss_buf] D 0\<lparr>l_outstanding := 1\<rparr>, [10])"
proof -
  have "log_reach (demo_log [demo_pinned, bss_buf] D 0, [])"
    by (rule log_reach.boot) (simp_all add: demo_log_defs LOGBLOCKS_def MAXOPBLOCKS_def)
  moreover have "begin_op (demo_log [demo_pinned, bss_buf] D 0) = Ok () (demo_log [demo_pinned, bss_buf] D 0\<lparr>l_outstanding := 1\<rparr>)"
    by (simp add: begin_op_def demo_log_defs MAXOPBLOCKS_def LOGBLOCKS_def)
  ultimately show ?thesis using log_reach.step log_step.begins unfolding MAXOPBLOCKS_def by blast
qed

theorem log_never_overflows_witness:
  "\<exists>t. log_write 0 (demo_log [demo_pinned, bss_buf] (\<lambda>_. []) 0\<lparr>l_outstanding := 1\<rparr>) = Ok () t"
  using log_never_overflows [OF demo_begin, of 0] by simp

theorem end_op_wakes_witness:
  "\<exists>t u. end_op (demo_log [demo_pinned, bss_buf] (\<lambda>_. []) 0\<lparr>l_outstanding := 1\<rparr>) = Ok () t \<and> begin_op t = Ok () u"
proof -
  have "\<exists>t. end_op (demo_log [demo_pinned, bss_buf] (\<lambda>_. []) 0\<lparr>l_outstanding := 1\<rparr>) = Ok () t"
    by (simp add: end_op_def commit_def demo_log_defs)
  then show ?thesis using end_op_wakes [OF demo_begin] by fastforce
qed

theorem commit_full_cache_witness:
  "commit (demo_log [demo_pinned, demo_pinned\<lparr>b_blockno := 51\<rparr>] (\<lambda>_. []) 1) = Panic ''bget: no buffers''"
  by (rule commit_full_cache) (auto simp: l_len_def demo_log_defs demo_pinned_def)

end
