(* ===== verification/Fs.thy ===== *)
theory Fs
  imports Klog Vm
begin

text \<open>
  The file system of \<open>kernel/fs.c\<close>: the block allocator, inodes, file contents, directories and
  path names.

  An inode pointer is an index into \<open>itable\<close>, the null pointer is \<open>None\<close>. Structures on disk are read
  and written inside the bytes of a buffer at their C offsets. A path is the list of its bytes
  before the NUL. Messages of \<open>printf\<close> are left out.
\<close>

section \<open>Layout\<close>

definition ROOTINO :: "32 word" where
  "ROOTINO = 1"

definition ROOTDEV :: "32 word" where
  "ROOTDEV = 1"

definition NINODE :: nat where
  "NINODE = 50"

definition FSMAGIC :: "32 word" where
  "FSMAGIC = 0x10203040"

definition NDIRECT :: nat where
  "NDIRECT = 12"

definition NINDIRECT :: nat where
  "NINDIRECT = BSIZE div 4"

definition MAXFILE :: nat where
  "MAXFILE = NDIRECT + NINDIRECT"

definition DIRSIZ :: nat where
  "DIRSIZ = 14"

definition T_DIR :: "16 word" where
  "T_DIR = 1"

definition T_FILE :: "16 word" where
  "T_FILE = 2"

definition T_DEVICE :: "16 word" where
  "T_DEVICE = 3"

record superblock =
  sb_magic :: "32 word"
  sb_size :: "32 word"
  sb_nblocks :: "32 word"
  sb_ninodes :: "32 word"
  sb_nlog :: "32 word"
  sb_logstart :: "32 word"
  sb_inodestart :: "32 word"
  sb_bmapstart :: "32 word"

record inode =
  i_dev :: "32 word"
  i_inum :: "32 word"
  i_ref :: "32 word"
  i_lock :: sleeplock
  i_valid :: bool
  i_type :: "16 word"
  i_major :: "16 word"
  i_minor :: "16 word"
  i_nlink :: "16 word"
  i_size :: "32 word"
  i_addrs :: "32 word list"

record fstate = lstate +
  sb :: superblock
  itable :: "inode list"

definition bss_inode :: inode where
  "bss_inode = \<lparr>i_dev = 0, i_inum = 0, i_ref = 0, i_lock = initsleeplock, i_valid = False, i_type = 0,
     i_major = 0, i_minor = 0, i_nlink = 0, i_size = 0, i_addrs = replicate (NDIRECT + 1) 0\<rparr>"

definition upd_inode :: "nat \<Rightarrow> (inode \<Rightarrow> inode) \<Rightarrow> 'a fstate_scheme \<Rightarrow> 'a fstate_scheme" where
  "upd_inode i f s = s\<lparr>itable := (itable s)[i := f (itable s ! i)]\<rparr>"

definition inode_at :: "nat \<Rightarrow> 'a fstate_scheme \<Rightarrow> inode" where
  "inode_at i s = itable s ! i"

text \<open>Inodes and bits per block, and the block that holds an inode or a bit.\<close>

definition DINODE :: nat where
  "DINODE = 64"

definition IPB :: nat where
  "IPB = BSIZE div DINODE"

definition IBLOCK :: "32 word \<Rightarrow> superblock \<Rightarrow> block" where
  "IBLOCK i b = i div of_nat IPB + sb_inodestart b"

definition BPB :: nat where
  "BPB = BSIZE * 8"

definition BBLOCK :: "32 word \<Rightarrow> superblock \<Rightarrow> block" where
  "BBLOCK b b' = b div of_nat BPB + sb_bmapstart b'"

section \<open>Superblock and blocks\<close>

definition get_sb :: "byte list \<Rightarrow> superblock" where
  "get_sb bs = \<lparr>sb_magic = get32 bs 0, sb_size = get32 bs 4, sb_nblocks = get32 bs 8, sb_ninodes = get32 bs 12,
     sb_nlog = get32 bs 16, sb_logstart = get32 bs 20, sb_inodestart = get32 bs 24, sb_bmapstart = get32 bs 28\<rparr>"

definition readsb :: "32 word \<Rightarrow> 'a fstate_scheme \<Rightarrow> ('a fstate_scheme, unit) res" where
  "readsb dev s = bindr (bread dev 1 s) (\<lambda>bp s. brelse bp (s\<lparr>sb := get_sb (bdata bp s)\<rparr>))"

definition bzero :: "32 word \<Rightarrow> 32 word \<Rightarrow> 'a fstate_scheme \<Rightarrow> ('a fstate_scheme, unit) res" where
  "bzero dev bno s = bindr (bread dev bno s) (\<lambda>bp s.
     bindr (log_write bp (set_bdata bp (replicate BSIZE 0) s)) (\<lambda>_ s. brelse bp s))"

text \<open>The mask \<open>1 << (bi % 8)\<close> of a block in its byte of the bitmap, and the search for a clear bit among
  the first \<open>n\<close> of a bitmap block.\<close>

definition bit_mask :: "nat \<Rightarrow> byte" where
  "bit_mask bi = push_bit (bi mod 8) 1"

definition free_bit :: "byte list \<Rightarrow> nat \<Rightarrow> nat option" where
  "free_bit bs n = find (\<lambda>bi. bs ! (bi div 8) AND bit_mask bi = 0) [0..<n]"

definition balloc :: "32 word \<Rightarrow> 'a fstate_scheme \<Rightarrow> ('a fstate_scheme, 32 word) res" where
  "balloc dev s =
     bindr (loopM (map (\<lambda>k. k * BPB) [0..<(unat (sb_size (sb s)) + BPB - 1) div BPB]) (\<lambda>b s.
       bindr (bread dev (BBLOCK (of_nat b) (sb s)) s) (\<lambda>bp s.
       case free_bit (bdata bp s) (min BPB (unat (sb_size (sb s)) - b)) of
         Some bi \<Rightarrow>
           let data = bdata bp s;
               s = set_bdata bp (data[bi div 8 := data ! (bi div 8) OR bit_mask bi]) s in
           bindr (log_write bp s) (\<lambda>_ s.
           bindr (brelse bp s) (\<lambda>_ s.
           bindr (bzero dev (of_nat (b + bi)) s) (\<lambda>_ s. Ok (Some (of_nat (b + bi))) s)))
       | None \<Rightarrow> bindr (brelse bp s) (\<lambda>_ s. Ok None s))) s)
     (\<lambda>r s. Ok (case r of Some b \<Rightarrow> b | None \<Rightarrow> 0) s)"

definition bfree :: "32 word \<Rightarrow> 32 word \<Rightarrow> 'a fstate_scheme \<Rightarrow> ('a fstate_scheme, unit) res" where
  "bfree dev b s = bindr (bread dev (BBLOCK b (sb s)) s) (\<lambda>bp s.
     let bi = unat b mod BPB;
         m = bit_mask bi;
         data = bdata bp s in
     if data ! (bi div 8) AND m = 0 then Panic ''freeing free block''
     else bindr (log_write bp (set_bdata bp (data[bi div 8 := data ! (bi div 8) AND NOT m]) s)) (\<lambda>_ s. brelse bp s))"

section \<open>Inodes\<close>

definition iinit :: "'a fstate_scheme \<Rightarrow> 'a fstate_scheme" where
  "iinit s = s\<lparr>itable := map (\<lambda>ip. ip\<lparr>i_lock := initsleeplock\<rparr>) (itable s)\<rparr>"

text \<open>\<open>struct dinode\<close> at an offset of a block.\<close>

definition dinode_off :: "32 word \<Rightarrow> nat" where
  "dinode_off inum = unat inum mod IPB * DINODE"

definition get_dinode :: "byte list \<Rightarrow> nat \<Rightarrow> inode \<Rightarrow> inode" where
  "get_dinode bs off ip = ip\<lparr>i_type := get16 bs off, i_major := get16 bs (off + 2), i_minor := get16 bs (off + 4),
     i_nlink := get16 bs (off + 6), i_size := get32 bs (off + 8),
     i_addrs := map (\<lambda>k. get32 bs (off + 12 + 4 * k)) [0..<NDIRECT + 1]\<rparr>"

definition put_dinode :: "inode \<Rightarrow> nat \<Rightarrow> byte list \<Rightarrow> byte list" where
  "put_dinode ip off bs =
     (let bs = put16 bs off (i_type ip);
          bs = put16 bs (off + 2) (i_major ip);
          bs = put16 bs (off + 4) (i_minor ip);
          bs = put16 bs (off + 6) (i_nlink ip);
          bs = put32 bs (off + 8) (i_size ip)
      in fold (\<lambda>k bs. put32 bs (off + 12 + 4 * k) (i_addrs ip ! k)) [0..<NDIRECT + 1] bs)"

definition iget :: "32 word \<Rightarrow> 32 word \<Rightarrow> 'a fstate_scheme \<Rightarrow> ('a fstate_scheme, nat) res" where
  "iget dev inum s =
     (case find_idx (\<lambda>ip. sint (i_ref ip) > 0 \<and> i_dev ip = dev \<and> i_inum ip = inum) (itable s) of
        Some i \<Rightarrow> Ok i (upd_inode i (\<lambda>ip. ip\<lparr>i_ref := i_ref ip + 1\<rparr>) s)
      | None \<Rightarrow>
         (case find_idx (\<lambda>ip. i_ref ip = 0) (itable s) of
            None \<Rightarrow> Panic ''iget: no inodes''
          | Some i \<Rightarrow> Ok i (upd_inode i (\<lambda>ip. ip\<lparr>i_dev := dev, i_inum := inum, i_ref := 1, i_valid := False\<rparr>) s)))"

definition ialloc :: "32 word \<Rightarrow> 16 word \<Rightarrow> 'a fstate_scheme \<Rightarrow> ('a fstate_scheme, nat option) res" where
  "ialloc dev type s = loopM [1..<unat (sb_ninodes (sb s))] (\<lambda>inum s.
     bindr (bread dev (IBLOCK (of_nat inum) (sb s)) s) (\<lambda>bp s.
     let off = dinode_off (of_nat inum) in
     if get16 (bdata bp s) off = 0
     then let s = set_bdata bp (patch (bdata bp s) off (replicate DINODE 0)) s;
              s = set_bdata bp (put16 (bdata bp s) off type) s in
          bindr (log_write bp s) (\<lambda>_ s.
          bindr (brelse bp s) (\<lambda>_ s.
          bindr (iget dev (of_nat inum) s) (\<lambda>ip s. Ok (Some ip) s)))
     else bindr (brelse bp s) (\<lambda>_ s. Ok None s))) s"

definition iupdate :: "nat \<Rightarrow> 'a fstate_scheme \<Rightarrow> ('a fstate_scheme, unit) res" where
  "iupdate i s = (let ip = inode_at i s in
     bindr (bread (i_dev ip) (IBLOCK (i_inum ip) (sb s)) s) (\<lambda>bp s.
     let s = set_bdata bp (put_dinode (inode_at i s) (dinode_off (i_inum ip)) (bdata bp s)) s in
     bindr (log_write bp s) (\<lambda>_ s. brelse bp s)))"

definition idup :: "nat \<Rightarrow> 'a fstate_scheme \<Rightarrow> nat \<times> 'a fstate_scheme" where
  "idup i s = (i, upd_inode i (\<lambda>ip. ip\<lparr>i_ref := i_ref ip + 1\<rparr>) s)"

definition ilock :: "nat option \<Rightarrow> 'a fstate_scheme \<Rightarrow> ('a fstate_scheme, unit) res" where
  "ilock p s =
     (if p = None \<or> sint (i_ref (inode_at (the p) s)) < 1 then Panic ''ilock''
      else let i = the p in
        bindr (acquiresleep (ChInodelock i) (i_lock (inode_at i s)) s) (\<lambda>lk s.
        let s = upd_inode i (\<lambda>ip. ip\<lparr>i_lock := lk\<rparr>) s;
            ip = inode_at i s in
        if \<not> i_valid ip
        then bindr (bread (i_dev ip) (IBLOCK (i_inum ip) (sb s)) s) (\<lambda>bp s.
             let s = upd_inode i (get_dinode (bdata bp s) (dinode_off (i_inum ip))) s in
             bindr (brelse bp s) (\<lambda>_ s.
             let s = upd_inode i (\<lambda>ip. ip\<lparr>i_valid := True\<rparr>) s in
             if i_type (inode_at i s) = 0 then Panic ''ilock: no type'' else Ok () s))
        else Ok () s))"

definition iunlock :: "nat option \<Rightarrow> 'a fstate_scheme \<Rightarrow> ('a fstate_scheme, unit) res" where
  "iunlock p s =
     (if p = None \<or> \<not> holdingsleep (i_lock (inode_at (the p) s)) s \<or> sint (i_ref (inode_at (the p) s)) < 1
      then Panic ''iunlock''
      else let i = the p;
               (lk, s) = releasesleep (ChInodelock i) (i_lock (inode_at i s)) s
           in Ok () (upd_inode i (\<lambda>ip. ip\<lparr>i_lock := lk\<rparr>) s))"

definition itrunc :: "nat \<Rightarrow> 'a fstate_scheme \<Rightarrow> ('a fstate_scheme, unit) res" where
  "itrunc i s =
     bindr (forM [0..<NDIRECT] (\<lambda>k s.
       if i_addrs (inode_at i s) ! k \<noteq> 0
       then bindr (bfree (i_dev (inode_at i s)) (i_addrs (inode_at i s) ! k) s) (\<lambda>_ s.
            Ok () (upd_inode i (\<lambda>ip. ip\<lparr>i_addrs := (i_addrs ip)[k := 0]\<rparr>) s))
       else Ok () s) s) (\<lambda>_ s.
     bindr
       (if i_addrs (inode_at i s) ! NDIRECT \<noteq> 0
        then bindr (bread (i_dev (inode_at i s)) (i_addrs (inode_at i s) ! NDIRECT) s) (\<lambda>bp s.
             bindr (forM [0..<NINDIRECT] (\<lambda>j s.
               if get32 (bdata bp s) (4 * j) \<noteq> 0 then bfree (i_dev (inode_at i s)) (get32 (bdata bp s) (4 * j)) s
               else Ok () s) s) (\<lambda>_ s.
             bindr (brelse bp s) (\<lambda>_ s.
             bindr (bfree (i_dev (inode_at i s)) (i_addrs (inode_at i s) ! NDIRECT) s) (\<lambda>_ s.
             Ok () (upd_inode i (\<lambda>ip. ip\<lparr>i_addrs := (i_addrs ip)[NDIRECT := 0]\<rparr>) s)))))
        else Ok () s) (\<lambda>_ s.
     iupdate i (upd_inode i (\<lambda>ip. ip\<lparr>i_size := 0\<rparr>) s)))"

definition iput :: "nat \<Rightarrow> 'a fstate_scheme \<Rightarrow> ('a fstate_scheme, unit) res" where
  "iput i s =
     bindr
       (if i_ref (inode_at i s) = 1 \<and> i_valid (inode_at i s) \<and> i_nlink (inode_at i s) = 0
        then bindr (acquiresleep (ChInodelock i) (i_lock (inode_at i s)) s) (\<lambda>lk s.
             bindr (itrunc i (upd_inode i (\<lambda>ip. ip\<lparr>i_lock := lk\<rparr>) s)) (\<lambda>_ s.
             bindr (iupdate i (upd_inode i (\<lambda>ip. ip\<lparr>i_type := 0\<rparr>) s)) (\<lambda>_ s.
             let s = upd_inode i (\<lambda>ip. ip\<lparr>i_valid := False\<rparr>) s;
                 (lk, s) = releasesleep (ChInodelock i) (i_lock (inode_at i s)) s
             in Ok () (upd_inode i (\<lambda>ip. ip\<lparr>i_lock := lk\<rparr>) s))))
        else Ok () s) (\<lambda>_ s.
     Ok () (upd_inode i (\<lambda>ip. ip\<lparr>i_ref := i_ref ip - 1\<rparr>) s))"

definition iunlockput :: "nat \<Rightarrow> 'a fstate_scheme \<Rightarrow> ('a fstate_scheme, unit) res" where
  "iunlockput i s = bindr (iunlock (Some i) s) (\<lambda>_ s. iput i s)"

definition ireclaim :: "32 word \<Rightarrow> 'a fstate_scheme \<Rightarrow> ('a fstate_scheme, unit) res" where
  "ireclaim dev s = forM [1..<unat (sb_ninodes (sb s))] (\<lambda>inum s.
     bindr (bread dev (IBLOCK (of_nat inum) (sb s)) s) (\<lambda>bp s.
     let off = dinode_off (of_nat inum) in
     bindr
       (if get16 (bdata bp s) off \<noteq> 0 \<and> get16 (bdata bp s) (off + 6) = 0
        then bindr (iget dev (of_nat inum) s) (\<lambda>ip s. Ok (Some ip) s)
        else Ok None s) (\<lambda>p s.
     bindr (brelse bp s) (\<lambda>_ s.
     case p of
       None \<Rightarrow> Ok () s
     | Some ip \<Rightarrow>
         bindr (begin_op s) (\<lambda>_ s.
         bindr (ilock (Some ip) s) (\<lambda>_ s.
         bindr (iunlock (Some ip) s) (\<lambda>_ s.
         bindr (iput ip s) (\<lambda>_ s. end_op s))))))) ) s"

definition fsinit :: "32 word \<Rightarrow> 'a fstate_scheme \<Rightarrow> ('a fstate_scheme, unit) res" where
  "fsinit dev s =
     bindr (readsb dev s) (\<lambda>_ s.
     if sb_magic (sb s) \<noteq> FSMAGIC then Panic ''invalid file system''
     else bindr (initlog dev (sb_logstart (sb s)) s) (\<lambda>_ s. ireclaim dev s))"

section \<open>File contents\<close>

definition bmap :: "nat \<Rightarrow> 32 word \<Rightarrow> 'a fstate_scheme \<Rightarrow> ('a fstate_scheme, 32 word) res" where
  "bmap i bn s =
     (if unat bn < NDIRECT
      then let addr = i_addrs (inode_at i s) ! unat bn in
           if addr = 0
           then bindr (balloc (i_dev (inode_at i s)) s) (\<lambda>addr s.
                if addr = 0 then Ok 0 s
                else Ok addr (upd_inode i (\<lambda>ip. ip\<lparr>i_addrs := (i_addrs ip)[unat bn := addr]\<rparr>) s))
           else Ok addr s
      else let bn = unat bn - NDIRECT in
        if bn < NINDIRECT
        then bindr
            (let addr = i_addrs (inode_at i s) ! NDIRECT in
             if addr = 0
             then bindr (balloc (i_dev (inode_at i s)) s) (\<lambda>addr s.
                  if addr = 0 then Ok 0 s
                  else Ok addr (upd_inode i (\<lambda>ip. ip\<lparr>i_addrs := (i_addrs ip)[NDIRECT := addr]\<rparr>) s))
             else Ok addr s) (\<lambda>addr s.
          if addr = 0 then Ok 0 s
          else bindr (bread (i_dev (inode_at i s)) addr s) (\<lambda>bp s.
               let addr = get32 (bdata bp s) (4 * bn) in
               bindr
                 (if addr = 0
                  then bindr (balloc (i_dev (inode_at i s)) s) (\<lambda>addr s.
                       if addr \<noteq> 0
                       then bindr (log_write bp (set_bdata bp (put32 (bdata bp s) (4 * bn) addr) s)) (\<lambda>_ s. Ok addr s)
                       else Ok addr s)
                  else Ok addr s) (\<lambda>addr s.
               bindr (brelse bp s) (\<lambda>_ s. Ok addr s))))
        else Panic ''bmap: out of range'')"

record stat =
  st_dev :: "32 word"
  st_ino :: "32 word"
  st_type :: "16 word"
  st_nlink :: "16 word"
  st_size :: "64 word"

definition stati :: "nat \<Rightarrow> 'a fstate_scheme \<Rightarrow> stat" where
  "stati i s = (let ip = inode_at i s in
     \<lparr>st_dev = i_dev ip, st_ino = i_inum ip, st_type = i_type ip, st_nlink = i_nlink ip, st_size = ucast (i_size ip)\<rparr>)"

text \<open>The number of bytes that one step of \<open>readi\<close> or \<open>writei\<close> moves.\<close>

definition chunk :: "32 word \<Rightarrow> 32 word \<Rightarrow> 32 word" where
  "chunk rest off = min rest (of_nat BSIZE - off mod of_nat BSIZE)"

lemma chunk_measure:
  assumes "tot < n"
  shows "unat (n - (tot + chunk (n - tot) off)) < unat (n - tot)"
proof -
  let ?r = "n - tot" and ?c = "chunk (n - tot) off"
  have r: "?r \<noteq> 0" using assms by auto
  have "off mod 1024 < 1024" by (simp add: word_mod_less_divisor)
  then have "1024 - off mod 1024 \<noteq> (0 :: 32 word)" by auto
  then have c: "?c \<noteq> 0" "?c \<le> ?r" using r by (auto simp: chunk_def BSIZE_def min_def)
  have e: "n - (tot + ?c) = ?r - ?c" by simp
  have "unat (?r - ?c) = unat ?r - unat ?c" using c(2) by (rule unat_sub)
  moreover have "0 < unat ?c" using c(1) by (simp add: unat_gt_0)
  moreover have "unat ?c \<le> unat ?r" using c(2) by (simp add: word_le_nat_alt)
  ultimately show ?thesis unfolding e by linarith
qed

text \<open>The value is what \<open>readi\<close> returns and, for a destination outside the modelled memory, the bytes.\<close>

function readi_from :: "nat \<Rightarrow> dest \<Rightarrow> 32 word \<Rightarrow> 32 word \<Rightarrow> 32 word \<Rightarrow> 'a fstate_scheme \<Rightarrow>
    ('a fstate_scheme, 32 word \<times> byte list) res" where
  "readi_from i dst tot off n s =
     (if tot < n
      then bindr (bmap i (off div of_nat BSIZE) s) (\<lambda>addr s.
        if addr = 0 then Ok (tot, []) s
        else bindr (bread (i_dev (inode_at i s)) addr s) (\<lambda>bp s.
          let m = chunk (n - tot) off;
              bs = sub (bdata bp s) (unat (off mod of_nat BSIZE)) (unat m) in
          bindr (either_copyout dst bs s) (\<lambda>r s.
            bindr (brelse bp s) (\<lambda>_ s.
              if r = -1 then Ok (-1, []) s
              else bindr (readi_from i (dst_add dst (unat m)) (tot + m) (off + m) n s) (\<lambda>(t, cs) s. Ok (t, bs @ cs) s)))))
      else Ok (tot, []) s)"
  by pat_completeness auto
termination
  by (relation "measure (\<lambda>(i, dst, tot, off, n, s). unat (n - tot))") (use chunk_measure in auto)

declare readi_from.simps [simp del]

definition readi :: "nat \<Rightarrow> dest \<Rightarrow> 32 word \<Rightarrow> 32 word \<Rightarrow> 'a fstate_scheme \<Rightarrow> ('a fstate_scheme, 32 word \<times> byte list) res" where
  "readi i dst off n s =
     (if off > i_size (inode_at i s) \<or> off + n < off then Ok (0, []) s
      else let n = (if off + n > i_size (inode_at i s) then i_size (inode_at i s) - off else n)
           in readi_from i dst 0 off n s)"

text \<open>\<open>copyin\<close> leaves in the buffer what it copied before it failed.\<close>

function writei_from :: "nat \<Rightarrow> source \<Rightarrow> 32 word \<Rightarrow> 32 word \<Rightarrow> 32 word \<Rightarrow> 'a fstate_scheme \<Rightarrow>
    ('a fstate_scheme, 32 word \<times> 32 word) res" where
  "writei_from i src tot off n s =
     (if tot < n
      then bindr (bmap i (off div of_nat BSIZE) s) (\<lambda>addr s.
        if addr = 0 then Ok (tot, off) s
        else bindr (bread (i_dev (inode_at i s)) addr s) (\<lambda>bp s.
          let m = chunk (n - tot) off in
          bindr (either_copyin src (unat m) s) (\<lambda>(r, bs) s.
            let s = set_bdata bp (patch (bdata bp s) (unat (off mod of_nat BSIZE)) bs) s in
            if r = -1 then bindr (brelse bp s) (\<lambda>_ s. Ok (tot, off) s)
            else bindr (log_write bp s) (\<lambda>_ s.
                 bindr (brelse bp s) (\<lambda>_ s.
                 writei_from i (src_add src (unat m)) (tot + m) (off + m) n s)))))
      else Ok (tot, off) s)"
  by pat_completeness auto
termination
  by (relation "measure (\<lambda>(i, src, tot, off, n, s). unat (n - tot))") (use chunk_measure in auto)

declare writei_from.simps [simp del]

definition writei :: "nat \<Rightarrow> source \<Rightarrow> 32 word \<Rightarrow> 32 word \<Rightarrow> 'a fstate_scheme \<Rightarrow> ('a fstate_scheme, 32 word) res" where
  "writei i src off n s =
     (if off > i_size (inode_at i s) \<or> off + n < off then Ok (-1) s
      else if off + n > of_nat (MAXFILE * BSIZE) then Ok (-1) s
      else bindr (writei_from i src 0 off n s) (\<lambda>(tot, off) s.
        let s = (if off > i_size (inode_at i s) then upd_inode i (\<lambda>ip. ip\<lparr>i_size := off\<rparr>) s else s) in
        bindr (iupdate i s) (\<lambda>_ s. Ok tot s)))"

section \<open>Directories\<close>

definition namecmp :: "byte list \<Rightarrow> byte list \<Rightarrow> int" where
  "namecmp s t = lstrncmp s t DIRSIZ"

text \<open>\<open>struct dirent\<close>: two bytes of inode number and the name.\<close>

definition DIRENT :: nat where
  "DIRENT = 16"

definition de_inum :: "byte list \<Rightarrow> 16 word" where
  "de_inum de = get16 de 0"

definition de_name :: "byte list \<Rightarrow> byte list" where
  "de_name de = sub de 2 DIRSIZ"

text \<open>The offsets of a loop over the entries of a directory of a given size.\<close>

definition dir_offs :: "32 word \<Rightarrow> 32 word list" where
  "dir_offs sz = map (\<lambda>k. of_nat (k * DIRENT)) [0..<(unat sz + DIRENT - 1) div DIRENT]"

definition dirlookup :: "nat \<Rightarrow> byte list \<Rightarrow> 'a fstate_scheme \<Rightarrow> ('a fstate_scheme, (nat \<times> 32 word) option) res" where
  "dirlookup dp name s =
     (if i_type (inode_at dp s) \<noteq> T_DIR then Panic ''dirlookup not DIR''
      else loopM (dir_offs (i_size (inode_at dp s))) (\<lambda>off s.
        bindr (readi dp ObjDst off (of_nat DIRENT) s) (\<lambda>(r, de) s.
        if r \<noteq> of_nat DIRENT then Panic ''dirlookup read''
        else if de_inum de = 0 then Ok None s
        else if namecmp name (de_name de) = 0
             then bindr (iget (i_dev (inode_at dp s)) (ucast (de_inum de)) s) (\<lambda>ip s. Ok (Some (ip, off)) s)
             else Ok None s)) s)"

definition dirlink :: "nat \<Rightarrow> byte list \<Rightarrow> 32 word \<Rightarrow> 'a fstate_scheme \<Rightarrow> ('a fstate_scheme, 32 word) res" where
  "dirlink dp name inum s =
     bindr (dirlookup dp name s) (\<lambda>r s.
     case r of
       Some (ip, _) \<Rightarrow> bindr (iput ip s) (\<lambda>_ s. Ok (-1) s)
     | None \<Rightarrow>
         bindr (loopM (dir_offs (i_size (inode_at dp s))) (\<lambda>off s.
           bindr (readi dp ObjDst off (of_nat DIRENT) s) (\<lambda>(r, de) s.
           if r \<noteq> of_nat DIRENT then Panic ''dirlink read''
           else if de_inum de = 0 then Ok (Some off) s else Ok None s)) s) (\<lambda>r s.
         let off = (case r of Some off \<Rightarrow> off | None \<Rightarrow> of_nat (length (dir_offs (i_size (inode_at dp s))) * DIRENT));
             de = word_le 2 (ucast inum :: 16 word) @ lstrncpy name DIRSIZ in
         bindr (writei dp (ObjSrc de) off (of_nat DIRENT) s) (\<lambda>r s.
         if r \<noteq> of_nat DIRENT then Ok (-1) s else Ok 0 s)))"

section \<open>Paths\<close>

abbreviation slash :: byte where
  "slash \<equiv> 47"

text \<open>The rest of the path and the element, with a NUL when it is shorter than \<open>DIRSIZ\<close>.\<close>

definition skipelem :: "byte list \<Rightarrow> (byte list \<times> byte list) option" where
  "skipelem path =
     (let path = dropWhile (\<lambda>c. c = slash) path in
      if path = [] then None
      else let elem = takeWhile (\<lambda>c. c \<noteq> slash) path;
               rest = dropWhile (\<lambda>c. c \<noteq> slash) path;
               name = (if length elem \<ge> DIRSIZ then take DIRSIZ elem else elem @ [0])
           in Some (dropWhile (\<lambda>c. c = slash) rest, name))"

lemma skipelem_shorter: "skipelem path = Some (rest, name) \<Longrightarrow> length rest < length path"
proof -
  assume a: "skipelem path = Some (rest, name)"
  let ?p = "dropWhile (\<lambda>c. c = slash) path"
  have ne: "?p \<noteq> []" using a by (auto simp: skipelem_def Let_def split: if_splits)
  have r: "rest = dropWhile (\<lambda>c. c = slash) (dropWhile (\<lambda>c. c \<noteq> slash) ?p)"
    using a ne by (auto simp: skipelem_def Let_def split: if_splits)
  have "hd ?p \<noteq> slash" using hd_dropWhile [OF ne] .
  then obtain c cs where p: "?p = c # cs" "c \<noteq> slash" using ne by (cases ?p) auto
  have "length rest \<le> length cs"
    unfolding r p(1) using p(2) by (simp add: order_trans [OF length_dropWhile_le length_dropWhile_le])
  also have "\<dots> < length ?p" by (simp add: p(1))
  also have "\<dots> \<le> length path" by (rule length_dropWhile_le)
  finally show ?thesis .
qed

function namex_from :: "nat \<Rightarrow> byte list \<Rightarrow> bool \<Rightarrow> byte list \<Rightarrow> 'a fstate_scheme \<Rightarrow>
    ('a fstate_scheme, (nat \<times> byte list) option) res" where
  "namex_from ip path nameiparent name s =
     (case skipelem path of
        None \<Rightarrow> if nameiparent then bindr (iput ip s) (\<lambda>_ s. Ok None s) else Ok (Some (ip, name)) s
      | Some (path, name) \<Rightarrow>
          bindr (ilock (Some ip) s) (\<lambda>_ s.
          if i_type (inode_at ip s) \<noteq> T_DIR then bindr (iunlockput ip s) (\<lambda>_ s. Ok None s)
          else if nameiparent \<and> path = [] then bindr (iunlock (Some ip) s) (\<lambda>_ s. Ok (Some (ip, name)) s)
          else bindr (dirlookup ip name s) (\<lambda>r s.
            case r of
              None \<Rightarrow> bindr (iunlockput ip s) (\<lambda>_ s. Ok None s)
            | Some (next, _) \<Rightarrow> bindr (iunlockput ip s) (\<lambda>_ s. namex_from next path nameiparent name s))))"
  by pat_completeness auto
termination
  by (relation "measure (\<lambda>(ip, path, np, name, s). length path)") (auto dest: skipelem_shorter)

declare namex_from.simps [simp del]

definition namex :: "byte list \<Rightarrow> bool \<Rightarrow> byte list \<Rightarrow> 'a fstate_scheme \<Rightarrow> ('a fstate_scheme, (nat \<times> byte list) option) res" where
  "namex path nameiparent name s =
     bindr
       (if path \<noteq> [] \<and> hd path = slash then iget ROOTDEV ROOTINO s
        else (let (ip, s) = idup (the (p_cwd (myproc s))) s in Ok ip s)) (\<lambda>ip s.
     namex_from ip path nameiparent name s)"

definition namei :: "byte list \<Rightarrow> 'a fstate_scheme \<Rightarrow> ('a fstate_scheme, nat option) res" where
  "namei path s = bindr (namex path False [] s) (\<lambda>r s. Ok (map_option fst r) s)"

definition nameiparent :: "byte list \<Rightarrow> 'a fstate_scheme \<Rightarrow> ('a fstate_scheme, (nat \<times> byte list) option) res" where
  "nameiparent path s = namex path True [] s"

end
