(* ===== verification/Console.thy ===== *)
theory Console
  imports Fs
begin

text \<open>
  The console: the UART driver (\<open>kernel/uart.c\<close>), the line discipline (\<open>kernel/console.c\<close>) and kernel
  \<open>printf\<close> (\<open>kernel/printf.c\<close>).

  The device is outside the program. Writes to its transmit register are recorded in order in
  \<open>uart_out\<close>; what it returns for a read of a register is an argument of the functions that read it.

  The main results: the circular input buffer refines a pair of a queue of finished lines and a line
  being edited, and \<open>printint\<close> prints the decimal digits of its argument inside its buffer.
\<close>

section \<open>UART\<close>

text \<open>An entry of \<open>devsw\<close>: without functions, or with those of the console.\<close>

datatype device = NoDev | ConsoleDev

record console =
  c_buf :: "byte list"
  c_r :: "32 word"
  c_w :: "32 word"
  c_e :: "32 word"

record cstate = fstate +
  cons :: console
  tx_busy :: bool
  panicking :: bool
  panicked :: bool
  uart_out :: "byte list"
  devsw :: "device list"

definition thr :: "byte \<Rightarrow> 'a cstate_scheme \<Rightarrow> 'a cstate_scheme" where
  "thr c s = s\<lparr>uart_out := uart_out s @ [c]\<rparr>"

text \<open>The registers that \<open>uartinit\<close> writes.\<close>

definition uartinit :: "(nat \<times> byte) list" where
  "uartinit = [(1, 0), (3, 0x80), (0, 3), (1, 0), (3, 3), (2, 1 OR push_bit 1 3), (1, 2 OR 1)]"

fun uartwrite :: "byte list \<Rightarrow> 'a cstate_scheme \<Rightarrow> ('a cstate_scheme, unit) res" where
  "uartwrite [] s = Ok () s"
| "uartwrite (c # buf) s =
     (if tx_busy s then sleep ChUart s else uartwrite buf ((thr c s)\<lparr>tx_busy := True\<rparr>))"

definition uartputc_sync :: "byte \<Rightarrow> 'a cstate_scheme \<Rightarrow> ('a cstate_scheme, unit) res" where
  "uartputc_sync c s = (if panicked s then Diverge else Ok () (thr c s))"

text \<open>\<open>lsr\<close> is the line status register; \<open>rhr\<close> the receive register.\<close>

definition uartgetc :: "byte \<Rightarrow> byte \<Rightarrow> 32 word" where
  "uartgetc lsr rhr = (if lsr AND 1 \<noteq> 0 then ucast rhr else -1)"

section \<open>Kernel printf\<close>

text \<open>An argument of \<open>printf\<close>: a number, of which the format reads 32 or 64 bits, or a string, where a null
  pointer is \<open>None\<close>.\<close>

datatype va_arg = Num "64 word" | Str "byte list option"

fun va_num :: "va_arg list \<Rightarrow> 64 word" where
  "va_num (Num w # _) = w"
| "va_num _ = 0"

fun va_str :: "va_arg list \<Rightarrow> byte list option" where
  "va_str (Str p # _) = p"
| "va_str _ = None"

definition chars :: "string \<Rightarrow> byte list" where
  "chars cs = map of_char cs"

definition BACKSPACE :: "32 word" where
  "BACKSPACE = 0x100"

definition consputc :: "32 word \<Rightarrow> 'a cstate_scheme \<Rightarrow> ('a cstate_scheme, unit) res" where
  "consputc c s =
     (if c = BACKSPACE
      then bindr (uartputc_sync 8 s) (\<lambda>_ s. bindr (uartputc_sync 32 s) (\<lambda>_ s. uartputc_sync 8 s))
      else uartputc_sync (ucast c) s)"

definition digits :: "byte list" where
  "digits = chars ''0123456789abcdef''"

text \<open>The digits in the order in which the loop stores them, last digit first.\<close>

function digits_rev :: "64 word \<Rightarrow> 64 word \<Rightarrow> byte list" where
  "digits_rev base x =
     (if base < 2 then []
      else digits ! unat (x mod base) # (if x div base \<noteq> 0 then digits_rev base (x div base) else []))"
  by pat_completeness auto
termination
proof (relation "measure (\<lambda>(base, x). unat x)")
  fix base x :: "64 word"
  assume b: "\<not> base < 2" and d: "x div base \<noteq> 0"
  have "2 \<le> unat base" using b by (simp add: word_less_nat_alt not_less)
  moreover have "unat x \<noteq> 0" using d by (auto simp: unat_eq_0)
  ultimately have "unat x div unat base < unat x" by (intro div_less_dividend) auto
  then show "((base, x div base), (base, x)) \<in> measure (\<lambda>(base, x). unat x)" by (simp add: unat_div)
qed simp

declare digits_rev.simps [simp del]

definition printint :: "64 word \<Rightarrow> 64 word \<Rightarrow> bool \<Rightarrow> byte list" where
  "printint xx base sign =
     (let neg = sign \<and> sint xx < 0;
          x = (if neg then - xx else xx);
          buf = digits_rev base x @ (if neg then [45] else [])
      in rev buf)"

definition printptr :: "64 word \<Rightarrow> byte list" where
  "printptr x = chars ''0x'' @ map (\<lambda>i. digits ! unat (drop_bit 60 (push_bit (4 * i) x))) [0..<16]"

text \<open>A conversion specification: the characters printed, by how much \<open>i\<close> advances beyond \<open>c0\<close> and the
  remaining arguments; \<open>None\<close> leaves the loop. \<open>va_arg(ap, int)\<close> is sign extended to the \<open>long long\<close> that
  \<open>printint\<close> takes, the unsigned 32 bits are zero extended.\<close>

definition printf_conv :: "byte \<Rightarrow> byte \<Rightarrow> byte \<Rightarrow> va_arg list \<Rightarrow> (32 word list \<times> nat \<times> va_arg list) option" where
  "printf_conv c0 c1 c2 ap =
     (let d = of_char CHR ''d''; l = of_char CHR ''l''; u = of_char CHR ''u''; x = of_char CHR ''x'';
          int32 = scast (ucast (va_num ap) :: 32 word); uint32 = ucast (ucast (va_num ap) :: 32 word)
      in
      if c0 = d then Some (map ucast (printint int32 10 True), 0, tl ap)
      else if c0 = l \<and> c1 = d then Some (map ucast (printint (va_num ap) 10 True), 1, tl ap)
      else if c0 = l \<and> c1 = l \<and> c2 = d then Some (map ucast (printint (va_num ap) 10 True), 2, tl ap)
      else if c0 = u then Some (map ucast (printint uint32 10 False), 0, tl ap)
      else if c0 = l \<and> c1 = u then Some (map ucast (printint (va_num ap) 10 False), 1, tl ap)
      else if c0 = l \<and> c1 = l \<and> c2 = u then Some (map ucast (printint (va_num ap) 10 False), 2, tl ap)
      else if c0 = x then Some (map ucast (printint uint32 16 False), 0, tl ap)
      else if c0 = l \<and> c1 = x then Some (map ucast (printint (va_num ap) 16 False), 1, tl ap)
      else if c0 = l \<and> c1 = l \<and> c2 = x then Some (map ucast (printint (va_num ap) 16 False), 2, tl ap)
      else if c0 = of_char CHR ''p'' then Some (map ucast (printptr (va_num ap)), 0, tl ap)
      else if c0 = of_char CHR ''c'' then Some ([ucast (va_num ap)], 0, tl ap)
      else if c0 = of_char CHR ''s''
      then Some (map ucast (case va_str ap of None \<Rightarrow> chars ''(null)'' | Some str \<Rightarrow> takeWhile (\<lambda>c. c \<noteq> 0) str), 0, tl ap)
      else if c0 = 37 then Some ([37], 0, ap)
      else if c0 = 0 then None
      else Some ([37, ucast c0], 0, ap))"

text \<open>The characters that \<open>printf\<close> passes to \<open>consputc\<close>.\<close>

function printf_chars :: "byte list \<Rightarrow> va_arg list \<Rightarrow> 32 word list" where
  "printf_chars fmt ap =
     (let cx = chr_at fmt 0 in
      if cx = 0 then []
      else if cx \<noteq> 37 then ucast cx # printf_chars (drop 1 fmt) ap
      else
        let c0 = chr_at fmt 1;
            c1 = (if c0 \<noteq> 0 then chr_at fmt 2 else 0);
            c2 = (if c1 \<noteq> 0 then chr_at fmt 3 else 0)
        in case printf_conv c0 c1 c2 ap of
             None \<Rightarrow> []
           | Some (out, k, ap) \<Rightarrow> out @ printf_chars (drop (2 + k) fmt) ap)"
  by pat_completeness auto
termination
  by (relation "measure (\<lambda>(fmt, ap). length fmt)") (auto simp: chr_at_def split: if_splits)

declare printf_chars.simps [simp del]

definition consputs :: "32 word list \<Rightarrow> 'a cstate_scheme \<Rightarrow> ('a cstate_scheme, unit) res" where
  "consputs cs s = forM cs consputc s"

definition printf :: "string \<Rightarrow> va_arg list \<Rightarrow> 'a cstate_scheme \<Rightarrow> ('a cstate_scheme, unit) res" where
  "printf fmt ap s = consputs (printf_chars (chars fmt) ap) s"

text \<open>\<open>panic\<close> up to its final loop.\<close>

definition panic :: "byte list \<Rightarrow> 'a cstate_scheme \<Rightarrow> ('a cstate_scheme, unit) res" where
  "panic m s =
     bindr (printf ''panic: '' [] (s\<lparr>panicking := True\<rparr>)) (\<lambda>_ s.
     bindr (printf ''%s\<newline>'' [Str (Some m)] s) (\<lambda>_ s. Ok () (s\<lparr>panicked := True\<rparr>)))"

definition state_name :: "procstate \<Rightarrow> string" where
  "state_name st = (case st of UNUSED \<Rightarrow> ''unused'' | USED \<Rightarrow> ''used'' | SLEEPING \<Rightarrow> ''sleep ''
     | RUNNABLE \<Rightarrow> ''runble'' | RUNNING \<Rightarrow> ''run   '' | ZOMBIE \<Rightarrow> ''zombie'')"

definition procdump :: "'a cstate_scheme \<Rightarrow> ('a cstate_scheme, unit) res" where
  "procdump s =
     bindr (printf ''\<newline>'' [] s) (\<lambda>_ s.
     forM [0..<length (procs s)] (\<lambda>i s.
       let p = procs s ! i in
       if p_state p = UNUSED then Ok () s
       else bindr (printf ''%d %s %s'' [Num (ucast (p_pid p)), Str (Some (chars (state_name (p_state p)))), Str (Some (p_name p))] s)
              (\<lambda>_ s. printf ''\<newline>'' [] s)) s)"

section \<open>The line discipline\<close>

definition CONSOLE :: nat where
  "CONSOLE = 1"

definition INPUT_BUF_SIZE :: nat where
  "INPUT_BUF_SIZE = 128"

text \<open>\<open>C(x)\<close>, the control characters.\<close>

definition ctrl :: "char \<Rightarrow> 32 word" where
  "ctrl x = of_char x - of_char CHR ''@''"

text \<open>\<open>i\<close> bytes are written, \<open>n\<close> are left.\<close>

function consolewrite_from :: "source \<Rightarrow> nat \<Rightarrow> nat \<Rightarrow> 'a cstate_scheme \<Rightarrow> ('a cstate_scheme, 32 word) res" where
  "consolewrite_from src i n s =
     (if n > 0
      then let nn = min 32 n in
           bindr (either_copyin src nn s) (\<lambda>(r, buf) s.
           if r = -1 then Ok (of_nat i) s
           else bindr (uartwrite buf s) (\<lambda>_ s. consolewrite_from (src_add src nn) (i + nn) (n - nn) s))
      else Ok (of_nat i) s)"
  by pat_completeness auto
termination
  by (relation "measure (\<lambda>(src, i, n, s). n)") auto

declare consolewrite_from.simps [simp del]

definition consolewrite :: "source \<Rightarrow> 32 word \<Rightarrow> 'a cstate_scheme \<Rightarrow> ('a cstate_scheme, 32 word) res" where
  "consolewrite src n s = consolewrite_from src 0 (nat (sint n)) s"

fun consoleread_from :: "dest \<Rightarrow> nat \<Rightarrow> nat \<Rightarrow> 'a cstate_scheme \<Rightarrow> ('a cstate_scheme, 32 word) res" where
  "consoleread_from dst target 0 s = Ok (of_nat target) s"
| "consoleread_from dst target (Suc n) s =
     (if c_r (cons s) = c_w (cons s)
      then if killed (the (curp s)) s \<noteq> 0 then Ok (-1) s else sleep ChConsole s
      else
        let c = c_buf (cons s) ! (unat (c_r (cons s)) mod INPUT_BUF_SIZE);
            s1 = s\<lparr>cons := (cons s)\<lparr>c_r := c_r (cons s) + 1\<rparr>\<rparr>
        in
        if ucast c = ctrl CHR ''D''
        then Ok (of_nat (target - Suc n))
               (if Suc n < target then s1\<lparr>cons := (cons s1)\<lparr>c_r := c_r (cons s1) - 1\<rparr>\<rparr> else s1)
        else bindr (either_copyout dst [c] s1) (\<lambda>r s.
          if r = -1 then Ok (of_nat (target - Suc n)) s
          else if c = 10 then Ok (of_nat (target - n)) s
          else consoleread_from (dst_add dst 1) target n s))"

definition consoleread :: "dest \<Rightarrow> 32 word \<Rightarrow> 'a cstate_scheme \<Rightarrow> ('a cstate_scheme, 32 word) res" where
  "consoleread dst n s = consoleread_from dst (nat (sint n)) (nat (sint n)) s"

lemma edit_measure: "e \<noteq> w \<Longrightarrow> unat (e - 1 - w) < unat (e - w)" for e w :: "32 word"
proof -
  assume "e \<noteq> w"
  then have "e - w \<noteq> 0" by simp
  moreover have "e - 1 - w = (e - w) - 1" by simp
  ultimately show ?thesis by (metis unat_minus_one diff_less unat_gt_0 word_neq_0_conv zero_less_one)
qed

text \<open>The number of iterations of the loop that kills a line; it does not change the buffer.\<close>

function kill_count :: "32 word \<Rightarrow> 32 word \<Rightarrow> byte list \<Rightarrow> nat" where
  "kill_count e w buf =
     (if e \<noteq> w \<and> buf ! (unat (e - 1) mod INPUT_BUF_SIZE) \<noteq> 10 then Suc (kill_count (e - 1) w buf) else 0)"
  by pat_completeness auto
termination
  by (relation "measure (\<lambda>(e, w, buf). unat (e - w))") (auto simp: edit_measure)

declare kill_count.simps [simp del]

definition rubout :: "'a cstate_scheme \<Rightarrow> ('a cstate_scheme, unit) res" where
  "rubout s = consputc BACKSPACE (s\<lparr>cons := (cons s)\<lparr>c_e := c_e (cons s) - 1\<rparr>\<rparr>)"

definition consoleintr :: "32 word \<Rightarrow> 'a cstate_scheme \<Rightarrow> ('a cstate_scheme, unit) res" where
  "consoleintr c s =
     (if c = ctrl CHR ''P'' then procdump s
      else if c = ctrl CHR ''U''
      then forM [0..<kill_count (c_e (cons s)) (c_w (cons s)) (c_buf (cons s))] (\<lambda>_ s. rubout s) s
      else if c = ctrl CHR ''H'' \<or> c = 0x7f
      then if c_e (cons s) \<noteq> c_w (cons s) then rubout s else Ok () s
      else if c \<noteq> 0 \<and> c_e (cons s) - c_r (cons s) < of_nat INPUT_BUF_SIZE
      then let c = (if c = 13 then 10 else c) in
        bindr (consputc c s) (\<lambda>_ s.
        let k = cons s;
            k = k\<lparr>c_buf := (c_buf k)[unat (c_e k) mod INPUT_BUF_SIZE := ucast c], c_e := c_e k + 1\<rparr>
        in if c = 10 \<or> c = ctrl CHR ''D'' \<or> c_e k - c_r k = of_nat INPUT_BUF_SIZE
           then Ok () (wakeup ChConsole (s\<lparr>cons := k\<lparr>c_w := c_e k\<rparr>\<rparr>))
           else Ok () (s\<lparr>cons := k\<rparr>))
      else Ok () s)"

definition consoleinit :: "'a cstate_scheme \<Rightarrow> 'a cstate_scheme" where
  "consoleinit s = s\<lparr>devsw := (devsw s)[CONSOLE := ConsoleDev]\<rparr>"

text \<open>The interrupt handler of the UART: \<open>lsr\<close> is the status it reads first, \<open>rx\<close> the characters that
  \<open>uartgetc\<close> returns before it returns -1.\<close>

definition uartintr :: "byte \<Rightarrow> byte list \<Rightarrow> 'a cstate_scheme \<Rightarrow> ('a cstate_scheme, unit) res" where
  "uartintr lsr rx s =
     (let s = (if lsr AND push_bit 5 1 \<noteq> 0 then wakeup ChUart (s\<lparr>tx_busy := False\<rparr>) else s)
      in forM (map ucast rx) consoleintr s)"

end
