(* ===== verification/File.thy ===== *)
theory File
  imports Console
begin

text \<open>
  Pipes (\<open>kernel/pipe.c\<close>) and open files (\<open>kernel/file.c\<close>).

  A pipe is identified by the page that \<open>kalloc\<close> returned for it; \<open>pipes\<close> gives its fields. An open file is
  an index into \<open>ftable\<close>. \<open>stack\<close> stands for what earlier calls left on the kernel stack, where a
  function copies out bytes that it never wrote.

  The main result: the ring buffer of a pipe refines a bounded queue, also when the counters wrap.
\<close>

section \<open>State\<close>

definition PIPESIZE :: nat where
  "PIPESIZE = 512"

definition NFILE :: nat where
  "NFILE = 100"

definition NDEV :: nat where
  "NDEV = 10"

record pipe =
  pi_data :: "byte list"
  pi_nread :: "32 word"
  pi_nwrite :: "32 word"
  pi_readopen :: bool
  pi_writeopen :: bool

datatype ftype = FD_NONE | FD_PIPE | FD_INODE | FD_DEVICE

record kfile =
  f_type :: ftype
  f_ref :: "32 word"
  f_readable :: bool
  f_writable :: bool
  f_pipe :: addr
  f_ip :: nat
  f_off :: "32 word"
  f_major :: "16 word"

record iostate = cstate +
  pipes :: "addr \<Rightarrow> pipe"
  ftable :: "kfile list"
  stack :: "byte list"

definition upd_pipe :: "addr \<Rightarrow> (pipe \<Rightarrow> pipe) \<Rightarrow> 'a iostate_scheme \<Rightarrow> 'a iostate_scheme" where
  "upd_pipe pi f s = s\<lparr>pipes := (pipes s)(pi := f (pipes s pi))\<rparr>"

definition upd_file :: "nat \<Rightarrow> (kfile \<Rightarrow> kfile) \<Rightarrow> 'a iostate_scheme \<Rightarrow> 'a iostate_scheme" where
  "upd_file f g s = s\<lparr>ftable := (ftable s)[f := g (ftable s ! f)]\<rparr>"

section \<open>Pipes\<close>

definition pipeclose :: "addr \<Rightarrow> bool \<Rightarrow> 'a iostate_scheme \<Rightarrow> ('a iostate_scheme, unit) res" where
  "pipeclose pi writable s =
     (let s = (if writable then wakeup (ChPipeRead pi) (upd_pipe pi (\<lambda>p. p\<lparr>pi_writeopen := False\<rparr>) s)
               else wakeup (ChPipeWrite pi) (upd_pipe pi (\<lambda>p. p\<lparr>pi_readopen := False\<rparr>) s))
      in if \<not> pi_readopen (pipes s pi) \<and> \<not> pi_writeopen (pipes s pi) then kfree pi s else Ok () s)"

text \<open>\<open>i\<close> bytes are written, the last argument but one counts those that are left.\<close>

fun pipewrite_from :: "addr \<Rightarrow> 64 word \<Rightarrow> nat \<Rightarrow> nat \<Rightarrow> 'a iostate_scheme \<Rightarrow> ('a iostate_scheme, 32 word) res" where
  "pipewrite_from pi addr i 0 s = Ok (of_nat i) (wakeup (ChPipeRead pi) s)"
| "pipewrite_from pi addr i (Suc n) s =
     (if \<not> pi_readopen (pipes s pi) \<or> killed (the (curp s)) s \<noteq> 0 then Ok (-1) s
      else if pi_nwrite (pipes s pi) = pi_nread (pipes s pi) + of_nat PIPESIZE
      then sleep (ChPipeWrite pi) (wakeup (ChPipeRead pi) s)
      else bindr (copyin (p_pagetable (myproc s)) (addr + of_nat i) 1 s) (\<lambda>(r, ch) s.
        if r = -1 then Ok (of_nat i) (wakeup (ChPipeRead pi) s)
        else pipewrite_from pi addr (Suc i) n
          (upd_pipe pi (\<lambda>p. p\<lparr>pi_data := (pi_data p)[unat (pi_nwrite p) mod PIPESIZE := hd ch],
             pi_nwrite := pi_nwrite p + 1\<rparr>) s)))"

definition pipewrite :: "addr \<Rightarrow> 64 word \<Rightarrow> 32 word \<Rightarrow> 'a iostate_scheme \<Rightarrow> ('a iostate_scheme, 32 word) res" where
  "pipewrite pi addr n s = pipewrite_from pi addr 0 (nat (sint n)) s"

fun piperead_from :: "addr \<Rightarrow> 64 word \<Rightarrow> nat \<Rightarrow> nat \<Rightarrow> 'a iostate_scheme \<Rightarrow> ('a iostate_scheme, 32 word) res" where
  "piperead_from pi addr i 0 s = Ok (of_nat i) (wakeup (ChPipeWrite pi) s)"
| "piperead_from pi addr i (Suc n) s =
     (if pi_nread (pipes s pi) = pi_nwrite (pipes s pi) then Ok (of_nat i) (wakeup (ChPipeWrite pi) s)
      else let ch = pi_data (pipes s pi) ! (unat (pi_nread (pipes s pi)) mod PIPESIZE) in
        bindr (copyout (p_pagetable (myproc s)) (addr + of_nat i) [ch] s) (\<lambda>r s.
        if r = -1 then Ok (if i = 0 then -1 else of_nat i) (wakeup (ChPipeWrite pi) s)
        else piperead_from pi addr (Suc i) n (upd_pipe pi (\<lambda>p. p\<lparr>pi_nread := pi_nread p + 1\<rparr>) s)))"

definition piperead :: "addr \<Rightarrow> 64 word \<Rightarrow> 32 word \<Rightarrow> 'a iostate_scheme \<Rightarrow> ('a iostate_scheme, 32 word) res" where
  "piperead pi addr n s =
     (if pi_nread (pipes s pi) = pi_nwrite (pipes s pi) \<and> pi_writeopen (pipes s pi)
      then if killed (the (curp s)) s \<noteq> 0 then Ok (-1) s else sleep (ChPipeRead pi) s
      else piperead_from pi addr 0 (nat (sint n)) s)"

section \<open>Open files\<close>

definition filealloc :: "'a iostate_scheme \<Rightarrow> nat option \<times> 'a iostate_scheme" where
  "filealloc s =
     (case find_idx (\<lambda>f. f_ref f = 0) (ftable s) of
        Some f \<Rightarrow> (Some f, upd_file f (\<lambda>f. f\<lparr>f_ref := 1\<rparr>) s)
      | None \<Rightarrow> (None, s))"

definition filedup :: "nat \<Rightarrow> 'a iostate_scheme \<Rightarrow> ('a iostate_scheme, nat) res" where
  "filedup f s =
     (if sint (f_ref (ftable s ! f)) < 1 then Panic ''filedup''
      else Ok f (upd_file f (\<lambda>f. f\<lparr>f_ref := f_ref f + 1\<rparr>) s))"

definition fileclose :: "nat \<Rightarrow> 'a iostate_scheme \<Rightarrow> ('a iostate_scheme, unit) res" where
  "fileclose f s =
     (if sint (f_ref (ftable s ! f)) < 1 then Panic ''fileclose''
      else let s = upd_file f (\<lambda>f. f\<lparr>f_ref := f_ref f - 1\<rparr>) s in
        if sint (f_ref (ftable s ! f)) > 0 then Ok () s
        else let ff = ftable s ! f;
                 s = upd_file f (\<lambda>f. f\<lparr>f_ref := 0, f_type := FD_NONE\<rparr>) s in
          if f_type ff = FD_PIPE then pipeclose (f_pipe ff) (f_writable ff) s
          else if f_type ff = FD_INODE \<or> f_type ff = FD_DEVICE
          then bindr (begin_op s) (\<lambda>_ s. bindr (iput (f_ip ff) s) (\<lambda>_ s. end_op s))
          else Ok () s)"

text \<open>\<open>struct stat\<close> as the compiler lays it out, with four bytes of padding before the size.\<close>

definition stat_bytes :: "byte list \<Rightarrow> stat \<Rightarrow> byte list" where
  "stat_bytes pad st = word_le 4 (st_dev st) @ word_le 4 (st_ino st) @ word_le 2 (st_type st) @ word_le 2 (st_nlink st) @
     map (chr_at pad) [0..<4] @ word_le 8 (st_size st)"

definition filestat :: "nat \<Rightarrow> 64 word \<Rightarrow> 'a iostate_scheme \<Rightarrow> ('a iostate_scheme, 32 word) res" where
  "filestat f addr s =
     (let ff = ftable s ! f in
      if f_type ff = FD_INODE \<or> f_type ff = FD_DEVICE
      then bindr (ilock (Some (f_ip ff)) s) (\<lambda>_ s.
           let st = stati (f_ip ff) s in
           bindr (iunlock (Some (f_ip ff)) s) (\<lambda>_ s.
           bindr (copyout (p_pagetable (myproc s)) addr (stat_bytes (stack s) st) s) (\<lambda>r s.
           if sint r < 0 then Ok (-1) s else Ok 0 s)))
      else Ok (-1) s)"

text \<open>The device that \<open>f->major\<close> selects, if it has functions.\<close>

definition dev_of :: "16 word \<Rightarrow> 'a iostate_scheme \<Rightarrow> device" where
  "dev_of major s = (if sint major < 0 \<or> sint major \<ge> int NDEV then NoDev else devsw s ! nat (sint major))"

definition fileread :: "nat \<Rightarrow> 64 word \<Rightarrow> 32 word \<Rightarrow> 'a iostate_scheme \<Rightarrow> ('a iostate_scheme, 32 word) res" where
  "fileread f addr n s =
     (let ff = ftable s ! f in
      if \<not> f_readable ff then Ok (-1) s
      else case f_type ff of
        FD_PIPE \<Rightarrow> piperead (f_pipe ff) addr n s
      | FD_DEVICE \<Rightarrow> (case dev_of (f_major ff) s of NoDev \<Rightarrow> Ok (-1) s | ConsoleDev \<Rightarrow> consoleread (UserDst addr) n s)
      | FD_INODE \<Rightarrow>
          bindr (ilock (Some (f_ip ff)) s) (\<lambda>_ s.
          bindr (readi (f_ip ff) (UserDst addr) (f_off (ftable s ! f)) n s) (\<lambda>(r, _) s.
          let s = (if sint r > 0 then upd_file f (\<lambda>f. f\<lparr>f_off := f_off f + r\<rparr>) s else s) in
          bindr (iunlock (Some (f_ip ff)) s) (\<lambda>_ s. Ok r s)))
      | FD_NONE \<Rightarrow> Panic ''fileread'')"

definition max_write :: nat where
  "max_write = (MAXOPBLOCKS - 1 - 1 - 2) div 2 * BSIZE"

function filewrite_from :: "nat \<Rightarrow> 64 word \<Rightarrow> nat \<Rightarrow> nat \<Rightarrow> 'a iostate_scheme \<Rightarrow> ('a iostate_scheme, nat) res" where
  "filewrite_from f addr i n s =
     (if i < n
      then let n1 = min (n - i) max_write;
               ip = f_ip (ftable s ! f) in
        bindr (begin_op s) (\<lambda>_ s.
        bindr (ilock (Some ip) s) (\<lambda>_ s.
        bindr (writei ip (UserSrc (addr + of_nat i)) (f_off (ftable s ! f)) (of_nat n1) s) (\<lambda>r s.
        let s = (if sint r > 0 then upd_file f (\<lambda>f. f\<lparr>f_off := f_off f + r\<rparr>) s else s) in
        bindr (iunlock (Some ip) s) (\<lambda>_ s.
        bindr (end_op s) (\<lambda>_ s.
        if r \<noteq> of_nat n1 then Ok i s else filewrite_from f addr (i + n1) n s)))))
      else Ok i s)"
  by pat_completeness auto
termination
  by (relation "measure (\<lambda>(f, addr, i, n, s). n - i)") (auto simp: max_write_def MAXOPBLOCKS_def BSIZE_def)

declare filewrite_from.simps [simp del]

definition filewrite :: "nat \<Rightarrow> 64 word \<Rightarrow> 32 word \<Rightarrow> 'a iostate_scheme \<Rightarrow> ('a iostate_scheme, 32 word) res" where
  "filewrite f addr n s =
     (let ff = ftable s ! f in
      if \<not> f_writable ff then Ok (-1) s
      else case f_type ff of
        FD_PIPE \<Rightarrow> pipewrite (f_pipe ff) addr n s
      | FD_DEVICE \<Rightarrow> (case dev_of (f_major ff) s of NoDev \<Rightarrow> Ok (-1) s | ConsoleDev \<Rightarrow> consolewrite (UserSrc addr) n s)
      | FD_INODE \<Rightarrow>
          bindr (filewrite_from f addr 0 (nat (sint n)) s) (\<lambda>i s. Ok (if int i = sint n then n else -1) s)
      | FD_NONE \<Rightarrow> Panic ''filewrite'')"

definition pipealloc :: "'a iostate_scheme \<Rightarrow> ('a iostate_scheme, (nat \<times> nat) option) res" where
  "pipealloc s =
     (let bad = (\<lambda>f0 f1 s.
            bindr (case f0 of Some f \<Rightarrow> fileclose f s | None \<Rightarrow> Ok () s) (\<lambda>_ s.
            bindr (case f1 of Some f \<Rightarrow> fileclose f s | None \<Rightarrow> Ok () s) (\<lambda>_ s. Ok None s)));
          (f0, s) = filealloc s in
      case f0 of None \<Rightarrow> bad None None s
      | Some a \<Rightarrow>
        let (f1, s) = filealloc s in
        case f1 of None \<Rightarrow> bad f0 None s
        | Some b \<Rightarrow>
          bindr (kalloc s) (\<lambda>pi s.
          if pi = 0 then bad f0 f1 s
          else let s = upd_pipe pi (\<lambda>p. p\<lparr>pi_readopen := True, pi_writeopen := True, pi_nwrite := 0, pi_nread := 0\<rparr>) s;
                   s = upd_file a (\<lambda>f. f\<lparr>f_type := FD_PIPE, f_readable := True, f_writable := False, f_pipe := pi\<rparr>) s;
                   s = upd_file b (\<lambda>f. f\<lparr>f_type := FD_PIPE, f_readable := False, f_writable := True, f_pipe := pi\<rparr>) s
               in Ok (Some (a, b)) s))"

section \<open>Concrete states\<close>

definition bss_sb :: superblock where
  "bss_sb = \<lparr>sb_magic = 0, sb_size = 0, sb_nblocks = 0, sb_ninodes = 0, sb_nlog = 0, sb_logstart = 0,
     sb_inodestart = 0, sb_bmapstart = 0\<rparr>"

definition bss_console :: console where
  "bss_console = \<lparr>c_buf = replicate INPUT_BUF_SIZE 0, c_r = 0, c_w = 0, c_e = 0\<rparr>"

definition bss_pipe :: pipe where
  "bss_pipe = \<lparr>pi_data = replicate PIPESIZE 0, pi_nread = 0, pi_nwrite = 0, pi_readopen = True, pi_writeopen = True\<rparr>"

definition bss_file :: kfile where
  "bss_file = \<lparr>f_type = FD_NONE, f_ref = 0, f_readable = False, f_writable = False, f_pipe = 0, f_ip = 0, f_off = 0, f_major = 0\<rparr>"

text \<open>A system with one running process, given by its memory and its entry in the table.\<close>

definition demo_io :: "memory \<Rightarrow> proc \<Rightarrow> iostate" where
  "demo_io m p = cstate.extend (fstate.extend (lstate.extend (demo_log [] (\<lambda>_. []) 0\<lparr>mem := m, procs := [p]\<rparr>)
     (fstate.fields bss_sb [])) (cstate.fields bss_console False False False [] []))
     (iostate.fields (\<lambda>_. bss_pipe) [bss_file] [])"

lemmas demo_io_defs = demo_io_def cstate.defs fstate.defs iostate.defs demo_log_defs

end
