(* ===== verification/Proclife.thy ===== *)
theory Proclife
  imports File
begin

text \<open>
  The life of a process (\<open>kernel/proc.c\<close>): allocation, \<open>fork\<close>, \<open>exit\<close> and \<open>wait\<close>, and the system calls that
  report on the process table.

  A trap frame is in the page that \<open>p_trapframe\<close> names, at the offsets of \<open>struct trapframe\<close>.
\<close>

section \<open>Trap frames\<close>

definition tf_epc :: "64 word" where "tf_epc = 24"
definition tf_sp :: "64 word" where "tf_sp = 48"
definition tf_a0 :: "64 word" where "tf_a0 = 112"
definition tf_a1 :: "64 word" where "tf_a1 = 120"
definition tf_a7 :: "64 word" where "tf_a7 = 168"

definition TRAPFRAME_BYTES :: nat where
  "TRAPFRAME_BYTES = 288"

definition tf_get :: "nat \<Rightarrow> 64 word \<Rightarrow> 'a pstate_scheme \<Rightarrow> 64 word" where
  "tf_get i off s = load64 (mem s) (p_trapframe (procs s ! i) + off)"

definition tf_set :: "nat \<Rightarrow> 64 word \<Rightarrow> 64 word \<Rightarrow> 'a pstate_scheme \<Rightarrow> 'a pstate_scheme" where
  "tf_set i off w s = s\<lparr>mem := store64 (mem s) (p_trapframe (procs s ! i) + off) w\<rparr>"

section \<open>Allocation\<close>

definition freeproc :: "nat \<Rightarrow> 'a pstate_scheme \<Rightarrow> ('a pstate_scheme, unit) res" where
  "freeproc i s =
     bindr (if p_trapframe (procs s ! i) \<noteq> 0 then kfree (p_trapframe (procs s ! i)) s else Ok () s) (\<lambda>_ s.
     let s = upd_proc i (\<lambda>p. p\<lparr>p_trapframe := 0\<rparr>) s in
     bindr (if p_pagetable (procs s ! i) \<noteq> 0
            then proc_freepagetable (p_pagetable (procs s ! i)) (p_sz (procs s ! i)) s else Ok () s) (\<lambda>_ s.
     Ok () (upd_proc i (\<lambda>p. p\<lparr>p_pagetable := 0, p_sz := 0, p_pid := 0, p_parent := None,
       p_name := (p_name p)[0 := 0], p_chan := ChNull, p_killed := 0, p_xstate := 0, p_state := UNUSED\<rparr>) s)))"

definition allocproc :: "'a pstate_scheme \<Rightarrow> ('a pstate_scheme, nat option) res" where
  "allocproc s =
     (case find_idx (\<lambda>p. p_state p = UNUSED) (procs s) of
        None \<Rightarrow> Ok None s
      | Some i \<Rightarrow>
          let (pid, s) = allocpid s;
              s = upd_proc i (\<lambda>p. p\<lparr>p_pid := pid, p_priority := 10, p_runs := 0, p_state := USED\<rparr>) s in
          bindr (kalloc s) (\<lambda>tf s.
          let s = upd_proc i (\<lambda>p. p\<lparr>p_trapframe := tf\<rparr>) s in
          if tf = 0 then bindr (freeproc i s) (\<lambda>_ s. Ok None s)
          else bindr (proc_pagetable i s) (\<lambda>pt s.
            let s = upd_proc i (\<lambda>p. p\<lparr>p_pagetable := pt\<rparr>) s in
            if pt = 0 then bindr (freeproc i s) (\<lambda>_ s. Ok None s)
            else Ok (Some i) (upd_proc i (\<lambda>p. p\<lparr>p_context :=
                   zero_context\<lparr>cx_ra := forkret_pc (ksym s), cx_sp := p_kstack p + PGSIZE\<rparr>\<rparr>) s))))"

text \<open>The C code does not test the result of \<open>allocproc\<close> here; with an empty table it succeeds.\<close>

definition userinit :: "'a fstate_scheme \<Rightarrow> ('a fstate_scheme, unit) res" where
  "userinit s =
     bindr (allocproc s) (\<lambda>r s.
     case r of
       None \<Rightarrow> Panic ''kerneltrap''
     | Some i \<Rightarrow>
         let s = s\<lparr>initproc := Some i\<rparr> in
         bindr (namei [slash] s) (\<lambda>cwd s.
         Ok () (upd_proc i (\<lambda>p. p\<lparr>p_cwd := cwd, p_state := RUNNABLE\<rparr>) s)))"

section \<open>Fork, exit and wait\<close>

definition kfork :: "'a iostate_scheme \<Rightarrow> ('a iostate_scheme, 32 word) res" where
  "kfork s =
     (let me = the (curp s) in
      bindr (allocproc s) (\<lambda>r s.
      case r of
        None \<Rightarrow> Ok (-1) s
      | Some np \<Rightarrow>
        bindr (uvmcopy (p_pagetable (procs s ! me)) (p_pagetable (procs s ! np)) (p_sz (procs s ! me)) s) (\<lambda>r s.
        if sint r < 0 then bindr (freeproc np s) (\<lambda>_ s. Ok (-1) s)
        else
          let s = upd_proc np (\<lambda>p. p\<lparr>p_sz := p_sz (procs s ! me)\<rparr>) s;
              s = s\<lparr>mem := wr (mem s) (p_trapframe (procs s ! np)) (rd (mem s) (p_trapframe (procs s ! me)) TRAPFRAME_BYTES)\<rparr>;
              s = tf_set np tf_a0 0 s in
          bindr (forM [0..<NOFILE] (\<lambda>k s.
            case p_ofile (procs s ! me) ! k of
              None \<Rightarrow> Ok () s
            | Some f \<Rightarrow> bindr (filedup f s) (\<lambda>f s. Ok () (upd_proc np (\<lambda>p. p\<lparr>p_ofile := (p_ofile p)[k := Some f]\<rparr>) s))) s)
          (\<lambda>_ s.
          let (cwd, s) = idup (the (p_cwd (procs s ! me))) s;
              s = upd_proc np (\<lambda>p. p\<lparr>p_cwd := Some cwd, p_name := lsafestrcpy (p_name p) (p_name (procs s ! me)) 16\<rparr>) s;
              pid = p_pid (procs s ! np);
              s = upd_proc np (\<lambda>p. p\<lparr>p_parent := Some me\<rparr>) s;
              s = upd_proc np (\<lambda>p. p\<lparr>p_state := RUNNABLE\<rparr>) s
          in Ok pid s))))"

text \<open>\<open>kexit\<close> up to its call of \<open>sched\<close>, which does not return.\<close>

definition kexit :: "32 word \<Rightarrow> 'a iostate_scheme \<Rightarrow> ('a iostate_scheme, unit) res" where
  "kexit status s =
     (let me = the (curp s) in
      if curp s = initproc s then Panic ''init exiting''
      else
        bindr (forM [0..<NOFILE] (\<lambda>fd s.
          case p_ofile (procs s ! me) ! fd of
            None \<Rightarrow> Ok () s
          | Some f \<Rightarrow> bindr (fileclose f s) (\<lambda>_ s. Ok () (upd_proc me (\<lambda>p. p\<lparr>p_ofile := (p_ofile p)[fd := None]\<rparr>) s))) s) (\<lambda>_ s.
        bindr (begin_op s) (\<lambda>_ s.
        bindr (iput (the (p_cwd (procs s ! me))) s) (\<lambda>_ s.
        bindr (end_op s) (\<lambda>_ s.
        let s = upd_proc me (\<lambda>p. p\<lparr>p_cwd := None\<rparr>) s;
            s = reparent me s;
            s = (case p_parent (procs s ! me) of Some pp \<Rightarrow> wakeup (ChProc pp) s | None \<Rightarrow> wakeup ChNull s)
        in Ok () (upd_proc me (\<lambda>p. p\<lparr>p_xstate := status, p_state := ZOMBIE\<rparr>) s))))))"

text \<open>One pass of \<open>kwait\<close> over the table: the value it returns, or whether it saw a child.\<close>

definition kwait_scan :: "64 word \<Rightarrow> 'a pstate_scheme \<Rightarrow> ('a pstate_scheme, 32 word option) res" where
  "kwait_scan addr s =
     (let me = the (curp s) in
      loopM [0..<length (procs s)] (\<lambda>k s.
        let pp = procs s ! k in
        if p_parent pp = Some me \<and> p_state pp = ZOMBIE
        then bindr (if addr \<noteq> 0 then copyout (p_pagetable (procs s ! me)) addr (word_le 4 (p_xstate pp)) s else Ok 0 s) (\<lambda>r s.
             if sint r < 0 then Ok (Some (-1)) s
             else bindr (freeproc k s) (\<lambda>_ s. Ok (Some (p_pid pp)) s))
        else Ok None s) s)"

definition kwait :: "64 word \<Rightarrow> 'a pstate_scheme \<Rightarrow> ('a pstate_scheme, 32 word) res" where
  "kwait addr s =
     bindr (kwait_scan addr s) (\<lambda>r s.
     case r of
       Some v \<Rightarrow> Ok v s
     | None \<Rightarrow>
         let me = the (curp s);
             havekids = (\<exists>pp \<in> set (procs s). p_parent pp = Some me) in
         if \<not> havekids \<or> killed me s \<noteq> 0 then Ok (-1) s else sleep (ChProc me) s)"

section \<open>Reports on the process table\<close>

definition state_num :: "procstate \<Rightarrow> 32 word" where
  "state_num st = (case st of UNUSED \<Rightarrow> 0 | USED \<Rightarrow> 1 | SLEEPING \<Rightarrow> 2 | RUNNABLE \<Rightarrow> 3 | RUNNING \<Rightarrow> 4 | ZOMBIE \<Rightarrow> 5)"

text \<open>\<open>struct proc_info\<close> and \<open>struct pstat\<close> as they lie on the kernel stack; \<open>safestrcpy\<close> writes only the name
  and its NUL, so the rest of a name keeps what was there.\<close>

definition proc_info_bytes :: "byte list \<Rightarrow> proc \<Rightarrow> byte list" where
  "proc_info_bytes old p = word_le 4 (p_pid p) @ word_le 4 (state_num (p_state p)) @ word_le 8 (p_sz p) @
     lsafestrcpy (sub old 16 16) (p_name p) 16"

fun runnable_from :: "nat list \<Rightarrow> byte list \<Rightarrow> 64 word \<Rightarrow> nat \<Rightarrow> 'a pstate_scheme \<Rightarrow> ('a pstate_scheme, 32 word) res" where
  "runnable_from [] info dst count s = Ok (of_nat count) s"
| "runnable_from (k # ks) info dst count s =
     (if p_state (procs s ! k) = RUNNABLE
      then let info = proc_info_bytes info (procs s ! k) in
        bindr (copyout (p_pagetable (myproc s)) dst info s) (\<lambda>r s.
        if sint r < 0 then Ok (-1) s else runnable_from ks info (dst + of_nat 32) (Suc count) s)
      else runnable_from ks info dst count s)"

definition get_runnable_procs :: "64 word \<Rightarrow> 'a iostate_scheme \<Rightarrow> ('a iostate_scheme, 32 word) res" where
  "get_runnable_procs user_array s =
     runnable_from [0..<length (procs s)] (map (chr_at (stack s)) [0..<32]) user_array 0 s"

definition PSTAT_NAMES :: nat where
  "PSTAT_NAMES = 4 * 4 * NPROC + 8 * NPROC"

definition pstat_bytes :: "byte list \<Rightarrow> proc list \<Rightarrow> byte list" where
  "pstat_bytes old ps =
     concat (map (\<lambda>p. word_le 4 (if p_state p \<noteq> UNUSED then 1 else 0 :: 32 word)) ps) @
     concat (map (\<lambda>p. word_le 4 (p_pid p)) ps) @
     concat (map (\<lambda>p. word_le 4 (p_priority p)) ps) @
     concat (map (\<lambda>p. word_le 4 (state_num (p_state p))) ps) @
     concat (map (\<lambda>p. word_le 8 (p_runs p)) ps) @
     concat (map (\<lambda>(i, p). lsafestrcpy (map (chr_at old) [PSTAT_NAMES + 16 * i..<PSTAT_NAMES + 16 * i + 16]) (p_name p) 16)
       (enumerate 0 ps))"

definition getpinfo :: "64 word \<Rightarrow> 'a iostate_scheme \<Rightarrow> ('a iostate_scheme, 32 word) res" where
  "getpinfo ps s =
     bindr (copyout (p_pagetable (myproc s)) ps (pstat_bytes (stack s) (procs s)) s) (\<lambda>r s.
     if sint r < 0 then Ok (-1) s else Ok 0 s)"

end
