(* ===== verification/Exec.thy ===== *)
theory Exec
  imports Proclife
begin

text \<open>
  \<open>exec\<close> (\<open>kernel/exec.c\<close>). The ELF headers are read into local variables: they are the bytes that \<open>readi\<close>
  returns. The arguments are the strings that \<open>argv\<close> points to, without their NUL.
\<close>

section \<open>ELF headers\<close>

definition ELF_MAGIC :: "32 word" where
  "ELF_MAGIC = 0x464C457F"

definition ELF_PROG_LOAD :: "32 word" where
  "ELF_PROG_LOAD = 1"

definition MAXARG :: nat where
  "MAXARG = 32"

definition USERSTACK :: "64 word" where
  "USERSTACK = 1"

definition ELFHDR :: nat where
  "ELFHDR = 64"

definition PROGHDR :: nat where
  "PROGHDR = 56"

definition elf_magic :: "byte list \<Rightarrow> 32 word" where "elf_magic e = get32 e 0"
definition elf_entry :: "byte list \<Rightarrow> 64 word" where "elf_entry e = get64 e 24"
definition elf_phoff :: "byte list \<Rightarrow> 64 word" where "elf_phoff e = get64 e 32"
definition elf_phnum :: "byte list \<Rightarrow> 16 word" where "elf_phnum e = get16 e 56"

definition ph_type :: "byte list \<Rightarrow> 32 word" where "ph_type e = get32 e 0"
definition ph_flags :: "byte list \<Rightarrow> 32 word" where "ph_flags e = get32 e 4"
definition ph_off :: "byte list \<Rightarrow> 64 word" where "ph_off e = get64 e 8"
definition ph_vaddr :: "byte list \<Rightarrow> 64 word" where "ph_vaddr e = get64 e 16"
definition ph_filesz :: "byte list \<Rightarrow> 64 word" where "ph_filesz e = get64 e 32"
definition ph_memsz :: "byte list \<Rightarrow> 64 word" where "ph_memsz e = get64 e 40"

definition flags2perm :: "32 word \<Rightarrow> 64 word" where
  "flags2perm flags =
     (let perm = (if flags AND 1 \<noteq> 0 then PTE_X else 0)
      in if flags AND 2 \<noteq> 0 then perm OR PTE_W else perm)"

section \<open>Loading\<close>

text \<open>The loop index \<open>i\<close> runs over the multiples of \<open>PGSIZE\<close> below \<open>sz\<close>.\<close>

definition loadseg :: "addr \<Rightarrow> 64 word \<Rightarrow> nat \<Rightarrow> 32 word \<Rightarrow> 32 word \<Rightarrow> 'a fstate_scheme \<Rightarrow> ('a fstate_scheme, 32 word) res" where
  "loadseg pagetable va ip offset sz s =
     bindr (loopM (map (\<lambda>k. of_nat (k * 4096)) [0..<(unat sz + 4095) div 4096]) (\<lambda>i s.
       bindr (walkaddr pagetable (va + ucast (i :: 32 word)) s) (\<lambda>pa s.
       if pa = 0 then Panic ''loadseg: address should exist''
       else let n = (if sz - i < ucast PGSIZE then sz - i else ucast PGSIZE) in
         bindr (readi ip (KernDst pa) (offset + i) n s) (\<lambda>(r, _) s.
         if r \<noteq> n then Ok (Some ()) s else Ok None s))) s) (\<lambda>r s.
     Ok (if r = None then 0 else -1) s)"

text \<open>The loop over the program headers: whether all were loaded, and the size of the image.\<close>

fun load_prog :: "nat \<Rightarrow> addr \<Rightarrow> nat \<Rightarrow> 32 word \<Rightarrow> 64 word \<Rightarrow> 'a fstate_scheme \<Rightarrow> ('a fstate_scheme, bool \<times> 64 word) res" where
  "load_prog ip pagetable 0 off sz s = Ok (True, sz) s"
| "load_prog ip pagetable (Suc n) off sz s =
     bindr (readi ip ObjDst off (of_nat PROGHDR) s) (\<lambda>(r, ph) s.
     if r \<noteq> of_nat PROGHDR then Ok (False, sz) s
     else if ph_type ph \<noteq> ELF_PROG_LOAD then load_prog ip pagetable n (off + of_nat PROGHDR) sz s
     else if ph_memsz ph < ph_filesz ph then Ok (False, sz) s
     else if ph_vaddr ph + ph_memsz ph < ph_vaddr ph then Ok (False, sz) s
     else if ph_vaddr ph mod PGSIZE \<noteq> 0 then Ok (False, sz) s
     else bindr (uvmalloc pagetable sz (ph_vaddr ph + ph_memsz ph) (flags2perm (ph_flags ph)) s) (\<lambda>sz1 s.
       if sz1 = 0 then Ok (False, sz) s
       else bindr (loadseg pagetable (ph_vaddr ph) ip (ucast (ph_off ph)) (ucast (ph_filesz ph)) s) (\<lambda>r s.
         if sint r < 0 then Ok (False, sz1) s
         else load_prog ip pagetable n (off + of_nat PROGHDR) sz1 s)))"

text \<open>Pushing the argument strings: the stack pointer and their addresses, or \<open>None\<close> for \<open>goto bad\<close>.\<close>

fun push_args :: "addr \<Rightarrow> byte list list \<Rightarrow> 64 word \<Rightarrow> 64 word \<Rightarrow> 64 word list \<Rightarrow> 'a pstate_scheme \<Rightarrow>
    ('a pstate_scheme, (64 word \<times> 64 word list) option) res" where
  "push_args pagetable [] stackbase sp ustack s = Ok (Some (sp, ustack)) s"
| "push_args pagetable (arg # argv) stackbase sp ustack s =
     (if length ustack \<ge> MAXARG then Ok None s
      else
        let sp = sp - of_nat (length arg + 1);
            sp = sp - sp mod 16 in
        if sp < stackbase then Ok None s
        else bindr (copyout pagetable sp (arg @ [0]) s) (\<lambda>r s.
          if sint r < 0 then Ok None s
          else push_args pagetable argv stackbase sp (ustack @ [sp]) s))"

text \<open>The label \<open>bad\<close>.\<close>

definition kexec_bad :: "addr \<Rightarrow> 64 word \<Rightarrow> nat option \<Rightarrow> 'a fstate_scheme \<Rightarrow> ('a fstate_scheme, 32 word) res" where
  "kexec_bad pagetable sz ip s =
     bindr (if pagetable \<noteq> 0 then proc_freepagetable pagetable sz s else Ok () s) (\<lambda>_ s.
     bindr (case ip of Some i \<Rightarrow> bindr (iunlockput i s) (\<lambda>_ s. end_op s) | None \<Rightarrow> Ok () s) (\<lambda>_ s.
     Ok (-1) s))"

text \<open>The part of \<open>kexec\<close> after the program is loaded: the stack, the arguments and the new image.\<close>

definition last_elem :: "byte list \<Rightarrow> byte list" where
  "last_elem path = rev (takeWhile (\<lambda>c. c \<noteq> slash) (rev path))"

definition kexec_stack :: "byte list \<Rightarrow> byte list list \<Rightarrow> byte list \<Rightarrow> addr \<Rightarrow> 64 word \<Rightarrow> 'a fstate_scheme \<Rightarrow> ('a fstate_scheme, 32 word) res" where
  "kexec_stack path argv elf pagetable sz s =
     (let me = the (curp s);
          oldsz = p_sz (procs s ! me);
          sz = PGROUNDUP sz in
      bindr (uvmalloc pagetable sz (sz + (USERSTACK + 1) * PGSIZE) PTE_W s) (\<lambda>sz1 s.
      if sz1 = 0 then kexec_bad pagetable sz None s
      else let sz = sz1 in
        bindr (uvmclear pagetable (sz - (USERSTACK + 1) * PGSIZE) s) (\<lambda>_ s.
        let stackbase = sz - USERSTACK * PGSIZE in
        bindr (push_args pagetable argv stackbase sz [] s) (\<lambda>r s.
        case r of
          None \<Rightarrow> kexec_bad pagetable sz None s
        | Some (sp, ustack) \<Rightarrow>
            let argc = length ustack;
                sp = sp - of_nat ((argc + 1) * 8);
                sp = sp - sp mod 16 in
            if sp < stackbase then kexec_bad pagetable sz None s
            else bindr (copyout pagetable sp (concat (map (word_le 8) (ustack @ [0]))) s) (\<lambda>r s.
              if sint r < 0 then kexec_bad pagetable sz None s
              else
                let s = tf_set me tf_a1 sp s;
                    s = upd_proc me (\<lambda>p. p\<lparr>p_name := lsafestrcpy (p_name p) (last_elem path) 16\<rparr>) s;
                    oldpagetable = p_pagetable (procs s ! me);
                    s = upd_proc me (\<lambda>p. p\<lparr>p_pagetable := pagetable, p_sz := sz\<rparr>) s;
                    s = tf_set me tf_epc (elf_entry elf) s;
                    s = tf_set me tf_sp sp s in
                bindr (proc_freepagetable oldpagetable oldsz s) (\<lambda>_ s. Ok (of_nat argc) s))))))"

definition kexec :: "byte list \<Rightarrow> byte list list \<Rightarrow> 'a fstate_scheme \<Rightarrow> ('a fstate_scheme, 32 word) res" where
  "kexec path argv s =
     bindr (begin_op s) (\<lambda>_ s.
     bindr (namei path s) (\<lambda>r s.
     case r of
       None \<Rightarrow> bindr (end_op s) (\<lambda>_ s. Ok (-1) s)
     | Some ip \<Rightarrow>
         bindr (ilock (Some ip) s) (\<lambda>_ s.
         bindr (readi ip ObjDst 0 (of_nat ELFHDR) s) (\<lambda>(r, elf) s.
         if r \<noteq> of_nat ELFHDR then kexec_bad 0 0 (Some ip) s
         else if elf_magic elf \<noteq> ELF_MAGIC then kexec_bad 0 0 (Some ip) s
         else bindr (proc_pagetable (the (curp s)) s) (\<lambda>pagetable s.
           if pagetable = 0 then kexec_bad 0 0 (Some ip) s
           else bindr (load_prog ip pagetable (unat (elf_phnum elf)) (ucast (elf_phoff elf)) 0 s) (\<lambda>(loaded, sz) s.
             if \<not> loaded then kexec_bad pagetable sz (Some ip) s
             else bindr (iunlockput ip s) (\<lambda>_ s.
                  bindr (end_op s) (\<lambda>_ s. kexec_stack path argv elf pagetable sz s))))))))"

end
