(* ===== verification/Sysfile.thy ===== *)
theory Sysfile
  imports Exec
begin

text \<open>
  Fetching arguments (\<open>kernel/syscall.c\<close>) and the system calls on files (\<open>kernel/sysfile.c\<close>).
\<close>

section \<open>Arguments\<close>

definition fetchaddr :: "64 word \<Rightarrow> 'a pstate_scheme \<Rightarrow> ('a pstate_scheme, 64 word option) res" where
  "fetchaddr addr s =
     (let p = myproc s in
      if addr \<ge> p_sz p \<or> addr + 8 > p_sz p then Ok None s
      else bindr (copyin (p_pagetable p) addr 8 s) (\<lambda>(r, bs) s.
        if r \<noteq> 0 then Ok None s else Ok (Some (le_word bs)) s))"

text \<open>The string without its NUL, whose length is what \<open>fetchstr\<close> returns, or \<open>None\<close> for -1.\<close>

definition fetchstr :: "64 word \<Rightarrow> nat \<Rightarrow> 'a pstate_scheme \<Rightarrow> ('a pstate_scheme, byte list option) res" where
  "fetchstr addr mx s =
     bindr (copyinstr (p_pagetable (myproc s)) addr mx s) (\<lambda>(r, buf) s.
     if sint r < 0 then Ok None s else Ok (Some (takeWhile (\<lambda>c. c \<noteq> 0) buf)) s)"

definition argraw :: "nat \<Rightarrow> 'a pstate_scheme \<Rightarrow> ('a pstate_scheme, 64 word) res" where
  "argraw n s = (if n < 6 then Ok (tf_get (the (curp s)) (tf_a0 + of_nat (8 * n)) s) s else Panic ''argraw'')"

definition argint :: "nat \<Rightarrow> 'a pstate_scheme \<Rightarrow> ('a pstate_scheme, 32 word) res" where
  "argint n s = bindr (argraw n s) (\<lambda>w s. Ok (ucast w) s)"

definition argaddr :: "nat \<Rightarrow> 'a pstate_scheme \<Rightarrow> ('a pstate_scheme, 64 word) res" where
  "argaddr n s = argraw n s"

definition argstr :: "nat \<Rightarrow> nat \<Rightarrow> 'a pstate_scheme \<Rightarrow> ('a pstate_scheme, byte list option) res" where
  "argstr n mx s = bindr (argaddr n s) (\<lambda>addr s. fetchstr addr mx s)"

definition MAXPATH :: nat where
  "MAXPATH = 128"

section \<open>File descriptors\<close>

definition argfd :: "nat \<Rightarrow> 'a iostate_scheme \<Rightarrow> ('a iostate_scheme, (nat \<times> nat) option) res" where
  "argfd n s =
     bindr (argint n s) (\<lambda>fd s.
     if sint fd < 0 \<or> sint fd \<ge> int NOFILE then Ok None s
     else Ok (map_option (\<lambda>f. (nat (sint fd), f)) (p_ofile (myproc s) ! nat (sint fd))) s)"

definition fdalloc :: "nat \<Rightarrow> 'a iostate_scheme \<Rightarrow> nat option \<times> 'a iostate_scheme" where
  "fdalloc f s =
     (case find_idx (\<lambda>x. x = None) (p_ofile (myproc s)) of
        Some fd \<Rightarrow> (Some fd, upd_proc (the (curp s)) (\<lambda>p. p\<lparr>p_ofile := (p_ofile p)[fd := Some f]\<rparr>) s)
      | None \<Rightarrow> (None, s))"

definition clear_fd :: "nat \<Rightarrow> 'a iostate_scheme \<Rightarrow> 'a iostate_scheme" where
  "clear_fd fd s = upd_proc (the (curp s)) (\<lambda>p. p\<lparr>p_ofile := (p_ofile p)[fd := None]\<rparr>) s"

definition sys_dup :: "'a iostate_scheme \<Rightarrow> ('a iostate_scheme, 64 word) res" where
  "sys_dup s =
     bindr (argfd 0 s) (\<lambda>r s.
     case r of None \<Rightarrow> Ok (-1) s
     | Some (_, f) \<Rightarrow>
         let (fd, s) = fdalloc f s in
         case fd of None \<Rightarrow> Ok (-1) s
         | Some fd \<Rightarrow> bindr (filedup f s) (\<lambda>_ s. Ok (of_nat fd) s))"

definition sys_read :: "'a iostate_scheme \<Rightarrow> ('a iostate_scheme, 64 word) res" where
  "sys_read s =
     bindr (argaddr 1 s) (\<lambda>p s.
     bindr (argint 2 s) (\<lambda>n s.
     bindr (argfd 0 s) (\<lambda>r s.
     case r of None \<Rightarrow> Ok (-1) s
     | Some (_, f) \<Rightarrow> bindr (fileread f p n s) (\<lambda>v s. Ok (scast v) s))))"

definition sys_write :: "'a iostate_scheme \<Rightarrow> ('a iostate_scheme, 64 word) res" where
  "sys_write s =
     bindr (argaddr 1 s) (\<lambda>p s.
     bindr (argint 2 s) (\<lambda>n s.
     bindr (argfd 0 s) (\<lambda>r s.
     case r of None \<Rightarrow> Ok (-1) s
     | Some (_, f) \<Rightarrow> bindr (filewrite f p n s) (\<lambda>v s. Ok (scast v) s))))"

definition sys_close :: "'a iostate_scheme \<Rightarrow> ('a iostate_scheme, 64 word) res" where
  "sys_close s =
     bindr (argfd 0 s) (\<lambda>r s.
     case r of None \<Rightarrow> Ok (-1) s
     | Some (fd, f) \<Rightarrow> bindr (fileclose f (clear_fd fd s)) (\<lambda>_ s. Ok 0 s))"

definition sys_fstat :: "'a iostate_scheme \<Rightarrow> ('a iostate_scheme, 64 word) res" where
  "sys_fstat s =
     bindr (argaddr 1 s) (\<lambda>st s.
     bindr (argfd 0 s) (\<lambda>r s.
     case r of None \<Rightarrow> Ok (-1) s
     | Some (_, f) \<Rightarrow> bindr (filestat f st s) (\<lambda>v s. Ok (scast v) s)))"

section \<open>Links\<close>

text \<open>The common ends \<open>end_op(); return v;\<close> and \<open>iunlockput(ip); end_op(); return -1;\<close>.\<close>

definition finish :: "64 word \<Rightarrow> 'a fstate_scheme \<Rightarrow> ('a fstate_scheme, 64 word) res" where
  "finish v s = bindr (end_op s) (\<lambda>_ s. Ok v s)"

definition put_fail :: "nat \<Rightarrow> 'a fstate_scheme \<Rightarrow> ('a fstate_scheme, 64 word) res" where
  "put_fail ip s = bindr (iunlockput ip s) (\<lambda>_ s. finish (-1) s)"

definition add_nlink :: "nat \<Rightarrow> 16 word \<Rightarrow> 'a fstate_scheme \<Rightarrow> ('a fstate_scheme, unit) res" where
  "add_nlink i d s = iupdate i (upd_inode i (\<lambda>ip. ip\<lparr>i_nlink := i_nlink ip + d\<rparr>) s)"

definition sys_link :: "'a fstate_scheme \<Rightarrow> ('a fstate_scheme, 64 word) res" where
  "sys_link s =
     bindr (argstr 0 MAXPATH s) (\<lambda>old s.
     if old = None then Ok (-1) s
     else bindr (argstr 1 MAXPATH s) (\<lambda>new s.
     if new = None then Ok (-1) s
     else bindr (begin_op s) (\<lambda>_ s.
     bindr (namei (the old) s) (\<lambda>r s.
     case r of None \<Rightarrow> finish (-1) s
     | Some ip \<Rightarrow>
       bindr (ilock (Some ip) s) (\<lambda>_ s.
       if i_type (inode_at ip s) = T_DIR then put_fail ip s
       else bindr (add_nlink ip 1 s) (\<lambda>_ s.
         bindr (iunlock (Some ip) s) (\<lambda>_ s.
         let bad = (\<lambda>s. bindr (ilock (Some ip) s) (\<lambda>_ s. bindr (add_nlink ip (-1) s) (\<lambda>_ s. put_fail ip s))) in
         bindr (nameiparent (the new) s) (\<lambda>r s.
         case r of None \<Rightarrow> bad s
         | Some (dp, name) \<Rightarrow>
           bindr (ilock (Some dp) s) (\<lambda>_ s.
           bindr (if i_dev (inode_at dp s) \<noteq> i_dev (inode_at ip s) then Ok (-1) s
                  else dirlink dp name (i_inum (inode_at ip s)) s) (\<lambda>r s.
           bindr (iunlockput dp s) (\<lambda>_ s.
           if sint r < 0 then bad s
           else bindr (iput ip s) (\<lambda>_ s. finish 0 s))))))))))))"

definition isdirempty :: "nat \<Rightarrow> 'a fstate_scheme \<Rightarrow> ('a fstate_scheme, bool) res" where
  "isdirempty dp s =
     bindr (loopM (drop 2 (dir_offs (i_size (inode_at dp s)))) (\<lambda>off s.
       bindr (readi dp ObjDst off (of_nat DIRENT) s) (\<lambda>(r, de) s.
       if r \<noteq> of_nat DIRENT then Panic ''isdirempty: readi''
       else if de_inum de \<noteq> 0 then Ok (Some ()) s else Ok None s)) s) (\<lambda>r s. Ok (r = None) s)"

definition sys_unlink :: "'a fstate_scheme \<Rightarrow> ('a fstate_scheme, 64 word) res" where
  "sys_unlink s =
     bindr (argstr 0 MAXPATH s) (\<lambda>path s.
     if path = None then Ok (-1) s
     else bindr (begin_op s) (\<lambda>_ s.
     bindr (nameiparent (the path) s) (\<lambda>r s.
     case r of None \<Rightarrow> finish (-1) s
     | Some (dp, name) \<Rightarrow>
       bindr (ilock (Some dp) s) (\<lambda>_ s.
       if namecmp name [46, 0] = 0 \<or> namecmp name [46, 46, 0] = 0 then put_fail dp s
       else bindr (dirlookup dp name s) (\<lambda>r s.
       case r of None \<Rightarrow> put_fail dp s
       | Some (ip, off) \<Rightarrow>
         bindr (ilock (Some ip) s) (\<lambda>_ s.
         if sint (i_nlink (inode_at ip s)) < 1 then Panic ''unlink: nlink < 1''
         else bindr (if i_type (inode_at ip s) = T_DIR then isdirempty ip s else Ok True s) (\<lambda>empty s.
         if \<not> empty then bindr (iunlockput ip s) (\<lambda>_ s. put_fail dp s)
         else bindr (writei dp (ObjSrc (replicate DIRENT 0)) off (of_nat DIRENT) s) (\<lambda>r s.
         if r \<noteq> of_nat DIRENT then Panic ''unlink: writei''
         else bindr (if i_type (inode_at ip s) = T_DIR then add_nlink dp (-1) s else Ok () s) (\<lambda>_ s.
         bindr (iunlockput dp s) (\<lambda>_ s.
         bindr (add_nlink ip (-1) s) (\<lambda>_ s.
         bindr (iunlockput ip s) (\<lambda>_ s. finish 0 s))))))))))))"

section \<open>Creating and opening\<close>

definition create :: "byte list \<Rightarrow> 16 word \<Rightarrow> 16 word \<Rightarrow> 16 word \<Rightarrow> 'a fstate_scheme \<Rightarrow> ('a fstate_scheme, nat option) res" where
  "create path type major minor s =
     bindr (nameiparent path s) (\<lambda>r s.
     case r of None \<Rightarrow> Ok None s
     | Some (dp, name) \<Rightarrow>
       bindr (ilock (Some dp) s) (\<lambda>_ s.
       bindr (dirlookup dp name s) (\<lambda>r s.
       case r of
         Some (ip, _) \<Rightarrow>
           bindr (iunlockput dp s) (\<lambda>_ s.
           bindr (ilock (Some ip) s) (\<lambda>_ s.
           if type = T_FILE \<and> (i_type (inode_at ip s) = T_FILE \<or> i_type (inode_at ip s) = T_DEVICE)
           then Ok (Some ip) s
           else bindr (iunlockput ip s) (\<lambda>_ s. Ok None s)))
       | None \<Rightarrow>
           bindr (ialloc (i_dev (inode_at dp s)) type s) (\<lambda>r s.
           case r of
             None \<Rightarrow> bindr (iunlockput dp s) (\<lambda>_ s. Ok None s)
           | Some ip \<Rightarrow>
               bindr (ilock (Some ip) s) (\<lambda>_ s.
               bindr (iupdate ip (upd_inode ip (\<lambda>n. n\<lparr>i_major := major, i_minor := minor, i_nlink := 1\<rparr>) s)) (\<lambda>_ s.
               let fail = (\<lambda>s. bindr (iupdate ip (upd_inode ip (\<lambda>n. n\<lparr>i_nlink := 0\<rparr>) s)) (\<lambda>_ s.
                     bindr (iunlockput ip s) (\<lambda>_ s. bindr (iunlockput dp s) (\<lambda>_ s. Ok None s)))) in
               bindr (if type = T_DIR
                      then bindr (dirlink ip [46, 0] (i_inum (inode_at ip s)) s) (\<lambda>r s.
                           if sint r < 0 then Ok False s
                           else bindr (dirlink ip [46, 46, 0] (i_inum (inode_at dp s)) s) (\<lambda>r s. Ok (\<not> sint r < 0) s))
                      else Ok True s) (\<lambda>dots s.
               if \<not> dots then fail s
               else bindr (dirlink dp name (i_inum (inode_at ip s)) s) (\<lambda>r s.
                 if sint r < 0 then fail s
                 else bindr (if type = T_DIR then add_nlink dp 1 s else Ok () s) (\<lambda>_ s.
                      bindr (iunlockput dp s) (\<lambda>_ s. Ok (Some ip) s))))))))))"

definition O_RDONLY :: "32 word" where "O_RDONLY = 0"
definition O_WRONLY :: "32 word" where "O_WRONLY = 1"
definition O_RDWR :: "32 word" where "O_RDWR = 2"
definition O_CREATE :: "32 word" where "O_CREATE = 0x200"
definition O_TRUNC :: "32 word" where "O_TRUNC = 0x400"

definition sys_open :: "'a iostate_scheme \<Rightarrow> ('a iostate_scheme, 64 word) res" where
  "sys_open s =
     bindr (argint 1 s) (\<lambda>omode s.
     bindr (argstr 0 MAXPATH s) (\<lambda>path s.
     if path = None then Ok (-1) s
     else bindr (begin_op s) (\<lambda>_ s.
     bindr
       (if omode AND O_CREATE \<noteq> 0 then create (the path) T_FILE 0 0 s
        else bindr (namei (the path) s) (\<lambda>r s.
          case r of None \<Rightarrow> Ok None s
          | Some ip \<Rightarrow>
              bindr (ilock (Some ip) s) (\<lambda>_ s.
              if i_type (inode_at ip s) = T_DIR \<and> omode \<noteq> O_RDONLY
              then bindr (iunlockput ip s) (\<lambda>_ s. Ok None s)
              else Ok (Some ip) s))) (\<lambda>r s.
     case r of None \<Rightarrow> finish (-1) s
     | Some ip \<Rightarrow>
       if i_type (inode_at ip s) = T_DEVICE \<and> (sint (i_major (inode_at ip s)) < 0 \<or> sint (i_major (inode_at ip s)) \<ge> int NDEV)
       then put_fail ip s
       else let (f, s) = filealloc s in
         case f of None \<Rightarrow> put_fail ip s
         | Some f \<Rightarrow>
           let (fd, s) = fdalloc f s in
           case fd of None \<Rightarrow> bindr (fileclose f s) (\<lambda>_ s. put_fail ip s)
           | Some fd \<Rightarrow>
             let s = (if i_type (inode_at ip s) = T_DEVICE
                      then upd_file f (\<lambda>x. x\<lparr>f_type := FD_DEVICE, f_major := i_major (inode_at ip s)\<rparr>) s
                      else upd_file f (\<lambda>x. x\<lparr>f_type := FD_INODE, f_off := 0\<rparr>) s);
                 s = upd_file f (\<lambda>x. x\<lparr>f_ip := ip, f_readable := (omode AND O_WRONLY = 0),
                       f_writable := (omode AND O_WRONLY \<noteq> 0 \<or> omode AND O_RDWR \<noteq> 0)\<rparr>) s in
             bindr (if omode AND O_TRUNC \<noteq> 0 \<and> i_type (inode_at ip s) = T_FILE then itrunc ip s else Ok () s) (\<lambda>_ s.
             bindr (iunlock (Some ip) s) (\<lambda>_ s. finish (of_nat fd) s))))))"

definition sys_mkdir :: "'a fstate_scheme \<Rightarrow> ('a fstate_scheme, 64 word) res" where
  "sys_mkdir s =
     bindr (begin_op s) (\<lambda>_ s.
     bindr (argstr 0 MAXPATH s) (\<lambda>path s.
     case path of None \<Rightarrow> finish (-1) s
     | Some path \<Rightarrow>
       bindr (create path T_DIR 0 0 s) (\<lambda>r s.
       case r of None \<Rightarrow> finish (-1) s
       | Some ip \<Rightarrow> bindr (iunlockput ip s) (\<lambda>_ s. finish 0 s))))"

definition sys_mknod :: "'a fstate_scheme \<Rightarrow> ('a fstate_scheme, 64 word) res" where
  "sys_mknod s =
     bindr (begin_op s) (\<lambda>_ s.
     bindr (argint 1 s) (\<lambda>major s.
     bindr (argint 2 s) (\<lambda>minor s.
     bindr (argstr 0 MAXPATH s) (\<lambda>path s.
     case path of None \<Rightarrow> finish (-1) s
     | Some path \<Rightarrow>
       bindr (create path T_DEVICE (ucast major) (ucast minor) s) (\<lambda>r s.
       case r of None \<Rightarrow> finish (-1) s
       | Some ip \<Rightarrow> bindr (iunlockput ip s) (\<lambda>_ s. finish 0 s))))))"

definition sys_chdir :: "'a fstate_scheme \<Rightarrow> ('a fstate_scheme, 64 word) res" where
  "sys_chdir s =
     (let me = the (curp s) in
      bindr (begin_op s) (\<lambda>_ s.
      bindr (argstr 0 MAXPATH s) (\<lambda>path s.
      case path of None \<Rightarrow> finish (-1) s
      | Some path \<Rightarrow>
        bindr (namei path s) (\<lambda>r s.
        case r of None \<Rightarrow> finish (-1) s
        | Some ip \<Rightarrow>
          bindr (ilock (Some ip) s) (\<lambda>_ s.
          if i_type (inode_at ip s) \<noteq> T_DIR then put_fail ip s
          else bindr (iunlock (Some ip) s) (\<lambda>_ s.
               bindr (iput (the (p_cwd (procs s ! me))) s) (\<lambda>_ s.
               bindr (end_op s) (\<lambda>_ s.
               Ok 0 (upd_proc me (\<lambda>p. p\<lparr>p_cwd := Some ip\<rparr>) s)))))))))"

section \<open>Exec and pipe\<close>

text \<open>The loop of \<open>sys_exec\<close>: the pages allocated for the arguments and, unless it went to \<open>bad\<close>, the
  strings in them. \<open>n\<close> is \<open>NELEM(argv) - i\<close>.\<close>

fun fetch_args :: "64 word \<Rightarrow> nat \<Rightarrow> addr list \<Rightarrow> byte list list \<Rightarrow> 'a pstate_scheme \<Rightarrow>
    ('a pstate_scheme, addr list \<times> byte list list option) res" where
  "fetch_args uargv 0 pages argv s = Ok (pages, None) s"
| "fetch_args uargv (Suc n) pages argv s =
     bindr (fetchaddr (uargv + of_nat (8 * length pages)) s) (\<lambda>r s.
     case r of None \<Rightarrow> Ok (pages, None) s
     | Some uarg \<Rightarrow>
         if uarg = 0 then Ok (pages, Some argv) s
         else bindr (kalloc s) (\<lambda>page s.
           if page = 0 then Ok (pages, None) s
           else bindr (fetchstr uarg (unat PGSIZE) s) (\<lambda>r s.
             case r of None \<Rightarrow> Ok (pages @ [page], None) s
             | Some str \<Rightarrow> fetch_args uargv n (pages @ [page]) (argv @ [str])
                 (s\<lparr>mem := wr (mem s) page (str @ [0])\<rparr>))))"

definition sys_exec :: "'a fstate_scheme \<Rightarrow> ('a fstate_scheme, 64 word) res" where
  "sys_exec s =
     bindr (argaddr 1 s) (\<lambda>uargv s.
     bindr (argstr 0 MAXPATH s) (\<lambda>path s.
     case path of None \<Rightarrow> Ok (-1) s
     | Some path \<Rightarrow>
       bindr (fetch_args uargv MAXARG [] [] s) (\<lambda>(pages, argv) s.
       bindr (case argv of None \<Rightarrow> Ok (-1) s | Some argv \<Rightarrow> kexec path argv s) (\<lambda>ret s.
       bindr (forM pages kfree s) (\<lambda>_ s. Ok (scast ret) s)))))"

definition sys_pipe :: "'a iostate_scheme \<Rightarrow> ('a iostate_scheme, 64 word) res" where
  "sys_pipe s =
     (let close2 = (\<lambda>rfile wfile s. bindr (fileclose rfile s) (\<lambda>_ s. bindr (fileclose wfile s) (\<lambda>_ s. Ok (-1) s))) in
      bindr (argaddr 0 s) (\<lambda>fdarray s.
      bindr (pipealloc s) (\<lambda>r s.
      case r of None \<Rightarrow> Ok (-1) s
      | Some (rfile, wfile) \<Rightarrow>
        let (r0, s) = fdalloc rfile s in
        case r0 of None \<Rightarrow> close2 rfile wfile s
        | Some fd0 \<Rightarrow>
          let (r1, s) = fdalloc wfile s in
          case r1 of None \<Rightarrow> close2 rfile wfile (clear_fd fd0 s)
          | Some fd1 \<Rightarrow>
            bindr (copyout (p_pagetable (myproc s)) fdarray (word_le 4 (of_nat fd0 :: 32 word)) s) (\<lambda>r s.
            bindr (if sint r < 0 then Ok r s
                   else copyout (p_pagetable (myproc s)) (fdarray + 4) (word_le 4 (of_nat fd1 :: 32 word)) s) (\<lambda>r s.
            if sint r < 0 then close2 rfile wfile (clear_fd fd1 (clear_fd fd0 s)) else Ok 0 s)))))"

end
