(* ===== verification/Virtio.thy ===== *)
theory Virtio
  imports File
begin

text \<open>
  The disk driver (\<open>kernel/virtio_disk.c\<close>): the table of descriptors, the rings it shares with the device
  and the hand-over of a finished request to the process that waits for it.

  The three pages shared with the device are the fields of \<open>vdisk\<close>; the addresses in a descriptor are
  those of a command header, of the data of a buffer or of a status byte. The device is outside the
  program: what it writes (status bytes and the used ring) are steps of its own.
\<close>

section \<open>State\<close>

definition NUM :: nat where
  "NUM = 8"

definition VRING_DESC_F_NEXT :: "16 word" where "VRING_DESC_F_NEXT = 1"
definition VRING_DESC_F_WRITE :: "16 word" where "VRING_DESC_F_WRITE = 2"
definition VIRTIO_BLK_T_IN :: "32 word" where "VIRTIO_BLK_T_IN = 0"
definition VIRTIO_BLK_T_OUT :: "32 word" where "VIRTIO_BLK_T_OUT = 1"

datatype dma = DmaNull | DmaOps nat | DmaData nat | DmaStatus nat

record virtq_desc =
  d_addr :: dma
  d_len :: "32 word"
  d_flags :: "16 word"
  d_next :: "16 word"

record virtio_blk_req =
  r_type :: "32 word"
  r_reserved :: "32 word"
  r_sector :: "64 word"

record vinfo =
  inf_b :: "nat option"
  inf_status :: byte

record vdisk =
  vq_desc :: "virtq_desc list"
  avail_idx :: "16 word"
  avail_ring :: "16 word list"
  usedq_idx :: "16 word"
  usedq_ring :: "32 word list"
  vd_free :: "bool list"
  used_idx :: "16 word"
  vd_info :: "vinfo list"
  vd_ops :: "virtio_blk_req list"
  b_disk :: "nat \<Rightarrow> bool"

record vstate = iostate +
  vd :: vdisk

definition null_desc :: virtq_desc where
  "null_desc = \<lparr>d_addr = DmaNull, d_len = 0, d_flags = 0, d_next = 0\<rparr>"

definition upd_vd :: "(vdisk \<Rightarrow> vdisk) \<Rightarrow> 'a vstate_scheme \<Rightarrow> 'a vstate_scheme" where
  "upd_vd f s = s\<lparr>vd := f (vd s)\<rparr>"

section \<open>Descriptors\<close>

definition alloc_desc :: "'a vstate_scheme \<Rightarrow> nat option \<times> 'a vstate_scheme" where
  "alloc_desc s =
     (case find_idx (\<lambda>x. x) (vd_free (vd s)) of
        Some i \<Rightarrow> (Some i, upd_vd (\<lambda>v. v\<lparr>vd_free := (vd_free v)[i := False]\<rparr>) s)
      | None \<Rightarrow> (None, s))"

definition free_desc :: "nat \<Rightarrow> 'a vstate_scheme \<Rightarrow> ('a vstate_scheme, unit) res" where
  "free_desc i s =
     (if i \<ge> NUM then Panic ''free_desc 1''
      else if vd_free (vd s) ! i then Panic ''free_desc 2''
      else Ok () (wakeup ChDiskFree (upd_vd (\<lambda>v. v\<lparr>vq_desc := (vq_desc v)[i := null_desc], vd_free := (vd_free v)[i := True]\<rparr>) s)))"

text \<open>The loop ends because \<open>free_desc\<close> panics on a descriptor that is already free: each step but the last
  frees one of \<open>NUM\<close> descriptors, which is what the counter allows for.\<close>

fun free_chain_from :: "nat \<Rightarrow> nat \<Rightarrow> 'a vstate_scheme \<Rightarrow> ('a vstate_scheme, unit) res" where
  "free_chain_from 0 i s = Diverge"
| "free_chain_from (Suc n) i s =
     (let flag = d_flags (vq_desc (vd s) ! i);
          nxt = d_next (vq_desc (vd s) ! i) in
      bindr (free_desc i s) (\<lambda>_ s.
      if flag AND VRING_DESC_F_NEXT \<noteq> 0 then free_chain_from n (unat nxt) s else Ok () s))"

definition free_chain :: "nat \<Rightarrow> 'a vstate_scheme \<Rightarrow> ('a vstate_scheme, unit) res" where
  "free_chain i s = free_chain_from (NUM + 1) i s"

fun alloc_descs :: "nat \<Rightarrow> nat list \<Rightarrow> 'a vstate_scheme \<Rightarrow> ('a vstate_scheme, nat list option) res" where
  "alloc_descs 0 idx s = Ok (Some idx) s"
| "alloc_descs (Suc n) idx s =
     (let (r, s) = alloc_desc s in
      case r of
        None \<Rightarrow> bindr (forM idx free_desc s) (\<lambda>_ s. Ok None s)
      | Some i \<Rightarrow> alloc_descs n (idx @ [i]) s)"

definition alloc3_desc :: "'a vstate_scheme \<Rightarrow> ('a vstate_scheme, nat list option) res" where
  "alloc3_desc s = alloc_descs 3 [] s"

section \<open>Requests\<close>

text \<open>\<open>virtio_disk_rw\<close> up to the point where it waits for the device: the head of its chain.\<close>

definition virtio_submit :: "nat \<Rightarrow> bool \<Rightarrow> 'a vstate_scheme \<Rightarrow> ('a vstate_scheme, nat) res" where
  "virtio_submit b write s =
     (let sector = b_blockno (bufs s ! b) * of_nat (BSIZE div 512) in
      bindr (alloc3_desc s) (\<lambda>r s.
      case r of
        None \<Rightarrow> sleep ChDiskFree s
      | Some idx \<Rightarrow>
          let i0 = idx ! 0; i1 = idx ! 1; i2 = idx ! 2;
              s = upd_vd (\<lambda>v. v\<lparr>vd_ops := (vd_ops v)[i0 := \<lparr>r_type = (if write then VIRTIO_BLK_T_OUT else VIRTIO_BLK_T_IN),
                    r_reserved = 0, r_sector = ucast sector\<rparr>]\<rparr>) s;
              s = upd_vd (\<lambda>v. v\<lparr>vq_desc := (vq_desc v)[i0 := \<lparr>d_addr = DmaOps i0, d_len = 16, d_flags = VRING_DESC_F_NEXT,
                    d_next = of_nat i1\<rparr>]\<rparr>) s;
              s = upd_vd (\<lambda>v. v\<lparr>vq_desc := (vq_desc v)[i1 := \<lparr>d_addr = DmaData b, d_len = of_nat BSIZE,
                    d_flags = (if write then 0 else VRING_DESC_F_WRITE) OR VRING_DESC_F_NEXT, d_next = of_nat i2\<rparr>]\<rparr>) s;
              s = upd_vd (\<lambda>v. v\<lparr>vd_info := (vd_info v)[i0 := (vd_info v ! i0)\<lparr>inf_status := 0xff\<rparr>],
                    vq_desc := (vq_desc v)[i2 := \<lparr>d_addr = DmaStatus i0, d_len = 1, d_flags = VRING_DESC_F_WRITE, d_next = 0\<rparr>]\<rparr>) s;
              s = upd_vd (\<lambda>v. v\<lparr>b_disk := (b_disk v)(b := True), vd_info := (vd_info v)[i0 := (vd_info v ! i0)\<lparr>inf_b := Some b\<rparr>]\<rparr>) s;
              s = upd_vd (\<lambda>v. v\<lparr>avail_ring := (avail_ring v)[unat (avail_idx v) mod NUM := of_nat i0]\<rparr>) s;
              s = upd_vd (\<lambda>v. v\<lparr>avail_idx := avail_idx v + 1\<rparr>) s
          in Ok i0 s))"

text \<open>The rest of \<open>virtio_disk_rw\<close>: wait for the interrupt, then free the chain.\<close>

definition virtio_finish :: "nat \<Rightarrow> nat \<Rightarrow> 'a vstate_scheme \<Rightarrow> ('a vstate_scheme, unit) res" where
  "virtio_finish b i0 s =
     (if b_disk (vd s) b then sleep (ChBuf b) s
      else free_chain i0 (upd_vd (\<lambda>v. v\<lparr>vd_info := (vd_info v)[i0 := (vd_info v ! i0)\<lparr>inf_b := None\<rparr>]\<rparr>) s))"

definition virtio_disk_rw :: "nat \<Rightarrow> bool \<Rightarrow> 'a vstate_scheme \<Rightarrow> ('a vstate_scheme, unit) res" where
  "virtio_disk_rw b write s = bindr (virtio_submit b write s) (\<lambda>i0 s. virtio_finish b i0 s)"

text \<open>One iteration of the loop of the interrupt handler; there is one per entry of the used ring that
  the driver has not seen.\<close>

definition intr_step :: "'a vstate_scheme \<Rightarrow> ('a vstate_scheme, unit) res" where
  "intr_step s =
     (let id = unat (usedq_ring (vd s) ! (unat (used_idx (vd s)) mod NUM)) in
      if inf_status (vd_info (vd s) ! id) \<noteq> 0 then Panic ''virtio_disk_intr status''
      else let b = the (inf_b (vd_info (vd s) ! id));
               s = wakeup (ChBuf b) (upd_vd (\<lambda>v. v\<lparr>b_disk := (b_disk v)(b := False)\<rparr>) s)
           in Ok () (upd_vd (\<lambda>v. v\<lparr>used_idx := used_idx v + 1\<rparr>) s))"

definition virtio_disk_intr :: "'a vstate_scheme \<Rightarrow> ('a vstate_scheme, unit) res" where
  "virtio_disk_intr s = forM [0..<unat (usedq_idx (vd s) - used_idx (vd s))] (\<lambda>_ s. intr_step s) s"

section \<open>Initialisation\<close>

text \<open>The registers that \<open>virtio_disk_init\<close> reads.\<close>

record vregs =
  vr_magic :: "32 word"
  vr_version :: "32 word"
  vr_device :: "32 word"
  vr_vendor :: "32 word"
  vr_features :: "32 word"
  vr_status :: "32 word"
  vr_ready :: "32 word"
  vr_max :: "32 word"

definition clear_bit :: "nat \<Rightarrow> 64 word \<Rightarrow> 64 word" where
  "clear_bit k w = w AND NOT (push_bit k 1)"

text \<open>The features written back to the device.\<close>

definition driver_features :: "32 word \<Rightarrow> 32 word" where
  "driver_features f = ucast (clear_bit 28 (clear_bit 29 (clear_bit 27 (clear_bit 12 (clear_bit 11 (clear_bit 7
     (clear_bit 5 (ucast f))))))))"

definition virtio_disk_init :: "vregs \<Rightarrow> 'a vstate_scheme \<Rightarrow> ('a vstate_scheme, unit) res" where
  "virtio_disk_init r s =
     (if vr_magic r \<noteq> 0x74726976 \<or> vr_version r \<noteq> 2 \<or> vr_device r \<noteq> 2 \<or> vr_vendor r \<noteq> 0x554d4551
      then Panic ''could not find virtio disk''
      else if vr_status r AND 8 = 0 then Panic ''virtio disk FEATURES_OK unset''
      else if vr_ready r \<noteq> 0 then Panic ''virtio disk should not be ready''
      else if vr_max r = 0 then Panic ''virtio disk has no queue 0''
      else if vr_max r < of_nat NUM then Panic ''virtio disk max queue too short''
      else
        bindr (kalloc s) (\<lambda>desc s. bindr (kalloc s) (\<lambda>avail s. bindr (kalloc s) (\<lambda>used s.
        if desc = 0 \<or> avail = 0 \<or> used = 0 then Panic ''virtio disk kalloc''
        else let s = s\<lparr>mem := memset (memset (memset (mem s) desc 0 (unat PGSIZE)) avail 0 (unat PGSIZE)) used 0 (unat PGSIZE)\<rparr>
             in Ok () (upd_vd (\<lambda>v. v\<lparr>vq_desc := replicate NUM null_desc, avail_idx := 0, avail_ring := replicate NUM 0,
                  usedq_idx := 0, usedq_ring := replicate NUM 0, vd_free := replicate NUM True\<rparr>) s)))))"

definition bss_vdisk :: vdisk where
  "bss_vdisk = \<lparr>vq_desc = replicate NUM null_desc, avail_idx = 0, avail_ring = replicate NUM 0, usedq_idx = 0,
     usedq_ring = replicate NUM 0, vd_free = replicate NUM True, used_idx = 0,
     vd_info = replicate NUM \<lparr>inf_b = None, inf_status = 0\<rparr>,
     vd_ops = replicate NUM \<lparr>r_type = 0, r_reserved = 0, r_sector = 0\<rparr>, b_disk = (\<lambda>_. False)\<rparr>"

end
