(* ===== verification/Trap.thy ===== *)
theory Trap
  imports Sysfile Virtio
begin

text \<open>
  System calls on processes (\<open>kernel/sysproc.c\<close>), the dispatch of system calls (\<open>kernel/syscall.c\<close>), traps
  (\<open>kernel/trap.c\<close>), the interrupt controller (\<open>kernel/plic.c\<close>) and the boot of the kernel
  (\<open>kernel/main.c\<close>).

  The registers that a handler reads are its argument; the control registers that it writes are part
  of the state. \<open>None\<close> as the result of a system call is a call that does not return.
\<close>

section \<open>System calls on processes\<close>

definition sys_exit :: "'a iostate_scheme \<Rightarrow> ('a iostate_scheme, 64 word option) res" where
  "sys_exit s = bindr (argint 0 s) (\<lambda>n s. bindr (kexit n s) (\<lambda>_ s. Ok None s))"

definition sys_getpid :: "'a pstate_scheme \<Rightarrow> ('a pstate_scheme, 64 word) res" where
  "sys_getpid s = Ok (scast (p_pid (myproc s))) s"

definition sys_fork :: "'a iostate_scheme \<Rightarrow> ('a iostate_scheme, 64 word) res" where
  "sys_fork s = bindr (kfork s) (\<lambda>pid s. Ok (scast pid) s)"

definition sys_wait :: "'a pstate_scheme \<Rightarrow> ('a pstate_scheme, 64 word) res" where
  "sys_wait s = bindr (argaddr 0 s) (\<lambda>p s. bindr (kwait p s) (\<lambda>pid s. Ok (scast pid) s))"

definition SBRK_EAGER :: "32 word" where
  "SBRK_EAGER = 1"

definition sys_sbrk :: "'a pstate_scheme \<Rightarrow> ('a pstate_scheme, 64 word) res" where
  "sys_sbrk s =
     bindr (argint 0 s) (\<lambda>n s.
     bindr (argint 1 s) (\<lambda>t s.
     let addr = p_sz (myproc s) in
     if t = SBRK_EAGER \<or> sint n < 0
     then bindr (growproc n s) (\<lambda>r s. if sint r < 0 then Ok (-1) s else Ok addr s)
     else if addr + scast n < addr then Ok (-1) s
     else if addr + scast n > TRAPFRAME then Ok (-1) s
     else Ok addr (upd_proc (the (curp s)) (\<lambda>p. p\<lparr>p_sz := p_sz p + scast n\<rparr>) s)))"

text \<open>The loop of \<open>sys_pause\<close>; the comparison is unsigned.\<close>

definition pause_from :: "32 word \<Rightarrow> 32 word \<Rightarrow> 'a pstate_scheme \<Rightarrow> ('a pstate_scheme, 64 word) res" where
  "pause_from ticks0 n s =
     (if ticks s - ticks0 < n
      then if killed (the (curp s)) s \<noteq> 0 then Ok (-1) s else sleep ChTicks s
      else Ok 0 s)"

definition sys_pause :: "'a pstate_scheme \<Rightarrow> ('a pstate_scheme, 64 word) res" where
  "sys_pause s = bindr (argint 0 s) (\<lambda>n s. pause_from (ticks s) (if sint n < 0 then 0 else n) s)"

definition sys_kill :: "'a pstate_scheme \<Rightarrow> ('a pstate_scheme, 64 word) res" where
  "sys_kill s = bindr (argint 0 s) (\<lambda>pid s. let (r, s) = kkill pid s in Ok (scast r) s)"

definition sys_uptime :: "'a pstate_scheme \<Rightarrow> ('a pstate_scheme, 64 word) res" where
  "sys_uptime s = Ok (ucast (ticks s)) s"

definition sys_getpinfo :: "'a iostate_scheme \<Rightarrow> ('a iostate_scheme, 64 word) res" where
  "sys_getpinfo s = bindr (argaddr 0 s) (\<lambda>addr s. bindr (getpinfo addr s) (\<lambda>r s. Ok (scast r) s))"

definition sys_setpriority :: "'a pstate_scheme \<Rightarrow> ('a pstate_scheme, 64 word) res" where
  "sys_setpriority s =
     bindr (argint 0 s) (\<lambda>pid s. bindr (argint 1 s) (\<lambda>priority s.
     let (r, s) = set_priority pid priority s in Ok (scast r) s))"

section \<open>Dispatch\<close>

definition ret_val :: "('s, 64 word) res \<Rightarrow> ('s, 64 word option) res" where
  "ret_val r = bindr r (\<lambda>v s. Ok (Some v) s)"

text \<open>The table \<open>syscalls\<close>, indexed by the numbers of \<open>kernel/syscall.h\<close>.\<close>

definition syscalls :: "nat \<Rightarrow> ('a iostate_scheme \<Rightarrow> ('a iostate_scheme, 64 word option) res) option" where
  "syscalls num =
     (if num = 1 then Some (\<lambda>s. ret_val (sys_fork s))
      else if num = 2 then Some sys_exit
      else if num = 3 then Some (\<lambda>s. ret_val (sys_wait s))
      else if num = 4 then Some (\<lambda>s. ret_val (sys_pipe s))
      else if num = 5 then Some (\<lambda>s. ret_val (sys_read s))
      else if num = 6 then Some (\<lambda>s. ret_val (sys_kill s))
      else if num = 7 then Some (\<lambda>s. ret_val (sys_exec s))
      else if num = 8 then Some (\<lambda>s. ret_val (sys_fstat s))
      else if num = 9 then Some (\<lambda>s. ret_val (sys_chdir s))
      else if num = 10 then Some (\<lambda>s. ret_val (sys_dup s))
      else if num = 11 then Some (\<lambda>s. ret_val (sys_getpid s))
      else if num = 12 then Some (\<lambda>s. ret_val (sys_sbrk s))
      else if num = 13 then Some (\<lambda>s. ret_val (sys_pause s))
      else if num = 14 then Some (\<lambda>s. ret_val (sys_uptime s))
      else if num = 15 then Some (\<lambda>s. ret_val (sys_open s))
      else if num = 16 then Some (\<lambda>s. ret_val (sys_write s))
      else if num = 17 then Some (\<lambda>s. ret_val (sys_mknod s))
      else if num = 18 then Some (\<lambda>s. ret_val (sys_unlink s))
      else if num = 19 then Some (\<lambda>s. ret_val (sys_link s))
      else if num = 20 then Some (\<lambda>s. ret_val (sys_mkdir s))
      else if num = 21 then Some (\<lambda>s. ret_val (sys_close s))
      else if num = 22 then Some (\<lambda>s. ret_val (sys_getpinfo s))
      else if num = 23 then Some (\<lambda>s. ret_val (sys_setpriority s))
      else None)"

text \<open>The result tells whether the process returns from the call.\<close>

definition syscall :: "'a iostate_scheme \<Rightarrow> ('a iostate_scheme, bool) res" where
  "syscall s =
     (let me = the (curp s);
          num = (ucast (tf_get me tf_a7 s) :: 32 word) in
      case (if sint num > 0 \<and> sint num < 24 then syscalls (nat (sint num)) else None) of
        Some f \<Rightarrow> bindr (f s) (\<lambda>r s. case r of Some v \<Rightarrow> Ok True (tf_set me tf_a0 v s) | None \<Rightarrow> Ok False s)
      | None \<Rightarrow>
          bindr (printf ''%d %s: unknown sys call %d\<newline>'' [Num (ucast (p_pid (myproc s))), Str (Some (p_name (myproc s))), Num (ucast num)] s)
            (\<lambda>_ s. Ok True (tf_set me tf_a0 (-1) s)))"

section \<open>Interrupts\<close>

record tstate = vstate +
  stvec :: "64 word"
  sstatus :: "64 word"
  sepc :: "64 word"
  stimecmp :: "64 word"
  first :: bool
  plic_writes :: "(addr \<times> 32 word) list"

text \<open>What the registers and the devices give when a handler reads them: \<open>tr_lsr\<close> and \<open>tr_rx\<close> are the UART's
  line status and received characters, \<open>tr_irq\<close> the claim register of the interrupt controller.\<close>

record traps =
  tr_sstatus :: "64 word"
  tr_scause :: "64 word"
  tr_sepc :: "64 word"
  tr_stval :: "64 word"
  tr_satp :: "64 word"
  tr_tp :: "64 word"
  tr_time :: "64 word"
  tr_irq :: "32 word"
  tr_lsr :: byte
  tr_rx :: "byte list"

definition SSTATUS_SPP :: "64 word" where "SSTATUS_SPP = push_bit 8 1"
definition SSTATUS_SPIE :: "64 word" where "SSTATUS_SPIE = push_bit 5 1"
definition SSTATUS_SIE :: "64 word" where "SSTATUS_SIE = push_bit 1 1"

definition UART0_IRQ :: "32 word" where "UART0_IRQ = 10"
definition VIRTIO0_IRQ :: "32 word" where "VIRTIO0_IRQ = 1"

definition PLIC_SENABLE :: "64 word \<Rightarrow> addr" where "PLIC_SENABLE hart = PLIC + 0x2080 + hart * 0x100"
definition PLIC_SPRIORITY :: "64 word \<Rightarrow> addr" where "PLIC_SPRIORITY hart = PLIC + 0x201000 + hart * 0x2000"
definition PLIC_SCLAIM :: "64 word \<Rightarrow> addr" where "PLIC_SCLAIM hart = PLIC + 0x201004 + hart * 0x2000"

definition plic_write :: "addr \<Rightarrow> 32 word \<Rightarrow> 'a tstate_scheme \<Rightarrow> 'a tstate_scheme" where
  "plic_write a w s = s\<lparr>plic_writes := plic_writes s @ [(a, w)]\<rparr>"

definition plicinit :: "'a tstate_scheme \<Rightarrow> 'a tstate_scheme" where
  "plicinit s = plic_write (PLIC + ucast VIRTIO0_IRQ * 4) 1 (plic_write (PLIC + ucast UART0_IRQ * 4) 1 s)"

definition plicinithart :: "64 word \<Rightarrow> 'a tstate_scheme \<Rightarrow> 'a tstate_scheme" where
  "plicinithart hart s = plic_write (PLIC_SPRIORITY hart) 0
     (plic_write (PLIC_SENABLE hart) (push_bit (unat UART0_IRQ) 1 OR push_bit (unat VIRTIO0_IRQ) 1) s)"

definition plic_complete :: "64 word \<Rightarrow> 32 word \<Rightarrow> 'a tstate_scheme \<Rightarrow> 'a tstate_scheme" where
  "plic_complete hart irq s = plic_write (PLIC_SCLAIM hart) irq s"

definition clockintr :: "traps \<Rightarrow> 'a tstate_scheme \<Rightarrow> 'a tstate_scheme" where
  "clockintr r s =
     (let s = (if tr_tp r = 0 then wakeup ChTicks (s\<lparr>ticks := ticks s + 1\<rparr>) else s)
      in s\<lparr>stimecmp := tr_time r + 1000000\<rparr>)"

definition devintr :: "traps \<Rightarrow> 'a tstate_scheme \<Rightarrow> ('a tstate_scheme, 32 word) res" where
  "devintr r s =
     (if tr_scause r = 0x8000000000000009
      then
        bindr (if tr_irq r = UART0_IRQ then uartintr (tr_lsr r) (tr_rx r) s
               else if tr_irq r = VIRTIO0_IRQ then virtio_disk_intr s
               else if tr_irq r \<noteq> 0 then printf ''unexpected interrupt irq=%d\<newline>'' [Num (ucast (tr_irq r))] s
               else Ok () s) (\<lambda>_ s.
        Ok 1 (if tr_irq r \<noteq> 0 then plic_complete (tr_tp r) (tr_irq r) s else s))
      else if tr_scause r = 0x8000000000000005 then Ok 2 (clockintr r s)
      else Ok 0 s)"

section \<open>Traps\<close>

text \<open>Offsets in the trap frame that the return to user space fills.\<close>

definition tf_kernel_satp :: "64 word" where "tf_kernel_satp = 0"
definition tf_kernel_sp :: "64 word" where "tf_kernel_sp = 8"
definition tf_kernel_trap :: "64 word" where "tf_kernel_trap = 16"
definition tf_kernel_hartid :: "64 word" where "tf_kernel_hartid = 32"

definition prepare_return :: "traps \<Rightarrow> 'a tstate_scheme \<Rightarrow> 'a tstate_scheme" where
  "prepare_return r s =
     (let me = the (curp s);
          s = s\<lparr>sstatus := tr_sstatus r AND NOT SSTATUS_SIE\<rparr>;
          s = s\<lparr>stvec := TRAMPOLINE + (uservec (ksym s) - trampoline (ksym s))\<rparr>;
          s = tf_set me tf_kernel_satp (tr_satp r) s;
          s = tf_set me tf_kernel_sp (p_kstack (procs s ! me) + PGSIZE) s;
          s = tf_set me tf_kernel_trap (usertrap_pc (ksym s)) s;
          s = tf_set me tf_kernel_hartid (tr_tp r) s;
          s = s\<lparr>sstatus := (sstatus s AND NOT SSTATUS_SPP) OR SSTATUS_SPIE\<rparr>
      in s\<lparr>sepc := tf_get me tf_epc s\<rparr>)"

text \<open>How a trap from user space ends: with the page table register for the return, with the exit of
  the process, or by giving up the processor, after which it returns as in the first case.\<close>

datatype trap_end = TReturn "64 word" | TExit | TYield

definition user_return :: "traps \<Rightarrow> 'a tstate_scheme \<Rightarrow> ('a tstate_scheme, trap_end) res" where
  "user_return r s = (let s = prepare_return r s in Ok (TReturn (MAKE_SATP (p_pagetable (myproc s)))) s)"

definition trapinithart :: "'a tstate_scheme \<Rightarrow> 'a tstate_scheme" where
  "trapinithart s = s\<lparr>stvec := kernelvec (ksym s)\<rparr>"

definition usertrap :: "traps \<Rightarrow> 'a tstate_scheme \<Rightarrow> ('a tstate_scheme, trap_end) res" where
  "usertrap r s =
     (if tr_sstatus r AND SSTATUS_SPP \<noteq> 0 then Panic ''usertrap: not from user mode''
      else
        let me = the (curp s);
            s = trapinithart s;
            s = tf_set me tf_epc (tr_sepc r) s;
            die = (\<lambda>s. bindr (kexit (-1) s) (\<lambda>_ s. Ok TExit s));
            finish = (\<lambda>which_dev s.
              if killed me s \<noteq> 0 then die s
              else if which_dev = (2 :: 32 word) then Ok TYield (yield s)
              else user_return r s) in
        if tr_scause r = 8
        then if killed me s \<noteq> 0 then die s
             else bindr (syscall (tf_set me tf_epc (tf_get me tf_epc s + 4) s)) (\<lambda>back s.
                  if back then finish 0 s else Ok TExit s)
        else bindr (devintr r s) (\<lambda>which_dev s.
          if which_dev \<noteq> 0 then finish which_dev s
          else bindr (if tr_scause r = 15 \<or> tr_scause r = 13 then vmfault (p_pagetable (procs s ! me)) (tr_stval r) s
                      else Ok 0 s) (\<lambda>pa s.
            if pa \<noteq> 0 then finish 0 s
            else
              bindr (printf ''usertrap(): unexpected scause 0x%lx pid=%d\<newline>'' [Num (tr_scause r), Num (ucast (p_pid (procs s ! me)))] s) (\<lambda>_ s.
              bindr (printf ''            sepc=0x%lx stval=0x%lx\<newline>'' [Num (tr_sepc r), Num (tr_stval r)] s) (\<lambda>_ s.
              finish 0 (setkilled me s))))))"

definition kerneltrap :: "traps \<Rightarrow> 'a tstate_scheme \<Rightarrow> ('a tstate_scheme, trap_end) res" where
  "kerneltrap r s =
     (if tr_sstatus r AND SSTATUS_SPP = 0 then Panic ''kerneltrap: not from supervisor mode''
      else if tr_sstatus r AND SSTATUS_SIE \<noteq> 0 then Panic ''kerneltrap: interrupts enabled''
      else bindr (devintr r s) (\<lambda>which_dev s.
        if which_dev = 0
        then bindr (printf ''scause=0x%lx sepc=0x%lx stval=0x%lx\<newline>'' [Num (tr_scause r), Num (tr_sepc r), Num (tr_stval r)] s)
               (\<lambda>_ s. Panic ''kerneltrap'')
        else let s' = (if which_dev = 2 \<and> curp s \<noteq> None then yield s else s)
             in Ok (if which_dev = 2 \<and> curp s \<noteq> None then TYield else TReturn 0)
                  (s'\<lparr>sepc := tr_sepc r, sstatus := tr_sstatus r\<rparr>)))"

section \<open>Boot\<close>

definition forkret :: "traps \<Rightarrow> 'a tstate_scheme \<Rightarrow> ('a tstate_scheme, trap_end) res" where
  "forkret r s =
     bindr (if first s
            then bindr (fsinit ROOTDEV s) (\<lambda>_ s.
                 let s = s\<lparr>first := False\<rparr> in
                 bindr (kexec (chars ''/init'') [chars ''/init''] s) (\<lambda>a0 s.
                 let s = tf_set (the (curp s)) tf_a0 (scast a0) s in
                 if tf_get (the (curp s)) tf_a0 s = -1 then Panic ''exec'' else Ok () s))
            else Ok () s) (\<lambda>_ s.
     user_return r s)"

text \<open>The initialisation that processor 0 does in \<open>main\<close> before it enters the scheduler.\<close>

definition kmain :: "vregs \<Rightarrow> 'a tstate_scheme \<Rightarrow> ('a tstate_scheme, unit) res" where
  "kmain regs s =
     (let s = consoleinit s in
      bindr (printf ''\<newline>'' [] s) (\<lambda>_ s.
      bindr (printf ''xv6 kernel is booting\<newline>'' [] s) (\<lambda>_ s.
      bindr (printf ''\<newline>'' [] s) (\<lambda>_ s.
      bindr (kinit s) (\<lambda>_ s.
      bindr (kvminit s) (\<lambda>_ s.
      let s = procinit s;
          s = trapinithart s;
          s = plicinithart 0 (plicinit s);
          s = binit s;
          s = iinit s in
      bindr (virtio_disk_init regs s) (\<lambda>_ s. userinit s)))))))"

end
