(* ===== verification/Pipes.thy ===== *)
theory Pipes
  imports File Pagetable
begin

text \<open>
  Pipes as queues. The ring buffer of a pipe, with counters that wrap at 2^32, stands for the queue
  \<open>pipe_q\<close> of the bytes written and not yet read; \<open>pipewrite\<close> appends to it and \<open>piperead\<close> takes from its
  front, to and from the memory of the process.
\<close>

section \<open>The ring\<close>

definition pipe_q :: "pipe \<Rightarrow> byte list" where
  "pipe_q p = ring (pi_data p) (pi_nread p) (unat (pi_nwrite p - pi_nread p))"

definition pipe_ok :: "pipe \<Rightarrow> bool" where
  "pipe_ok p \<longleftrightarrow> length (pi_data p) = PIPESIZE \<and> unat (pi_nwrite p - pi_nread p) \<le> PIPESIZE"

lemma length_pipe_q [simp]: "length (pipe_q p) = unat (pi_nwrite p - pi_nread p)"
  by (simp add: pipe_q_def)

lemma pipe_full: "pipe_ok p \<Longrightarrow> pi_nwrite p = pi_nread p + of_nat PIPESIZE \<longleftrightarrow> length (pipe_q p) = PIPESIZE"
proof -
  have "pi_nwrite p = pi_nread p + of_nat PIPESIZE \<longleftrightarrow> pi_nwrite p - pi_nread p = of_nat PIPESIZE"
    by (auto simp: algebra_simps)
  also have "\<dots> \<longleftrightarrow> unat (pi_nwrite p - pi_nread p) = PIPESIZE"
    by (simp add: word_unat_eq_iff PIPESIZE_def)
  finally show ?thesis by simp
qed

lemma pipe_empty: "pi_nread p = pi_nwrite p \<longleftrightarrow> pipe_q p = []"
proof -
  have "pipe_q p = [] \<longleftrightarrow> pi_nwrite p - pi_nread p = 0" by (simp flip: length_0_conv add: unat_eq_0)
  then show ?thesis by auto
qed

definition push :: "byte \<Rightarrow> pipe \<Rightarrow> pipe" where
  "push c p = p\<lparr>pi_data := (pi_data p)[unat (pi_nwrite p) mod PIPESIZE := c], pi_nwrite := pi_nwrite p + 1\<rparr>"

lemma push_q:
  assumes "pipe_ok p" "length (pipe_q p) < PIPESIZE"
  shows "pipe_q (push c p) = pipe_q p @ [c]" "pipe_ok (push c p)"
proof -
  let ?n = "unat (pi_nwrite p - pi_nread p)" and ?r = "pi_nread p"
  have n: "?n < 512" using assms(2) by (simp add: PIPESIZE_def)
  have w: "?r + of_nat ?n = pi_nwrite p" by simp
  have e: "pi_nwrite p + 1 - ?r = (pi_nwrite p - ?r) + 1" by simp
  have len: "unat (pi_nwrite p + 1 - ?r) = Suc ?n" unfolding e unat_word_ariths(1) using n by simp
  have dl: "length (pi_data p) = 512" using assms(1) by (simp add: pipe_ok_def PIPESIZE_def)
  show "pipe_ok (push c p)" using n len dl by (simp add: pipe_ok_def push_def PIPESIZE_def)
  show "pipe_q (push c p) = pipe_q p @ [c]"
    using ring_update(2) [of "pi_data p" ?n ?r c] n dl w by (simp add: pipe_q_def push_def len PIPESIZE_def)
qed

lemma pop_q:
  assumes "pipe_ok p" "pipe_q p \<noteq> []"
  shows "pipe_q p = pi_data p ! (unat (pi_nread p) mod PIPESIZE) # pipe_q (p\<lparr>pi_nread := pi_nread p + 1\<rparr>)"
    and "pipe_ok (p\<lparr>pi_nread := pi_nread p + 1\<rparr>)"
proof -
  let ?n = "unat (pi_nwrite p - pi_nread p)"
  have "0 < ?n" using assms(2) by (simp flip: length_greater_0_conv)
  then obtain m where m: "?n = Suc m" using gr0_conv_Suc by blast
  have len: "unat (pi_nwrite p - (pi_nread p + 1)) = m"
  proof -
    have "pi_nwrite p - pi_nread p \<noteq> 0" using m by auto
    moreover have "pi_nwrite p - (pi_nread p + 1) = (pi_nwrite p - pi_nread p) - 1" by simp
    ultimately show ?thesis using m by (metis unat_minus_one diff_Suc_1)
  qed
  show "pipe_ok (p\<lparr>pi_nread := pi_nread p + 1\<rparr>)" using assms(1) len m by (simp add: pipe_ok_def)
  have "length (pi_data p) = 512" using assms(1) by (simp add: pipe_ok_def PIPESIZE_def)
  then show "pipe_q p = pi_data p ! (unat (pi_nread p) mod PIPESIZE) # pipe_q (p\<lparr>pi_nread := pi_nread p + 1\<rparr>)"
    using ring_Cons [of "pi_data p" "pi_nread p" m] by (simp add: pipe_q_def len m PIPESIZE_def)
qed

section \<open>Writing and reading\<close>

definition set_pipe :: "addr \<Rightarrow> pipe \<Rightarrow> 'a iostate_scheme \<Rightarrow> 'a iostate_scheme" where
  "set_pipe pi p s = s\<lparr>pipes := (pipes s)(pi := p)\<rparr>"

lemma set_pipe_simps [simp]:
  "pipes (set_pipe pi p s) pi = p" "mem (set_pipe pi p s) = mem s" "myproc (set_pipe pi p s) = myproc s"
  "curp (set_pipe pi p s) = curp s" "killed i (set_pipe pi p s) = killed i s"
  "set_pipe pi q (set_pipe pi p s) = set_pipe pi q s" "set_pipe pi (pipes s pi) s = s"
  "procs (set_pipe pi p s) = procs s"
  by (simp_all add: set_pipe_def myproc_def killed_def)

lemma upd_pipe_set: "upd_pipe pi f s = set_pipe pi (f (pipes s pi)) s"
  by (simp add: upd_pipe_def set_pipe_def)

lemma pipewrite_loop:
  assumes "user_range s va N" "i + n = N" "pipe_ok (pipes s pi)" "pi_readopen (pipes s pi)" "killed (the (curp s)) s = 0"
  shows "\<exists>p. pipe_ok p \<and> pi_readopen p \<and> pi_writeopen p = pi_writeopen (pipes s pi) \<and>
    pipe_q p = pipe_q (pipes s pi) @ take (min n (PIPESIZE - length (pipe_q (pipes s pi)))) (drop i (user_bytes s va N)) \<and>
    pipewrite_from pi va i n s =
      (if n \<le> PIPESIZE - length (pipe_q (pipes s pi)) then Ok (of_nat N) (wakeup (ChPipeRead pi) (set_pipe pi p s))
       else sleep (ChPipeWrite pi) (wakeup (ChPipeRead pi) (set_pipe pi p s)))"
  using assms
proof (induction n arbitrary: i s)
  case 0
  then show ?case by (intro exI [of _ "pipes s pi"]) simp
next
  case (Suc n)
  let ?p = "pipes s pi" and ?c = "user_bytes s va N ! i"
  have full: "pi_nwrite ?p = pi_nread ?p + of_nat PIPESIZE \<longleftrightarrow> length (pipe_q ?p) = PIPESIZE" using pipe_full Suc.prems(3) .
  have le: "length (pipe_q ?p) \<le> PIPESIZE" using Suc.prems(3) by (simp add: pipe_ok_def)
  show ?case
  proof (cases "length (pipe_q ?p) = PIPESIZE")
    case True
    then show ?thesis using Suc.prems full by (intro exI [of _ ?p]) simp
  next
    case False
    then have lt: "length (pipe_q ?p) < PIPESIZE" using le by simp
    note ps = push_q [OF Suc.prems(3) lt, of ?c]
    let ?t = "set_pipe pi (push ?c ?p) s"
    have cin: "copyin (p_pagetable (myproc s)) (va + of_nat i) 1 s = Ok (0, [?c]) s"
      using user_range_byte [OF Suc.prems(1), of i] Suc.prems(2) by simp
    have step: "pipewrite_from pi va i (Suc n) s = pipewrite_from pi va (Suc i) n ?t"
      using Suc.prems(4,5) full False cin by (simp add: upd_pipe_set push_def)
    have ub: "user_bytes ?t va N = user_bytes s va N" by (simp add: user_bytes_def)
    have "user_range ?t va N" using Suc.prems(1) by (simp add: user_range_def)
    moreover have "pi_readopen (push ?c ?p)" "pi_writeopen (push ?c ?p) = pi_writeopen ?p"
      using Suc.prems(4) by (simp_all add: push_def)
    ultimately obtain p where p: "pipe_ok p" "pi_readopen p" "pi_writeopen p = pi_writeopen ?p"
        "pipe_q p = pipe_q (push ?c ?p) @ take (min n (PIPESIZE - length (pipe_q (push ?c ?p)))) (drop (Suc i) (user_bytes s va N))"
        "pipewrite_from pi va (Suc i) n ?t = (if n \<le> PIPESIZE - length (pipe_q (push ?c ?p)) then Ok (of_nat N) (wakeup (ChPipeRead pi) (set_pipe pi p s))
          else sleep (ChPipeWrite pi) (wakeup (ChPipeRead pi) (set_pipe pi p s)))"
      using Suc.IH [of ?t "Suc i"] Suc.prems(2,5) ps(2) by (auto simp: ub)
    have r: "PIPESIZE - length (pipe_q ?p) = Suc (PIPESIZE - length (pipe_q (push ?c ?p)))"
      using lt by (simp add: ps(1) del: length_pipe_q)
    have d: "drop i (user_bytes s va N) = ?c # drop (Suc i) (user_bytes s va N)"
      using Suc.prems(2) by (intro Cons_nth_drop_Suc [symmetric]) (simp add: user_bytes_def)
    show ?thesis
      unfolding step p(5) r by (rule exI [of _ p]) (use p in \<open>simp add: ps(1) d del: length_pipe_q\<close>)
  qed
qed

lemma piperead_loop:
  assumes "user_range s va N" "i + n = N" "pipe_ok (pipes s pi)"
  defines "a \<equiv> \<lambda>k. utrans (mem s) (p_pagetable (myproc s)) (va + of_nat k)"
  shows "\<exists>p m. pipe_ok p \<and> pi_readopen p = pi_readopen (pipes s pi) \<and> pi_writeopen p = pi_writeopen (pipes s pi) \<and>
    pipe_q p = drop n (pipe_q (pipes s pi)) \<and> fills a i (take n (pipe_q (pipes s pi))) (mem s) m \<and>
    piperead_from pi va i n s = Ok (of_nat (i + length (take n (pipe_q (pipes s pi))))) (wakeup (ChPipeWrite pi) ((set_pipe pi p s)\<lparr>mem := m\<rparr>))"
  unfolding a_def using assms(1-3)
proof (induction n arbitrary: i s)
  case 0
  show ?case by (rule exI [of _ "pipes s pi"], rule exI [of _ "mem s"]) (use 0 in simp)
next
  case (Suc n)
  let ?p = "pipes s pi" and ?pt = "p_pagetable (myproc s)"
  let ?a = "\<lambda>k. utrans (mem s) ?pt (va + of_nat k)"
  show ?case
  proof (cases "pipe_q ?p = []")
    case True
    then show ?thesis
      by (intro exI [of _ ?p] exI [of _ "mem s"]) (use Suc.prems pipe_empty [of ?p] in simp)
  next
    case False
    note pq = pop_q [OF Suc.prems(3) False]
    let ?c = "pi_data ?p ! (unat (pi_nread ?p) mod PIPESIZE)" and ?p' = "?p\<lparr>pi_nread := pi_nread ?p + 1\<rparr>"
    obtain m1 where m1: "copyout ?pt (va + of_nat i) [?c] s = Ok 0 (s\<lparr>mem := m1\<rparr>)" "utrans m1 ?pt = utrans (mem s) ?pt"
        "user_range (s\<lparr>mem := m1\<rparr>) va N" "m1 = (mem s)(?a i := ?c)"
      using copyout_byte [OF Suc.prems(1), of i ?c] Suc.prems(2) by auto
    let ?t = "set_pipe pi ?p' (s\<lparr>mem := m1\<rparr>)"
    have my: "myproc ?t = myproc s" by (simp add: myproc_def)
    have "user_range ?t va N" using m1(3) by (simp add: user_range_def)
    then obtain p m where p: "pipe_ok p" "pi_readopen p = pi_readopen ?p" "pi_writeopen p = pi_writeopen ?p"
        "pipe_q p = drop n (pipe_q ?p')" "fills ?a (Suc i) (take n (pipe_q ?p')) m1 m"
        "piperead_from pi va (Suc i) n ?t = Ok (of_nat (Suc i + length (take n (pipe_q ?p')))) (wakeup (ChPipeWrite pi) ((set_pipe pi p ?t)\<lparr>mem := m\<rparr>))"
      using Suc.IH [of ?t "Suc i"] Suc.prems(2) pq(2) my m1(2) by (auto simp del: length_take length_pipe_q)
    have e: "(set_pipe pi p (s\<lparr>mem := m1\<rparr>))\<lparr>mem := m\<rparr> = (set_pipe pi p s)\<lparr>mem := m\<rparr>" by (simp add: set_pipe_def)
    have q: "take (Suc n) (pipe_q ?p) = ?c # take n (pipe_q ?p')" "drop (Suc n) (pipe_q ?p) = drop n (pipe_q ?p')"
      by (simp_all add: pq(1))
    have "fills ?a i (take (Suc n) (pipe_q ?p)) (mem s) m"
      unfolding q(1) using p(5) Suc.prems(1,2) m1(4) by (intro fills_Cons) (auto simp: user_range_def)
    moreover have "piperead_from pi va i (Suc n) s =
        Ok (of_nat (i + length (take (Suc n) (pipe_q ?p)))) (wakeup (ChPipeWrite pi) ((set_pipe pi p s)\<lparr>mem := m\<rparr>))"
      unfolding q(1) using False pipe_empty [of ?p] m1(1) p(6) by (simp add: upd_pipe_set e del: length_take)
    ultimately show ?thesis
      by (intro exI [of _ p] exI [of _ m] conjI) (use p(1-4) q(2) in simp_all)
  qed
qed

text \<open>
  C22. Writing to a pipe appends to its queue: while the read end is open and the process is not
  killed, \<open>pipewrite\<close> appends the bytes of the process in order, as many as fit into 512; when all fit
  it returns their number, otherwise it goes to sleep with the queue full, and in both cases it
  wakes the readers. The ring stays well formed, also when its counters wrap.
\<close>

theorem pipewrite_queue:
  assumes "user_range s va (nat (sint n))" "pipe_ok (pipes s pi)" "pi_readopen (pipes s pi)" "killed (the (curp s)) s = 0"
  shows "\<exists>p. pipe_ok p \<and>
    pipe_q p = pipe_q (pipes s pi) @ take (PIPESIZE - length (pipe_q (pipes s pi))) (user_bytes s va (nat (sint n))) \<and>
    pipewrite pi va n s =
      (if length (pipe_q (pipes s pi)) + nat (sint n) \<le> PIPESIZE
       then Ok (of_nat (nat (sint n))) (wakeup (ChPipeRead pi) (set_pipe pi p s))
       else sleep (ChPipeWrite pi) (wakeup (ChPipeRead pi) (set_pipe pi p s)))"
proof -
  let ?N = "nat (sint n)" and ?q = "pipe_q (pipes s pi)"
  obtain p where p: "pipe_ok p" "pipe_q p = ?q @ take (min ?N (PIPESIZE - length ?q)) (user_bytes s va ?N)"
      "pipewrite pi va n s = (if ?N \<le> PIPESIZE - length ?q then Ok (of_nat ?N) (wakeup (ChPipeRead pi) (set_pipe pi p s))
        else sleep (ChPipeWrite pi) (wakeup (ChPipeRead pi) (set_pipe pi p s)))"
    using pipewrite_loop [OF assms(1) _ assms(2-4), of 0 ?N] by (auto simp: pipewrite_def)
  have le: "length ?q \<le> PIPESIZE" using assms(2) by (simp add: pipe_ok_def)
  have "take (min ?N (PIPESIZE - length ?q)) (user_bytes s va ?N) = take (PIPESIZE - length ?q) (user_bytes s va ?N)"
    by (cases "?N \<le> PIPESIZE - length ?q") (simp_all add: user_bytes_def)
  then show ?thesis using p le by (intro exI [of _ p]) (auto simp del: length_pipe_q)
qed

text \<open>
  C23. Reading from a pipe takes from the front of its queue: when there is something to read or the
  write end is closed, \<open>piperead\<close> returns the smaller of the size asked for and the size of the queue,
  puts that many bytes from the front of the queue into the process's memory in order, changes no
  other byte of memory, leaves the rest of the queue and wakes the writers; on an empty pipe with
  a writer it sleeps.
\<close>

theorem piperead_queue:
  assumes "user_range s va (nat (sint n))" "pipe_ok (pipes s pi)" "killed (the (curp s)) s = 0"
  shows "if pipe_q (pipes s pi) = [] \<and> pi_writeopen (pipes s pi) then piperead pi va n s = sleep (ChPipeRead pi) s
    else \<exists>p m. pipe_ok p \<and> pipe_q p = drop (nat (sint n)) (pipe_q (pipes s pi)) \<and>
      fills (\<lambda>k. utrans (mem s) (p_pagetable (myproc s)) (va + of_nat k)) 0 (take (nat (sint n)) (pipe_q (pipes s pi))) (mem s) m \<and>
      piperead pi va n s = Ok (of_nat (length (take (nat (sint n)) (pipe_q (pipes s pi)))))
        (wakeup (ChPipeWrite pi) ((set_pipe pi p s)\<lparr>mem := m\<rparr>))"
proof (cases "pipe_q (pipes s pi) = [] \<and> pi_writeopen (pipes s pi)")
  case True
  then show ?thesis using assms(3) pipe_empty [of "pipes s pi"] by (simp add: piperead_def)
next
  case False
  then have "piperead pi va n s = piperead_from pi va 0 (nat (sint n)) s"
    using pipe_empty [of "pipes s pi"] by (auto simp: piperead_def)
  then show ?thesis
    using False piperead_loop [OF assms(1) _ assms(2), of 0 "nat (sint n)"] by (auto simp del: length_take)
qed

text \<open>A process whose page at address 0 is mapped, writing two bytes and reading one.\<close>

lemma demo_range: "user_range (demo_io one_map (demo_proc RUNNING 10\<lparr>p_pagetable := 0x80001000\<rparr>)) 0 2"
proof -
  let ?s = "demo_io one_map (demo_proc RUNNING 10\<lparr>p_pagetable := 0x80001000\<rparr>)"
  have s: "mem ?s = one_map" "p_pagetable (myproc ?s) = 0x80001000" by (simp_all add: demo_io_defs myproc_def)
  note w = one_map_writable
  show ?thesis
    unfolding user_range_def s using one_map_table(1) w
    by (auto simp: MAXVA_def inj_on_def less_2_cases_iff)
qed

theorem pipewrite_queue_witness:
  "let s = demo_io one_map (demo_proc RUNNING 10\<lparr>p_pagetable := 0x80001000\<rparr>)
   in \<exists>t. pipewrite 0x80005000 0 2 s = Ok 2 t \<and> length (pipe_q (pipes t 0x80005000)) = 2"
proof -
  let ?s = "demo_io one_map (demo_proc RUNNING 10\<lparr>p_pagetable := 0x80001000\<rparr>)"
  have e: "pipe_ok (pipes ?s 0x80005000)" "pi_readopen (pipes ?s 0x80005000)" "killed (the (curp ?s)) ?s = 0"
      "pipe_q (pipes ?s 0x80005000) = []" "sint (2 :: 32 word) = 2"
    by (simp_all add: demo_io_defs bss_pipe_def pipe_ok_def killed_def bss_proc_def pipe_q_def ring_def)
  have "length (user_bytes ?s 0 2) = 2" by (simp add: user_bytes_def)
  then show ?thesis
    using pipewrite_queue [of ?s 0 2 "0x80005000"] demo_range e
    by (auto simp: PIPESIZE_def wakeup_def Let_def simp del: length_pipe_q)
qed

theorem piperead_queue_witness:
  "let s = set_pipe 0x80005000 (push 7 bss_pipe) (demo_io one_map (demo_proc RUNNING 10\<lparr>p_pagetable := 0x80001000\<rparr>))
   in \<exists>t. piperead 0x80005000 0 2 s = Ok 1 t \<and> mem t 0x80004000 = 7"
proof -
  let ?d = "demo_io one_map (demo_proc RUNNING 10\<lparr>p_pagetable := 0x80001000\<rparr>)"
  let ?s = "set_pipe 0x80005000 (push 7 bss_pipe) ?d"
  have ok: "pipe_ok bss_pipe" "pipe_q bss_pipe = []" by (simp_all add: pipe_ok_def pipe_q_def ring_def bss_pipe_def)
  have q: "pipe_q (push 7 bss_pipe) = [7]" "pipe_ok (push 7 bss_pipe)"
    using push_q [OF ok(1), of 7] ok(2) by (simp_all add: PIPESIZE_def del: length_pipe_q)
  have "user_range ?s 0 2" using demo_range by (simp add: user_range_def)
  moreover have e: "killed (the (curp ?s)) ?s = 0" "mem ?s = one_map" "p_pagetable (myproc ?s) = 0x80001000" "sint (2 :: 32 word) = 2"
    by (simp_all add: demo_io_defs killed_def bss_proc_def myproc_def)
  ultimately show ?thesis
    using piperead_queue [of ?s 0 2 "0x80005000"] q one_map_writable
    by (auto simp: wakeup_def fills_def simp del: length_pipe_q)
qed

end
