(* ===== verification/Tty.thy ===== *)
theory Tty
  imports Pipes
begin

text \<open>
  The console's line discipline as an abstract machine: a queue \<open>avail\<close> of characters that readers may
  have and the line \<open>edit\<close> being typed. The circular buffer of \<open>kernel/console.c\<close> with its three counters
  implements it. Also the correctness of \<open>printint\<close>.
\<close>

section \<open>Output\<close>

definition echo :: "32 word \<Rightarrow> byte list" where
  "echo c = (if c = BACKSPACE then [8, 32, 8] else [ucast c])"

definition emit :: "byte list \<Rightarrow> 'a cstate_scheme \<Rightarrow> 'a cstate_scheme" where
  "emit cs s = s\<lparr>uart_out := uart_out s @ cs\<rparr>"

lemma emit_simps [simp]:
  "cons (emit cs s) = cons s" "panicked (emit cs s) = panicked s" "procs (emit cs s) = procs s"
  "emit ds (emit cs s) = emit (cs @ ds) s" "emit [] s = s" "emit cs (s\<lparr>cons := k\<rparr>) = (emit cs s)\<lparr>cons := k\<rparr>"
  by (simp_all add: emit_def)

lemma consputc_emit: "\<not> panicked s \<Longrightarrow> consputc c s = Ok () (emit (echo c) s)"
  by (simp add: consputc_def uartputc_sync_def thr_def emit_def echo_def)

lemma consputs_emit: "\<not> panicked s \<Longrightarrow> consputs cs s = Ok () (emit (concat (map echo cs)) s)"
  unfolding consputs_def by (induction cs arbitrary: s) (simp_all add: consputc_emit)

lemma printf_emit: "\<not> panicked s \<Longrightarrow> printf fmt ap s = Ok () (emit (concat (map echo (printf_chars (chars fmt) ap))) s)"
  by (simp add: printf_def consputs_emit)

lemma procdump_emit: "\<not> panicked s \<Longrightarrow> \<exists>cs. procdump s = Ok () (emit cs s)"
proof -
  assume p: "\<not> panicked s"
  let ?f = "\<lambda>i s. let p = procs s ! i in if p_state p = UNUSED then Ok () s
      else bindr (printf ''%d %s %s'' [Num (ucast (p_pid p)), Str (Some (chars (state_name (p_state p)))), Str (Some (p_name p))] s)
        (\<lambda>_ s. printf ''\<newline>'' [] s)"
  have loop: "\<exists>cs. forM is ?f s = Ok () (emit cs s)" if "\<not> panicked s" for "is" and s :: "'a cstate_scheme"
    using that
  proof (induction "is" arbitrary: s)
    case (Cons i "is")
    have "\<exists>cs. ?f i s = Ok () (emit cs s)"
      using Cons.prems by (auto simp: Let_def printf_emit intro: exI [of _ "[]"])
    then obtain cs where cs: "?f i s = Ok () (emit cs s)" by blast
    obtain ds where ds: "forM is ?f (emit cs s) = Ok () (emit ds (emit cs s))"
      using Cons.IH [of "emit cs s"] Cons.prems by auto
    have "forM (i # is) ?f s = Ok () (emit (cs @ ds) s)" unfolding forM.simps cs bindr.simps ds by simp
    then show ?case by blast
  qed (auto intro: exI [of _ "[]"])
  let ?nl = "concat (map echo (printf_chars (chars ''\<newline>'') []))"
  obtain cs where "forM [0..<length (procs s)] ?f (emit ?nl s) = Ok () (emit cs (emit ?nl s))"
    using loop [of "emit ?nl s"] p by auto
  then have "procdump s = Ok () (emit (?nl @ cs) s)"
    unfolding procdump_def using p by (simp add: printf_emit)
  then show ?thesis by blast
qed

section \<open>The abstract terminal\<close>

definition whole :: "console \<Rightarrow> byte list" where
  "whole k = ring (c_buf k) (c_r k) (unat (c_e k - c_r k))"

definition avail :: "console \<Rightarrow> byte list" where
  "avail k = take (unat (c_w k - c_r k)) (whole k)"

definition edit :: "console \<Rightarrow> byte list" where
  "edit k = drop (unat (c_w k - c_r k)) (whole k)"

definition tty_ok :: "console \<Rightarrow> bool" where
  "tty_ok k \<longleftrightarrow> length (c_buf k) = INPUT_BUF_SIZE \<and> unat (c_w k - c_r k) \<le> unat (c_e k - c_r k) \<and>
     unat (c_e k - c_r k) \<le> INPUT_BUF_SIZE \<and> 10 \<notin> set (edit k)"

text \<open>A character typed at the terminal.\<close>

definition tty_in :: "32 word \<Rightarrow> byte list \<times> byte list \<Rightarrow> byte list \<times> byte list" where
  "tty_in c = (\<lambda>(av, ed).
     if c = 0x15 then (av, [])
     else if c = 8 \<or> c = 0x7f then (av, butlast ed)
     else if c = 0x10 \<or> c = 0 \<or> length av + length ed \<ge> INPUT_BUF_SIZE then (av, ed)
     else let c' = (if c = 13 then 10 else c); ed' = ed @ [ucast c'] in
       if c' = 10 \<or> c' = 4 \<or> length av + length ed' = INPUT_BUF_SIZE then (av @ ed', []) else (av, ed'))"

lemma ctrl_values [simp]:
  "ctrl CHR ''P'' = 0x10" "ctrl CHR ''U'' = 0x15" "ctrl CHR ''H'' = 8" "ctrl CHR ''D'' = 4"
  by (simp_all add: ctrl_def)

lemma tty_lengths:
  assumes "tty_ok k"
  shows "length (whole k) = unat (c_e k - c_r k)" "length (avail k) = unat (c_w k - c_r k)"
    "length (edit k) = unat (c_e k - c_w k)" "whole k = avail k @ edit k"
    "length (c_buf k) = 128" "unat (c_e k - c_r k) \<le> 128"
proof -
  have le: "c_w k - c_r k \<le> c_e k - c_r k" using assms by (simp add: tty_ok_def word_le_nat_alt)
  have "c_e k - c_w k = (c_e k - c_r k) - (c_w k - c_r k)" by simp
  then have "unat (c_e k - c_w k) = unat (c_e k - c_r k) - unat (c_w k - c_r k)" using unat_sub [OF le] by metis
  then show "length (edit k) = unat (c_e k - c_w k)" by (simp add: edit_def whole_def)
  show "length (avail k) = unat (c_w k - c_r k)" using assms by (simp add: avail_def whole_def tty_ok_def)
qed (use assms in \<open>simp_all add: whole_def avail_def edit_def tty_ok_def INPUT_BUF_SIZE_def\<close>)

text \<open>Moving the end of the edited line back or forth.\<close>

lemma tty_shrink:
  assumes "tty_ok k" "n \<le> length (edit k)"
  defines "k' \<equiv> k\<lparr>c_e := c_e k - of_nat n\<rparr>"
  shows "tty_ok k'" "avail k' = avail k" "edit k' = take (length (edit k) - n) (edit k)"
proof -
  note l = tty_lengths [OF assms(1)]
  let ?u = "unat (c_e k - c_r k)" and ?a = "unat (c_w k - c_r k)"
  have n: "n \<le> ?u" "?a + n \<le> ?u" using assms(2) l(1-4) by (metis le_add2 le_trans length_append, metis add_le_cancel_left length_append)
  have "unat (of_nat n :: 32 word) = n" using n(1) l(6) by (simp add: unat_of_nat)
  then have d: "unat (c_e k - c_r k - of_nat n) = ?u - n" using n(1) by (simp add: unat_sub word_le_nat_alt)
  have e: "c_e k' - c_r k' = c_e k - c_r k - of_nat n" by (simp add: k'_def)
  have u: "unat (c_e k' - c_r k') = ?u - n" unfolding e d ..
  have "ring (c_buf k) (c_r k) ?u = ring (c_buf k) (c_r k) (?u - n) @ ring (c_buf k) (c_r k + of_nat (?u - n)) n"
    using ring_append [of "c_buf k" "c_r k" "?u - n" n] n(1) l(5) by simp
  then have w: "whole k' = take (?u - n) (whole k)" using u by (simp add: whole_def k'_def)
  have an: "?a \<le> ?u - n" using n(2) by linarith
  then show av: "avail k' = avail k" using w by (simp add: avail_def) (simp add: k'_def min_def)
  show ed: "edit k' = take (length (edit k) - n) (edit k)"
    using w n l(1) by (simp add: edit_def take_drop) (simp add: k'_def add.commute)
  have "10 \<notin> set (edit k')" using assms(1) unfolding ed by (auto simp: tty_ok_def dest: in_set_takeD)
  moreover have "?u - n \<le> INPUT_BUF_SIZE" using l(6) by (simp add: INPUT_BUF_SIZE_def)
  ultimately show "tty_ok k'" using l(5) an u by (simp add: tty_ok_def) (simp add: k'_def INPUT_BUF_SIZE_def)
qed

lemma tty_grow:
  fixes c :: byte
  assumes "tty_ok k" "length (whole k) < 128"
  defines "k' \<equiv> k\<lparr>c_buf := (c_buf k)[unat (c_e k) mod INPUT_BUF_SIZE := c], c_e := c_e k + 1\<rparr>"
  shows "whole k' = whole k @ [c]" "length (whole k') = unat (c_e k' - c_r k')"
proof -
  note l = tty_lengths [OF assms(1)]
  let ?u = "unat (c_e k - c_r k)"
  have lt: "?u < 128" using assms(2) l(1) by simp
  have e: "c_e k' - c_r k' = (c_e k - c_r k) + 1" by (simp add: k'_def)
  have u: "unat (c_e k' - c_r k') = Suc ?u" unfolding e unat_word_ariths(1) using lt by simp
  have w: "c_r k + of_nat ?u = c_e k" by simp
  show "whole k' = whole k @ [c]"
    using ring_update(2) [of "c_buf k" ?u "c_r k" c] lt l(5) u w by (simp add: whole_def k'_def INPUT_BUF_SIZE_def)
  then show "length (whole k') = unat (c_e k' - c_r k')" using u l(1) by simp
qed

section \<open>Input\<close>

lemma edit_last:
  assumes "tty_ok k" "c_e k \<noteq> c_w k"
  shows "edit k \<noteq> []" "last (edit k) = c_buf k ! (unat (c_e k - 1) mod INPUT_BUF_SIZE)"
proof -
  note l = tty_lengths [OF assms(1)]
  show ne: "edit k \<noteq> []" using assms(2) l(3) by (auto simp flip: length_0_conv simp: unat_eq_0)
  let ?u = "unat (c_e k - c_r k)"
  have "0 < ?u" using ne l(1,4) by (metis append_is_Nil_conv length_greater_0_conv)
  then obtain m where m: "?u = Suc m" using gr0_conv_Suc by blast
  have "c_r k + of_nat m = c_e k - 1"
  proof -
    have "c_r k + of_nat ?u = c_e k" by simp
    then show ?thesis unfolding m by (simp add: algebra_simps)
  qed
  then have "whole k = ring (c_buf k) (c_r k) m @ [c_buf k ! (unat (c_e k - 1) mod 128)]"
    using ring_Suc [of "c_buf k" "c_r k" m] l(5) by (simp add: whole_def m)
  then show "last (edit k) = c_buf k ! (unat (c_e k - 1) mod INPUT_BUF_SIZE)"
    using ne l(4) by (metis last_appendR last_snoc INPUT_BUF_SIZE_def)
qed

lemma kill_count_edit: "tty_ok k \<Longrightarrow> kill_count (c_e k) (c_w k) (c_buf k) = length (edit k)"
proof (induction "length (edit k)" arbitrary: k)
  case 0
  then have "c_e k = c_w k" using tty_lengths(3) [OF 0(2)] by (simp add: unat_eq_0)
  then show ?case using 0 by (subst kill_count.simps) simp
next
  case (Suc n)
  have ne: "c_e k \<noteq> c_w k" using Suc tty_lengths(3) [OF Suc(3)] by auto
  note el = edit_last [OF Suc(3) ne]
  have "10 \<noteq> last (edit k)" using Suc(3) el(1) last_in_set by (fastforce simp: tty_ok_def)
  then have nl: "c_buf k ! (unat (c_e k - 1) mod INPUT_BUF_SIZE) \<noteq> 10" using el(2) by simp
  let ?k = "k\<lparr>c_e := c_e k - 1\<rparr>"
  have "tty_ok ?k" "edit ?k = take (length (edit k) - 1) (edit k)"
    using tty_shrink [OF Suc(3), of 1] Suc(2) by simp_all
  then have "kill_count (c_e k - 1) (c_w k) (c_buf k) = n" using Suc(1) [of ?k] Suc(2) by simp
  then show ?case using ne nl Suc(2) by (subst kill_count.simps) simp
qed

lemma rubout_loop:
  "\<not> panicked s \<Longrightarrow> \<exists>cs. forM is (\<lambda>_ s. rubout s) s =
     Ok () ((emit cs s)\<lparr>cons := (cons s)\<lparr>c_e := c_e (cons s) - of_nat (length is)\<rparr>\<rparr>)"
proof (induction "is" arbitrary: s)
  case (Cons i "is")
  let ?t = "(emit (echo BACKSPACE) s)\<lparr>cons := (cons s)\<lparr>c_e := c_e (cons s) - 1\<rparr>\<rparr>"
  have r: "rubout s = Ok () ?t" using Cons.prems by (simp add: rubout_def consputc_emit)
  obtain cs where "forM is (\<lambda>_ s. rubout s) ?t =
     Ok () ((emit cs ?t)\<lparr>cons := (cons ?t)\<lparr>c_e := c_e (cons ?t) - of_nat (length is)\<rparr>\<rparr>)"
    using Cons.IH [of ?t] Cons.prems by auto
  then show ?case using r by (auto simp: algebra_simps intro!: exI [of _ "echo BACKSPACE @ cs"])
qed (auto intro: exI [of _ "[]"])

lemma ucast_byte_eq: "x < 256 \<Longrightarrow> y < 256 \<Longrightarrow> ucast x = (ucast y :: byte) \<longleftrightarrow> x = y" for x y :: "32 word"
  by (simp add: word_less_nat_alt unsigned_ucast_eq word_unat_eq_iff take_bit_eq_mod)

text \<open>
  C24. The console's line discipline: in every state with a well-formed buffer, the input interrupt
  handler for a character returns and does to the circular buffer exactly what the abstract terminal does: it appends
  an ordinary character to the line, erases the last one on backspace or delete, erases the whole line
  on control-U, and on newline, control-D or a full buffer hands the line to the readers and wakes
  them; input that does not fit is dropped.
\<close>

theorem consoleintr_tty:
  assumes "tty_ok (cons s)" "\<not> panicked s" "c < 256"
  shows "\<exists>t. consoleintr c s = Ok () t \<and> tty_ok (cons t) \<and>
    (avail (cons t), edit (cons t)) = tty_in c (avail (cons s), edit (cons s)) \<and>
    (avail (cons t) \<noteq> avail (cons s) \<longrightarrow>
      (\<forall>i < length (procs t). Some i \<noteq> curp t \<longrightarrow> \<not> (p_state (procs t ! i) = SLEEPING \<and> p_chan (procs t ! i) = ChConsole)))"
proof -
  let ?k = "cons s"
  note l = tty_lengths [OF assms(1)]
  have room: "c_e ?k - c_r ?k < of_nat INPUT_BUF_SIZE \<longleftrightarrow> length (avail ?k) + length (edit ?k) < INPUT_BUF_SIZE"
  proof -
    have "length (avail ?k) + length (edit ?k) = unat (c_e ?k - c_r ?k)" using l(1,4) by (metis length_append)
    then show ?thesis by (simp add: word_less_nat_alt INPUT_BUF_SIZE_def)
  qed
  consider (P) "c = 0x10" | (U) "c = 0x15" | (H) "c = 8 \<or> c = 0x7f"
    | (drop) "c \<notin> {0x10, 0x15, 8, 0x7f}" "c = 0 \<or> \<not> c_e ?k - c_r ?k < of_nat INPUT_BUF_SIZE"
    | (char) "c \<notin> {0x10, 0x15, 8, 0x7f}" "c \<noteq> 0" "c_e ?k - c_r ?k < of_nat INPUT_BUF_SIZE" by blast
  then show ?thesis
  proof cases
    case P
    obtain cs where "procdump s = Ok () (emit cs s)" using procdump_emit [OF assms(2)] by blast
    then show ?thesis using P assms(1) by (intro exI [of _ "emit cs s"]) (simp add: consoleintr_def tty_in_def)
  next
    case U
    obtain cs where r: "consoleintr c s = Ok () ((emit cs s)\<lparr>cons := ?k\<lparr>c_e := c_e ?k - of_nat (length (edit ?k))\<rparr>\<rparr>)"
      using rubout_loop [OF assms(2), of "[0..<length (edit ?k)]"] U kill_count_edit [OF assms(1)]
      by (auto simp: consoleintr_def)
    show ?thesis using tty_shrink [OF assms(1), of "length (edit ?k)"] U r by (auto simp: tty_in_def)
  next
    case H
    show ?thesis
    proof (cases "c_e ?k = c_w ?k")
      case True
      then have "edit ?k = []" using l(3) by simp
      then show ?thesis using True H assms(1) by (auto simp: consoleintr_def tty_in_def)
    next
      case False
      then have "1 \<le> length (edit ?k)" using edit_last(1) [OF assms(1)] by (simp add: Suc_le_eq)
      note sh = tty_shrink [OF assms(1) this]
      have "consoleintr c s = Ok () ((emit (echo BACKSPACE) s)\<lparr>cons := ?k\<lparr>c_e := c_e ?k - 1\<rparr>\<rparr>)"
        using H False assms(2) by (auto simp: consoleintr_def rubout_def consputc_emit)
      then show ?thesis using sh H by (auto simp: tty_in_def butlast_conv_take)
    qed
  next
    case drop
    then show ?thesis using assms(1) room by (auto simp: consoleintr_def tty_in_def not_less)
  next
    case char
    define c' where "c' = (if c = 13 then 10 else c)"
    define k1 where "k1 = ?k\<lparr>c_buf := (c_buf ?k)[unat (c_e ?k) mod INPUT_BUF_SIZE := ucast c'], c_e := c_e ?k + 1\<rparr>"
    have c': "c' < 256" "ucast c' = (10 :: byte) \<longleftrightarrow> c' = 10"
      using assms(3) ucast_byte_eq [of c' 10] by (auto simp: c'_def)
    have lt: "length (whole ?k) < 128" using char(3) room l(4) by (simp add: INPUT_BUF_SIZE_def)
    note g = tty_grow [OF assms(1) lt, of "ucast c'", folded k1_def]
    have rw: "c_r k1 = c_r ?k" "c_w k1 = c_w ?k" "length (c_buf k1) = 128" using l(5) by (simp_all add: k1_def)
    have "whole k1 = avail ?k @ edit ?k @ [ucast c']" using g(1) l(4) by simp
    moreover have "unat (c_w k1 - c_r k1) = length (avail ?k)" using l(2) rw by simp
    ultimately have av: "avail k1 = avail ?k" "edit k1 = edit ?k @ [ucast c']"
      by (simp_all add: avail_def [of k1] edit_def [of k1])
    have len: "unat (c_e k1 - c_r k1) = length (avail ?k) + length (edit ?k) + 1" using g l(4) by simp
    have full: "c_e k1 - c_r k1 = of_nat INPUT_BUF_SIZE \<longleftrightarrow> length (avail ?k) + (length (edit ?k) + 1) = INPUT_BUF_SIZE"
      unfolding word_unat_eq_iff len by (simp add: INPUT_BUF_SIZE_def)
    have lens: "length (avail ?k) + length (edit ?k) < 128" "unat (c_w ?k - c_r ?k) = length (avail ?k)"
      using lt l(2,4) by simp_all
    let ?t = "(emit (echo c') s)\<lparr>cons := k1\<rparr>" and ?u = "wakeup ChConsole ((emit (echo c') s)\<lparr>cons := k1\<lparr>c_w := c_e k1\<rparr>\<rparr>)"
    have run: "consoleintr c s = (if c' = 10 \<or> c' = 4 \<or> c_e k1 - c_r k1 = of_nat INPUT_BUF_SIZE then Ok () ?u else Ok () ?t)"
      using char assms(2) by (simp add: consoleintr_def c'_def [symmetric] consputc_emit Let_def k1_def)
    have inp: "tty_in c (avail ?k, edit ?k) = (if c' = 10 \<or> c' = 4 \<or> c_e k1 - c_r k1 = of_nat INPUT_BUF_SIZE
        then (avail ?k @ edit ?k @ [ucast c'], []) else (avail ?k, edit ?k @ [ucast c']))"
      using char lens(1) full by (auto simp: tty_in_def c'_def Let_def INPUT_BUF_SIZE_def)
    show ?thesis
    proof (cases "c' = 10 \<or> c' = 4 \<or> c_e k1 - c_r k1 = of_nat INPUT_BUF_SIZE")
      case True
      have cu: "cons ?u = k1\<lparr>c_w := c_e k1\<rparr>" by (simp add: wakeup_def)
      have wh: "whole (cons ?u) = whole k1" by (simp add: cu whole_def)
      have "avail (cons ?u) = whole k1" "edit (cons ?u) = []" using g(2) by (simp_all add: avail_def edit_def wh) (simp_all add: cu)
      moreover have "tty_ok (cons ?u)"
        using calculation(2) rw len lens by (simp add: tty_ok_def) (simp add: cu INPUT_BUF_SIZE_def)
      ultimately show ?thesis
        using True run inp g(1) l(4) by (intro exI [of _ ?u]) (auto simp: procs_wakeup length_procs_simps Let_def)
    next
      case False
      have "tty_ok k1" using assms(1) False c'(2) av rw len lens by (auto simp: tty_ok_def INPUT_BUF_SIZE_def)
      then show ?thesis using False run inp av by (intro exI [of _ ?t]) simp
    qed
  qed
qed

section \<open>Reading a line\<close>

text \<open>What a reader takes from the queue: up to \<open>n\<close> characters, through the first newline or up to the
  first control-D, which is used up only when nothing was read before it; \<open>None\<close> when the queue runs
  out first.\<close>

fun take_line :: "nat \<Rightarrow> bool \<Rightarrow> byte list \<Rightarrow> (byte list \<times> byte list) option" where
  "take_line 0 got av = Some ([], av)"
| "take_line (Suc n) got [] = None"
| "take_line (Suc n) got (c # av) =
     (if c = 4 then Some ([], if got then c # av else av)
      else if c = 10 then Some ([c], av)
      else map_option (\<lambda>(out, rest). (c # out, rest)) (take_line n True av))"

lemma ucast_eq_4: "ucast x = (4 :: 32 word) \<longleftrightarrow> x = 4" for x :: byte
proof -
  have "unat x < 2 ^ LENGTH(8)" by (rule unsigned_less)
  then have "take_bit 32 (unat x) = unat x" by (intro take_bit_nat_eq_self) simp
  then show ?thesis by (simp add: word_unat_eq_iff unsigned_ucast_eq)
qed

lemma take_line_length: "take_line n got av = Some (out, rest) \<Longrightarrow> length out \<le> n"
proof (induction n got av arbitrary: out rule: take_line.induct)
  case (3 n got c av)
  then show ?case by (fastforce split: if_splits)
qed auto

lemma tty_pop:
  assumes "tty_ok k" "c_r k \<noteq> c_w k"
  defines "k' \<equiv> k\<lparr>c_r := c_r k + 1\<rparr>"
  shows "avail k = c_buf k ! (unat (c_r k) mod INPUT_BUF_SIZE) # avail k'" "edit k' = edit k" "tty_ok k'"
proof -
  note l = tty_lengths [OF assms(1)]
  let ?u = "unat (c_e k - c_r k)" and ?a = "unat (c_w k - c_r k)"
  have "0 < ?a" using assms(2) by (simp add: unat_gt_0)
  then obtain m where m: "?a = Suc m" using gr0_conv_Suc by blast
  moreover have "?a \<le> ?u" using assms(1) by (simp add: tty_ok_def)
  ultimately obtain n where n: "?u = Suc n" "m \<le> n" by (cases ?u) auto
  have dec: "unat (x - (c_r k + 1)) = j" if "unat (x - c_r k) = Suc j" for x j
  proof -
    have "x - c_r k \<noteq> 0" using that by auto
    moreover have "x - (c_r k + 1) = (x - c_r k) - 1" by simp
    ultimately show ?thesis using that by (metis unat_minus_one diff_Suc_1)
  qed
  have u: "unat (c_e k' - c_r k') = n" "unat (c_w k' - c_r k') = m" using dec n m by (simp_all add: k'_def)
  have w: "whole k = c_buf k ! (unat (c_r k) mod INPUT_BUF_SIZE) # whole k'"
    using ring_Cons [of "c_buf k" "c_r k" n] l(5) n(1) u(1) by (simp add: whole_def INPUT_BUF_SIZE_def) (simp add: k'_def)
  show "avail k = c_buf k ! (unat (c_r k) mod INPUT_BUF_SIZE) # avail k'" using w m u by (simp add: avail_def)
  show e: "edit k' = edit k" using w m u by (simp add: edit_def)
  show "tty_ok k'" using assms(1) e u n l(6) by (simp add: tty_ok_def INPUT_BUF_SIZE_def) (simp add: k'_def)
qed

lemma consoleread_loop:
  assumes "user_range s va N" "i + n = N" "tty_ok (cons s)" "take_line n (0 < i) (avail (cons s)) = Some (out, rest)"
  shows "\<exists>k m. tty_ok k \<and> avail k = rest \<and> edit k = edit (cons s) \<and>
    fills (\<lambda>k. utrans (mem s) (p_pagetable (myproc s)) (va + of_nat k)) i out (mem s) m \<and>
    consoleread_from (UserDst (va + of_nat i)) N n s = Ok (of_nat (i + length out)) (s\<lparr>cons := k, mem := m\<rparr>)"
  using assms
proof (induction n arbitrary: i s out)
  case 0
  then show ?case by (intro exI [of _ "cons s"] exI [of _ "mem s"]) auto
next
  case (Suc n)
  let ?k = "cons s" and ?pt = "p_pagetable (myproc s)"
  let ?a = "\<lambda>j. utrans (mem s) ?pt (va + of_nat j)" and ?c = "c_buf (cons s) ! (unat (c_r (cons s)) mod INPUT_BUF_SIZE)"
  have ne: "c_r ?k \<noteq> c_w ?k"
  proof
    assume "c_r ?k = c_w ?k"
    then have "avail ?k = []" by (simp add: avail_def)
    then show False using Suc.prems(4) by simp
  qed
  let ?k1 = "?k\<lparr>c_r := c_r ?k + 1\<rparr>"
  note pop = tty_pop [OF Suc.prems(3) ne]
  have N: "N - Suc n = i" "N - n = Suc i" "Suc n < N \<longleftrightarrow> 0 < i" using Suc.prems(2) by auto
  note c4 = ucast_eq_4 [of ?c]
  show ?case
  proof (cases "?c = 4")
    case True
    then have o: "out = []" "rest = (if 0 < i then avail ?k else avail ?k1)" using Suc.prems(4) pop(1) by auto
    have "consoleread_from (UserDst (va + of_nat i)) N (Suc n) s = Ok (of_nat i) (s\<lparr>cons := if 0 < i then ?k else ?k1\<rparr>)"
      using True ne N c4 by simp
    then show ?thesis using o pop Suc.prems(3)
      by (intro exI [of _ "if 0 < i then ?k else ?k1"] exI [of _ "mem s"]) auto
  next
    case False
    let ?s1 = "s\<lparr>cons := ?k1\<rparr>"
    have my: "myproc ?s1 = myproc s" by (simp add: myproc_def)
    have "user_range ?s1 va N" using Suc.prems(1) by (simp add: user_range_def my)
    then obtain m1 where m1: "copyout ?pt (va + of_nat i) [?c] ?s1 = Ok 0 (?s1\<lparr>mem := m1\<rparr>)" "utrans m1 ?pt = utrans (mem s) ?pt"
        "user_range (?s1\<lparr>mem := m1\<rparr>) va N" "m1 = (mem s)(?a i := ?c)"
      using copyout_byte [of ?s1 va N i ?c] Suc.prems(2) by (auto simp: my)
    let ?t = "?s1\<lparr>mem := m1\<rparr>"
    have step: "consoleread_from (UserDst (va + of_nat i)) N (Suc n) s =
        (if ?c = 10 then Ok (of_nat (Suc i)) ?t else consoleread_from (UserDst (va + of_nat (Suc i))) N n ?t)"
      using False c4 ne N m1(1) my by (simp add: algebra_simps)
    show ?thesis
    proof (cases "?c = 10")
      case True
      have o: "out = [10]" "rest = avail ?k1" using Suc.prems(4) pop(1) True by auto
      have "fills ?a i [10] (mem s) m1" using m1(4) True by (simp add: fills_def)
      then show ?thesis using o pop True step by (intro exI [of _ ?k1] exI [of _ m1]) simp
    next
      case nl: False
      obtain out' where o: "take_line n True (avail ?k1) = Some (out', rest)" "out = ?c # out'"
        using Suc.prems(4) pop(1) False nl by auto
      have myt: "myproc ?t = myproc s" by (simp add: myproc_def)
      obtain k m where k: "tty_ok k" "avail k = rest" "edit k = edit ?k" "fills ?a (Suc i) out' m1 m"
          "consoleread_from (UserDst (va + of_nat (Suc i))) N n ?t = Ok (of_nat (Suc i + length out')) (?t\<lparr>cons := k, mem := m\<rparr>)"
        using Suc.IH [of ?t "Suc i" out'] m1(2,3) Suc.prems(2) pop o(1) by (auto simp: myt)
      have "i + length out' < N" using take_line_length [OF o(1)] Suc.prems(2) by simp
      then have "fills ?a i out (mem s) m"
        unfolding o(2) using k(4) Suc.prems(1) m1(4) by (intro fills_Cons) (auto simp: user_range_def)
      moreover have "consoleread_from (UserDst (va + of_nat i)) N (Suc n) s = Ok (of_nat (i + length out)) (s\<lparr>cons := k, mem := m\<rparr>)"
        unfolding step using nl k(5) by (simp add: o(2))
      ultimately show ?thesis using k(1-3) by (intro exI [of _ k] exI [of _ m]) simp
    qed
  qed
qed

text \<open>
  C35. Reading from the console: when the queue holds enough for the request, \<open>consoleread\<close> returns, puts
  into the process's memory exactly the characters up to and including the first newline (at most as
  many as asked for, and none from a control-D on), changes no other byte of memory, and leaves the
  rest of the queue and the line being edited.
\<close>

theorem consoleread_line:
  assumes "user_range s va (nat (sint n))" "tty_ok (cons s)" "take_line (nat (sint n)) False (avail (cons s)) = Some (out, rest)"
  shows "\<exists>k m. tty_ok k \<and> avail k = rest \<and> edit k = edit (cons s) \<and>
    fills (\<lambda>j. utrans (mem s) (p_pagetable (myproc s)) (va + of_nat j)) 0 out (mem s) m \<and>
    consoleread (UserDst va) n s = Ok (of_nat (length out)) (s\<lparr>cons := k, mem := m\<rparr>)"
  using consoleread_loop [OF assms(1) _ assms(2), of 0 "nat (sint n)" out rest] assms(3) by (simp add: consoleread_def)

text \<open>A terminal on which "a" was typed and then newline, and a reader of two characters.\<close>

lemma demo_tty: "tty_ok bss_console" "avail bss_console = []" "edit bss_console = []"
  by (simp_all add: tty_ok_def edit_def avail_def whole_def bss_console_def ring_def)

theorem consoleintr_tty_witness:
  "let s = demo_io one_map (demo_proc RUNNING 10)
   in \<exists>t. consoleintr 97 s = Ok () t \<and> avail (cons t) = [] \<and> edit (cons t) = [97]"
proof -
  let ?s = "demo_io one_map (demo_proc RUNNING 10)"
  have e: "cons ?s = bss_console" "\<not> panicked ?s" by (simp_all add: demo_io_defs)
  have "tty_in 97 ([], []) = ([], [97])" by (simp add: tty_in_def INPUT_BUF_SIZE_def)
  then show ?thesis using consoleintr_tty [of ?s 97] demo_tty e by auto
qed

theorem consoleread_line_witness:
  "let k = bss_console\<lparr>c_buf := 97 # 10 # replicate 126 0, c_w := 2, c_e := 2\<rparr>;
       s = demo_io one_map (demo_proc RUNNING 10\<lparr>p_pagetable := 0x80001000\<rparr>)\<lparr>cons := k\<rparr>
   in \<exists>t. consoleread (UserDst 0) 2 s = Ok 2 t \<and> mem t 0x80004000 = 97"
proof -
  let ?k = "bss_console\<lparr>c_buf := 97 # 10 # replicate 126 0, c_w := 2, c_e := 2\<rparr>"
  let ?d = "demo_io one_map (demo_proc RUNNING 10\<lparr>p_pagetable := 0x80001000\<rparr>)"
  let ?s = "?d\<lparr>cons := ?k\<rparr>"
  have w: "whole ?k = [97, 10]" by (simp add: whole_def ring_def bss_console_def upt_conv_Cons)
  then have k: "tty_ok ?k" "avail ?k = [97, 10]"
    by (simp_all add: tty_ok_def avail_def edit_def INPUT_BUF_SIZE_def) (simp_all add: bss_console_def)
  have s: "myproc ?s = myproc ?d" "mem ?s = one_map" "cons ?s = ?k" "p_pagetable (myproc ?d) = 0x80001000"
    by (simp_all add: myproc_def demo_io_defs)
  have "user_range ?s 0 2" using demo_range by (simp add: user_range_def s) (simp add: demo_io_defs)
  moreover have "take_line 2 False (avail ?k) = Some ([97, 10], [])" unfolding k(2) numeral_2_eq_2 by simp
  ultimately show ?thesis
    using consoleread_line [of ?s 0 2 "[97, 10]" "[]"] k(1) one_map_writable by (auto simp: s fills_def)
qed

section \<open>Printing numbers\<close>

definition digit_val :: "byte \<Rightarrow> nat" where
  "digit_val c = (if c < 58 then unat c - 48 else unat c - 87)"

text \<open>The number that a string of digits denotes, and that with an optional sign.\<close>

definition num_val :: "nat \<Rightarrow> byte list \<Rightarrow> nat" where
  "num_val base ds = foldl (\<lambda>n c. n * base + digit_val c) 0 ds"

definition int_val :: "nat \<Rightarrow> byte list \<Rightarrow> int" where
  "int_val base ds = (if ds \<noteq> [] \<and> hd ds = 45 then - int (num_val base (tl ds)) else int (num_val base ds))"

lemma digits_nth: "d < 16 \<Longrightarrow> digit_val (digits ! d) = d \<and> digits ! d \<noteq> 45"
proof -
  assume "d < 16"
  then have "d \<in> set [0..<16]" by simp
  moreover have "\<forall>d \<in> set [0..<16]. digit_val (digits ! d) = d \<and> digits ! d \<noteq> 45"
    by (simp add: upt_conv_Cons digits_def chars_def digit_val_def)
  ultimately show ?thesis by blast
qed

lemma num_val_snoc: "num_val b (ds @ [c]) = num_val b ds * b + digit_val c"
  by (simp add: num_val_def)

lemma sint_cases:
  fixes x :: "64 word"
  shows "0 \<le> sint x \<Longrightarrow> sint x = uint x" "sint x < 0 \<Longrightarrow> int (unat (- x)) = - sint x" "sint x < 0 \<Longrightarrow> unat (- x) \<le> 2 ^ 63"
proof -
  have m: "sint x = uint x - (if sint x < 0 then 2 ^ 64 else 0)"
  proof -
    have "uint x < 2 ^ LENGTH(64)" by (rule unsigned_less)
    then have u: "0 \<le> uint x" "uint x < 2 ^ 64" "take_bit 64 (uint x) = uint x" by (simp_all add: take_bit_eq_mod)
    then have "sint x = uint x - 2 ^ 64 * of_bool (bit (uint x) 63)"
      by (simp add: sint_uint signed_take_bit_eq_take_bit_minus)
    then show ?thesis using u(1,2) by (cases "bit (uint x) 63") auto
  qed
  have lo: "- (2 ^ 63) \<le> sint x" using sint_ge [of x] by simp
  show "sint x = uint x" if "0 \<le> sint x" using m that by simp
  show neg: "int (unat (- x)) = - sint x" if "sint x < 0"
  proof -
    have "uint (- x) = (- sint x) mod 2 ^ 64" using uint_word_ariths(4) [of x] m that
      by (simp only: if_True) (simp add: mod_diff_right_eq [symmetric] mod_minus_eq)
    also have "\<dots> = - sint x" using that lo by (intro mod_pos_pos_trivial) auto
    finally show ?thesis by simp
  qed
  show "unat (- x) \<le> 2 ^ 63" if "sint x < 0"
    using neg [OF that] lo by (simp del: of_nat_unat add: zle_int [symmetric])
qed

lemma digits_rev_all:
  "2 \<le> unat base \<Longrightarrow> unat base \<le> 16 \<Longrightarrow>
     num_val (unat base) (rev (digits_rev base x)) = unat x \<and> digits_rev base x \<noteq> [] \<and> 45 \<notin> set (digits_rev base x) \<and>
     (unat x < unat base ^ Suc n \<longrightarrow> length (digits_rev base x) \<le> Suc n)"
proof (induction base x arbitrary: n rule: digits_rev.induct)
  case (1 base x)
  note b = 1(2,3)
  have nb: "\<not> base < 2" using b by (simp add: word_less_nat_alt)
  let ?d = "digits ! unat (x mod base)"
  have "unat (x mod base) < unat base" using b(1) by (simp add: unat_mod)
  then have d: "digit_val ?d = unat (x mod base)" "?d \<noteq> 45" using digits_nth b(2) by simp_all
  have eq: "digits_rev base x = ?d # (if x div base \<noteq> 0 then digits_rev base (x div base) else [])"
    using nb by (subst digits_rev.simps) simp
  have val: "unat x = unat (x div base) * unat base + unat (x mod base)" by (simp add: unat_div unat_mod div_mult_mod_eq)
  show ?case
  proof (cases "x div base = 0")
    case True
    then show ?thesis using d val by (simp add: eq num_val_def)
  next
    case False
    note IH = 1(1) [OF nb False b]
    have "length (digits_rev base (x div base)) \<le> n" if n: "unat x < unat base ^ Suc n"
    proof (cases n)
      case 0
      then have "unat (x div base) = 0" using n by (simp add: unat_div)
      then show ?thesis using False by (simp add: unat_eq_0)
    next
      case (Suc k)
      have "unat (x div base) < unat base ^ Suc k"
        using n unfolding Suc by (simp add: unat_div less_mult_imp_div_less mult.commute mult.left_commute)
      then show ?thesis using IH [of k] Suc by simp
    qed
    then show ?thesis using IH [of n] False d val by (simp add: eq num_val_snoc)
  qed
qed

lemma digits_rev_val:
  assumes "base \<in> {10, 16}"
  shows "num_val (unat base) (rev (digits_rev base x)) = unat x" "digits_rev base x \<noteq> []" "45 \<notin> set (digits_rev base x)"
    "unat x < 10 ^ Suc n \<Longrightarrow> length (digits_rev base x) \<le> Suc n"
proof -
  have b: "2 \<le> unat base" "unat base \<le> 16" "10 \<le> unat base" using assms by auto
  note all = digits_rev_all [OF b(1,2), of x n]
  show "num_val (unat base) (rev (digits_rev base x)) = unat x" "digits_rev base x \<noteq> []" "45 \<notin> set (digits_rev base x)"
    using all by blast+
  show "length (digits_rev base x) \<le> Suc n" if "unat x < 10 ^ Suc n"
    using all that power_mono [OF b(3), of "Suc n"] by auto
qed

text \<open>
  \<open>printint\<close> prints the number it is given: read back as digits in the base, with a leading minus
  for a negative signed number, the characters denote the argument, also for the smallest integer,
  and there are never more than the 20 that its buffer holds.
\<close>

theorem printint_correct:
  assumes "base \<in> {10, 16}"
  shows "int_val (unat base) (printint xx base sign) = (if sign then sint xx else uint xx) \<and> length (printint xx base sign) \<le> 20"
proof -
  note dr = digits_rev_val [OF assms]
  show ?thesis
  proof (cases "sign \<and> sint xx < 0")
    case True
    note neg = sint_cases(2,3) [OF conjunct2 [OF True]]
    have p: "printint xx base sign = 45 # rev (digits_rev base (- xx))" using True by (simp add: printint_def Let_def)
    have "length (digits_rev base (- xx)) \<le> Suc 18" using neg(2) by (intro dr(4)) simp
    then show ?thesis using dr(1) [of "- xx"] neg(1) True unfolding p by (simp add: int_val_def)
  next
    case False
    then have p: "printint xx base sign = rev (digits_rev base xx)" by (auto simp: printint_def Let_def)
    have "unat xx < 2 ^ LENGTH(64)" by (rule unsigned_less)
    then have len: "length (digits_rev base xx) \<le> Suc 19" by (intro dr(4)) simp
    have "hd (rev (digits_rev base xx)) \<in> set (rev (digits_rev base xx))" using dr(2) [of xx] by (intro hd_in_set) simp
    then have "hd (rev (digits_rev base xx)) \<noteq> 45" using dr(3) [of xx] by (metis set_rev)
    then have "int_val (unat base) (printint xx base sign) = int (unat xx)" by (simp add: p int_val_def dr(1))
    moreover have "sign \<Longrightarrow> sint xx = uint xx" using False by (intro sint_cases(1)) simp
    ultimately show ?thesis using len by (simp add: p)
  qed
qed

theorem printint_correct_witness:
  "int_val 10 (printint (- 9223372036854775808) 10 True) = - 9223372036854775808 \<and> length (printint (- 9223372036854775808) 10 True) \<le> 20"
  using printint_correct [of 10 "- 9223372036854775808" True] by simp

end
