(* ===== verification/Frames.thy ===== *)
theory Frames
  imports Sysfile
begin

text \<open>
  What the operations leave alone. \<open>keeps \<pi> s r\<close> says that the outcome \<open>r\<close> of a function called in state
  \<open>s\<close>, if it returns, has the same \<open>\<pi>\<close> as \<open>s\<close>; the rules for sequencing and loops compose such facts
  the way the code composes calls.

  The projections: \<open>pcore\<close> is the process table apart from the scheduling states, which every
  \<open>wakeup\<close> may change; \<open>kenv\<close> adds memory and the page allocator; \<open>env\<close> is what the file system
  code keeps, with or without memory and with or without the reference counts of inodes.
\<close>

section \<open>Composing frame facts\<close>

definition keeps :: "('s \<Rightarrow> 'p) \<Rightarrow> 's \<Rightarrow> ('s, 'a) res \<Rightarrow> bool" where
  "keeps \<pi> s r \<longleftrightarrow> (\<forall>a t. r = Ok a t \<longrightarrow> \<pi> t = \<pi> s)"

named_theorems keeps_intros

lemma keepsD: "keeps \<pi> s r \<Longrightarrow> r = Ok a t \<Longrightarrow> \<pi> t = \<pi> s"
  by (auto simp: keeps_def)

lemma keeps_Ok [keeps_intros]: "\<pi> t = \<pi> s \<Longrightarrow> keeps \<pi> s (Ok a t)"
  by (simp add: keeps_def)

lemma keeps_other [keeps_intros, simp]: "keeps \<pi> s (Panic m)" "keeps \<pi> s (Sleep t)" "keeps \<pi> s Diverge"
  by (simp_all add: keeps_def)

lemma keeps_sleep [keeps_intros, simp]: "keeps \<pi> s (sleep ch t)"
  by (simp add: sleep_def)

lemma keeps_from: "\<pi> s' = \<pi> s \<Longrightarrow> keeps \<pi> s' r \<Longrightarrow> keeps \<pi> s r"
  by (simp add: keeps_def)

lemma keeps_bindr [keeps_intros]:
  "keeps \<pi> s r \<Longrightarrow> (\<And>a t. \<pi> t = \<pi> s \<Longrightarrow> r = Ok a t \<Longrightarrow> keeps \<pi> t (f a t)) \<Longrightarrow> keeps \<pi> s (bindr r f)"
  unfolding keeps_def bindr_eq_Ok by metis

lemma keeps_forM [keeps_intros]:
  assumes "\<And>x t. \<pi> t = \<pi> s \<Longrightarrow> x \<in> set xs \<Longrightarrow> keeps \<pi> t (f x t)"
  shows "keeps \<pi> s (forM xs f s)"
proof -
  have "\<pi> s' = \<pi> s \<Longrightarrow> set ys \<subseteq> set xs \<Longrightarrow> keeps \<pi> s' (forM ys f s')" for ys s'
    by (induction ys arbitrary: s') (auto intro!: keeps_Ok keeps_bindr assms)
  then show ?thesis by blast
qed

lemma keeps_loopM [keeps_intros]:
  assumes "\<And>x t. \<pi> t = \<pi> s \<Longrightarrow> x \<in> set xs \<Longrightarrow> keeps \<pi> t (f x t)"
  shows "keeps \<pi> s (loopM xs f s)"
proof -
  have "\<pi> s' = \<pi> s \<Longrightarrow> set ys \<subseteq> set xs \<Longrightarrow> keeps \<pi> s' (loopM ys f s')" for ys s'
    by (induction ys arbitrary: s') (auto intro!: keeps_Ok keeps_bindr assms split: option.split)
  then show ?thesis by blast
qed

lemma keeps_if [keeps_intros]: "(c \<Longrightarrow> keeps \<pi> s r) \<Longrightarrow> (\<not> c \<Longrightarrow> keeps \<pi> s r') \<Longrightarrow> keeps \<pi> s (if c then r else r')"
  by simp

lemma keeps_option [keeps_intros]:
  "(o1 = None \<Longrightarrow> keeps \<pi> s r) \<Longrightarrow> (\<And>x. o1 = Some x \<Longrightarrow> keeps \<pi> s (f x)) \<Longrightarrow>
     keeps \<pi> s (case o1 of None \<Rightarrow> r | Some x \<Rightarrow> f x)"
  by (cases o1) auto

lemma keeps_prod [keeps_intros]: "(\<And>x y. p = (x, y) \<Longrightarrow> keeps \<pi> s (f x y)) \<Longrightarrow> keeps \<pi> s (case p of (x, y) \<Rightarrow> f x y)"
  by (cases p) auto

lemma keeps_prod_app [keeps_intros]: "(\<And>x y. p = (x, y) \<Longrightarrow> keeps \<pi> s (f x y t)) \<Longrightarrow> keeps \<pi> s ((case p of (x, y) \<Rightarrow> f x y) t)"
  by (cases p) auto

lemma keeps_Let [keeps_intros]: "(\<And>x. x = v \<Longrightarrow> keeps \<pi> s (f x)) \<Longrightarrow> keeps \<pi> s (Let v f)"
  by (simp add: Let_def)

text \<open>A stronger projection keeps a weaker one.\<close>

lemma keeps_weaken: "keeps \<rho> s r \<Longrightarrow> (\<And>t. \<rho> t = \<rho> s \<Longrightarrow> \<pi> t = \<pi> s) \<Longrightarrow> keeps \<pi> s r"
  unfolding keeps_def by blast

lemmas keeps_at = keeps_from [rotated]

section \<open>Memory operations\<close>

lemma kfree_keeps [THEN keeps_at, keeps_intros]: "keeps kmem.more s (kfree p s)"
  by (auto simp: keeps_def kfree_def split: if_splits)

lemma kalloc_keeps [THEN keeps_at, keeps_intros]: "keeps kmem.more s (kalloc s)"
  by (auto simp: keeps_def kalloc_def Let_def split: if_splits)

lemma walk_from_keeps: "keeps kmem.more s (walk_from l pt va al s)"
proof (induction l arbitrary: pt s)
  case (Suc l)
  note Suc [THEN keeps_at, keeps_intros]
  show ?case unfolding walk_from.simps by (intro keeps_intros) simp_all
qed (simp add: keeps_Ok)

lemma walk_keeps [THEN keeps_at, keeps_intros]: "keeps kmem.more s (walk pt va al s)"
  unfolding walk_def by (intro keeps_intros walk_from_keeps)

lemma walkaddr_keeps [THEN keeps_at, keeps_intros]: "keeps kmem.more s (walkaddr pt va s)"
  unfolding walkaddr_def by (intro keeps_intros) simp_all

lemma mappages_from_keeps: "keeps kmem.more s (mappages_from pt a la pa perm s)"
proof (induction pt a la pa perm s rule: mappages_from.induct)
  case (1 pt a la pa perm s)
  show ?case unfolding mappages_from.simps [of pt a la pa perm s]
    by (intro keeps_intros keeps_at [OF 1]) simp_all
qed

lemma mappages_keeps [THEN keeps_at, keeps_intros]: "keeps kmem.more s (mappages pt va n pa perm s)"
  unfolding mappages_def by (intro keeps_intros mappages_from_keeps)

lemma uvmcreate_keeps [THEN keeps_at, keeps_intros]: "keeps kmem.more s (uvmcreate s)"
  unfolding uvmcreate_def by (intro keeps_intros) simp_all

lemma uvmunmap_from_keeps: "keeps kmem.more s (uvmunmap_from pt a la f s)"
proof (induction pt a la f s rule: uvmunmap_from.induct)
  case (1 pt a la f s)
  show ?case unfolding uvmunmap_from.simps [of pt a la f s]
    by (intro keeps_intros keeps_at [OF 1(1)] keeps_at [OF 1(2)] keeps_at [OF 1(3)]) simp_all
qed

lemma uvmunmap_keeps [THEN keeps_at, keeps_intros]: "keeps kmem.more s (uvmunmap pt va n f s)"
  unfolding uvmunmap_def by (intro keeps_intros uvmunmap_from_keeps)

lemma uvmdealloc_keeps [THEN keeps_at, keeps_intros]: "keeps kmem.more s (uvmdealloc pt o1 n s)"
  unfolding uvmdealloc_def by (intro keeps_intros) simp_all

lemma uvmalloc_from_keeps: "keeps kmem.more s (uvmalloc_from pt a o1 n x s)"
proof (induction pt a o1 n x s rule: uvmalloc_from.induct)
  case (1 pt a o1 n x s)
  show ?case unfolding uvmalloc_from.simps [of pt a o1 n x s]
    by (intro keeps_intros keeps_at [OF 1]) simp_all
qed

lemma uvmalloc_keeps [THEN keeps_at, keeps_intros]: "keeps kmem.more s (uvmalloc pt o1 n x s)"
  unfolding uvmalloc_def by (intro keeps_intros uvmalloc_from_keeps) simp_all

lemma freewalk_keeps: "keeps kmem.more s (freewalk d pt s)"
proof (induction d arbitrary: pt s)
  case (Suc d)
  show ?case unfolding freewalk.simps by (intro keeps_intros keeps_at [OF Suc]) simp_all
qed simp

lemma uvmfree_keeps [THEN keeps_at, keeps_intros]: "keeps kmem.more s (uvmfree pt sz s)"
  unfolding uvmfree_def by (intro keeps_intros freewalk_keeps) simp_all

lemma uvmcopy_from_keeps: "keeps kmem.more s (uvmcopy_from o1 n i sz s)"
proof (induction o1 n i sz s rule: uvmcopy_from.induct)
  case (1 o1 n i sz s)
  show ?case unfolding uvmcopy_from.simps [of o1 n i sz s]
    by (intro keeps_intros keeps_at [OF 1(1)] keeps_at [OF 1(2)] keeps_at [OF 1(3)]) simp_all
qed

lemma uvmcopy_keeps [THEN keeps_at, keeps_intros]: "keeps kmem.more s (uvmcopy o1 n sz s)"
  unfolding uvmcopy_def by (rule uvmcopy_from_keeps)

lemma uvmclear_keeps [THEN keeps_at, keeps_intros]: "keeps kmem.more s (uvmclear pt va s)"
  unfolding uvmclear_def by (intro keeps_intros) simp_all

lemma ismapped_keeps [THEN keeps_at, keeps_intros]: "keeps kmem.more s (ismapped pt va s)"
  unfolding ismapped_def by (intro keeps_intros) simp_all

lemma vmfault_keeps [THEN keeps_at, keeps_intros]: "keeps kmem.more s (vmfault pt va s)"
  unfolding vmfault_def by (intro keeps_intros) simp_all

lemma copyout_keeps_all: "keeps kmem.more s (copyout pt va src s)"
proof (induction pt va src s rule: copyout.induct)
  case (1 pt va src s)
  show ?case unfolding copyout.simps [of pt va src s]
    by (intro keeps_intros keeps_at [OF 1]) simp_all
qed

lemmas copyout_keeps [keeps_intros] = copyout_keeps_all [THEN keeps_at]

lemma copyin_keeps_all: "keeps kmem.more s (copyin pt va n s)"
proof (induction pt va n s rule: copyin.induct)
  case (1 pt va n s)
  show ?case unfolding copyin.simps [of pt va n s]
    by (intro keeps_intros keeps_at [OF 1]) simp_all
qed

lemmas copyin_keeps [keeps_intros] = copyin_keeps_all [THEN keeps_at]

lemma proc_pagetable_keeps [THEN keeps_at, keeps_intros]: "keeps kmem.more s (proc_pagetable i s)"
  unfolding proc_pagetable_def by (intro keeps_intros) simp_all

lemma proc_freepagetable_keeps [THEN keeps_at, keeps_intros]: "keeps kmem.more s (proc_freepagetable pt sz s)"
  unfolding proc_freepagetable_def by (intro keeps_intros) simp_all

text \<open>\<open>copyinstr\<close> and \<open>walkaddr\<close> change nothing at all.\<close>

lemma walk_from_reads: "keeps (\<lambda>s. s) s (walk_from l pt va False s)"
proof (induction l arbitrary: pt s)
  case (Suc l)
  show ?case unfolding walk_from.simps by (intro keeps_intros Suc) simp_all
qed (simp add: keeps_Ok)

lemma walkaddr_reads: "keeps (\<lambda>s. s) s (walkaddr pt va s)"
  unfolding walkaddr_def walk_def by (intro keeps_intros walk_from_reads) simp_all

lemma copyinstr_reads_all: "keeps (\<lambda>s. s) s (copyinstr pt va n s)"
proof (induction pt va n s rule: copyinstr.induct)
  case (1 pt va n s)
  show ?case unfolding copyinstr.simps [of pt va n s]
    by (intro keeps_intros walkaddr_reads keeps_at [OF 1]) simp_all
qed

lemma reads_keeps: "keeps (\<lambda>s. s) s r \<Longrightarrow> keeps \<pi> s r"
  by (auto simp: keeps_def)

section \<open>The buffer cache and the log\<close>

text \<open>The process table without the scheduling states.\<close>

definition pcore :: "'a pstate_scheme \<Rightarrow> nat option \<times> 32 word \<times> nat option \<times> 32 word \<times> addr \<times> ksyms \<times> proc list" where
  "pcore s = (curp s, nextpid s, initproc s, ticks s, kernel_pagetable s, ksym s,
     map (\<lambda>p. p\<lparr>p_state := UNUSED, p_chan := ChNull\<rparr>) (procs s))"

definition kmemory :: "'a kmem_scheme \<Rightarrow> memory \<times> addr \<times> addr" where
  "kmemory s = (mem s, freelist s, kend s)"

definition benv :: "'a bstate_scheme \<Rightarrow> _" where
  "benv s = (pcore s, kmemory s, bstate.more s)"

definition lenv :: "'a lstate_scheme \<Rightarrow> _" where
  "lenv s = (pcore s, kmemory s, l_start s, l_dev s, lstate.more s)"

lemma pcore_wakeup [simp]: "pcore (wakeup ch s) = pcore s"
proof -
  let ?f = "\<lambda>p. p\<lparr>p_state := UNUSED, p_chan := ChNull\<rparr>"
  have "map ?f (procs (wakeup ch s)) = map ?f (procs s)"
    by (rule nth_equalityI) (simp_all add: procs_wakeup Let_def)
  then show ?thesis by (simp add: pcore_def) (simp add: wakeup_def)
qed

lemma benv_wakeup [simp]: "benv (wakeup ch s) = benv s"
  by (simp add: benv_def kmemory_def) (simp add: wakeup_def)

lemma benv_updates [simp]:
  "benv (upd_buf i f s) = benv s" "benv (s\<lparr>lru := l\<rparr>) = benv s" "benv (s\<lparr>disk := dk\<rparr>) = benv s"
  "benv (s\<lparr>dtrace := tr\<rparr>) = benv s" "benv (disk_rw i w s) = benv s" "benv (set_bdata i x s) = benv s"
  "benv (bpin i s) = benv s" "benv (bunpin i s) = benv s"
  by (simp_all add: benv_def pcore_def kmemory_def upd_buf_def disk_rw_def set_bdata_def bpin_def bunpin_def Let_def)

lemma acquiresleep_reads [keeps_intros]: "\<pi> s' = \<pi> s \<Longrightarrow> keeps \<pi> s (acquiresleep ch lk s')"
  unfolding acquiresleep_def by (intro keeps_intros) simp_all

lemma bread_benv: "keeps benv s (bread d b s)"
  unfolding bread_def bget_def lock_buf_def by (intro keeps_intros) simp_all

lemma bwrite_benv: "keeps benv s (bwrite i s)"
  unfolding bwrite_def by (intro keeps_intros) simp_all

lemma brelse_benv: "keeps benv s (brelse i s)"
  unfolding brelse_def releasesleep_def by (intro keeps_intros) simp_all

lemma lenv_benv: "benv t = benv s \<Longrightarrow> lenv t = lenv s"
  by (cases s; cases t) (simp add: benv_def lenv_def)

lemma lenv_updates [simp]:
  "lenv (s\<lparr>l_outstanding := x\<rparr>) = lenv s" "lenv (s\<lparr>l_committing := c\<rparr>) = lenv s" "lenv (s\<lparr>l_n := n\<rparr>) = lenv s"
  "lenv (s\<lparr>l_block := bl\<rparr>) = lenv s"
  by (simp_all add: lenv_def pcore_def kmemory_def)

lemma lenv_cache [simp]:
  "lenv (wakeup ch s) = lenv s" "lenv (bpin i s) = lenv s" "lenv (bunpin i s) = lenv s" "lenv (set_bdata i x' s) = lenv s"
  by (rule lenv_benv, simp)+

lemmas bread_lenv [keeps_intros] = bread_benv [THEN keeps_weaken, OF lenv_benv, THEN keeps_at]
lemmas bwrite_lenv [keeps_intros] = bwrite_benv [THEN keeps_weaken, OF lenv_benv, THEN keeps_at]
lemmas brelse_lenv [keeps_intros] = brelse_benv [THEN keeps_weaken, OF lenv_benv, THEN keeps_at]

lemma log_write_lenv [THEN keeps_at, keeps_intros]: "keeps lenv s (log_write b s)"
  unfolding log_write_def by (intro keeps_intros) simp_all

lemma begin_op_lenv [THEN keeps_at, keeps_intros]: "keeps lenv s (begin_op s)"
  unfolding begin_op_def by (intro keeps_intros) simp_all

lemma write_head_lenv [THEN keeps_at, keeps_intros]: "keeps lenv s (write_head s)"
  unfolding write_head_def by (intro keeps_intros) simp_all

lemma install_trans_lenv [THEN keeps_at, keeps_intros]: "keeps lenv s (install_trans r s)"
  unfolding install_trans_def by (intro keeps_intros) simp_all

lemma write_log_lenv [THEN keeps_at, keeps_intros]: "keeps lenv s (write_log s)"
  unfolding write_log_def by (intro keeps_intros) simp_all

lemma commit_lenv [THEN keeps_at, keeps_intros]: "keeps lenv s (commit s)"
  unfolding commit_def by (intro keeps_intros) simp_all

lemma end_op_lenv [THEN keeps_at, keeps_intros]: "keeps lenv s (end_op s)"
  unfolding end_op_def by (intro keeps_intros) simp_all

section \<open>The file system\<close>

text \<open>\<open>M\<close> and \<open>I\<close> say how much of memory and of the identities and reference counts of inodes is kept:
  the identity, or a constant function for nothing.\<close>

definition ids :: "'a fstate_scheme \<Rightarrow> (32 word \<times> 32 word \<times> 32 word) list" where
  "ids s = map (\<lambda>ip. (i_dev ip, i_inum ip, i_ref ip)) (itable s)"

definition env :: "(memory \<times> addr \<times> addr \<Rightarrow> 'm) \<Rightarrow> ((32 word \<times> 32 word \<times> 32 word) list \<Rightarrow> 'i) \<Rightarrow> 'a fstate_scheme \<Rightarrow> _" where
  "env M I s = (pcore s, M (kmemory s), I (ids s), sb s, l_dev s, l_start s, fstate.more s)"

definition constf :: "('x \<Rightarrow> 'y) \<Rightarrow> bool" where
  "constf f \<longleftrightarrow> (\<forall>x y. f x = f y)"

lemma env_lenv: "lenv t = lenv s \<Longrightarrow> env M I t = env M I s"
  by (cases s; cases t) (simp add: lenv_def env_def ids_def)

lemma env_kmem: "constf M \<Longrightarrow> kmem.more t = kmem.more s \<Longrightarrow> env M I t = env M I s"
proof -
  assume "constf M" "kmem.more t = kmem.more s"
  moreover from this have "M (kmemory t) = M (kmemory s)" unfolding constf_def by blast
  ultimately show ?thesis by (cases s; cases t) (simp add: env_def ids_def pcore_def)
qed

lemma list_update_nth_if: "k < length xs \<Longrightarrow> xs[i := x] ! k = (if k = i then x else xs ! k)"
  by simp

lemma env_inode:
  assumes "constf I \<or> (\<forall>ip. i_dev (f ip) = i_dev ip \<and> i_inum (f ip) = i_inum ip \<and> i_ref (f ip) = i_ref ip)"
  shows "env M I (upd_inode i f s) = env M I s"
proof -
  have "I (ids (upd_inode i f s)) = I (ids s)"
  proof (cases "constf I")
    case False
    then have "map (\<lambda>ip. (i_dev ip, i_inum ip, i_ref ip)) ((itable s)[i := f (itable s ! i)]) =
        map (\<lambda>ip. (i_dev ip, i_inum ip, i_ref ip)) (itable s)"
      using assms by (intro nth_equalityI) (auto simp: list_update_nth_if)
    then show ?thesis by (simp add: ids_def upd_inode_def)
  qed (auto simp: constf_def)
  then show ?thesis by (simp add: env_def) (simp add: upd_inode_def pcore_def kmemory_def)
qed

lemma env_updates [simp]:
  "env M I (set_bdata i x s) = env M I s" "env M I (wakeup ch s) = env M I s"
  by (rule env_lenv, simp)+

lemma keeps_env_lenv: "keeps lenv s r \<Longrightarrow> keeps (env M I) s r"
  by (erule keeps_weaken) (rule env_lenv)

lemma log_ops_env [THEN keeps_at, keeps_intros]:
  "keeps (env M I) s (bread d b s)" "keeps (env M I) s (brelse i s)" "keeps (env M I) s (log_write i s)"
  "keeps (env M I) s (begin_op s)" "keeps (env M I) s (end_op s)"
  by (simp_all add: keeps_env_lenv bread_lenv brelse_lenv log_write_lenv begin_op_lenv end_op_lenv)

lemma bzero_env [THEN keeps_at, keeps_intros]: "keeps (env M I) s (bzero d b s)"
  unfolding bzero_def by (intro keeps_intros) (simp_all add: env_inode)

lemma balloc_env [THEN keeps_at, keeps_intros]: "keeps (env M I) s (balloc d s)"
  unfolding balloc_def by (intro keeps_intros) (simp_all add: env_inode)

lemma bfree_env [THEN keeps_at, keeps_intros]: "keeps (env M I) s (bfree d b s)"
  unfolding bfree_def by (intro keeps_intros) (simp_all add: env_inode)

lemma iupdate_env [THEN keeps_at, keeps_intros]: "keeps (env M I) s (iupdate i s)"
  unfolding iupdate_def by (intro keeps_intros) (simp_all add: env_inode)

lemma ilock_env [THEN keeps_at, keeps_intros]: "keeps (env M I) s (ilock p s)"
  unfolding ilock_def by (intro keeps_intros) (simp_all add: env_inode get_dinode_def)

lemma iunlock_env [THEN keeps_at, keeps_intros]: "keeps (env M I) s (iunlock p s)"
  unfolding iunlock_def by (intro keeps_intros) (simp_all add: env_inode releasesleep_def)

lemma itrunc_env [THEN keeps_at, keeps_intros]: "keeps (env M I) s (itrunc i s)"
  unfolding itrunc_def by (intro keeps_intros) (simp_all add: env_inode)

lemma iget_env [THEN keeps_at, keeps_intros]: "constf I \<Longrightarrow> keeps (env M I) s (iget d n s)"
  unfolding iget_def by (intro keeps_intros) (simp_all add: env_inode)

lemma iput_env [THEN keeps_at, keeps_intros]: "constf I \<Longrightarrow> keeps (env M I) s (iput i s)"
  unfolding iput_def by (intro keeps_intros) (simp_all add: env_inode releasesleep_def)

lemma iunlockput_env [THEN keeps_at, keeps_intros]: "constf I \<Longrightarrow> keeps (env M I) s (iunlockput i s)"
  unfolding iunlockput_def by (intro keeps_intros) (simp_all add: env_inode)

lemma ialloc_env [THEN keeps_at, keeps_intros]: "constf I \<Longrightarrow> keeps (env M I) s (ialloc d ty s)"
  unfolding ialloc_def by (intro keeps_intros) (simp_all add: env_inode)

lemma bmap_env [THEN keeps_at, keeps_intros]: "keeps (env M I) s (bmap i bn s)"
  unfolding bmap_def by (intro keeps_intros) (simp_all add: env_inode)

lemma either_copyout_env [THEN keeps_at, keeps_intros]:
  "constf M \<or> dst = ObjDst \<Longrightarrow> keeps (env M I) s (either_copyout dst bs s)"
proof (cases dst)
  case (UserDst a)
  assume "constf M \<or> dst = ObjDst"
  then show ?thesis using UserDst by (auto intro: keeps_weaken [OF copyout_keeps_all] env_kmem)
next
  case (KernDst a)
  assume "constf M \<or> dst = ObjDst"
  then show ?thesis using KernDst by (auto intro!: keeps_Ok env_kmem)
qed (simp add: keeps_Ok)

lemma either_copyin_env [THEN keeps_at, keeps_intros]:
  "constf M \<or> (\<exists>x. src = ObjSrc x) \<Longrightarrow> keeps (env M I) s (either_copyin src n s)"
proof (cases src)
  case (UserSrc a)
  assume "constf M \<or> (\<exists>x. src = ObjSrc x)"
  then show ?thesis using UserSrc by (auto intro: keeps_weaken [OF copyin_keeps_all] env_kmem)
qed (simp_all add: keeps_Ok)

lemma dst_add_Obj: "dst_add dst n = ObjDst \<longleftrightarrow> dst = ObjDst" "(\<exists>x. src_add src n = ObjSrc x) \<longleftrightarrow> (\<exists>x. src = ObjSrc x)"
  by (cases dst; simp) (cases src; simp)

lemma readi_from_env: "constf M \<or> dst = ObjDst \<Longrightarrow> keeps (env M I) s (readi_from i dst tot off n s)"
proof (induction i dst tot off n s rule: readi_from.induct)
  case (1 i dst tot off n s)
  show ?case unfolding readi_from.simps [of i dst tot off n s]
    by (intro keeps_intros keeps_at [OF 1(1)]) (use 1(2) in \<open>simp_all add: dst_add_Obj\<close>)
qed

lemma readi_env [THEN keeps_at, keeps_intros]: "constf M \<or> dst = ObjDst \<Longrightarrow> keeps (env M I) s (readi i dst off n s)"
  unfolding readi_def by (intro keeps_intros readi_from_env) simp_all

lemma writei_from_env: "constf M \<or> (\<exists>x. src = ObjSrc x) \<Longrightarrow> keeps (env M I) s (writei_from i src tot off n s)"
proof (induction i src tot off n s rule: writei_from.induct)
  case (1 i src tot off n s)
  show ?case unfolding writei_from.simps [of i src tot off n s]
    by (intro keeps_intros keeps_at [OF 1(1)]) (use 1(2) in \<open>simp_all add: dst_add_Obj\<close>)
qed

lemmas writei_from_keeps [keeps_intros] = writei_from_env [THEN keeps_at]

lemma writei_env [THEN keeps_at, keeps_intros]: "constf M \<or> (\<exists>x. src = ObjSrc x) \<Longrightarrow> keeps (env M I) s (writei i src off n s)"
  unfolding writei_def by (intro keeps_intros) (auto simp: env_inode)

lemma dirlookup_env [THEN keeps_at, keeps_intros]: "constf I \<Longrightarrow> keeps (env M I) s (dirlookup dp nm s)"
  unfolding dirlookup_def by (intro keeps_intros) (simp_all add: env_inode)

lemma dirlink_env [THEN keeps_at, keeps_intros]: "constf I \<Longrightarrow> keeps (env M I) s (dirlink dp nm n s)"
  unfolding dirlink_def by (intro keeps_intros) (simp_all add: env_inode)

lemma namex_from_env: "constf I \<Longrightarrow> keeps (env M I) s (namex_from ip path np nm s)"
proof (induction ip path np nm s rule: namex_from.induct)
  case (1 ip path np nm s)
  show ?case unfolding namex_from.simps [of ip path np nm s]
    by (intro keeps_intros keeps_at [OF 1(1)]) (use 1(2) in simp_all)
qed

lemmas namex_from_keeps [keeps_intros] = namex_from_env [THEN keeps_at]

lemma namex_env [THEN keeps_at, keeps_intros]: "constf I \<Longrightarrow> keeps (env M I) s (namex path np nm s)"
  unfolding namex_def idup_def by (intro keeps_intros) (simp_all add: env_inode)

lemma namei_env [THEN keeps_at, keeps_intros]: "constf I \<Longrightarrow> keeps (env M I) s (namei path s)"
  unfolding namei_def by (intro keeps_intros) (simp_all add: env_inode)

lemma nameiparent_env [THEN keeps_at, keeps_intros]: "constf I \<Longrightarrow> keeps (env M I) s (nameiparent path s)"
  unfolding nameiparent_def by (intro keeps_intros) (simp_all add: env_inode)

section \<open>Open files\<close>

definition fenv :: "'a iostate_scheme \<Rightarrow> _" where
  "fenv s = (pcore s, ftable s)"

lemma keeps_fenv_env: "keeps (env (\<lambda>_. ()) (\<lambda>_. ())) s r \<Longrightarrow> keeps fenv s r"
proof (erule keeps_weaken)
  fix t assume "env (\<lambda>_. ()) (\<lambda>_. ()) t = env (\<lambda>_. ()) (\<lambda>_. ()) s"
  then show "fenv t = fenv s" by (cases s; cases t) (simp add: env_def fenv_def)
qed

lemma keeps_fenv_kmem: "keeps kmem.more s r \<Longrightarrow> keeps fenv s r"
proof (erule keeps_weaken)
  fix t assume "kmem.more t = kmem.more s"
  then show "fenv t = fenv s" by (cases s; cases t) (simp add: fenv_def pcore_def)
qed

lemma fenv_updates [simp]: "fenv (wakeup ch s) = fenv s" "fenv (upd_pipe pi f s) = fenv s"
  by (simp add: fenv_def) (simp_all add: wakeup_def upd_pipe_def fenv_def pcore_def)

lemma constf_unit: "constf (\<lambda>_. ())"
  by (simp add: constf_def)

lemmas fenv_ops [keeps_intros] =
  log_ops_env(4) [OF refl, THEN keeps_fenv_env, THEN keeps_at] log_ops_env(5) [OF refl, THEN keeps_fenv_env, THEN keeps_at]
  iput_env [OF constf_unit refl, THEN keeps_fenv_env, THEN keeps_at] kfree_keeps [OF refl, THEN keeps_fenv_kmem, THEN keeps_at]

lemma pipeclose_keeps [THEN keeps_at, keeps_intros]: "keeps fenv s (pipeclose pi w s)"
  unfolding pipeclose_def by (intro keeps_intros) simp_all

lemma pcore_upd_file [simp]: "pcore (upd_file f g s) = pcore s"
  by (simp add: upd_file_def pcore_def)

lemma keeps_pcore_fenv: "keeps fenv s r \<Longrightarrow> keeps pcore s r"
  by (erule keeps_weaken) (simp add: fenv_def)

lemma fileclose_pcore [THEN keeps_at, keeps_intros]: "keeps pcore s (fileclose f s)"
proof -
  note [keeps_intros] = fenv_ops [OF refl, THEN keeps_pcore_fenv, THEN keeps_at] pipeclose_keeps [OF refl, THEN keeps_pcore_fenv, THEN keeps_at]
  show ?thesis unfolding fileclose_def by (intro keeps_intros) simp_all
qed

text \<open>Closing a file changes its own entry of the table only.\<close>

lemma fileclose_effect:
  assumes "fileclose f s = Ok () t" and len: "f < length (ftable s)"
  shows "ftable t = (ftable s)[f := let r = f_ref (ftable s ! f) - 1 in
    if 0 < sint r then (ftable s ! f)\<lparr>f_ref := r\<rparr> else (ftable s ! f)\<lparr>f_ref := 0, f_type := FD_NONE\<rparr>]"
proof -
  let ?x = "ftable s ! f"
  let ?a = "upd_file f (\<lambda>x. x\<lparr>f_ref := f_ref x - 1\<rparr>) s"
  let ?b = "upd_file f (\<lambda>x. x\<lparr>f_ref := 0, f_type := FD_NONE\<rparr>) ?a"
  show ?thesis
  proof (cases "0 < sint (f_ref ?x - 1)")
    case True
    then have "t = ?a" using assms by (auto simp: fileclose_def Let_def upd_file_def split: if_splits)
    then show ?thesis using True by (simp add: Let_def) (simp add: upd_file_def)
  next
    case False
    have "keeps fenv ?b (if f_type (ftable ?a ! f) = FD_PIPE then pipeclose (f_pipe (ftable ?a ! f)) (f_writable (ftable ?a ! f)) ?b
        else if f_type (ftable ?a ! f) = FD_INODE \<or> f_type (ftable ?a ! f) = FD_DEVICE
        then bindr (begin_op ?b) (\<lambda>_ s. bindr (iput (f_ip (ftable ?a ! f)) s) (\<lambda>_ s. end_op s))
        else Ok () ?b)" (is "keeps _ _ ?r")
      by (intro keeps_intros) simp_all
    moreover have "?r = Ok () t"
      using assms False by (auto simp: fileclose_def Let_def upd_file_def split: if_splits)
    ultimately have "fenv t = fenv ?b" by (rule keepsD)
    then show ?thesis using False len by (simp add: fenv_def Let_def) (simp add: upd_file_def)
  qed
qed

end
