(* ===== verification/Lifecycle.thy ===== *)
theory Lifecycle
  imports Frames Pagetable
begin

text \<open>
  Properties of the life of a process (\<open>kernel/proc.c\<close>): \<open>allocproc\<close> builds a process whose page table maps
  the trampoline and the trap frame and nothing else, \<open>exit\<close> closes, reparents and wakes, \<open>wait\<close> reaps.
\<close>

lemma pstate_fields:
  assumes "kmem.more t = kmem.more (s :: 'a pstate_scheme)"
  shows "procs t = procs s" "nextpid t = nextpid s" "initproc t = initproc s" "curp t = curp s" "ticks t = ticks s"
    "kernel_pagetable t = kernel_pagetable s" "ksym t = ksym s" "pstate.more t = pstate.more s"
  using assms by (cases s; cases t; simp)+

section \<open>Allocation\<close>

lemma uvmcreate_ok:
  assumes "kmem_inv s (p # ps)"
  shows "\<exists>t. uvmcreate s = Ok p t \<and> kmem_inv t ps \<and> usable t = usable s \<and> p \<noteq> 0 \<and>
    pt_wf (mem t) 2 p \<and> pt_pages (mem t) 2 p = {p} \<and> (\<forall>va. lookup (mem t) 2 p va = 0)"
proof -
  obtain t where t: "kalloc s = Ok p t" "kmem_inv t ps" "usable t = usable s" using kalloc_some [OF assms] by blast
  have p: "page p" "p \<noteq> 0" "p \<notin> set ps" using kmem_inv_pages [OF assms, of p] assms by (auto simp: kmem_inv_def)
  let ?u = "t\<lparr>mem := memset (mem t) p 0 4096\<rparr>"
  have "same (mem t) (memset (mem t) p 0 4096) q" if "q \<in> set ps" for q
    using p that kmem_inv_pages [OF t(2) that] not_in_page [OF p(1)] memset_page_other unfolding same_def by metis
  then have "kmem_inv ?u ps" by (intro kmem_inv_frame [OF t(2)])
  moreover note pt_zero [OF p(1,2) entry_memset [of _ "mem t"], of 2]
  ultimately show ?thesis using t p by (simp add: uvmcreate_def del: pt_wf.simps pt_pages.simps lookup.simps)
qed

text \<open>The map that a new page table holds.\<close>

definition new_map :: "addr \<Rightarrow> addr \<Rightarrow> 64 word \<Rightarrow> 64 word" where
  "new_map tramp tf va =
     (if PGROUNDDOWN va = TRAMPOLINE then PA2PTE tramp OR (PTE_R OR PTE_X) OR PTE_V
      else if PGROUNDDOWN va = TRAPFRAME then PA2PTE tf OR (PTE_R OR PTE_W) OR PTE_V
      else 0)"

lemma new_map_user: "new_map tramp tf va AND PTE_U = 0"
proof (rule bit_word_eqI)
  fix n
  show "bit (new_map tramp tf va AND PTE_U) n = bit (0 :: 64 word) n"
    by (cases "n = 4") (simp_all add: bit_and_iff bit_PTE new_map_def PA2PTE_def PTE_R_def PTE_W_def PTE_X_def PTE_V_def bit_push_bit_iff bit_or_iff)
qed

lemma trap_pages: "page TRAMPOLINE" "TRAMPOLINE < MAXVA" "page TRAPFRAME" "TRAPFRAME < MAXVA" "TRAPFRAME \<noteq> TRAMPOLINE"
    "PGROUNDDOWN TRAPFRAME = TRAPFRAME"
  by (simp_all add: TRAPFRAME_def TRAMPOLINE_def MAXVA_def PGSIZE_def page_def PGROUNDDOWN_alt)

lemma proc_pagetable_ok:
  assumes "kmem_inv s ps" "5 \<le> length ps"
  shows "\<exists>pt t ps'. proc_pagetable i s = Ok pt t \<and> pt \<noteq> 0 \<and> kmem_inv t ps' \<and> set ps' \<subseteq> set ps \<and>
    kmem.more t = kmem.more s \<and> pt_wf (mem t) 2 pt \<and>
    (\<forall>va < MAXVA. lookup (mem t) 2 pt va = new_map (trampoline (ksym s)) (p_trapframe (procs s ! i)) va)"
proof -
  obtain p ps0 where ps: "ps = p # ps0" "4 \<le> length ps0" using assms(2) by (cases ps) auto
  obtain t0 where t0: "uvmcreate s = Ok p t0" "kmem_inv t0 ps0" "p \<noteq> 0" "pt_wf (mem t0) 2 p" "pt_pages (mem t0) 2 p = {p}"
      "\<And>va. lookup (mem t0) 2 p va = 0"
    using uvmcreate_ok [OF assms(1) [unfolded ps(1)]] by blast
  have d: "pt_pages (mem t0) 2 p \<inter> set ps0 = {}" using assms(1) t0(5) by (simp add: ps(1) kmem_inv_def)
  have m0: "kmem.more t0 = kmem.more s" by (rule keepsD [OF uvmcreate_keeps [OF refl] t0(1)])
  have nv: "\<not> valid (lookup (mem t0) 2 p TRAMPOLINE)" by (simp add: t0(6) valid_PTE del: lookup.simps)
  obtain t1 ps1 where t1: "mappages p TRAMPOLINE PGSIZE (trampoline (ksym s)) (PTE_R OR PTE_X) t0 = Ok 0 t1" "kmem_inv t1 ps1"
      "set ps1 \<subseteq> set ps0" "2 \<le> length ps1" "pt_wf (mem t1) 2 p" "pt_pages (mem t1) 2 p \<inter> set ps1 = {}"
      "\<And>va. va < MAXVA \<Longrightarrow> lookup (mem t1) 2 p va =
         (if PGROUNDDOWN va = TRAMPOLINE then PA2PTE (trampoline (ksym s)) OR (PTE_R OR PTE_X) OR PTE_V else 0)"
    using mappages_spec [OF t0(2,4) d trap_pages(1,2) nv, of "trampoline (ksym s)" "PTE_R OR PTE_X"] ps(2) t0(6) by force
  have m1: "kmem.more t1 = kmem.more s" using keepsD [OF mappages_keeps [OF refl] t1(1)] m0 by simp
  have nv1: "\<not> valid (lookup (mem t1) 2 p TRAPFRAME)"
    using trap_pages(5,6) by (simp add: t1(7) [OF trap_pages(4)] valid_PTE)
  obtain t2 ps2 where t2: "mappages p TRAPFRAME PGSIZE (p_trapframe (procs s ! i)) (PTE_R OR PTE_W) t1 = Ok 0 t2" "kmem_inv t2 ps2"
      "set ps2 \<subseteq> set ps1" "pt_wf (mem t2) 2 p"
      "\<And>va. va < MAXVA \<Longrightarrow> lookup (mem t2) 2 p va =
         (if PGROUNDDOWN va = TRAPFRAME then PA2PTE (p_trapframe (procs s ! i)) OR (PTE_R OR PTE_W) OR PTE_V else lookup (mem t1) 2 p va)"
    using mappages_spec [OF t1(2,5,6) trap_pages(3,4) nv1, of "p_trapframe (procs s ! i)" "PTE_R OR PTE_W"] t1(4) by force
  have m2: "kmem.more t2 = kmem.more s" using keepsD [OF mappages_keeps [OF refl] t2(1)] m1 by simp
  have f: "ksym t0 = ksym s" "procs t1 = procs s" using pstate_fields [OF m0] pstate_fields [OF m1] by simp_all
  have "proc_pagetable i s = Ok p t2" using t0(1,3) t1(1) t2(1) by (simp add: proc_pagetable_def f)
  moreover have "lookup (mem t2) 2 p va = new_map (trampoline (ksym s)) (p_trapframe (procs s ! i)) va" if "va < MAXVA" for va
    using t2(5) [OF that] t1(7) [OF that] trap_pages(5) by (auto simp: new_map_def)
  ultimately show ?thesis using t0(3) t2(2,3,4) t1(3) m2 ps(1) by (intro exI conjI) (assumption | auto)+
qed

text \<open>What \<open>allocproc\<close> gives a process when a slot and six pages are free.\<close>

lemma allocproc_spec:
  assumes "kmem_inv s ps" "6 \<le> length ps" "find_idx (\<lambda>p. p_state p = UNUSED) (procs s) = Some i"
  shows "\<exists>t tf pt. allocproc s = Ok (Some i) t \<and>
    procs t = (procs s)[i := (procs s ! i)\<lparr>p_pid := nextpid s, p_priority := 10, p_runs := 0, p_state := USED,
      p_trapframe := tf, p_pagetable := pt,
      p_context := zero_context\<lparr>cx_ra := forkret_pc (ksym s), cx_sp := p_kstack (procs s ! i) + PGSIZE\<rparr>\<rparr>] \<and>
    nextpid t = nextpid s + 1 \<and> tf \<in> set ps \<and>
    (\<forall>va < MAXVA. lookup (mem t) 2 pt va = new_map (trampoline (ksym s)) tf va \<and> walkaddr pt va t = Ok 0 t)"
proof -
  obtain tf ps0 where ps: "ps = tf # ps0" "5 \<le> length ps0" using assms(2) by (cases ps) auto
  let ?a = "upd_proc i (\<lambda>p. p\<lparr>p_pid := nextpid s, p_priority := 10, p_runs := 0, p_state := USED\<rparr>) (s\<lparr>nextpid := nextpid s + 1\<rparr>)"
  have "kmem_inv ?a ps" using assms(1) by (simp add: kmem_inv_def usable_def upd_proc_def)
  then obtain t0 where t0: "kalloc ?a = Ok tf t0" "kmem_inv t0 ps0" using kalloc_some unfolding ps(1) by blast
  have tf: "tf \<noteq> 0" using kmem_inv_pages [OF assms(1), of tf] ps(1) by simp
  have m0: "kmem.more t0 = kmem.more ?a" by (rule keepsD [OF kalloc_keeps [OF refl] t0(1)])
  let ?b = "upd_proc i (\<lambda>p. p\<lparr>p_trapframe := tf\<rparr>) t0"
  have "kmem_inv ?b ps0" using t0(2) by (simp add: kmem_inv_def usable_def upd_proc_def)
  then obtain pt t1 where t1: "proc_pagetable i ?b = Ok pt t1" "pt \<noteq> 0" "kmem.more t1 = kmem.more ?b" "pt_wf (mem t1) 2 pt"
      "\<And>va. va < MAXVA \<Longrightarrow> lookup (mem t1) 2 pt va = new_map (trampoline (ksym ?b)) (p_trapframe (procs ?b ! i)) va"
    using proc_pagetable_ok ps(2) by blast
  have c: "ksym ?b = ksym s" "procs ?b = (procs s)[i := (procs s ! i)\<lparr>p_pid := nextpid s, p_priority := 10,
      p_runs := 0, p_state := USED, p_trapframe := tf\<rparr>]" "nextpid ?b = nextpid s + 1"
    using pstate_fields [OF m0] find_idx_SomeD(1) [OF assms(3)] by (simp_all add: upd_proc_def)
  have c1: "ksym t1 = ksym s" "procs t1 = procs ?b" "nextpid t1 = nextpid s + 1"
    using pstate_fields [OF t1(3)] c by simp_all
  have i: "i < length (procs s)" by (rule find_idx_SomeD(1) [OF assms(3)])
  let ?c = "upd_proc i (\<lambda>p. p\<lparr>p_context := zero_context\<lparr>cx_ra := forkret_pc (ksym s), cx_sp := p_kstack p + PGSIZE\<rparr>\<rparr>)
      (upd_proc i (\<lambda>p. p\<lparr>p_pagetable := pt\<rparr>) t1)"
  have k: "ksym (upd_proc i f t1) = ksym s" for f using c1(1) by (simp add: upd_proc_def)
  have "allocproc s = Ok (Some i) ?c"
    using assms(3) t0(1) tf t1(1,2) by (simp add: allocproc_def allocpid_def k)
  moreover have "walkaddr pt va ?c = Ok 0 ?c" if "va < MAXVA" for va
    using walkaddr_uaddr [of ?c pt va] t1(4) t1(5) [OF that] new_map_user by (simp add: uaddr_def Let_def)
  moreover have "procs ?c = (procs s)[i := (procs s ! i)\<lparr>p_pid := nextpid s, p_priority := 10, p_runs := 0, p_state := USED,
      p_trapframe := tf, p_pagetable := pt,
      p_context := zero_context\<lparr>cx_ra := forkret_pc (ksym s), cx_sp := p_kstack (procs s ! i) + PGSIZE\<rparr>\<rparr>]"
    using i c c1 by (simp add: upd_proc_def)
  moreover have "lookup (mem ?c) 2 pt va = new_map (trampoline (ksym s)) tf va" if "va < MAXVA" for va
    using t1(5) [OF that] i by (simp add: c(1,2))
  moreover have "nextpid ?c = nextpid s + 1" "tf \<in> set ps" using c1(3) ps(1) by simp_all
  ultimately show ?thesis by blast
qed

text \<open>
  C20. With a free slot and six free pages \<open>allocproc\<close> succeeds on the first unused slot: it gets the next
  process identifier, the middle priority 10, no run so far, its own trap frame page and a page table that maps
  exactly the trampoline and the trap frame, both without user access; it will start at \<open>forkret\<close> on its kernel
  stack. No other slot changes.
\<close>

theorem allocproc_ok:
  assumes "kmem_inv s ps" "6 \<le> length ps" "find_idx (\<lambda>p. p_state p = UNUSED) (procs s) = Some i"
  shows "\<exists>t tf pt. allocproc s = Ok (Some i) t \<and>
    procs t = (procs s)[i := (procs s ! i)\<lparr>p_pid := nextpid s, p_priority := 10, p_runs := 0, p_state := USED,
      p_trapframe := tf, p_pagetable := pt,
      p_context := zero_context\<lparr>cx_ra := forkret_pc (ksym s), cx_sp := p_kstack (procs s ! i) + PGSIZE\<rparr>\<rparr>] \<and>
    nextpid t = nextpid s + 1 \<and> tf \<in> set ps \<and>
    (\<forall>va < MAXVA. lookup (mem t) 2 pt va = new_map (trampoline (ksym s)) tf va \<and> walkaddr pt va t = Ok 0 t)"
  using allocproc_spec [OF assms] .

text \<open>A machine with a given list of free pages.\<close>

lemma with_free_pages:
  assumes "kmem_inv s []" "distinct ps" "\<forall>p \<in> set ps. usable s p"
  shows "\<exists>t. kmem_inv t ps \<and> usable t = usable s \<and> kmem.more t = kmem.more s"
  using assms(2,3)
proof (induction ps)
  case Nil
  then show ?case using assms(1) by blast
next
  case (Cons p ps)
  then obtain t where t: "kmem_inv t ps" "usable t = usable s" "kmem.more t = kmem.more s" by auto
  then obtain u where u: "kfree p t = Ok () u" "kmem_inv u (p # ps)" "usable u = usable t"
    using kfree_ok [OF t(1), of p] Cons.prems by auto
  then show ?case using t keepsD [OF kfree_keeps [OF refl] u(1)] by auto
qed

definition demo_pages :: "addr list" where
  "demo_pages = [0x80001000, 0x80002000, 0x80003000, 0x80004000, 0x80005000, 0x80006000]"

lemma demo_free: "\<exists>s :: pstate. kmem_inv s demo_pages \<and> procs s = ps \<and> nextpid s = 1"
proof -
  let ?s = "demo_table ps\<lparr>kend := 0x80001000\<rparr>"
  have "kmem_inv ?s []" by (simp add: kmem_inv_def demo_table_def)
  moreover have "\<forall>p \<in> set demo_pages. usable ?s p"
    by (simp add: demo_pages_def usable_def demo_table_def page_numeral PHYSTOP_def KERNBASE_def)
  ultimately obtain t where t: "kmem_inv t demo_pages" "kmem.more t = kmem.more ?s"
    using with_free_pages [of ?s demo_pages] by (auto simp: demo_pages_def)
  then show ?thesis using pstate_fields [OF t(2)] by (auto simp: demo_table_def)
qed

theorem allocproc_ok_witness:
  "\<exists>(s :: pstate) t. procs s = [demo_proc RUNNING 3, bss_proc] \<and> allocproc s = Ok (Some 1) t \<and> procs t ! 0 = demo_proc RUNNING 3 \<and>
     p_pid (procs t ! 1) = 1 \<and> p_priority (procs t ! 1) = 10"
proof -
  obtain s :: pstate where s: "kmem_inv s demo_pages" "procs s = [demo_proc RUNNING 3, bss_proc]" "nextpid s = 1"
    using demo_free by blast
  have "find_idx (\<lambda>p. p_state p = UNUSED) (procs s) = Some 1" by (simp add: s(2) demo_proc_def bss_proc_def)
  then show ?thesis using allocproc_ok [OF s(1), of 1] s by (auto simp: demo_pages_def)
qed

text \<open>
  C38. Killing process 0 poisons a free slot. Process identifiers of processes start at 1 and an unused
  slot has identifier 0, so \<open>kkill(0)\<close> finds the first unused slot with it, reports success, and sets its
  \<open>killed\<close> flag; \<open>allocproc\<close> never clears the flag. When that slot is the first unused one, the next process
  the system creates is killed from the start.
\<close>

theorem kkill_zero_poisons:
  assumes "kmem_inv s ps" "6 \<le> length ps" "find_idx (\<lambda>p. p_state p = UNUSED) (procs s) = Some i"
    "p_pid (procs s ! i) = 0" "\<forall>j < i. p_pid (procs s ! j) \<noteq> 0"
  shows "fst (kkill 0 s) = 0 \<and> (\<exists>t. allocproc (snd (kkill 0 s)) = Ok (Some i) t \<and> killed i t = 1 \<and> p_pid (procs t ! i) = nextpid s)"
proof -
  have i: "i < length (procs s)" "p_state (procs s ! i) = UNUSED" "\<forall>j < i. p_state (procs s ! j) \<noteq> UNUSED"
    using assms(3) by (auto simp: find_idx_Some)
  have f: "find_idx (\<lambda>p. p_pid p = 0) (procs s) = Some i" using assms(4,5) i by (simp add: find_idx_Some)
  let ?t = "upd_proc i (\<lambda>p. p\<lparr>p_killed := 1\<rparr>) s"
  have k: "kkill 0 s = (0, ?t)" using i f by (simp add: kkill_def upd_proc_def)
  have "kmem_inv ?t ps" using assms(1) by (simp add: kmem_inv_def usable_def)
  moreover have "find_idx (\<lambda>p. p_state p = UNUSED) (procs ?t) = Some i"
    using i by (simp add: find_idx_Some procs_upd_proc)
  ultimately obtain t tf pt cx where "allocproc ?t = Ok (Some i) t"
      "procs t = (procs ?t)[i := (procs ?t ! i)\<lparr>p_pid := nextpid ?t, p_priority := 10, p_runs := 0, p_state := USED,
        p_trapframe := tf, p_pagetable := pt, p_context := cx\<rparr>]"
    using allocproc_spec [of ?t ps i] assms(2) by blast
  then show ?thesis using i k by (simp add: killed_def procs_upd_proc)
qed

theorem kkill_zero_poisons_witness:
  "\<exists>(s :: pstate) t. procs s = [bss_proc] \<and> fst (kkill 0 s) = 0 \<and> allocproc (snd (kkill 0 s)) = Ok (Some 0) t \<and> killed 0 t = 1"
proof -
  obtain s :: pstate where s: "kmem_inv s demo_pages" "procs s = [bss_proc]" using demo_free by blast
  have "find_idx (\<lambda>p. p_state p = UNUSED) (procs s) = Some 0" "p_pid (procs s ! 0) = 0" by (simp_all add: s(2) bss_proc_def)
  then show ?thesis using kkill_zero_poisons [OF s(1), of 0] s(2) by (auto simp: demo_pages_def)
qed

section \<open>Exit\<close>

abbreviation cp :: "proc \<Rightarrow> proc" where
  "cp p \<equiv> p\<lparr>p_state := UNUSED, p_chan := ChNull\<rparr>"

lemma pcore_fields:
  assumes "pcore t = pcore s"
  shows "curp t = curp s" "initproc t = initproc s" "nextpid t = nextpid s" "length (procs t) = length (procs s)"
    "k < length (procs s) \<Longrightarrow> cp (procs t ! k) = cp (procs s ! k)"
proof -
  have m: "map cp (procs t) = map cp (procs s)" using assms by (simp add: pcore_def)
  then show l: "length (procs t) = length (procs s)" by (rule map_eq_imp_length_eq)
  show "cp (procs t ! k) = cp (procs s ! k)" if "k < length (procs s)"
    using arg_cong [OF m, of "\<lambda>xs. xs ! k"] that l by simp
qed (use assms in \<open>simp_all add: pcore_def\<close>)

lemma cp_fields:
  assumes "cp p = cp q"
  shows "p_parent p = p_parent q" "p_ofile p = p_ofile q" "p_cwd p = p_cwd q" "p_pid p = p_pid q" "p_killed p = p_killed q"
    "p_xstate p = p_xstate q" "p_pagetable p = p_pagetable q" "p_sz p = p_sz q" "p_trapframe p = p_trapframe q"
  using assms by (cases p; cases q; simp)+

lemma cp_update:
  assumes "cp p = cp q"
  shows "cp (p\<lparr>p_ofile := g (p_ofile p)\<rparr>) = cp (q\<lparr>p_ofile := g (p_ofile q)\<rparr>)" "cp (p\<lparr>p_cwd := c\<rparr>) = cp (q\<lparr>p_cwd := c\<rparr>)"
    "cp (p\<lparr>p_parent := c\<rparr>) = cp (q\<lparr>p_parent := c\<rparr>)"
  using assms by (cases p; cases q; simp)+

lemma pcore_upd:
  assumes "pcore t = pcore s" "\<And>p q. cp p = cp q \<Longrightarrow> cp (f p) = cp (f q)"
  shows "pcore (upd_proc i f t) = pcore (upd_proc i f s)"
proof -
  have m: "map cp (procs t) = map cp (procs s)" using assms(1) by (simp add: pcore_def)
  have "map cp ((procs t)[i := f (procs t ! i)]) = map cp ((procs s)[i := f (procs s ! i)])"
  proof (cases "i < length (procs s)")
    case True
    have "cp (f (procs t ! i)) = cp (f (procs s ! i))" by (rule assms(2)) (rule pcore_fields(5) [OF assms(1) True])
    then show ?thesis using m by (simp add: map_update)
  next
    case False
    then show ?thesis using m pcore_fields(4) [OF assms(1)] by (simp add: list_update_beyond)
  qed
  then show ?thesis using assms(1) by (simp add: pcore_def upd_proc_def)
qed

text \<open>The loop of \<open>exit\<close> over the descriptors closes them all.\<close>

abbreviation drop_files :: "nat \<Rightarrow> proc \<Rightarrow> proc" where
  "drop_files n p \<equiv> p\<lparr>p_ofile := replicate n None @ drop n (p_ofile p)\<rparr>"

lemma close_all:
  assumes "forM [0..<n] (\<lambda>fd s. case p_ofile (procs s ! me) ! fd of None \<Rightarrow> Ok () s
      | Some f \<Rightarrow> bindr (fileclose f s) (\<lambda>_ s. Ok () (upd_proc me (\<lambda>p. p\<lparr>p_ofile := (p_ofile p)[fd := None]\<rparr>) s))) s = Ok () t"
    (is "forM _ ?f s = _")
    and "me < length (procs s)" "n \<le> length (p_ofile (procs s ! me))"
  shows "pcore t = pcore (upd_proc me (drop_files n) s)"
  using assms(1,3)
proof (induction n arbitrary: t)
  case 0
  then show ?case by (simp add: upd_proc_def)
next
  case (Suc n)
  from Suc.prems(1) obtain u where u: "forM [0..<n] ?f s = Ok () u" "?f n u = Ok () t"
    unfolding forM_upt_Suc by (auto simp: bindr_eq_Ok)
  have IH: "pcore u = pcore (upd_proc me (drop_files n) s)" using Suc u(1) by simp
  have o1: "p_ofile (procs u ! me) = replicate n None @ drop n (p_ofile (procs s ! me))"
    using cp_fields(2) [OF pcore_fields(5) [OF IH, of me]] assms(2) by (simp add: procs_upd_proc)
  have n: "n < length (p_ofile (procs s ! me))" using Suc.prems(2) by simp
  have tl: "(replicate n None @ drop n xs)[n := None] = replicate (Suc n) None @ drop (Suc n) xs" if "n < length xs" for xs :: "nat option list"
    using that by (simp add: list_update_append Cons_nth_drop_Suc [symmetric] replicate_append_same)
  have comp: "(procs s)[me := (drop_files n (procs s ! me))\<lparr>p_ofile := (replicate n None @ drop n (p_ofile (procs s ! me)))[n := None]\<rparr>] =
      (procs s)[me := drop_files (Suc n) (procs s ! me)]" using tl [OF n] by simp
  show ?case
  proof (cases "p_ofile (procs u ! me) ! n")
    case None
    then have "(replicate n None @ drop n (p_ofile (procs s ! me)))[n := None] = replicate n None @ drop n (p_ofile (procs s ! me))"
      using o1 by (metis list_update_id)
    then have "drop_files (Suc n) (procs s ! me) = drop_files n (procs s ! me)" using tl [OF n] by simp
    then show ?thesis using u(2) None IH by (simp add: upd_proc_def)
  next
    case (Some f)
    then obtain v where v: "fileclose f u = Ok () v" "t = upd_proc me (\<lambda>p. p\<lparr>p_ofile := (p_ofile p)[n := None]\<rparr>) v"
      using u(2) by (auto simp: bindr_eq_Ok)
    have "pcore v = pcore (upd_proc me (drop_files n) s)" using keepsD [OF fileclose_pcore [OF refl] v(1)] IH by simp
    then have "pcore t = pcore (upd_proc me (\<lambda>p. p\<lparr>p_ofile := (p_ofile p)[n := None]\<rparr>) (upd_proc me (drop_files n) s))"
      unfolding v(2) by (rule pcore_upd) (rule cp_update)
    then show ?thesis using comp assms(2) by (simp add: upd_proc_def)
  qed
qed

text \<open>\<open>reparent\<close> gives the children of a process to \<open>init\<close>.\<close>

definition orphans :: "nat \<Rightarrow> nat \<Rightarrow> 'a pstate_scheme \<Rightarrow> proc list" where
  "orphans n i s = map (\<lambda>k. if k < n \<and> p_parent (procs s ! k) = Some i then (procs s ! k)\<lparr>p_parent := initproc s\<rparr> else procs s ! k)
     [0..<length (procs s)]"

lemma orphans_Suc:
  "n < length (procs s) \<Longrightarrow> orphans (Suc n) i s =
     (if p_parent (procs s ! n) = Some i then (orphans n i s)[n := (procs s ! n)\<lparr>p_parent := initproc s\<rparr>] else orphans n i s)"
  by (rule nth_equalityI) (auto simp: orphans_def nth_list_update less_Suc_eq)

lemma pcore_procs: "map cp ps = map cp qs \<Longrightarrow> pcore (s\<lparr>procs := ps\<rparr>) = pcore (s\<lparr>procs := qs\<rparr>)"
  by (simp add: pcore_def)

lemma reparent_core: "pcore (reparent i s) = pcore (s\<lparr>procs := orphans (length (procs s)) i s\<rparr>)"
proof -
  let ?f = "\<lambda>k s. if p_parent (procs s ! k) = Some i
       then wakeup (ChProc (the (initproc s))) (upd_proc k (\<lambda>p. p\<lparr>p_parent := initproc s\<rparr>) s) else s"
  have "n \<le> length (procs s) \<Longrightarrow> pcore (fold ?f [0..<n] s) = pcore (s\<lparr>procs := orphans n i s\<rparr>)" for n
  proof (induction n)
    case 0
    have "orphans 0 i s = procs s" by (rule nth_equalityI) (simp_all add: orphans_def)
    then show ?case by simp
  next
    case (Suc n)
    let ?u = "fold ?f [0..<n] s" and ?o = "s\<lparr>procs := orphans n i s\<rparr>"
    have n: "n < length (procs s)" using Suc.prems by simp
    have IH: "pcore ?u = pcore ?o" using Suc by simp
    have on: "orphans n i s ! n = procs s ! n" "length (orphans n i s) = length (procs s)" using n by (simp_all add: orphans_def)
    have "cp (procs ?u ! n) = cp (procs s ! n)" using pcore_fields(5) [OF IH, of n] n on by simp
    then have par: "p_parent (procs ?u ! n) = p_parent (procs s ! n)" by (rule cp_fields(1))
    have ini: "initproc ?u = initproc s" using pcore_fields(2) [OF IH] by simp
    have "pcore (upd_proc n (\<lambda>p. p\<lparr>p_parent := initproc s\<rparr>) ?u) = pcore (upd_proc n (\<lambda>p. p\<lparr>p_parent := initproc s\<rparr>) ?o)"
      by (rule pcore_upd [OF IH]) (rule cp_update(3))
    moreover have "upd_proc n (\<lambda>p. p\<lparr>p_parent := initproc s\<rparr>) ?o = s\<lparr>procs := (orphans n i s)[n := (procs s ! n)\<lparr>p_parent := initproc s\<rparr>]\<rparr>"
      using on by (simp add: upd_proc_def)
    ultimately show ?case using IH par ini orphans_Suc [OF n, of i] by simp
  qed
  then show ?thesis by (simp add: reparent_def)
qed


text \<open>\<open>init\<close> waits, its child exits.\<close>

definition demo_exit :: iostate where
  "demo_exit = (demo_io (\<lambda>_. 0) bss_proc)\<lparr>itable := [bss_inode\<lparr>i_ref := 2\<rparr>], curp := Some 1, initproc := Some 0,
     procs := [(demo_proc SLEEPING 10)\<lparr>p_chan := ChProc 0\<rparr>, (demo_proc RUNNING 10)\<lparr>p_parent := Some 0, p_cwd := Some 0\<rparr>]\<rparr>"

lemma demo_exit_ok: "\<exists>t. kexit 7 demo_exit = Ok () t"
proof -
  have "p_ofile (procs demo_exit ! 1) = replicate 16 None" by (simp add: demo_exit_def demo_proc_def bss_proc_def NOFILE_def)
  then have "forM [0..<NOFILE] (\<lambda>fd s. case p_ofile (procs s ! 1) ! fd of None \<Rightarrow> Ok () s
      | Some f \<Rightarrow> bindr (fileclose f s) (\<lambda>_ s. Ok () (upd_proc 1 (\<lambda>p. p\<lparr>p_ofile := (p_ofile p)[fd := None]\<rparr>) s))) demo_exit = Ok () demo_exit"
    by (simp add: NOFILE_def upt_conv_Cons)
  moreover have c: "curp demo_exit = Some 1" and "initproc demo_exit = Some 0" by (simp_all add: demo_exit_def)
  moreover have "begin_op demo_exit = Ok () (demo_exit\<lparr>l_outstanding := 1\<rparr>)"
    by (simp add: begin_op_def demo_exit_def demo_io_defs MAXOPBLOCKS_def LOGBLOCKS_def)
  moreover have "iput 0 (demo_exit\<lparr>l_outstanding := 1\<rparr>) =
      Ok () (upd_inode 0 (\<lambda>ip. ip\<lparr>i_ref := i_ref ip - 1\<rparr>) (demo_exit\<lparr>l_outstanding := 1\<rparr>))"
    by (simp add: iput_def) (simp add: demo_exit_def inode_at_def)
  moreover have "p_cwd (procs (demo_exit\<lparr>l_outstanding := 1\<rparr>) ! 1) = Some 0" by (simp add: demo_exit_def)
  moreover have "\<exists>t. end_op (upd_inode 0 (\<lambda>ip. ip\<lparr>i_ref := i_ref ip - 1\<rparr>) (demo_exit\<lparr>l_outstanding := 1\<rparr>)) = Ok () t"
    by (simp add: end_op_def commit_def Let_def upd_inode_def) (simp add: demo_exit_def demo_io_defs)
  ultimately show ?thesis unfolding kexit_def Let_def c option.sel by (auto simp del: One_nat_def)
qed


section \<open>Wait\<close>

text \<open>A loop whose body does nothing until a condition holds and then leaves.\<close>

lemma loopM_find:
  assumes "\<And>x. x \<in> set xs \<Longrightarrow> \<not> P x \<Longrightarrow> f x s = Ok None s" "\<And>x t. x \<in> set xs \<Longrightarrow> P x \<Longrightarrow> f x s \<noteq> Ok None t"
  shows "loopM xs f s = (case find P xs of None \<Rightarrow> Ok None s | Some x \<Rightarrow> f x s)"
  using assms
proof (induction xs)
  case (Cons x xs)
  show ?case
  proof (cases "P x")
    case True
    have "bindr (f x s) (\<lambda>r s. case r of None \<Rightarrow> loopM xs f s | Some v \<Rightarrow> Ok (Some v) s) = f x s"
      using Cons.prems(2) [of x] True by (cases "f x s") (auto split: option.split)
    then show ?thesis using True by simp
  next
    case False
    then show ?thesis using Cons by simp
  qed
qed simp

lemma find_upt:
  "find P [0..<n] = None \<longleftrightarrow> (\<forall>k < n. \<not> P k)"
  "find P [0..<n] = Some k \<longleftrightarrow> k < n \<and> P k \<and> (\<forall>j < k. \<not> P j)"
  by (auto simp: find_None_iff find_Some_iff)

definition freed :: "proc \<Rightarrow> proc" where
  "freed p = p\<lparr>p_trapframe := 0, p_pagetable := 0, p_sz := 0, p_pid := 0, p_parent := None, p_name := (p_name p)[0 := 0],
     p_chan := ChNull, p_killed := 0, p_xstate := 0, p_state := UNUSED\<rparr>"

lemma freeproc_effect:
  assumes "freeproc i s = Ok () t" "i < length (procs s)"
  shows "procs t = (procs s)[i := freed (procs s ! i)]" "curp t = curp s"
proof -
  obtain s1 s2 where a: "(if p_trapframe (procs s ! i) \<noteq> 0 then kfree (p_trapframe (procs s ! i)) s else Ok () s) = Ok () s1"
      "(if p_pagetable (procs (upd_proc i (\<lambda>p. p\<lparr>p_trapframe := 0\<rparr>) s1) ! i) \<noteq> 0
        then proc_freepagetable (p_pagetable (procs (upd_proc i (\<lambda>p. p\<lparr>p_trapframe := 0\<rparr>) s1) ! i))
          (p_sz (procs (upd_proc i (\<lambda>p. p\<lparr>p_trapframe := 0\<rparr>) s1) ! i)) (upd_proc i (\<lambda>p. p\<lparr>p_trapframe := 0\<rparr>) s1)
        else Ok () (upd_proc i (\<lambda>p. p\<lparr>p_trapframe := 0\<rparr>) s1)) = Ok () s2"
      and t: "t = upd_proc i (\<lambda>p. p\<lparr>p_pagetable := 0, p_sz := 0, p_pid := 0, p_parent := None,
       p_name := (p_name p)[0 := 0], p_chan := ChNull, p_killed := 0, p_xstate := 0, p_state := UNUSED\<rparr>) s2"
    using assms(1) unfolding freeproc_def bindr_eq_Ok Let_def by auto
  have "keeps kmem.more s (if p_trapframe (procs s ! i) \<noteq> 0 then kfree (p_trapframe (procs s ! i)) s else Ok () s)"
    by (intro keeps_intros) simp_all
  note m1 = pstate_fields [OF keepsD [OF this a(1)]]
  let ?u = "upd_proc i (\<lambda>p. p\<lparr>p_trapframe := 0\<rparr>) s1"
  have "keeps kmem.more ?u (if p_pagetable (procs ?u ! i) \<noteq> 0 then proc_freepagetable (p_pagetable (procs ?u ! i)) (p_sz (procs ?u ! i)) ?u
      else Ok () ?u)" by (intro keeps_intros) simp_all
  note m2 = pstate_fields [OF keepsD [OF this a(2)]]
  show "procs t = (procs s)[i := freed (procs s ! i)]" "curp t = curp s"
    using m1 m2 assms(2) by (simp_all add: t upd_proc_def freed_def)
qed

definition zombie_child :: "nat \<Rightarrow> 'a pstate_scheme \<Rightarrow> nat \<Rightarrow> bool" where
  "zombie_child me s k \<longleftrightarrow> p_parent (procs s ! k) = Some me \<and> p_state (procs s ! k) = ZOMBIE"

lemma kwait_scan_cases:
  assumes "curp s = Some me"
  obtains (none) "kwait_scan addr s = Ok None s" "\<forall>k < length (procs s). \<not> zombie_child me s k"
  | (child) k where "k < length (procs s)" "zombie_child me s k" "\<forall>j < k. \<not> zombie_child me s j"
    "kwait_scan addr s = bindr (if addr \<noteq> 0 then copyout (p_pagetable (procs s ! me)) addr (word_le 4 (p_xstate (procs s ! k))) s else Ok 0 s)
       (\<lambda>r t. if sint r < 0 then Ok (Some (-1)) t else bindr (freeproc k t) (\<lambda>_ t. Ok (Some (p_pid (procs s ! k))) t))"
proof -
  let ?f = "\<lambda>k s. let pp = procs s ! k in
        if p_parent pp = Some me \<and> p_state pp = ZOMBIE
        then bindr (if addr \<noteq> 0 then copyout (p_pagetable (procs s ! me)) addr (word_le 4 (p_xstate pp)) s else Ok 0 s) (\<lambda>r s.
             if sint r < 0 then Ok (Some (-1)) s
             else bindr (freeproc k s) (\<lambda>_ s. Ok (Some (p_pid pp)) s))
        else Ok None s"
  have "loopM [0..<length (procs s)] ?f s =
      (case find (zombie_child me s) [0..<length (procs s)] of None \<Rightarrow> Ok None s | Some k \<Rightarrow> ?f k s)"
    by (rule loopM_find) (auto simp: zombie_child_def Let_def bindr_eq_Ok split: if_splits)
  then have e: "kwait_scan addr s = (case find (zombie_child me s) [0..<length (procs s)] of None \<Rightarrow> Ok None s | Some k \<Rightarrow> ?f k s)"
    using assms by (simp add: kwait_scan_def)
  show ?thesis
  proof (cases "find (zombie_child me s) [0..<length (procs s)]")
    case None
    have "\<forall>k < length (procs s). \<not> zombie_child me s k" using None find_upt(1) by blast
    moreover have "kwait_scan addr s = Ok None s" unfolding e None by simp
    ultimately show ?thesis using none by blast
  next
    case (Some k)
    then have k: "k < length (procs s)" "zombie_child me s k" "\<forall>j < k. \<not> zombie_child me s j" using find_upt(2) by blast+
    then show ?thesis using child [OF k] e unfolding Some by (simp add: Let_def zombie_child_def)
  qed
qed



end
