(* ===== verification/Refs.thy ===== *)
theory Refs
  imports Frames
begin

text \<open>
  Reference counts. Any sequence of opening, duplicating and closing keeps the count of every open file
  (\<open>kernel/file.c\<close>) equal to the number of references held, and likewise for the in-memory inodes
  (\<open>kernel/fs.c\<close>), of which there is at most one copy for each inode of the disk.
\<close>

section \<open>Open files\<close>

text \<open>A state and the references to open files that processes hold. There are at most \<open>NPROC\<close> times \<open>NOFILE\<close>
  descriptors, far below the bound given. \<open>other\<close> is any step that leaves the counts alone.\<close>

inductive file_step :: "'a iostate_scheme \<times> nat list \<Rightarrow> 'a iostate_scheme \<times> nat list \<Rightarrow> bool" where
  opens: "filealloc s = (Some f, t) \<Longrightarrow> length fs < 2 ^ 30 \<Longrightarrow> file_step (s, fs) (t, f # fs)"
| dups: "f \<in> set fs \<Longrightarrow> filedup f s = Ok f t \<Longrightarrow> length fs < 2 ^ 30 \<Longrightarrow> file_step (s, fs) (t, f # fs)"
| closes: "f \<in> set fs \<Longrightarrow> fileclose f s = Ok () t \<Longrightarrow> file_step (s, fs) (t, remove1 f fs)"
| other: "map f_ref (ftable t) = map f_ref (ftable s) \<Longrightarrow> file_step (s, fs) (t, fs)"

inductive file_reach :: "'a iostate_scheme \<times> nat list \<Rightarrow> bool" where
  boot: "\<forall>x \<in> set (ftable s). f_ref x = 0 \<Longrightarrow> file_reach (s, [])"
| step: "file_reach x \<Longrightarrow> file_step x y \<Longrightarrow> file_reach y"

definition file_inv :: "'a iostate_scheme \<times> nat list \<Rightarrow> bool" where
  "file_inv = (\<lambda>(s, fs). length fs \<le> 2 ^ 30 \<and> set fs \<subseteq> {..<length (ftable s)} \<and>
     (\<forall>f < length (ftable s). unat (f_ref (ftable s ! f)) = count_list fs f))"

lemma file_invD:
  assumes "file_inv (s, fs)" "f < length (ftable s)"
  shows "unat (f_ref (ftable s ! f)) = count_list fs f" "count_list fs f \<le> 2 ^ 30" "sint (f_ref (ftable s ! f)) = int (count_list fs f)"
proof -
  show u: "unat (f_ref (ftable s ! f)) = count_list fs f" using assms by (simp add: file_inv_def)
  show c: "count_list fs f \<le> 2 ^ 30" using assms count_le_length [of fs f] by (simp add: file_inv_def)
  show "sint (f_ref (ftable s ! f)) = int (count_list fs f)" using sint_small [of "f_ref (ftable s ! f)"] u c by simp
qed

lemma ftable_upd_file [simp]: "ftable (upd_file f g s) = (ftable s)[f := g (ftable s ! f)]"
  by (simp add: upd_file_def)

lemma count_remove1: "count_list (remove1 x xs) y = (if x = y then count_list xs y - 1 else count_list xs y)"
  by (induction xs) (auto simp: count_list_0_iff)

lemma file_step_inv:
  assumes "file_step x y" "file_inv x"
  shows "file_inv y"
  using assms
proof cases
  case (opens s f t fs)
  have f: "f < length (ftable s)" "f_ref (ftable s ! f) = 0" and t: "t = upd_file f (\<lambda>x. x\<lparr>f_ref := 1\<rparr>) s"
    using opens(3) by (auto simp: filealloc_def find_idx_Some split: option.splits)
  have inv: "file_inv (s, fs)" using assms(2) opens(1) by simp
  then show ?thesis using f opens(4) file_invD(1) [OF inv f(1)]
    by (auto simp: file_inv_def opens(2) t nth_list_update)
next
  case (dups f fs s t)
  have inv: "file_inv (s, fs)" using assms(2) dups(1) by simp
  then have f: "f < length (ftable s)" using dups(3) by (auto simp: file_inv_def)
  note d = file_invD [OF inv f]
  have t: "t = upd_file f (\<lambda>x. x\<lparr>f_ref := f_ref x + 1\<rparr>) s" using dups(4) by (auto simp: filedup_def split: if_splits)
  have "unat (f_ref (ftable s ! f) + 1) = Suc (count_list fs f)" using d by (simp add: unat_word_ariths(1))
  then show ?thesis using inv f dups(5) by (auto simp: file_inv_def dups(2) t nth_list_update)
next
  case (closes f fs s t)
  have inv: "file_inv (s, fs)" using assms(2) closes(1) by simp
  then have f: "f < length (ftable s)" using closes(3) by (auto simp: file_inv_def)
  note d = file_invD [OF inv f]
  have c: "count_list fs f \<noteq> 0" using closes(3) by (simp add: count_list_0_iff)
  have "f_ref (ftable s ! f) \<noteq> 0" using c d(1) by (metis unat_0)
  then have m: "unat (f_ref (ftable s ! f) - 1) = count_list fs f - 1" using d(1) by (simp add: unat_minus_one)
  then have si: "sint (f_ref (ftable s ! f) - 1) = int (count_list fs f - 1)"
    using sint_small [of "f_ref (ftable s ! f) - 1"] d(2) by simp
  let ?x = "ftable t ! f"
  have eff: "ftable t = (ftable s)[f := ?x]" using fileclose_effect [OF closes(4) f] f by (metis nth_list_update_eq)
  have "unat (f_ref ?x) = count_list fs f - 1"
    using fileclose_effect [OF closes(4) f] si m f by (auto simp: Let_def)
  then have "unat (f_ref (ftable t ! g)) = count_list (remove1 f fs) g" if "g < length (ftable s)" for g
    using that inv eff by (cases "g = f") (auto simp: file_inv_def count_remove1 nth_list_update_neq dest: arg_cong [of _ _ "\<lambda>xs. xs ! g"])
  moreover have "length (ftable t) = length (ftable s)" using eff by (metis length_list_update)
  moreover have "length (remove1 f fs) \<le> 2 ^ 30" "set (remove1 f fs) \<subseteq> {..<length (ftable s)}"
    using inv set_remove1_subset [of f fs] by (auto simp: file_inv_def length_remove1)
  ultimately show ?thesis by (simp add: file_inv_def closes(2))
next
  case (other t s fs)
  have "length (ftable t) = length (ftable s)" using other(3) by (rule map_eq_imp_length_eq)
  moreover have "f_ref (ftable t ! f) = f_ref (ftable s ! f)" if "f < length (ftable s)" for f
    using arg_cong [OF other(3), of "\<lambda>xs. xs ! f"] that calculation by simp
  ultimately show ?thesis using assms(2) by (simp add: file_inv_def other(1,2))
qed

lemma file_reach_inv: "file_reach x \<Longrightarrow> file_inv x"
proof (induction rule: file_reach.induct)
  case (boot s)
  then show ?case by (auto simp: file_inv_def)
next
  case (step x y)
  then show ?case by (blast intro: file_step_inv)
qed

text \<open>
  C14. The reference counts of open files are exact: after any sequence of opens, duplications and closes, the
  count of each entry of the file table is the number of references held to it. So \<open>filedup\<close> and
  \<open>fileclose\<close> never panic on a file that is referenced, and \<open>filealloc\<close> never hands out an entry that is in
  use.
\<close>

theorem file_refs_exact:
  assumes "file_reach (s, fs)"
  shows "(\<forall>f < length (ftable s). unat (f_ref (ftable s ! f)) = count_list fs f) \<and>
    (\<forall>f \<in> set fs. filedup f s = Ok f (upd_file f (\<lambda>x. x\<lparr>f_ref := f_ref x + 1\<rparr>) s) \<and> \<not> sint (f_ref (ftable s ! f)) < 1) \<and>
    (\<forall>f t. filealloc s = (Some f, t) \<longrightarrow> f \<notin> set fs)"
proof -
  have inv: "file_inv (s, fs)" using file_reach_inv [OF assms] .
  have used: "\<not> sint (f_ref (ftable s ! f)) < 1" if "f \<in> set fs" for f
  proof -
    have "f < length (ftable s)" using inv that by (auto simp: file_inv_def)
    moreover have "count_list fs f \<noteq> 0" using that by (simp add: count_list_0_iff)
    ultimately show ?thesis using file_invD(3) [OF inv] by simp
  qed
  have "f \<notin> set fs" if "filealloc s = (Some f, t)" for f t
    using that used [of f] by (auto simp: filealloc_def find_idx_Some split: option.splits)
  then show ?thesis using inv used by (auto simp: file_inv_def filedup_def)
qed

theorem file_refs_exact_witness:
  "\<exists>t :: iostate. file_reach (t, [0]) \<and> unat (f_ref (ftable t ! 0)) = 1 \<and> (\<forall>u. filealloc t \<noteq> (Some 0, u))"
proof -
  let ?s = "demo_io (\<lambda>_. 0) bss_proc" and ?t = "upd_file 0 (\<lambda>x. x\<lparr>f_ref := 1\<rparr>) (demo_io (\<lambda>_. 0) bss_proc)"
  have s: "ftable ?s = [bss_file]" by (simp add: demo_io_defs)
  have "file_reach (?s, [])" by (rule file_reach.boot) (simp add: s bss_file_def)
  moreover have "filealloc ?s = (Some 0, ?t)" by (simp add: filealloc_def s bss_file_def)
  then have "file_step (?s, []) (?t, [0])" by (rule file_step.opens) simp
  ultimately have "file_reach (?t, [0])" by (rule file_reach.step)
  then show ?thesis using file_refs_exact [of ?t "[0]"] s by (intro exI [of _ ?t]) auto
qed

section \<open>Inodes\<close>

text \<open>A reference to an inode is its slot of the table together with the device and number it was asked for.\<close>

type_synonym iref = "nat \<times> 32 word \<times> 32 word"

inductive inode_step :: "'a fstate_scheme \<times> iref list \<Rightarrow> 'a fstate_scheme \<times> iref list \<Rightarrow> bool" where
  gets: "iget d n s = Ok i t \<Longrightarrow> length rs < 2 ^ 30 \<Longrightarrow> inode_step (s, rs) (t, (i, d, n) # rs)"
| dups: "(i, d, n) \<in> set rs \<Longrightarrow> idup i s = (i, t) \<Longrightarrow> length rs < 2 ^ 30 \<Longrightarrow> inode_step (s, rs) (t, (i, d, n) # rs)"
| puts: "(i, d, n) \<in> set rs \<Longrightarrow> iput i s = Ok () t \<Longrightarrow> inode_step (s, rs) (t, remove1 (i, d, n) rs)"
| other: "ids t = ids s \<Longrightarrow> inode_step (s, rs) (t, rs)"

inductive inode_reach :: "'a fstate_scheme \<times> iref list \<Rightarrow> bool" where
  boot: "\<forall>ip \<in> set (itable s). i_ref ip = 0 \<Longrightarrow> inode_reach (s, [])"
| step: "inode_reach x \<Longrightarrow> inode_step x y \<Longrightarrow> inode_reach y"

definition refs_to :: "nat \<Rightarrow> iref list \<Rightarrow> nat" where
  "refs_to i rs = length (filter (\<lambda>(j, _). j = i) rs)"

definition inode_inv :: "'a fstate_scheme \<times> iref list \<Rightarrow> bool" where
  "inode_inv = (\<lambda>(s, rs). length rs \<le> 2 ^ 30 \<and>
     (\<forall>(i, d, n) \<in> set rs. i < length (ids s) \<and> fst (ids s ! i) = d \<and> fst (snd (ids s ! i)) = n) \<and>
     (\<forall>i < length (ids s). unat (snd (snd (ids s ! i))) = refs_to i rs) \<and>
     (\<forall>i < length (ids s). \<forall>j < length (ids s). 0 < refs_to i rs \<longrightarrow> 0 < refs_to j rs \<longrightarrow>
        fst (ids s ! i) = fst (ids s ! j) \<longrightarrow> fst (snd (ids s ! i)) = fst (snd (ids s ! j)) \<longrightarrow> i = j))"

lemma refs_to_simps [simp]:
  "refs_to i [] = 0" "refs_to i ((j, x) # rs) = (if j = i then Suc (refs_to i rs) else refs_to i rs)"
  by (simp_all add: refs_to_def)

lemma refs_to_mem: "(i, x) \<in> set rs \<Longrightarrow> 0 < refs_to i rs"
  by (auto simp: refs_to_def filter_empty_conv)

lemma refs_to_le: "refs_to i rs \<le> length rs"
  by (simp add: refs_to_def)

lemma refs_to_remove1: "(i, x) \<in> set rs \<Longrightarrow> refs_to j (remove1 (i, x) rs) = (if j = i then refs_to j rs - 1 else refs_to j rs)"
proof (induction rs)
  case (Cons r rs)
  then show ?case using refs_to_mem [of i x rs] by (cases r) auto
qed simp

lemma ids_upd_inode:
  "i < length (itable s) \<Longrightarrow> ids (upd_inode i f s) = (ids s)[i := (let ip = f (itable s ! i) in (i_dev ip, i_inum ip, i_ref ip))]"
  by (simp add: ids_def upd_inode_def map_update Let_def)

lemma length_ids [simp]: "length (ids s) = length (itable s)"
  by (simp add: ids_def)

lemma ids_nth: "i < length (itable s) \<Longrightarrow> ids s ! i = (i_dev (itable s ! i), i_inum (itable s ! i), i_ref (itable s ! i))"
  by (simp add: ids_def)

text \<open>Releasing a reference changes the count of that inode and no identity.\<close>

lemma iput_ids:
  assumes "iput i s = Ok () t" "i < length (itable s)"
  shows "ids t = (ids s)[i := (i_dev (itable s ! i), i_inum (itable s ! i), i_ref (itable s ! i) - 1)]"
proof -
  let ?b = "if i_ref (inode_at i s) = 1 \<and> i_valid (inode_at i s) \<and> i_nlink (inode_at i s) = 0
        then bindr (acquiresleep (ChInodelock i) (i_lock (inode_at i s)) s) (\<lambda>lk s.
             bindr (itrunc i (upd_inode i (\<lambda>ip. ip\<lparr>i_lock := lk\<rparr>) s)) (\<lambda>_ s.
             bindr (iupdate i (upd_inode i (\<lambda>ip. ip\<lparr>i_type := 0\<rparr>) s)) (\<lambda>_ s.
             let s = upd_inode i (\<lambda>ip. ip\<lparr>i_valid := False\<rparr>) s;
                 (lk, s) = releasesleep (ChInodelock i) (i_lock (inode_at i s)) s
             in Ok () (upd_inode i (\<lambda>ip. ip\<lparr>i_lock := lk\<rparr>) s))))
        else Ok () s"
  obtain u where u: "?b = Ok () u" "t = upd_inode i (\<lambda>ip. ip\<lparr>i_ref := i_ref ip - 1\<rparr>) u"
    using assms(1) unfolding iput_def bindr_eq_Ok by auto
  have "keeps (env (\<lambda>m. m) (\<lambda>x. x)) s ?b"
    by (intro keeps_intros) (simp_all add: env_inode releasesleep_def)
  from keepsD [OF this u(1)] have e: "ids u = ids s" by (simp add: env_def)
  then have l: "length (itable u) = length (itable s)" by (metis length_ids)
  then show ?thesis using e assms(2) ids_nth [of i u] ids_nth [of i s] by (simp add: u(2) ids_upd_inode Let_def)
qed

lemma inode_invD:
  assumes "inode_inv (s, rs)"
  shows "i < length (itable s) \<Longrightarrow> unat (i_ref (itable s ! i)) = refs_to i rs"
    "i < length (itable s) \<Longrightarrow> sint (i_ref (itable s ! i)) = int (refs_to i rs)" "refs_to i rs \<le> 2 ^ 30"
    "(i, d, n) \<in> set rs \<Longrightarrow> i < length (itable s) \<and> i_dev (itable s ! i) = d \<and> i_inum (itable s ! i) = n \<and> 0 < refs_to i rs"
    "i < length (itable s) \<Longrightarrow> j < length (itable s) \<Longrightarrow> 0 < refs_to i rs \<Longrightarrow> 0 < refs_to j rs \<Longrightarrow>
       i_dev (itable s ! i) = i_dev (itable s ! j) \<Longrightarrow> i_inum (itable s ! i) = i_inum (itable s ! j) \<Longrightarrow> i = j"
proof -
  show u: "i < length (itable s) \<Longrightarrow> unat (i_ref (itable s ! i)) = refs_to i rs" for i using assms by (simp add: inode_inv_def ids_nth)
  show c: "refs_to i rs \<le> 2 ^ 30" for i using assms refs_to_le [of i rs] by (simp add: inode_inv_def)
  show "i < length (itable s) \<Longrightarrow> sint (i_ref (itable s ! i)) = int (refs_to i rs)"
    using u [of i] c [of i] sint_small [of "i_ref (itable s ! i)"] by simp
  show "(i, d, n) \<in> set rs \<Longrightarrow> i < length (itable s) \<and> i_dev (itable s ! i) = d \<and> i_inum (itable s ! i) = n \<and> 0 < refs_to i rs"
    using assms refs_to_mem [of i "(d, n)" rs] by (auto simp: inode_inv_def ids_nth)
  show "i < length (itable s) \<Longrightarrow> j < length (itable s) \<Longrightarrow> 0 < refs_to i rs \<Longrightarrow> 0 < refs_to j rs \<Longrightarrow>
       i_dev (itable s ! i) = i_dev (itable s ! j) \<Longrightarrow> i_inum (itable s ! i) = i_inum (itable s ! j) \<Longrightarrow> i = j"
    using assms by (simp add: inode_inv_def ids_nth)
qed

text \<open>\<open>iget\<close> either finds the copy in use, or takes a slot without references.\<close>

lemma iget_cases:
  assumes "iget d n s = Ok i t"
  obtains (hit) "i < length (itable s)" "0 < sint (i_ref (itable s ! i))" "i_dev (itable s ! i) = d" "i_inum (itable s ! i) = n"
      "t = upd_inode i (\<lambda>ip. ip\<lparr>i_ref := i_ref ip + 1\<rparr>) s"
  | (new) "i < length (itable s)" "i_ref (itable s ! i) = 0"
      "\<forall>j < length (itable s). \<not> (0 < sint (i_ref (itable s ! j)) \<and> i_dev (itable s ! j) = d \<and> i_inum (itable s ! j) = n)"
      "t = upd_inode i (\<lambda>ip. ip\<lparr>i_dev := d, i_inum := n, i_ref := 1, i_valid := False\<rparr>) s"
proof (cases "find_idx (\<lambda>ip. sint (i_ref ip) > 0 \<and> i_dev ip = d \<and> i_inum ip = n) (itable s)")
  case None
  moreover from this assms have "find_idx (\<lambda>ip. i_ref ip = 0) (itable s) = Some i" "t = upd_inode i (\<lambda>ip. ip\<lparr>i_dev := d, i_inum := n, i_ref := 1, i_valid := False\<rparr>) s"
    by (auto simp: iget_def split: option.splits)
  ultimately show ?thesis using new by (auto simp: find_idx_Some find_idx_None all_set_conv_all_nth)
next
  case (Some j)
  then have "i = j" "t = upd_inode i (\<lambda>ip. ip\<lparr>i_ref := i_ref ip + 1\<rparr>) s" using assms by (auto simp: iget_def)
  then show ?thesis using hit find_idx_SomeD [OF Some] by simp
qed

text \<open>Changing one entry and the references to it.\<close>

lemma inode_inv_set:
  assumes inv: "inode_inv (s, rs)" and i: "i < length (itable s)" and ids: "ids t = (ids s)[i := (d, n, r)]"
    and len: "length rs' \<le> 2 ^ 30" and r: "unat r = refs_to i rs'" and eq: "\<And>j. j \<noteq> i \<Longrightarrow> refs_to j rs' = refs_to j rs"
    and mem: "\<And>j d' n'. (j, d', n') \<in> set rs' \<Longrightarrow> if j = i then d' = d \<and> n' = n else (j, d', n') \<in> set rs"
    and uniq: "\<And>j. 0 < refs_to i rs' \<Longrightarrow> j < length (itable s) \<Longrightarrow> j \<noteq> i \<Longrightarrow> 0 < refs_to j rs \<Longrightarrow>
       i_dev (itable s ! j) = d \<Longrightarrow> i_inum (itable s ! j) \<noteq> n"
  shows "inode_inv (t, rs')"
proof -
  note D = inode_invD [OF inv]
  have lt: "length (itable t) = length (itable s)" using arg_cong [OF ids, of length] by simp
  have nth: "ids t ! j = (if j = i then (d, n, r) else (i_dev (itable s ! j), i_inum (itable s ! j), i_ref (itable s ! j)))"
    if "j < length (itable s)" for j using that by (simp add: ids ids_nth)
  have "j < length (itable s) \<and> fst (ids t ! j) = d' \<and> fst (snd (ids t ! j)) = n'" if "(j, d', n') \<in> set rs'" for j d' n'
    using mem [OF that] D(4) [of j d' n'] i nth [of j] by (cases "j = i") auto
  moreover have "unat (snd (snd (ids t ! j))) = refs_to j rs'" if "j < length (itable s)" for j
    using nth [OF that] D(1) [OF that] r eq by auto
  moreover have "j = k" if "j < length (itable s)" "k < length (itable s)" "0 < refs_to j rs'" "0 < refs_to k rs'"
      "fst (ids t ! j) = fst (ids t ! k)" "fst (snd (ids t ! j)) = fst (snd (ids t ! k))" for j k
    using that nth [OF that(1)] nth [OF that(2)] eq [of j] eq [of k] uniq [of j] uniq [of k] D(5) [OF that(1,2)] by (auto split: if_splits)
  ultimately show ?thesis using len lt by (auto simp: inode_inv_def)
qed

lemma inode_step_inv:
  assumes "inode_step x y" "inode_inv x"
  shows "inode_inv y"
  using assms
proof cases
  case (gets d n s i t rs)
  have inv: "inode_inv (s, rs)" using assms(2) gets(1) by simp
  note D = inode_invD [OF inv]
  show ?thesis unfolding gets(2) using gets(3)
  proof (cases rule: iget_cases)
    case hit
    have u: "unat (i_ref (itable s ! i) + 1) = Suc (refs_to i rs)" using D(1) [OF hit(1)] D(3) [of i] by (simp add: unat_word_ariths(1))
    have p: "0 < refs_to i rs" using D(2) [OF hit(1)] hit(2) by simp
    show "inode_inv (t, (i, d, n) # rs)"
    proof (rule inode_inv_set [OF inv hit(1)])
      show "ids t = (ids s)[i := (d, n, i_ref (itable s ! i) + 1)]" using hit by (simp add: ids_upd_inode Let_def)
    qed (use u p gets(4) hit D(4,5) in auto)
  next
    case new
    have r: "refs_to i rs = 0" using D(1) [OF new(1)] new(2) by simp
    have nr: "(i, x) \<notin> set rs" for x using r refs_to_mem by fastforce
    show "inode_inv (t, (i, d, n) # rs)"
    proof (rule inode_inv_set [OF inv new(1)])
      show "ids t = (ids s)[i := (d, n, 1)]" using new by (simp add: ids_upd_inode Let_def)
      show "i_inum (itable s ! j) \<noteq> n" if "j < length (itable s)" "0 < refs_to j rs" "i_dev (itable s ! j) = d" for j
        using new(3) D(2) [OF that(1)] that by auto
    qed (use gets(4) r nr in auto)
  qed
next
  case (dups i d n rs s t)
  have inv: "inode_inv (s, rs)" using assms(2) dups(1) by simp
  note D = inode_invD [OF inv]
  have i: "i < length (itable s)" "i_dev (itable s ! i) = d" "i_inum (itable s ! i) = n" "0 < refs_to i rs" using D(4) [OF dups(3)] by auto
  have u: "unat (i_ref (itable s ! i) + 1) = Suc (refs_to i rs)" using D(1) [OF i(1)] D(3) [of i] by (simp add: unat_word_ariths(1))
  show ?thesis unfolding dups(2)
  proof (rule inode_inv_set [OF inv i(1)])
    show "ids t = (ids s)[i := (d, n, i_ref (itable s ! i) + 1)]" using dups(4) i by (auto simp: idup_def ids_upd_inode Let_def)
  qed (use u i dups(5) D(4,5) in auto)
next
  case (puts i d n rs s t)
  have inv: "inode_inv (s, rs)" using assms(2) puts(1) by simp
  note D = inode_invD [OF inv]
  have i: "i < length (itable s)" "i_dev (itable s ! i) = d" "i_inum (itable s ! i) = n" "0 < refs_to i rs" using D(4) [OF puts(3)] by auto
  have "i_ref (itable s ! i) \<noteq> 0" using D(1) [OF i(1)] i(4) by auto
  then have m: "unat (i_ref (itable s ! i) - 1) = refs_to i rs - 1" using D(1) [OF i(1)] by (simp add: unat_minus_one)
  have sub: "set (remove1 (i, d, n) rs) \<subseteq> set rs" by (rule set_remove1_subset)
  note cnt = refs_to_remove1 [OF puts(3)]
  show ?thesis unfolding puts(2)
  proof (rule inode_inv_set [OF inv i(1)])
    show "ids t = (ids s)[i := (d, n, i_ref (itable s ! i) - 1)]" using iput_ids [OF puts(4) i(1)] i by simp
    show "length (remove1 (i, d, n) rs) \<le> 2 ^ 30" using inv by (auto simp: inode_inv_def length_remove1)
    show "if j = i then d' = d \<and> n' = n else (j, d', n') \<in> set rs" if "(j, d', n') \<in> set (remove1 (i, d, n) rs)" for j d' n'
      using that sub D(4) [of j d' n'] i by auto
    show "i_inum (itable s ! j) \<noteq> n" if "j < length (itable s)" "j \<noteq> i" "0 < refs_to j rs" "i_dev (itable s ! j) = d" for j
      using D(5) [OF that(1) i(1)] that i by auto
  qed (use m cnt in auto)
next
  case (other t s rs)
  then show ?thesis using assms(2) by (simp add: inode_inv_def del: length_ids)
qed

lemma inode_reach_inv: "inode_reach x \<Longrightarrow> inode_inv x"
proof (induction rule: inode_reach.induct)
  case (boot s)
  then show ?case by (auto simp: inode_inv_def ids_nth)
next
  case (step x y)
  then show ?case by (blast intro: inode_step_inv)
qed

text \<open>
  C15. There is one in-memory copy of an inode: after any sequence of \<open>iget\<close>, \<open>idup\<close> and \<open>iput\<close>, two references
  to the same device and inode number are to the same slot of the table, a slot that is referenced still
  holds the inode it was obtained for, the counts are exact, and \<open>iget\<close> of an inode that is referenced returns
  its slot.
\<close>

theorem inode_table_coherent:
  assumes "inode_reach (s, rs)"
  shows "(\<forall>i d n. (i, d, n) \<in> set rs \<longrightarrow> i < length (itable s) \<and> i_dev (inode_at i s) = d \<and> i_inum (inode_at i s) = n) \<and>
    (\<forall>i j d n. (i, d, n) \<in> set rs \<longrightarrow> (j, d, n) \<in> set rs \<longrightarrow> i = j) \<and>
    (\<forall>i < length (itable s). unat (i_ref (inode_at i s)) = refs_to i rs) \<and>
    (\<forall>i d n j t. (i, d, n) \<in> set rs \<longrightarrow> iget d n s = Ok j t \<longrightarrow> j = i)"
proof -
  note D = inode_invD [OF inode_reach_inv [OF assms]]
  have uniq: "i = j" if "(i, d, n) \<in> set rs" "(j, d, n) \<in> set rs" for i j d n
    using D(5) [of i j] D(4) [OF that(1)] D(4) [OF that(2)] by simp
  have "j = i" if r: "(i, d, n) \<in> set rs" and g: "iget d n s = Ok j t" for i d n j t
  proof -
    have i: "i < length (itable s)" "i_dev (itable s ! i) = d" "i_inum (itable s ! i) = n" "0 < refs_to i rs" using D(4) [OF r] by auto
    from g show ?thesis
    proof (cases rule: iget_cases)
      case hit
      then show ?thesis using D(5) [OF hit(1) i(1)] D(2) [OF hit(1)] i by simp
    next
      case new
      then show ?thesis using D(2) [OF i(1)] i by auto
    qed
  qed
  then show ?thesis using D(1,4) uniq unfolding inode_at_def by blast
qed

theorem inode_table_coherent_witness:
  "\<exists>(s :: iostate). inode_reach (s, [(0, 1, 5)]) \<and> i_inum (inode_at 0 s) = 5 \<and> (\<forall>j t. iget 1 5 s = Ok j t \<longrightarrow> j = 0)"
proof -
  let ?s = "(demo_io (\<lambda>_. 0) bss_proc)\<lparr>itable := [bss_inode]\<rparr>"
  let ?t = "upd_inode 0 (\<lambda>ip. ip\<lparr>i_dev := 1, i_inum := 5, i_ref := 1, i_valid := False\<rparr>) ?s"
  have "inode_reach (?s, [])" by (rule inode_reach.boot) (simp add: bss_inode_def)
  moreover have "iget 1 5 ?s = Ok 0 ?t" by (simp add: iget_def bss_inode_def)
  then have "inode_step (?s, []) (?t, [(0, 1, 5)])" by (rule inode_step.gets) simp
  ultimately have "inode_reach (?t, [(0, 1, 5)])" by (rule inode_reach.step)
  then show ?thesis using inode_table_coherent [of ?t "[(0, 1, 5)]"] by (intro exI [of _ ?t]) auto
qed

end
