(* ===== verification/Pinfo.thy ===== *)
theory Pinfo
  imports Lifecycle
begin

text \<open>
  The process report of \<open>getpinfo\<close> (\<open>kernel/proc.c\<close>, \<open>kernel/pstat.h\<close>): what a program reads from the
  structure, and the bytes of the kernel stack that come with it.
\<close>

section \<open>Arrays of fixed-size elements\<close>

lemma length_concat_map: "(\<And>x. x \<in> set xs \<Longrightarrow> length (f x) = k) \<Longrightarrow> length (concat (map f xs)) = k * length xs"
  by (induction xs) auto

lemma sub_append1: "off + n \<le> length xs \<Longrightarrow> sub (xs @ ys) off n = sub xs off n"
  by (simp add: sub_def)

lemma sub_append2: "sub (xs @ ys) (length xs + off) n = sub ys off n"
  by (simp add: sub_def)

lemma sub_concat:
  assumes "\<And>x. x \<in> set xs \<Longrightarrow> length (f x) = k" "i < length xs"
  shows "sub (concat (map f xs)) (k * i) k = f (xs ! i)"
  using assms
proof (induction xs arbitrary: i)
  case (Cons x xs)
  have x: "length (f x) = k" using Cons.prems(1) by simp
  show ?case
  proof (cases i)
    case 0
    then show ?thesis using x by (simp add: sub_def)
  next
    case (Suc j)
    then show ?thesis using Cons.IH [of j] Cons.prems sub_append2 [of "f x" "concat (map f xs)" "k * j" k] x by simp
  qed
qed simp

section \<open>Names\<close>

text \<open>The C string at the start of an array.\<close>

definition cstr :: "byte list \<Rightarrow> byte list" where
  "cstr xs = takeWhile (\<lambda>c. c \<noteq> 0) xs"

lemma length_lsafestrcpy: "n \<le> length s \<Longrightarrow> length (lsafestrcpy s t n) = length s"
  by (induction s t n rule: lsafestrcpy.induct) auto

lemma cstr_Cons: "cstr (x # xs) = (if x = 0 then [] else x # cstr xs)"
  by (simp add: cstr_def)

lemma cstr_chr_at: "cstr t = (if chr_at t 0 = 0 then [] else chr_at t 0 # cstr (tl t))"
  by (cases t) (auto simp: cstr_Cons chr_at_def, simp_all add: cstr_def)

lemma cstr_lsafestrcpy: "0 < n \<Longrightarrow> n \<le> length s \<Longrightarrow> cstr (lsafestrcpy s t n) = take (n - 1) (cstr t)"
proof (induction s t n rule: lsafestrcpy.induct)
  case (2 s t)
  then show ?case by (cases s) (simp_all add: cstr_Cons)
next
  case (3 s t n)
  show ?case
  proof (cases "chr_at t 0 = 0")
    case True
    then show ?thesis using 3 by (cases s) (simp_all add: cstr_Cons cstr_chr_at [of t])
  next
    case False
    then show ?thesis using 3 cstr_chr_at [of t] by (simp add: cstr_Cons)
  qed
qed simp

text \<open>What \<open>safestrcpy\<close> leaves of the destination behind a short string.\<close>

lemma lsafestrcpy_rest:
  "length (cstr t) + 1 < j \<Longrightarrow> j < n \<Longrightarrow> n \<le> length s \<Longrightarrow> lsafestrcpy s t n ! j = s ! j"
proof (induction s t n arbitrary: j rule: lsafestrcpy.induct)
  case (3 s t n)
  show ?case
  proof (cases "chr_at t 0 = 0")
    case True
    then show ?thesis using 3 by (simp add: nth_list_update)
  next
    case False
    then have "cstr t = chr_at t 0 # cstr (tl t)" by (simp add: cstr_chr_at [of t])
    moreover from this obtain i where i: "j = Suc i" "length (cstr (tl t)) + 1 < i" using 3(2) by (cases j) auto
    ultimately show ?thesis using False 3 nth_tl [of i s] by simp
  qed
qed auto

section \<open>The report\<close>

abbreviation name_bytes :: "byte list \<Rightarrow> nat \<times> proc \<Rightarrow> byte list" where
  "name_bytes old \<equiv> (\<lambda>(i, p). lsafestrcpy (map (chr_at old) [PSTAT_NAMES + 16 * i..<PSTAT_NAMES + 16 * i + 16]) (p_name p) 16)"

lemma pstat_cols:
  assumes "length ps = NPROC" "i < NPROC"
  shows "get32 (pstat_bytes old ps) (4 * i) = (if p_state (ps ! i) \<noteq> UNUSED then 1 else 0)"
    "get32 (pstat_bytes old ps) (256 + 4 * i) = p_pid (ps ! i)"
    "get32 (pstat_bytes old ps) (512 + 4 * i) = p_priority (ps ! i)"
    "get32 (pstat_bytes old ps) (768 + 4 * i) = state_num (p_state (ps ! i))"
    "get64 (pstat_bytes old ps) (1024 + 8 * i) = p_runs (ps ! i)"
    "sub (pstat_bytes old ps) (1536 + 16 * i) 16 = name_bytes old (i, ps ! i)"
    "length (pstat_bytes old ps) = 2560"
proof -
  let ?u = "concat (map (\<lambda>p. word_le 4 (if p_state p \<noteq> UNUSED then 1 else 0 :: 32 word)) ps)"
  let ?i = "concat (map (\<lambda>p. word_le 4 (p_pid p)) ps)" and ?p = "concat (map (\<lambda>p. word_le 4 (p_priority p)) ps)"
  let ?s = "concat (map (\<lambda>p. word_le 4 (state_num (p_state p))) ps)" and ?r = "concat (map (\<lambda>p. word_le 8 (p_runs p)) ps)"
  let ?n = "concat (map (name_bytes old) (enumerate 0 ps))"
  have b: "pstat_bytes old ps = ?u @ ?i @ ?p @ ?s @ ?r @ ?n" by (simp add: pstat_bytes_def)
  have nl: "length (name_bytes old x) = 16" for x by (cases x) (simp add: length_lsafestrcpy)
  have c: "length (concat (map f ps)) = 64 * k" if "\<And>x. length (f x) = k" for f :: "proc \<Rightarrow> byte list" and k
    using length_concat_map [of ps f k] that assms(1) by (simp add: NPROC_def)
  have l: "length ?u = 256" "length ?i = 256" "length ?p = 256" "length ?s = 256" "length ?r = 512" "length ?n = 1024"
    using c [of "\<lambda>p. word_le 4 (if p_state p \<noteq> UNUSED then 1 else 0 :: 32 word)" 4] c [of "\<lambda>p. word_le 4 (p_pid p)" 4]
      c [of "\<lambda>p. word_le 4 (p_priority p)" 4] c [of "\<lambda>p. word_le 4 (state_num (p_state p))" 4] c [of "\<lambda>p. word_le 8 (p_runs p)" 8]
      length_concat_map [of "enumerate 0 ps" "name_bytes old" 16] nl assms(1)
    unfolding NPROC_def by (simp_all del: length_concat)
  have i: "i < 64" "i < length ps" using assms by (simp_all add: NPROC_def)
  show "length (pstat_bytes old ps) = 2560" by (simp add: b l)
  have e: "sub (?u @ v) (4 * i) 4 = sub ?u (4 * i) 4" "sub (?u @ ?i @ v) (256 + 4 * i) 4 = sub ?i (4 * i) 4"
      "sub (?u @ ?i @ ?p @ v) (512 + 4 * i) 4 = sub ?p (4 * i) 4" "sub (?u @ ?i @ ?p @ ?s @ v) (768 + 4 * i) 4 = sub ?s (4 * i) 4"
      "sub (?u @ ?i @ ?p @ ?s @ ?r @ v) (1024 + 8 * i) 8 = sub ?r (8 * i) 8"
      "sub (?u @ ?i @ ?p @ ?s @ ?r @ ?n) (1536 + 16 * i) 16 = sub ?n (16 * i) 16" for v
    using l i by (simp_all add: sub_def)
  show "get32 (pstat_bytes old ps) (4 * i) = (if p_state (ps ! i) \<noteq> UNUSED then 1 else 0)"
    "get32 (pstat_bytes old ps) (256 + 4 * i) = p_pid (ps ! i)"
    "get32 (pstat_bytes old ps) (512 + 4 * i) = p_priority (ps ! i)"
    "get32 (pstat_bytes old ps) (768 + 4 * i) = state_num (p_state (ps ! i))"
    unfolding b get32_def e using i by (simp_all add: sub_concat le_word_word_le)
  show "get64 (pstat_bytes old ps) (1024 + 8 * i) = p_runs (ps ! i)"
    unfolding b get64_def e using i by (simp add: sub_concat le_word_word_le)
  show "sub (pstat_bytes old ps) (1536 + 16 * i) 16 = name_bytes old (i, ps ! i)"
    unfolding b e using sub_concat [of "enumerate 0 ps" "name_bytes old" 16 i] nl i by (simp add: nth_enumerate_eq)
qed

lemma copyout_user:
  assumes "user_range s va (length src)"
  shows "\<exists>m'. copyout (p_pagetable (myproc s)) va src s = Ok 0 (s\<lparr>mem := m'\<rparr>) \<and> user_bytes (s\<lparr>mem := m'\<rparr>) va (length src) = src"
proof -
  let ?pt = "p_pagetable (myproc s)"
  have wf: "pt_wf (mem s) 2 ?pt" "unat va + length src \<le> unat MAXVA" "\<And>i. i < length src \<Longrightarrow> writable (mem s) ?pt (va + of_nat i)"
    and inj: "\<And>i j. i < length src \<Longrightarrow> j < length src \<Longrightarrow> utrans (mem s) ?pt (va + of_nat i) = utrans (mem s) ?pt (va + of_nat j) \<Longrightarrow> i = j"
    using assms by (auto simp: user_range_def inj_on_def)
  obtain m' where m': "copyout ?pt va src s = Ok 0 (s\<lparr>mem := m'\<rparr>)" "\<And>p. p \<in> pt_pages (mem s) 2 ?pt \<Longrightarrow> same (mem s) m' p"
      "\<And>i. i < length src \<Longrightarrow> m' (utrans (mem s) ?pt (va + of_nat i)) = src ! i"
    using copyout_spec [OF wf inj] by blast
  have "user_bytes (s\<lparr>mem := m'\<rparr>) va (length src) = src"
    using m'(3) copy_frame(1) [OF m'(2)] by (intro nth_equalityI) (simp_all add: user_bytes_def myproc_def)
  then show ?thesis using m'(1) by blast
qed

text \<open>
  C25. \<open>getpinfo\<close> reports the whole process table: when the destination is writable user memory, the structure
  that the program finds there holds for every slot whether it is in use, its identifier, priority, state
  and number of runs, and its name cut to 15 characters.
\<close>

theorem getpinfo_reports:
  assumes "length (procs s) = NPROC" "user_range s ps 2560"
  shows "\<exists>t. getpinfo ps s = Ok 0 t \<and> (\<forall>i < NPROC. let bs = user_bytes t ps 2560; p = procs s ! i in
    get32 bs (4 * i) = (if p_state p \<noteq> UNUSED then 1 else 0) \<and> get32 bs (256 + 4 * i) = p_pid p \<and>
    get32 bs (512 + 4 * i) = p_priority p \<and> get32 bs (768 + 4 * i) = state_num (p_state p) \<and>
    get64 bs (1024 + 8 * i) = p_runs p \<and> cstr (sub bs (1536 + 16 * i) 16) = take 15 (cstr (p_name p)))"
proof -
  let ?b = "pstat_bytes (stack s) (procs s)"
  have len: "length ?b = 2560" using pstat_cols(7) [OF assms(1), of 0] by (simp add: NPROC_def)
  then obtain m' where m': "copyout (p_pagetable (myproc s)) ps ?b s = Ok 0 (s\<lparr>mem := m'\<rparr>)"
      "user_bytes (s\<lparr>mem := m'\<rparr>) ps 2560 = ?b"
    using copyout_user [of s ps ?b] assms(2) by auto
  have "getpinfo ps s = Ok 0 (s\<lparr>mem := m'\<rparr>)" using m'(1) by (simp add: getpinfo_def)
  moreover have "cstr (name_bytes old (i, p)) = take 15 (cstr (p_name p))" for old i p
    using cstr_lsafestrcpy [of 16 "map (chr_at old) [PSTAT_NAMES + 16 * i..<PSTAT_NAMES + 16 * i + 16]" "p_name p"] by simp
  ultimately show ?thesis using m'(2) pstat_cols [OF assms(1)] by (intro exI [of _ "s\<lparr>mem := m'\<rparr>"]) (simp add: Let_def)
qed

text \<open>
  C39. The report leaks kernel memory: behind the terminator of a name shorter than 14 characters, the bytes
  given to the program are those that earlier calls left on the kernel stack.
\<close>

theorem getpinfo_leaks:
  assumes "length (procs s) = NPROC" "user_range s ps 2560" "i < NPROC" "length (cstr (p_name (procs s ! i))) + 1 < j" "j < 16"
  shows "\<exists>t. getpinfo ps s = Ok 0 t \<and> user_bytes t ps 2560 ! (PSTAT_NAMES + 16 * i + j) = chr_at (stack s) (PSTAT_NAMES + 16 * i + j)"
proof -
  let ?b = "pstat_bytes (stack s) (procs s)"
  have len: "length ?b = 2560" using pstat_cols(7) [OF assms(1), of 0] by (simp add: NPROC_def)
  then obtain m' where m': "copyout (p_pagetable (myproc s)) ps ?b s = Ok 0 (s\<lparr>mem := m'\<rparr>)"
      "user_bytes (s\<lparr>mem := m'\<rparr>) ps 2560 = ?b"
    using copyout_user [of s ps ?b] assms(2) by auto
  have off: "PSTAT_NAMES = 1536" by (simp add: PSTAT_NAMES_def NPROC_def)
  have "?b ! (1536 + 16 * i + j) = sub ?b (1536 + 16 * i) 16 ! j"
    using assms(3,5) len by (simp add: sub_def NPROC_def)
  also have "\<dots> = chr_at (stack s) (1536 + 16 * i + j)"
    using pstat_cols(6) [OF assms(1,3), of "stack s"] assms(4,5)
      lsafestrcpy_rest [of "p_name (procs s ! i)" j 16 "map (chr_at (stack s)) [PSTAT_NAMES + 16 * i..<PSTAT_NAMES + 16 * i + 16]"]
    by (simp add: off)
  finally show ?thesis using m' by (intro exI [of _ "s\<lparr>mem := m'\<rparr>"]) (simp add: getpinfo_def off)
qed

section \<open>A concrete report\<close>

lemma one_map_page:
  assumes "v < 4096"
  shows "writable one_map 0x80001000 v" "utrans one_map 0x80001000 v = 0x80004000 + v"
proof -
  have "unat v < 4096" using assms by (simp add: word_less_nat_alt)
  then have pg: "PGROUNDDOWN v = 0" by (simp add: unat_PGROUNDDOWN flip: unat_eq_0)
  have va: "v < MAXVA" using assms by (simp add: MAXVA_def word_less_nat_alt)
  have perm: "PTE_W OR PTE_U < 1024" "(PTE_W OR PTE_U) AND PTE_U \<noteq> 0" "(PTE_W OR PTE_U) AND PTE_W \<noteq> 0"
    by (simp_all add: PTE_W_def PTE_U_def)
  note f = pte_fields [OF one_map_pages(4) perm(1)]
  have u: "uaddr one_map 0x80001000 0 = 0x80004000"
    using f perm by (simp add: uaddr_def one_map_table valid_PTE Let_def MAXVA_def flip: or.assoc)
  show "writable one_map 0x80001000 v" using f perm pg u va by (auto simp: writable_def one_map_table MAXVA_def)
  show "utrans one_map 0x80001000 v = 0x80004000 + v" by (simp add: utrans_def pg u)
qed

definition demo_procs :: "proc list" where
  "demo_procs = demo_proc RUNNING 10\<lparr>p_pagetable := 0x80001000, p_pid := 3\<rparr> # replicate 63 bss_proc"

definition demo_report :: iostate where
  "demo_report = (demo_io one_map bss_proc)\<lparr>procs := demo_procs, stack := replicate 2560 0x5A\<rparr>"

lemma demo_report_range: "length (procs demo_report) = NPROC" "user_range demo_report 0 2560"
proof -
  show "length (procs demo_report) = NPROC" by (simp add: demo_report_def demo_procs_def NPROC_def)
  have s: "mem demo_report = one_map" "p_pagetable (myproc demo_report) = 0x80001000"
    by (simp_all add: demo_report_def myproc_def demo_procs_def demo_io_defs)
  have v: "(of_nat i :: 64 word) < 4096" if "i < 2560" for i
    using that by (simp add: word_less_nat_alt unat_of_nat64)
  have "inj_on (\<lambda>i. 0x80004000 + (of_nat i :: 64 word)) {..<2560}"
    by (intro inj_onI) (auto simp: word_of_nat_eq_iff take_bit_nat_eq_self_iff take_bit_eq_mod)
  moreover have "utrans one_map 0x80001000 (of_nat i) = 0x80004000 + of_nat i" if "i < 2560" for i
    using one_map_page(2) v that by blast
  ultimately have "inj_on (\<lambda>i. utrans one_map 0x80001000 (of_nat i)) {..<2560}" by (auto simp: inj_on_def)
  then show "user_range demo_report 0 2560"
    unfolding user_range_def s using one_map_table(1) one_map_page(1) v by (simp add: MAXVA_def)
qed

theorem getpinfo_reports_witness:
  "\<exists>t. getpinfo 0 demo_report = Ok 0 t \<and> get32 (user_bytes t 0 2560) 256 = 3 \<and> get32 (user_bytes t 0 2560) 512 = 10"
proof -
  have "p_pid (procs demo_report ! 0) = 3" "p_priority (procs demo_report ! 0) = 10"
    by (simp_all add: demo_report_def demo_procs_def demo_proc_def)
  then show ?thesis using getpinfo_reports [OF demo_report_range] by (force simp: NPROC_def Let_def)
qed

theorem getpinfo_leaks_witness:
  "\<exists>t. getpinfo 0 demo_report = Ok 0 t \<and> user_bytes t 0 2560 ! (PSTAT_NAMES + 16 + 5) = 0x5A"
proof -
  have "cstr (p_name (procs demo_report ! 1)) = []"
    by (simp add: demo_report_def demo_procs_def bss_proc_def cstr_def)
  moreover have "chr_at (stack demo_report) (PSTAT_NAMES + 16 + 5) = 0x5A"
    by (simp add: demo_report_def chr_at_def PSTAT_NAMES_def NPROC_def)
  ultimately show ?thesis using getpinfo_leaks [OF demo_report_range, of 1 5] by (simp add: NPROC_def)
qed

end
