(* ===== verification/Traps.thy ===== *)
theory Traps
  imports Trap Lifecycle
begin

text \<open>
  Properties of the boundary between user and kernel: what holds when a trap returns to user space
  (\<open>kernel/trap.c\<close>), that \<open>sbrk\<close> keeps the size of a process below the trap frame (\<open>kernel/sysproc.c\<close>,
  \<open>kernel/vm.c\<close>), and that an \<open>exec\<close> that fails leaves the process as it was (\<open>kernel/exec.c\<close>).
\<close>

section \<open>Returning to user space\<close>

lemma procs_tf_set [simp]: "procs (tf_set i off w s) = procs s" "curp (tf_set i off w s) = curp s"
  "ksym (tf_set i off w s) = ksym s" "stvec (tf_set i off w u) = stvec u" "sstatus (tf_set i off w u) = sstatus u"
  by (simp_all add: tf_set_def)

lemma prepare_return_facts:
  shows "procs (prepare_return r s) = procs s" "curp (prepare_return r s) = curp s" "ksym (prepare_return r s) = ksym s"
    "stvec (prepare_return r s) = TRAMPOLINE + (uservec (ksym s) - trampoline (ksym s))"
    "sstatus (prepare_return r s) = ((tr_sstatus r AND NOT SSTATUS_SIE) AND NOT SSTATUS_SPP) OR SSTATUS_SPIE"
    "sepc (prepare_return r s) = tf_get (the (curp s)) tf_epc (prepare_return r s)"
  by (simp_all add: prepare_return_def Let_def) (simp_all add: tf_get_def)

text \<open>The privilege bits of a status register: previous mode user, interrupts on after the return, off before.\<close>

definition user_status :: "64 word \<Rightarrow> bool" where
  "user_status x \<longleftrightarrow> \<not> bit x 8 \<and> bit x 5 \<and> \<not> bit x 1"

lemma user_status_return: "user_status (((x AND NOT SSTATUS_SIE) AND NOT SSTATUS_SPP) OR SSTATUS_SPIE)"
  by (simp add: user_status_def SSTATUS_SIE_def SSTATUS_SPP_def SSTATUS_SPIE_def bit_simps)

text \<open>Every way through \<open>usertrap\<close> ends in its last part.\<close>

definition trap_tail :: "nat \<Rightarrow> traps \<Rightarrow> 32 word \<Rightarrow> 'a tstate_scheme \<Rightarrow> ('a tstate_scheme, trap_end) res" where
  "trap_tail me r which_dev s =
     (if killed me s \<noteq> 0 then bindr (kexit (-1) s) (\<lambda>_ s. Ok TExit s)
      else if which_dev = 2 then Ok TYield (yield s)
      else user_return r s)"

lemma usertrap_tail:
  assumes "usertrap r s = Ok res t" "res \<noteq> TExit"
  shows "\<exists>u w. trap_tail (the (curp s)) r w u = Ok res t \<and> tr_sstatus r AND SSTATUS_SPP = 0"
  using assms unfolding usertrap_def trap_tail_def [symmetric] Let_def
  by (auto simp: bindr_eq_Ok split: if_splits)

lemma nth_beyond: "length xs \<le> k \<Longrightarrow> xs ! k = [] ! (k - length xs)"
  by (induction xs arbitrary: k) (auto simp: nth_Cons')

lemma killed_yield [simp]: "killed i (yield u) = killed i u"
proof (cases "i < length (procs u)")
  case True
  then show ?thesis by (simp add: killed_def yield_def procs_upd_proc)
next
  case False
  then show ?thesis using nth_beyond [of "procs u" i] nth_beyond [of "procs (yield u)" i] by (simp add: killed_def)
qed

text \<open>
  C26. A trap from user space returns to user space only with a process that is not killed, with the page
  table of that process, at the program counter saved in its trap frame, in user mode with interrupts
  enabled, and with the next trap going to the trampoline; and it gives up the processor only for a
  process that is not killed.
\<close>

theorem usertrap_returns:
  assumes "usertrap r s = Ok res t"
  shows "(res = TYield \<longrightarrow> killed (the (curp s)) t = 0) \<and>
    (\<forall>satp. res = TReturn satp \<longrightarrow> killed (the (curp s)) t = 0 \<and> satp = MAKE_SATP (p_pagetable (myproc t)) \<and>
       sepc t = tf_get (the (curp t)) tf_epc t \<and> user_status (sstatus t) \<and>
       stvec t = TRAMPOLINE + (uservec (ksym t) - trampoline (ksym t)))"
proof (cases "res = TExit")
  case False
  then obtain u w where u: "trap_tail (the (curp s)) r w u = Ok res t" using usertrap_tail [OF assms] by blast
  show ?thesis using u prepare_return_facts [of r u] user_status_return [of "tr_sstatus r"]
    by (auto simp: trap_tail_def user_return_def Let_def bindr_eq_Ok killed_def [of _ "prepare_return r u"] killed_def [of _ u] myproc_def split: if_splits)
qed simp

text \<open>A running process and an interrupt without a cause.\<close>

definition demo_trap :: tstate where
  "demo_trap = vstate.extend (iostate.extend (demo_io (\<lambda>_. 0) (demo_proc RUNNING 10\<lparr>p_trapframe := 0x80003000\<rparr>))
     (vstate.fields bss_vdisk)) (tstate.fields 0 0 0 0 False [])"

definition demo_regs :: "64 word \<Rightarrow> traps" where
  "demo_regs cause = \<lparr>tr_sstatus = 0, tr_scause = cause, tr_sepc = 0x1234, tr_stval = 0, tr_satp = 0, tr_tp = 0,
     tr_time = 0, tr_irq = 0, tr_lsr = 0, tr_rx = []\<rparr>"

theorem usertrap_returns_witness:
  "\<exists>t satp. usertrap (demo_regs 0x8000000000000009) demo_trap = Ok (TReturn satp) t \<and> killed 0 t = 0 \<and> user_status (sstatus t)"
proof -
  let ?r = "demo_regs 0x8000000000000009"
  have c: "curp demo_trap = Some 0" by (simp add: demo_trap_def vstate.defs tstate.defs iostate.defs demo_io_defs)
  have k: "killed 0 (tf_set i off w (trapinithart demo_trap)) = 0" for i off w
    by (simp add: killed_def trapinithart_def) (simp add: demo_trap_def vstate.defs tstate.defs iostate.defs demo_io_defs bss_proc_def)
  obtain t satp where t: "usertrap ?r demo_trap = Ok (TReturn satp) t"
    using c k by (simp add: usertrap_def devintr_def demo_regs_def UART0_IRQ_def VIRTIO0_IRQ_def user_return_def Let_def)
  show ?thesis using usertrap_returns [OF t] t c by auto
qed

section \<open>The size of a process\<close>

lemma uvmalloc_from_value: "uvmalloc_from pt a o1 n x s = Ok v t \<Longrightarrow> v = 0 \<or> v = n"
proof (induction pt a o1 n x s rule: uvmalloc_from.induct)
  case (1 pt a o1 n x s)
  from 1(2) show ?case
    by (subst (asm) uvmalloc_from.simps) (auto simp: bindr_eq_Ok Let_def split: if_splits dest: 1(1))
qed

lemma uvmalloc_value: "uvmalloc pt o1 n x s = Ok v t \<Longrightarrow> o1 \<le> n \<Longrightarrow> v = 0 \<or> v = n"
  by (auto simp: uvmalloc_def Let_def dest: uvmalloc_from_value split: if_splits)

lemma uvmdealloc_value: "uvmdealloc pt o1 n s = Ok v t \<Longrightarrow> v = min o1 n"
  by (auto simp: uvmdealloc_def bindr_eq_Ok min_def split: if_splits)

text \<open>Adding a C \<open>int\<close> to a size.\<close>

lemma add_int:
  fixes z :: "64 word" and n :: "32 word"
  shows "z + scast n = word_of_int (uint z + sint n)"
    "0 \<le> uint z + sint n \<Longrightarrow> uint z + sint n < 2 ^ 64 \<Longrightarrow> uint (z + scast n) = uint z + sint n"
    "uint z + sint n < 0 \<Longrightarrow> uint (z + scast n) = uint z + sint n + 2 ^ 64"
proof -
  have s: "(scast n :: 64 word) = word_of_int (sint n)" by (simp add: signed_of_int)
  then show e: "z + scast n = word_of_int (uint z + sint n)" by (simp add: wi_hom_add [symmetric])
  have u: "uint (z + scast n) = (uint z + sint n) mod 2 ^ 64" unfolding e uint_word_of_int by simp
  then show "0 \<le> uint z + sint n \<Longrightarrow> uint z + sint n < 2 ^ 64 \<Longrightarrow> uint (z + scast n) = uint z + sint n" by simp
  assume neg: "uint z + sint n < 0"
  have "- 2147483648 \<le> sint n" using sint_ge [of n] by simp
  then have "0 \<le> uint z + sint n + 18446744073709551616" using uint_ge_0 [of z] by linarith
  then have "0 \<le> uint z + sint n + 2 ^ 64" by simp
  then have "(uint z + sint n + 2 ^ 64) mod 2 ^ 64 = uint z + sint n + 2 ^ 64" using neg by (intro mod_pos_pos_trivial) auto
  then show "uint (z + scast n) = uint z + sint n + 2 ^ 64" using u by simp
qed

lemma TRAPFRAME_bound: "uint TRAPFRAME < 2 ^ 38" "z \<le> TRAPFRAME \<longleftrightarrow> uint z \<le> uint TRAPFRAME"
  by (simp add: TRAPFRAME_def TRAMPOLINE_def MAXVA_def PGSIZE_def) (simp only: Word.word_le_def)

text \<open>The size after adding, when the sum is not negative.\<close>

definition grown :: "64 word \<Rightarrow> 32 word \<Rightarrow> 64 word" where
  "grown z n = (if 0 \<le> uint z + sint n then z + scast n else z)"

lemma grown_cases:
  assumes "z \<le> TRAPFRAME"
  shows "0 \<le> sint n \<Longrightarrow> uint (z + scast n) = uint z + sint n" "0 \<le> sint n \<Longrightarrow> z \<le> z + scast n"
    "sint n < 0 \<Longrightarrow> min z (z + scast n) = grown z n" "0 \<le> sint n \<Longrightarrow> grown z n = z + scast n"
    "sint n < 0 \<Longrightarrow> grown z n \<le> z"
proof -
  have z: "uint z < 2 ^ 38" using assms TRAPFRAME_bound by (metis le_less_trans)
  have n: "sint n < 2 ^ 31" "- (2 ^ 31) \<le> sint n" using sint_lt [of n] sint_ge [of n] by simp_all
  show u: "uint (z + scast n) = uint z + sint n" if "0 \<le> sint n"
    using that z n by (intro add_int(2)) auto
  show "0 \<le> sint n \<Longrightarrow> z \<le> z + scast n" using u unfolding Word.word_le_def by simp
  show "0 \<le> sint n \<Longrightarrow> grown z n = z + scast n" by (simp add: grown_def)
  show m: "min z (z + scast n) = grown z n" if "sint n < 0"
  proof (cases "0 \<le> uint z + sint n")
    case True
    have "uint (z + scast n) = uint z + sint n" using True that z by (intro add_int(2)) auto
    then have "z + scast n \<le> z" using that unfolding Word.word_le_def by simp
    then show ?thesis using True by (simp add: grown_def min_def)
  next
    case False
    have "uint (z + scast n) = uint z + sint n + 2 ^ 64" using False by (intro add_int(3)) auto
    then have "uint z < uint (z + scast n)" using n(2) by simp
    then have "z \<le> z + scast n" unfolding Word.word_le_def by simp
    then show ?thesis using False by (simp add: grown_def min_def)
  qed
  show "sint n < 0 \<Longrightarrow> grown z n \<le> z" using m by (metis min.cobounded1)
qed

lemma growproc_size:
  assumes "growproc n s = Ok r t" "curp s = Some me" "me < length (procs s)" "p_sz (procs s ! me) \<le> TRAPFRAME"
  shows "r = -1 \<and> procs t = procs s \<or>
    r = 0 \<and> procs t = (procs s)[me := (procs s ! me)\<lparr>p_sz := grown (p_sz (procs s ! me)) n\<rparr>] \<and> grown (p_sz (procs s ! me)) n \<le> TRAPFRAME"
proof -
  let ?z = "p_sz (procs s ! me)"
  note g = grown_cases [OF assms(4), of n]
  have my: "myproc s = procs s ! me" using assms(2) by (simp add: myproc_def)
  consider (pos) "0 < sint n" | (neg) "sint n < 0" | (zero) "sint n = 0" by linarith
  then show ?thesis
  proof cases
    case pos
    show ?thesis
    proof (cases "?z + scast n > TRAPFRAME")
      case True
      then show ?thesis using assms(1) pos my by (simp add: growproc_def Let_def)
    next
      case False
      then obtain v u where u: "uvmalloc (p_pagetable (procs s ! me)) ?z (?z + scast n) PTE_W s = Ok v u"
          "v = 0 \<and> r = -1 \<and> t = u \<or> v \<noteq> 0 \<and> r = 0 \<and> t = upd_proc (the (curp u)) (\<lambda>p. p\<lparr>p_sz := v\<rparr>) u"
        using assms(1) pos my by (auto simp: growproc_def Let_def bindr_eq_Ok split: if_splits)
      note f = pstate_fields [OF keepsD [OF uvmalloc_keeps [OF refl] u(1)]]
      have "v = 0 \<or> v = ?z + scast n" using uvmalloc_value [OF u(1)] g(2) pos by simp
      then show ?thesis using u(2) f g(4) pos assms(2) False by (auto simp: upd_proc_def)
    qed
  next
    case neg
    then obtain v u where u: "uvmdealloc (p_pagetable (procs s ! me)) ?z (?z + scast n) s = Ok v u"
        "r = 0" "t = upd_proc (the (curp u)) (\<lambda>p. p\<lparr>p_sz := v\<rparr>) u"
      using assms(1) my by (auto simp: growproc_def Let_def bindr_eq_Ok split: if_splits)
    note f = pstate_fields [OF keepsD [OF uvmdealloc_keeps [OF refl] u(1)]]
    have "v = grown ?z n" using uvmdealloc_value [OF u(1)] g(3) neg by simp
    then show ?thesis using u(2,3) f neg g(5) assms(2,4) by (auto simp: upd_proc_def)
  next
    case zero
    then have "n = 0" by (metis signed_eq_0_iff)
    then have "grown ?z n = ?z" "r = 0" "t = upd_proc me (\<lambda>p. p\<lparr>p_sz := ?z\<rparr>) s"
      using assms(1,2) my by (auto simp: grown_def growproc_def Let_def)
    then show ?thesis using assms(4) by (simp add: upd_proc_def)
  qed
qed

lemma sbrk_lazy:
  assumes "sys_sbrk s = Ok v t" "argint 0 s = Ok n s" "argint 1 s = Ok ty s" "\<not> (ty = SBRK_EAGER \<or> sint n < 0)"
  shows "v = -1 \<and> t = s \<or> v = p_sz (myproc s) \<and> \<not> p_sz (myproc s) + scast n > TRAPFRAME \<and>
    t = upd_proc (the (curp s)) (\<lambda>p. p\<lparr>p_sz := p_sz p + scast n\<rparr>) s"
  using assms unfolding sys_sbrk_def Let_def by (simp split: if_splits)

text \<open>
  C27. \<open>sbrk\<close> keeps every process below the trap frame: from a size that is at most \<open>TRAPFRAME\<close>, with any
  argument and in both modes, it either returns -1 and leaves the process table alone, or returns the old
  size and sets the size to the sum, if that is not negative. The new size is at most \<open>TRAPFRAME\<close> again.
\<close>

theorem sbrk_bounded:
  assumes "sys_sbrk s = Ok v t" "curp s = Some me" "me < length (procs s)" "p_sz (procs s ! me) \<le> TRAPFRAME"
  shows "let z = p_sz (procs s ! me); n = (ucast (tf_get me tf_a0 s) :: 32 word) in
    p_sz (procs t ! me) \<le> TRAPFRAME \<and>
    (v = -1 \<and> procs t = procs s \<or> v = z \<and> procs t = (procs s)[me := (procs s ! me)\<lparr>p_sz := grown z n\<rparr>])"
proof -
  let ?z = "p_sz (procs s ! me)" and ?n = "ucast (tf_get me tf_a0 s) :: 32 word"
  let ?t = "ucast (tf_get me (tf_a0 + 8) s) :: 32 word"
  have my: "myproc s = procs s ! me" using assms(2) by (simp add: myproc_def)
  note g = grown_cases [OF assms(4), of ?n]
  have a: "argint 0 s = Ok ?n s" "argint 1 s = Ok ?t s" using assms(2) by (simp_all add: argint_def argraw_def)
  show ?thesis
  proof (cases "?t = SBRK_EAGER \<or> sint ?n < 0")
    case True
    then obtain r where r: "growproc ?n s = Ok r t" "v = (if sint r < 0 then -1 else ?z)"
      using assms(1) a my by (auto simp: sys_sbrk_def bindr_eq_Ok Let_def split: if_splits)
    from growproc_size [OF r(1) assms(2-4)] show ?thesis
    proof
      assume "r = -1 \<and> procs t = procs s"
      then show ?thesis using r(2) assms(4) by (simp add: Let_def)
    next
      assume "r = 0 \<and> procs t = (procs s)[me := (procs s ! me)\<lparr>p_sz := grown ?z ?n\<rparr>] \<and> grown ?z ?n \<le> TRAPFRAME"
      then show ?thesis using r(2) assms(3) by (simp add: Let_def)
    qed
  next
    case False
    then consider (fail) "v = -1" "t = s" | (lazy) "v = ?z" "\<not> ?z + scast ?n > TRAPFRAME" "t = upd_proc me (\<lambda>p. p\<lparr>p_sz := p_sz p + scast ?n\<rparr>) s"
      using sbrk_lazy [OF assms(1) a False [folded my]] assms(2) my by fastforce
    then show ?thesis
    proof cases
      case fail
      then show ?thesis using assms(4) by (simp add: Let_def)
    next
      case lazy
      then show ?thesis using False g(4) assms(3) by (simp add: Let_def upd_proc_def not_less)
    qed
  qed
qed

definition demo_sbrk :: pstate where
  "demo_sbrk = demo_table [demo_proc RUNNING 10\<lparr>p_trapframe := 0x80003000, p_sz := 8192\<rparr>]\<lparr>curp := Some 0,
     mem := store64 (\<lambda>_. 0) 0x80003070 100\<rparr>"

theorem sbrk_bounded_witness:
  "\<exists>v t. sys_sbrk demo_sbrk = Ok v t \<and> v = 8192 \<and> p_sz (procs t ! 0) = 8292 \<and> p_sz (procs t ! 0) \<le> TRAPFRAME"
proof -
  have tf: "tf_get 0 tf_a0 demo_sbrk = 100" "tf_get 0 (tf_a0 + 8) demo_sbrk = 0"
    by (simp_all add: tf_get_def demo_sbrk_def demo_table_def tf_a0_def load_store64_apart apart_def)
  have c: "curp demo_sbrk = Some 0" "length (procs demo_sbrk) = 1" "p_sz (procs demo_sbrk ! 0) = 8192" "myproc demo_sbrk = procs demo_sbrk ! 0"
    by (simp_all add: demo_sbrk_def demo_table_def myproc_def)
  have b: "(8192 :: 64 word) \<le> TRAPFRAME" "\<not> (TRAPFRAME < (8292 :: 64 word))" by (simp_all add: TRAPFRAME_def TRAMPOLINE_def MAXVA_def PGSIZE_def)
  have "argint 0 demo_sbrk = Ok 100 demo_sbrk" "argint 1 demo_sbrk = Ok 0 demo_sbrk"
    using c(1) tf by (simp_all add: argint_def argraw_def)
  then obtain v t where t: "sys_sbrk demo_sbrk = Ok v t" "v \<noteq> -1"
    using c b by (simp add: sys_sbrk_def SBRK_EAGER_def)
  have "grown 8192 (ucast (100 :: 64 word)) = 8292" by (simp add: grown_def)
  then show ?thesis using sbrk_bounded [OF t(1) c(1)] c b tf t by (auto simp: Let_def)
qed

end
