(* ===== verification/Vdisk.thy ===== *)
theory Vdisk
  imports Virtio
begin

text \<open>
  The disk driver and the device as two parties of a protocol. The driver submits requests, waits for them
  and handles interrupts; the device takes the heads of chains from the available ring, follows the chain
  through the descriptors, transfers the block, writes the status byte and publishes the head in the used
  ring, for the requests it holds in any order. The lemmas show that the two agree on every chain, that no
  check of the driver fails, and that a request returns after exactly the transfer it asked for.
\<close>

section \<open>The device\<close>

definition nxt :: "vdisk \<Rightarrow> nat \<Rightarrow> nat" where
  "nxt v i = unat (d_next (vq_desc v ! i))"

text \<open>The chain that starts at \<open>h\<close>, as the device reads it (sections 2.7 and 5.2 of the virtio
  specification): direction, sector, buffer and the place of the status byte.\<close>

definition dev_chain :: "vdisk \<Rightarrow> nat \<Rightarrow> (bool \<times> 64 word \<times> nat \<times> nat) option" where
  "dev_chain v h =
     (let d0 = vq_desc v ! h; d1 = vq_desc v ! nxt v h; d2 = vq_desc v ! nxt v (nxt v h) in
      case (d_addr d0, d_addr d1, d_addr d2) of
        (DmaOps k, DmaData b, DmaStatus j) \<Rightarrow>
          if d_flags d0 AND VRING_DESC_F_NEXT \<noteq> 0 \<and> d_flags d1 AND VRING_DESC_F_NEXT \<noteq> 0 \<and>
             d_flags d2 AND VRING_DESC_F_NEXT = 0 \<and> d_len d0 = 16 \<and> d_len d1 = of_nat BSIZE \<and> d_len d2 = 1 \<and>
             d_flags d0 AND VRING_DESC_F_WRITE = 0 \<and> d_flags d2 AND VRING_DESC_F_WRITE \<noteq> 0 \<and>
             (d_flags d1 AND VRING_DESC_F_WRITE \<noteq> 0 \<longleftrightarrow> r_type (vd_ops v ! k) = VIRTIO_BLK_T_IN) \<and>
             (r_type (vd_ops v ! k) = VIRTIO_BLK_T_IN \<or> r_type (vd_ops v ! k) = VIRTIO_BLK_T_OUT)
          then Some (r_type (vd_ops v ! k) = VIRTIO_BLK_T_OUT, r_sector (vd_ops v ! k), b, j)
          else None
      | _ \<Rightarrow> None)"

text \<open>The transfer of two sectors, which are one block.\<close>

definition dev_transfer :: "bool \<Rightarrow> 64 word \<Rightarrow> nat \<Rightarrow> 'a vstate_scheme \<Rightarrow> 'a vstate_scheme" where
  "dev_transfer w sec b s =
     (let n = ucast (drop_bit 1 sec) :: block in
      if w then s\<lparr>disk := (disk s)(n := b_data (bufs s ! b)), dtrace := dtrace s @ [(n, b_data (bufs s ! b))]\<rparr>
      else upd_buf b (\<lambda>bf. bf\<lparr>b_data := disk s n\<rparr>) s)"

definition dev_publish :: "nat \<Rightarrow> nat \<Rightarrow> vdisk \<Rightarrow> vdisk" where
  "dev_publish h j v = v\<lparr>vd_info := (vd_info v)[j := (vd_info v ! j)\<lparr>inf_status := 0\<rparr>],
     usedq_ring := (usedq_ring v)[unat (usedq_idx v) mod NUM := of_nat h], usedq_idx := usedq_idx v + 1\<rparr>"

section \<open>The machine\<close>

text \<open>A request between \<open>virtio_submit\<close> and \<open>virtio_finish\<close>. The last field is the number of transfers that
  the device had done when the request was made.\<close>

record vreq =
  q_b :: nat
  q_head :: nat
  q_write :: bool
  q_block :: block
  q_at :: nat

record 'a dmach =
  m_s :: "'a vstate_scheme"
  m_seen :: "16 word"
  m_busy :: "nat list"
  m_reqs :: "vreq list"
  m_done :: "(bool \<times> 64 word \<times> nat) list"

definition sector :: "block \<Rightarrow> 64 word" where
  "sector n = ucast (n * of_nat (BSIZE div 512))"

text \<open>The callers hold the sleep lock of the buffer from before the submission until after the return, so
  there is one request for a buffer at a time and no other code changes the block number meanwhile.\<close>

inductive disk_step :: "'a dmach \<Rightarrow> 'a dmach \<Rightarrow> bool" where
  submit: "b \<notin> q_b ` set (m_reqs m) \<Longrightarrow> virtio_submit b w (m_s m) = Ok h t \<Longrightarrow>
    disk_step m (m\<lparr>m_s := t, m_reqs := m_reqs m @ [\<lparr>q_b = b, q_head = h, q_write = w, q_block = b_blockno (bufs (m_s m) ! b),
      q_at = length (m_done m)\<rparr>]\<rparr>)"
| full: "virtio_submit b w (m_s m) = Sleep t \<Longrightarrow> disk_step m (m\<lparr>m_s := t\<rparr>)"
| fetch: "m_seen m \<noteq> avail_idx (vd (m_s m)) \<Longrightarrow>
    disk_step m (m\<lparr>m_seen := m_seen m + 1, m_busy := m_busy m @ [unat (avail_ring (vd (m_s m)) ! (unat (m_seen m) mod NUM))]\<rparr>)"
| complete: "h \<in> set (m_busy m) \<Longrightarrow> dev_chain (vd (m_s m)) h = Some (w, sec, b, j) \<Longrightarrow>
    disk_step m (m\<lparr>m_s := upd_vd (dev_publish h j) (dev_transfer w sec b (m_s m)), m_busy := remove1 h (m_busy m),
      m_done := m_done m @ [(w, sec, b)]\<rparr>)"
| interrupt: "virtio_disk_intr (m_s m) = Ok () t \<Longrightarrow> disk_step m (m\<lparr>m_s := t\<rparr>)"
| finish: "r \<in> set (m_reqs m) \<Longrightarrow> virtio_finish (q_b r) (q_head r) (m_s m) = Ok () t \<Longrightarrow>
    disk_step m (m\<lparr>m_s := t, m_reqs := remove1 r (m_reqs m)\<rparr>)"
| waits: "r \<in> set (m_reqs m) \<Longrightarrow> virtio_finish (q_b r) (q_head r) (m_s m) = Sleep t \<Longrightarrow> disk_step m (m\<lparr>m_s := t\<rparr>)"
| other: "vd t = vd (m_s m) \<Longrightarrow> (\<forall>r \<in> set (m_reqs m). b_blockno (bufs t ! q_b r) = b_blockno (bufs (m_s m) ! q_b r)) \<Longrightarrow>
    disk_step m (m\<lparr>m_s := t\<rparr>)"

definition disk_init :: "'a dmach \<Rightarrow> bool" where
  "disk_init m \<longleftrightarrow> (\<exists>r s. virtio_disk_init r s = Ok () (m_s m) \<and> used_idx (vd s) = 0 \<and> length (vd_info (vd s)) = NUM \<and>
     length (vd_ops (vd s)) = NUM) \<and> m_seen m = 0 \<and> m_busy m = [] \<and> m_reqs m = [] \<and> m_done m = []"

inductive disk_reach :: "'a dmach \<Rightarrow> bool" where
  boot: "disk_init m \<Longrightarrow> disk_reach m"
| step: "disk_reach m \<Longrightarrow> disk_step m m' \<Longrightarrow> disk_reach m'"

section \<open>Rings\<close>

lemma ring_slot: "unat (x + of_nat k :: 16 word) mod NUM = (unat x + k) mod NUM"
proof -
  have "unat (x + of_nat k :: 16 word) = (unat x + k) mod 65536"
    by (simp add: unat_word_ariths unat_of_nat mod_simps take_bit_eq_mod)
  moreover have "(unat x + k) mod 65536 mod 8 = (unat x + k) mod 8" by (rule mod_mod_cancel) simp
  ultimately show ?thesis by (simp add: NUM_def)
qed

text \<open>The entries of a ring from an index on.\<close>

definition window :: "'w::len word list \<Rightarrow> 16 word \<Rightarrow> nat list \<Rightarrow> bool" where
  "window rg i xs \<longleftrightarrow> (\<forall>k < length xs. unat (rg ! ((unat i + k) mod NUM)) = xs ! k)"

lemma window_Nil [simp]: "window rg i []"
  by (simp add: window_def)

lemma ring_slots_apart:
  assumes "k < n" "n < (8 :: nat)"
  shows "(a + k) mod 8 \<noteq> (a + n) mod 8"
proof
  assume "(a + k) mod 8 = (a + n) mod 8"
  then have "8 dvd (a + n) - (a + k)" using assms by (metis mod_eq_dvd_iff_nat nat_add_left_cancel_le less_imp_le)
  then have "8 dvd n - k" by simp
  then show False using assms by (auto dest: dvd_imp_le)
qed

lemma window_push:
  assumes "window rg i xs" "length xs < NUM" "length rg = NUM" "unat v = x"
  shows "window (rg[unat (i + of_nat (length xs)) mod NUM := v]) i (xs @ [x])"
proof -
  have "(unat i + length xs) mod NUM \<noteq> (unat i + k) mod NUM" if "k < length xs" for k
    using ring_slots_apart that assms(2) unfolding NUM_def by metis
  moreover have "(unat i + length xs) mod NUM < length rg" using assms(3) by (simp add: NUM_def)
  ultimately show ?thesis using assms unfolding window_def ring_slot by (auto simp: nth_append less_Suc_eq nth_list_update)
qed

lemma window_pop:
  assumes "window rg i (x # xs)"
  shows "unat (rg ! (unat i mod NUM)) = x" "window rg (i + 1) xs"
proof -
  show "unat (rg ! (unat i mod NUM)) = x" using assms by (auto simp: window_def dest: spec [of _ 0])
  have "unat (rg ! ((unat (i + 1) + k) mod NUM)) = xs ! k" if "k < length xs" for k
  proof -
    have "(unat (i + 1) + k) mod NUM = (unat i + Suc k) mod NUM"
      using ring_slot [of i 1] by (metis mod_add_left_eq add_Suc_right add_Suc of_nat_1 Suc_eq_plus1)
    then show ?thesis using assms that by (auto simp: window_def dest: spec [of _ "Suc k"])
  qed
  then show "window rg (i + 1) xs" by (simp add: window_def)
qed

section \<open>Descriptors\<close>

text \<open>The part of the driver's state that allocation does not touch.\<close>

definition vrest :: "vdisk \<Rightarrow> vdisk" where
  "vrest v = v\<lparr>vq_desc := [], vd_free := []\<rparr>"

definition vlens :: "vdisk \<Rightarrow> bool" where
  "vlens v \<longleftrightarrow> length (vq_desc v) = NUM \<and> length (vd_free v) = NUM \<and> length (avail_ring v) = NUM \<and>
     length (usedq_ring v) = NUM \<and> length (vd_info v) = NUM \<and> length (vd_ops v) = NUM"

lemma vrest_fields:
  assumes "vrest v' = vrest v"
  shows "avail_idx v' = avail_idx v" "avail_ring v' = avail_ring v" "usedq_idx v' = usedq_idx v"
    "usedq_ring v' = usedq_ring v" "used_idx v' = used_idx v" "vd_info v' = vd_info v" "vd_ops v' = vd_ops v"
    "b_disk v' = b_disk v"
  using arg_cong [OF assms, of avail_idx] arg_cong [OF assms, of avail_ring] arg_cong [OF assms, of usedq_idx]
    arg_cong [OF assms, of usedq_ring] arg_cong [OF assms, of used_idx] arg_cong [OF assms, of vd_info]
    arg_cong [OF assms, of vd_ops] arg_cong [OF assms, of b_disk]
  by (simp_all add: vrest_def)

lemma vd_upd [simp]: "vd (upd_vd f s) = f (vd s)" "vd (wakeup ch s) = vd s" "vd (upd_proc i g s) = vd s"
  "bufs (upd_vd f s) = bufs s"
  by (simp_all add: upd_vd_def wakeup_def upd_proc_def)

text \<open>Freeing the descriptors of a list: nothing else changes.\<close>

definition frees :: "nat list \<Rightarrow> vdisk \<Rightarrow> vdisk \<Rightarrow> bool" where
  "frees idx v v' \<longleftrightarrow> vrest v' = vrest v \<and> length (vq_desc v') = NUM \<and> length (vd_free v') = NUM \<and>
     (\<forall>i < NUM. (vd_free v' ! i \<longleftrightarrow> vd_free v ! i \<or> i \<in> set idx) \<and> (i \<notin> set idx \<longrightarrow> vq_desc v' ! i = vq_desc v ! i))"

lemma free_desc_ok:
  assumes "i < NUM" "\<not> vd_free (vd s) ! i" "length (vq_desc (vd s)) = NUM" "length (vd_free (vd s)) = NUM"
  shows "\<exists>t. free_desc i s = Ok () t \<and> frees [i] (vd s) (vd t) \<and> bufs t = bufs s"
  using assms by (auto simp: free_desc_def frees_def vrest_def nth_list_update wakeup_def upd_vd_def)

lemma frees_trans: "frees xs u v \<Longrightarrow> frees ys v w \<Longrightarrow> frees (xs @ ys) u w"
  unfolding frees_def by auto

lemma frees_lens: "frees xs u v \<Longrightarrow> length (vq_desc v) = NUM \<and> length (vd_free v) = NUM"
  by (simp add: frees_def)

lemma free_all_ok:
  assumes "distinct idx" "\<forall>i \<in> set idx. i < NUM \<and> \<not> vd_free (vd s) ! i" "length (vq_desc (vd s)) = NUM"
    "length (vd_free (vd s)) = NUM"
  shows "\<exists>t. forM idx free_desc s = Ok () t \<and> frees idx (vd s) (vd t) \<and> bufs t = bufs s"
  using assms
proof (induction idx arbitrary: s)
  case Nil
  then show ?case by (auto simp: frees_def)
next
  case (Cons i idx)
  then obtain t where t: "free_desc i s = Ok () t" "frees [i] (vd s) (vd t)" "bufs t = bufs s"
    using free_desc_ok [of i s] by auto
  then have "\<forall>j \<in> set idx. j < NUM \<and> \<not> vd_free (vd t) ! j" using Cons.prems by (auto simp: frees_def)
  then obtain u where "forM idx free_desc t = Ok () u" "frees idx (vd t) (vd u)" "bufs u = bufs t"
    using Cons.IH [of t] Cons.prems(1) frees_lens [OF t(2)] by auto
  then show ?case using t frees_trans [OF t(2), of idx "vd u"] by simp
qed

lemma fewer_taken: "i < length xs \<Longrightarrow> \<not> xs ! i \<Longrightarrow> length (filter Not (xs[i := True])) < length (filter Not xs)"
  by (induction xs arbitrary: i) (auto split: nat.splits)

lemma free_chain_Diverge:
  "free_chain_from n i s = Diverge \<Longrightarrow> length (vd_free (vd s)) = NUM \<Longrightarrow> n \<le> length (filter Not (vd_free (vd s)))"
proof (induction n i s rule: free_chain_from.induct)
  case (2 n i s)
  let ?n = "unat (d_next (vq_desc (vd s) ! i))"
  show ?case
  proof (cases "free_desc i s")
    case (Ok u t)
    then have t: "i < NUM" "\<not> vd_free (vd s) ! i" "vd_free (vd t) = (vd_free (vd s))[i := True]"
      by (auto simp: free_desc_def split: if_splits)
    have "free_chain_from n ?n t = Diverge" using "2.prems"(1) Ok by (auto simp: Let_def split: if_splits)
    then have "n \<le> length (filter Not (vd_free (vd t)))"
      using "2.IH" [OF refl refl Ok] "2.prems" Ok t by (auto simp: Let_def split: if_splits)
    moreover have "length (filter Not ((vd_free (vd s))[i := True])) < length (filter Not (vd_free (vd s)))"
      using t(1,2) "2.prems"(2) by (intro fewer_taken) simp_all
    ultimately show ?thesis using t(3) by simp
  qed (use "2.prems" in \<open>auto simp: free_desc_def split: if_splits\<close>)
qed simp


lemma alloc_desc_cases:
  assumes "length (vd_free (vd s)) = NUM"
  obtains "alloc_desc s = (None, s)"
  | i where "i < NUM" "vd_free (vd s) ! i" "alloc_desc s = (Some i, upd_vd (\<lambda>v. v\<lparr>vd_free := (vd_free v)[i := False]\<rparr>) s)"
  using assms unfolding alloc_desc_def by (cases "find_idx (\<lambda>x. x) (vd_free (vd s))") (auto simp: find_idx_Some)

text \<open>\<open>alloc3_desc\<close> either takes three free descriptors or gives back the ones it took.\<close>

definition taken :: "nat list \<Rightarrow> bool list \<Rightarrow> bool list" where
  "taken js = fold (\<lambda>i f. f[i := False]) js"

lemma length_taken [simp]: "length (taken js f) = length f"
  by (induction js arbitrary: f) (simp_all add: taken_def)

lemma taken_nth [simp]: "i < length f \<Longrightarrow> taken js f ! i \<longleftrightarrow> f ! i \<and> i \<notin> set js"
proof (induction js arbitrary: f)
  case (Cons j js)
  then show ?case using Cons.IH [of "f[j := False]"] by (cases "j = i") (auto simp: taken_def)
qed (simp add: taken_def)

lemma alloc_descs_cases:
  assumes "length (vq_desc (vd s)) = NUM" "length (vd_free (vd s)) = NUM" "distinct idx"
    "\<forall>i \<in> set idx. i < NUM \<and> \<not> vd_free (vd s) ! i"
  shows "(\<exists>js. alloc_descs n idx s = Ok (Some (idx @ js)) (upd_vd (\<lambda>v. v\<lparr>vd_free := taken js (vd_free v)\<rparr>) s) \<and>
      length js = n \<and> distinct js \<and> (\<forall>i \<in> set js. i < NUM \<and> vd_free (vd s) ! i)) \<or>
    (\<exists>js t. alloc_descs n idx s = Ok None t \<and> frees (idx @ js) (vd s) (vd t) \<and> (\<forall>i \<in> set js. vd_free (vd s) ! i) \<and> bufs t = bufs s)"
  using assms
proof (induction n arbitrary: idx s)
  case 0
  then show ?case by (simp add: taken_def upd_vd_def)
next
  case (Suc n)
  show ?case
  proof (cases rule: alloc_desc_cases [OF Suc.prems(2)])
    case 1
    obtain t where "forM idx free_desc s = Ok () t" "frees idx (vd s) (vd t)" "bufs t = bufs s"
      using free_all_ok [of idx s] Suc.prems by blast
    then have "alloc_descs (Suc n) idx s = Ok None t" "frees (idx @ []) (vd s) (vd t)" using 1 by simp_all
    then show ?thesis using \<open>bufs t = bufs s\<close> by (metis empty_iff empty_set)
  next
    case (2 i)
    let ?s = "upd_vd (\<lambda>v. v\<lparr>vd_free := (vd_free v)[i := False]\<rparr>) s"
    have e: "alloc_descs (Suc n) idx s = alloc_descs n (idx @ [i]) ?s" using 2 by simp
    have "\<forall>j \<in> set (idx @ [i]). j < NUM \<and> \<not> vd_free (vd ?s) ! j" "distinct (idx @ [i])"
      using Suc.prems 2 by (auto simp: nth_list_update)
    then consider (got) js where "alloc_descs n (idx @ [i]) ?s = Ok (Some ((idx @ [i]) @ js)) (upd_vd (\<lambda>v. v\<lparr>vd_free := taken js (vd_free v)\<rparr>) ?s)"
        "length js = n" "distinct js" "\<forall>k \<in> set js. k < NUM \<and> vd_free (vd ?s) ! k"
      | (undo) js t where "alloc_descs n (idx @ [i]) ?s = Ok None t" "frees ((idx @ [i]) @ js) (vd ?s) (vd t)"
        "\<forall>k \<in> set js. vd_free (vd ?s) ! k" "bufs t = bufs ?s"
      using Suc.IH [of ?s "idx @ [i]"] Suc.prems(1,2) by auto
    then show ?thesis
    proof cases
      case got
      then have "i \<notin> set js" using 2 Suc.prems(2) by auto
      then show ?thesis using got e 2 Suc.prems(2)
        by (intro disjI1 exI [of _ "i # js"]) (auto simp: taken_def upd_vd_def nth_list_update split: if_splits)
    next
      case undo
      have "vd_free (vd s) ! k" if "k \<in> set js" for k
        using undo(3) that by (cases "k = i"; cases "k < NUM") (auto simp: 2 nth_list_update)
      moreover have "frees (idx @ i # js) (vd s) (vd t)"
        using undo(2) by (auto simp: frees_def vrest_def nth_list_update split: if_splits)
      ultimately show ?thesis using undo e 2 by (intro disjI2 exI [of _ "i # js"] exI [of _ t]) auto
    qed
  qed
qed

section \<open>Requests\<close>

definition cells :: "vdisk \<Rightarrow> nat \<Rightarrow> nat list" where
  "cells v h = [h, nxt v h, nxt v (nxt v h)]"

text \<open>The state after the submission of a request with the descriptors \<open>i0\<close>, \<open>i1\<close> and \<open>i2\<close>.\<close>

definition submitted :: "nat \<Rightarrow> bool \<Rightarrow> block \<Rightarrow> nat \<Rightarrow> nat \<Rightarrow> nat \<Rightarrow> vdisk \<Rightarrow> vdisk" where
  "submitted b w n i0 i1 i2 v = v\<lparr>vd_free := taken [i0, i1, i2] (vd_free v),
     vd_ops := (vd_ops v)[i0 := \<lparr>r_type = (if w then VIRTIO_BLK_T_OUT else VIRTIO_BLK_T_IN), r_reserved = 0, r_sector = sector n\<rparr>],
     vq_desc := (vq_desc v)[i0 := \<lparr>d_addr = DmaOps i0, d_len = 16, d_flags = VRING_DESC_F_NEXT, d_next = of_nat i1\<rparr>,
       i1 := \<lparr>d_addr = DmaData b, d_len = of_nat BSIZE,
              d_flags = (if w then 0 else VRING_DESC_F_WRITE) OR VRING_DESC_F_NEXT, d_next = of_nat i2\<rparr>,
       i2 := \<lparr>d_addr = DmaStatus i0, d_len = 1, d_flags = VRING_DESC_F_WRITE, d_next = 0\<rparr>],
     vd_info := (vd_info v)[i0 := (vd_info v ! i0)\<lparr>inf_status := 0xff, inf_b := Some b\<rparr>],
     b_disk := (b_disk v)(b := True),
     avail_ring := (avail_ring v)[unat (avail_idx v) mod NUM := of_nat i0], avail_idx := avail_idx v + 1\<rparr>"

lemma submit_cases:
  assumes "vlens (vd s)"
  shows "(\<exists>i0 i1 i2 t. virtio_submit b w s = Ok i0 t \<and> distinct [i0, i1, i2] \<and>
      (\<forall>i \<in> {i0, i1, i2}. i < NUM \<and> vd_free (vd s) ! i) \<and>
      vd t = submitted b w (b_blockno (bufs s ! b)) i0 i1 i2 (vd s) \<and> bufs t = bufs s) \<or>
    (\<exists>js t. virtio_submit b w s = Sleep t \<and> frees js (vd s) (vd t) \<and> (\<forall>i \<in> set js. vd_free (vd s) ! i) \<and> bufs t = bufs s)"
proof -
  have l: "length (vq_desc (vd s)) = NUM" "length (vd_free (vd s)) = NUM" using assms by (simp_all add: vlens_def)
  consider (got) js where "alloc_descs 3 [] s = Ok (Some js) (upd_vd (\<lambda>v. v\<lparr>vd_free := taken js (vd_free v)\<rparr>) s)"
      "length js = 3" "distinct js" "\<forall>k \<in> set js. k < NUM \<and> vd_free (vd s) ! k"
    | (undo) js t where "alloc_descs 3 [] s = Ok None t" "frees js (vd s) (vd t)" "\<forall>k \<in> set js. vd_free (vd s) ! k"
      "bufs t = bufs s"
    using alloc_descs_cases [OF l, of "[]" 3] by auto
  then show ?thesis
  proof cases
    case got
    obtain i0 i1 i2 where js: "js = [i0, i1, i2]" using got(2) by (auto simp: numeral_3_eq_3 length_Suc_conv)
    have "\<exists>t. virtio_submit b w s = Ok i0 t \<and> vd t = submitted b w (b_blockno (bufs s ! b)) i0 i1 i2 (vd s) \<and> bufs t = bufs s"
      using got(1,4) assms by (simp add: js virtio_submit_def alloc3_desc_def submitted_def sector_def Let_def upd_vd_def vlens_def)
    then show ?thesis using got(3,4) js by auto
  next
    case undo
    then have "virtio_submit b w s = sleep ChDiskFree t" by (simp add: virtio_submit_def alloc3_desc_def Let_def)
    then show ?thesis using undo by (intro disjI2) (auto simp: sleep_def upd_proc_def)
  qed
qed

lemma chain_frame:
  assumes "\<forall>i \<in> set (cells v h). vq_desc v' ! i = vq_desc v ! i" "d_addr (vq_desc v ! h) = DmaOps h" "vd_ops v' ! h = vd_ops v ! h"
  shows "cells v' h = cells v h" "dev_chain v' h = dev_chain v h"
proof -
  have n: "nxt v' h = nxt v h" "nxt v' (nxt v h) = nxt v (nxt v h)" using assms(1) by (simp_all add: cells_def nxt_def)
  then show "cells v' h = cells v h" by (simp add: cells_def)
  have d: "vq_desc v' ! h = vq_desc v ! h" "vq_desc v' ! nxt v h = vq_desc v ! nxt v h"
    "vq_desc v' ! nxt v (nxt v h) = vq_desc v ! nxt v (nxt v h)" using assms(1) by (simp_all add: cells_def)
  show "dev_chain v' h = dev_chain v h"
    unfolding dev_chain_def Let_def n d assms(2) prod.case dma.case assms(3) by (rule refl)
qed

lemma chain_same:
  assumes "vq_desc v' = vq_desc v" "vd_ops v' = vd_ops v"
  shows "cells v' h = cells v h" "dev_chain v' h = dev_chain v h"
  unfolding cells_def nxt_def dev_chain_def assms by (rule refl)+

definition req_ok :: "vdisk \<Rightarrow> vreq \<Rightarrow> bool" where
  "req_ok v r \<longleftrightarrow> dev_chain v (q_head r) = Some (q_write r, sector (q_block r), q_b r, q_head r) \<and>
     d_addr (vq_desc v ! q_head r) = DmaOps (q_head r) \<and> inf_b (vd_info v ! q_head r) = Some (q_b r)"

lemma submitted_chain:
  assumes "vlens v" "distinct [i0, i1, i2]" "i0 < NUM" "i1 < NUM" "i2 < NUM"
  shows "cells (submitted b w n i0 i1 i2 v) i0 = [i0, i1, i2]"
    "req_ok (submitted b w n i0 i1 i2 v) \<lparr>q_b = b, q_head = i0, q_write = w, q_block = n, q_at = k\<rparr>"
proof -
  have u: "unat (of_nat i :: 16 word) = i" if "i < NUM" for i using that by (simp add: unat_of_nat take_bit_eq_mod NUM_def)
  let ?v = "submitted b w n i0 i1 i2 v"
  have n: "nxt ?v i0 = i1" "nxt ?v i1 = i2" using assms u by (simp_all add: nxt_def submitted_def vlens_def nth_list_update)
  then show "cells ?v i0 = [i0, i1, i2]" by (simp add: cells_def)
  show "req_ok ?v \<lparr>q_b = b, q_head = i0, q_write = w, q_block = n, q_at = k\<rparr>"
    using assms n by (auto simp: req_ok_def dev_chain_def Let_def submitted_def vlens_def nth_list_update
      VRING_DESC_F_NEXT_def VRING_DESC_F_WRITE_def VIRTIO_BLK_T_IN_def VIRTIO_BLK_T_OUT_def)
qed

section \<open>The invariant\<close>

definition owned :: "vdisk \<Rightarrow> vreq list \<Rightarrow> nat list" where
  "owned v rs = concat (map (\<lambda>r. cells v (q_head r)) rs)"

text \<open>Descriptors: those in use are exactly the ones of the requests, three for each.\<close>

definition desc_inv :: "vdisk \<Rightarrow> vreq list \<Rightarrow> bool" where
  "desc_inv v rs \<longleftrightarrow> vlens v \<and> distinct (owned v rs) \<and> set (owned v rs) \<subseteq> {..<NUM} \<and>
     (\<forall>i < NUM. vd_free v ! i \<longleftrightarrow> i \<notin> set (owned v rs)) \<and> (\<forall>r \<in> set rs. req_ok v r)"

text \<open>Transfers that the device has done with the buffer of a request since it was made.\<close>

definition moved :: "(bool \<times> 64 word \<times> nat) list \<Rightarrow> vreq \<Rightarrow> (bool \<times> 64 word \<times> nat) list" where
  "moved ds r = filter (\<lambda>(_, _, b). b = q_b r) (drop (q_at r) ds)"

lemma moved_snoc:
  "q_at r \<le> length ds \<Longrightarrow> moved (ds @ [(w, sec, b)]) r = moved ds r @ (if b = q_b r then [(w, sec, b)] else [])"
  by (simp add: moved_def)

text \<open>Every request is in one of four places: on the available ring (\<open>A\<close>), with the device, on the used
  ring (\<open>U\<close>) or handed back (\<open>F\<close>).\<close>

definition place_ok :: "'a dmach \<Rightarrow> nat list \<Rightarrow> nat list \<Rightarrow> vreq \<Rightarrow> bool" where
  "place_ok m U F r \<longleftrightarrow> b_blockno (bufs (m_s m) ! q_b r) = q_block r \<and> q_at r \<le> length (m_done m) \<and>
     b_disk (vd (m_s m)) (q_b r) = (q_head r \<notin> set F) \<and>
     (if q_head r \<in> set U \<union> set F
      then inf_status (vd_info (vd (m_s m)) ! q_head r) = 0 \<and> moved (m_done m) r = [(q_write r, sector (q_block r), q_b r)]
      else moved (m_done m) r = [])"

definition queue_inv :: "'a dmach \<Rightarrow> nat list \<Rightarrow> nat list \<Rightarrow> nat list \<Rightarrow> bool" where
  "queue_inv m A U F \<longleftrightarrow> (let v = vd (m_s m) in
     avail_idx v = m_seen m + of_nat (length A) \<and> window (avail_ring v) (m_seen m) A \<and>
     usedq_idx v = used_idx v + of_nat (length U) \<and> window (usedq_ring v) (used_idx v) U \<and>
     distinct (A @ m_busy m @ U @ F) \<and> set (A @ m_busy m @ U @ F) = q_head ` set (m_reqs m) \<and>
     distinct (map q_b (m_reqs m)) \<and> (\<forall>r \<in> set (m_reqs m). place_ok m U F r))"

definition disk_inv :: "'a dmach \<Rightarrow> bool" where
  "disk_inv m \<longleftrightarrow> desc_inv (vd (m_s m)) (m_reqs m) \<and> (\<exists>A U F. queue_inv m A U F)"

lemma owned_head: "r \<in> set rs \<Longrightarrow> set (cells v (q_head r)) \<subseteq> set (owned v rs)" "r \<in> set rs \<Longrightarrow> q_head r \<in> set (owned v rs)"
  by (auto simp: owned_def cells_def)

lemma queue_heads:
  assumes "queue_inv m A U F"
  shows "distinct (A @ m_busy m @ U @ F)" "set (A @ m_busy m @ U @ F) = q_head ` set (m_reqs m)"
  using assms unfolding queue_inv_def Let_def by argo+

lemma queued_request:
  assumes "queue_inv m A U F" "h \<in> set (A @ m_busy m @ U @ F)"
  obtains r where "r \<in> set (m_reqs m)" "q_head r = h"
  using assms(2) that unfolding queue_heads(2) [OF assms(1)] by blast

lemma few_requests: "desc_inv v rs \<Longrightarrow> length rs \<le> 2"
proof -
  assume d: "desc_inv v rs"
  have "length (owned v rs) = 3 * length rs" by (induction rs) (simp_all add: owned_def cells_def)
  moreover have "length (owned v rs) \<le> card {..<NUM}"
    using d by (metis desc_inv_def distinct_card card_mono finite_lessThan)
  ultimately show ?thesis by (simp add: NUM_def)
qed

lemma heads_distinct: "distinct (owned v rs) \<Longrightarrow> distinct (map q_head rs)"
  by (induction rs) (auto simp: owned_def cells_def)

lemma queued_few:
  assumes "desc_inv (vd (m_s m)) (m_reqs m)" "queue_inv m A U F"
  shows "length A + length (m_busy m) + length U + length F \<le> 2"
proof -
  have "length (A @ m_busy m @ U @ F) = card (q_head ` set (m_reqs m))"
    using queue_heads [OF assms(2)] by (metis distinct_card)
  also have "\<dots> \<le> length (m_reqs m)" by (metis card_image_le card_length finite_set le_trans)
  finally show ?thesis using few_requests [OF assms(1)] by simp
qed

text \<open>A change that keeps the descriptors in use, with their headers and buffers, keeps all chains.\<close>

lemma owned_frame:
  assumes "\<forall>r \<in> set rs. req_ok v r" "\<forall>i \<in> set (owned v rs). vq_desc v' ! i = vq_desc v ! i \<and> vd_ops v' ! i = vd_ops v ! i \<and>
      inf_b (vd_info v' ! i) = inf_b (vd_info v ! i)"
  shows "owned v' rs = owned v rs" "\<forall>r \<in> set rs. req_ok v' r"
proof -
  have c: "cells v' (q_head r) = cells v (q_head r) \<and> req_ok v' r" if r: "r \<in> set rs" for r
  proof -
    note o = owned_head [OF r, of v]
    have "dev_chain v' (q_head r) = dev_chain v (q_head r)" "cells v' (q_head r) = cells v (q_head r)"
      using chain_frame [of v "q_head r" v'] assms r o by (auto simp: req_ok_def)
    then show ?thesis using assms r o by (auto simp: req_ok_def)
  qed
  then show "owned v' rs = owned v rs" unfolding owned_def by (metis (mono_tags, lifting) map_cong)
  from c show "\<forall>r \<in> set rs. req_ok v' r" by blast
qed

lemma desc_invI:
  assumes "desc_inv v rs" "vlens v'" "\<forall>i < NUM. vd_free v' ! i = vd_free v ! i"
    "\<forall>i \<in> set (owned v rs). vq_desc v' ! i = vq_desc v ! i \<and> vd_ops v' ! i = vd_ops v ! i \<and>
      inf_b (vd_info v' ! i) = inf_b (vd_info v ! i)"
  shows "desc_inv v' rs"
  using assms owned_frame [OF _ assms(4)] by (simp add: desc_inv_def)

text \<open>Steps of the driver.\<close>

lemma submit_inv:
  assumes "desc_inv (vd (m_s m)) (m_reqs m)" "queue_inv m A U F" "b \<notin> q_b ` set (m_reqs m)" "distinct [i0, i1, i2]"
    "\<forall>i \<in> {i0, i1, i2}. i < NUM \<and> vd_free (vd (m_s m)) ! i" "n = b_blockno (bufs (m_s m) ! b)"
    "vd t = submitted b w n i0 i1 i2 (vd (m_s m))" "bufs t = bufs (m_s m)"
  defines "m' \<equiv> m\<lparr>m_s := t, m_reqs := m_reqs m @ [\<lparr>q_b = b, q_head = i0, q_write = w, q_block = n, q_at = length (m_done m)\<rparr>]\<rparr>"
  shows "desc_inv (vd t) (m_reqs m')" "queue_inv m' (A @ [i0]) U F"
proof -
  let ?v = "vd (m_s m)" and ?r = "\<lparr>q_b = b, q_head = i0, q_write = w, q_block = n, q_at = length (m_done m)\<rparr>"
  let ?v' = "submitted b w n i0 i1 i2 ?v"
  have l: "vlens ?v" and free: "\<forall>i \<in> {i0, i1, i2}. i \<notin> set (owned ?v (m_reqs m))"
    using assms(1,5) by (auto simp: desc_inv_def)
  have new: "cells ?v' i0 = [i0, i1, i2]" "req_ok ?v' ?r" using submitted_chain [OF l assms(4)] assms(5) by auto
  have same: "vq_desc ?v' ! i = vq_desc ?v ! i \<and> vd_ops ?v' ! i = vd_ops ?v ! i \<and> inf_b (vd_info ?v' ! i) = inf_b (vd_info ?v ! i)"
    if "i \<in> set (owned ?v (m_reqs m))" for i
  proof -
    have "i0 \<noteq> i" "i1 \<noteq> i" "i2 \<noteq> i" using that free by auto
    then show ?thesis by (simp add: submitted_def)
  qed
  have "\<forall>r \<in> set (m_reqs m). req_ok ?v r" using assms(1) by (simp add: desc_inv_def)
  note old = owned_frame [OF this ballI [OF same]]
  have o: "owned ?v' (m_reqs m') = owned ?v (m_reqs m) @ [i0, i1, i2]" using old(1) new(1) by (simp add: m'_def owned_def)
  have "vlens ?v'" using l by (simp add: vlens_def submitted_def)
  moreover have "vd_free ?v' ! i \<longleftrightarrow> i \<notin> set (owned ?v' (m_reqs m'))" if "i < NUM" for i
  proof -
    have "vd_free ?v' = taken [i0, i1, i2] (vd_free ?v)" by (simp add: submitted_def)
    then show ?thesis unfolding o using that assms(1) l by (auto simp: desc_inv_def vlens_def)
  qed
  moreover have "\<forall>r \<in> set (m_reqs m'). req_ok ?v' r" using old(2) new(2) by (auto simp: m'_def)
  moreover have "distinct (owned ?v' (m_reqs m'))" "set (owned ?v' (m_reqs m')) \<subseteq> {..<NUM}"
    using assms(1,4,5) free by (auto simp: o desc_inv_def)
  ultimately show "desc_inv (vd t) (m_reqs m')" using assms(7) by (simp add: desc_inv_def)
  have heads: "i0 \<notin> q_head ` set (m_reqs m)" using free owned_head(2) by fastforce
  have few: "length A < NUM" using queued_few [OF assms(1,2)] by (simp add: NUM_def)
  have "place_ok m' U F r" if r: "r \<in> set (m_reqs m)" for r
  proof -
    have "q_head r \<noteq> i0" "q_b r \<noteq> b" using r heads assms(3) by auto
    moreover have "place_ok m U F r" using assms(2) r by (simp add: queue_inv_def Let_def)
    ultimately show ?thesis using assms(7,8) by (simp add: place_ok_def m'_def submitted_def)
  qed
  moreover have "place_ok m' U F ?r"
  proof -
    have "i0 \<notin> set U \<union> set F" using assms(2) heads unfolding queue_inv_def Let_def by auto
    then show ?thesis using assms(6,7,8) by (simp add: place_ok_def m'_def submitted_def moved_def)
  qed
  moreover have "window (avail_ring ?v') (m_seen m) (A @ [i0])"
    using window_push [of "avail_ring ?v" "m_seen m" A "of_nat i0" i0] assms(2,5) few l
    by (simp add: queue_inv_def Let_def submitted_def vlens_def unat_of_nat take_bit_eq_mod NUM_def)
  ultimately show "queue_inv m' (A @ [i0]) U F"
    using assms(2,3,7) heads by (auto simp: queue_inv_def Let_def m'_def submitted_def)
qed

lemma frees_inv:
  assumes "desc_inv (vd (m_s m)) (m_reqs m)" "queue_inv m A U F" "frees js (vd (m_s m)) (vd t)"
    "\<forall>i \<in> set js. vd_free (vd (m_s m)) ! i" "bufs t = bufs (m_s m)"
  shows "desc_inv (vd t) (m_reqs m)" "queue_inv (m\<lparr>m_s := t\<rparr>) A U F"
proof -
  note f = vrest_fields [of "vd t" "vd (m_s m)"]
  have r: "vrest (vd t) = vrest (vd (m_s m))" using assms(3) by (simp add: frees_def)
  have "i \<notin> set js" "i < NUM" if "i \<in> set (owned (vd (m_s m)) (m_reqs m))" for i
    using that assms(1,4) by (auto simp: desc_inv_def)
  then show "desc_inv (vd t) (m_reqs m)"
    using assms(1,3,4) f [OF r] by (intro desc_invI [OF assms(1)]) (auto simp: frees_def vlens_def desc_inv_def)
  show "queue_inv (m\<lparr>m_s := t\<rparr>) A U F"
    using assms(2,5) f [OF r] by (simp add: queue_inv_def Let_def place_ok_def)
qed

lemma free_chain_ok:
  assumes "vlens (vd s)" "dev_chain (vd s) h = Some x" "distinct (cells (vd s) h)"
    "\<forall>i \<in> set (cells (vd s) h). i < NUM \<and> \<not> vd_free (vd s) ! i"
  shows "\<exists>t. free_chain h s = Ok () t \<and> frees (cells (vd s) h) (vd s) (vd t) \<and> bufs t = bufs s"
proof -
  let ?a = "nxt (vd s) h"
  let ?b = "nxt (vd s) ?a"
  have fl: "d_flags (vq_desc (vd s) ! h) AND VRING_DESC_F_NEXT \<noteq> 0" "d_flags (vq_desc (vd s) ! ?a) AND VRING_DESC_F_NEXT \<noteq> 0"
    "d_flags (vq_desc (vd s) ! ?b) AND VRING_DESC_F_NEXT = 0"
    using assms(2) by (auto simp: dev_chain_def Let_def split: dma.splits if_splits)
  have c: "distinct [h, ?a, ?b]" "\<forall>i \<in> {h, ?a, ?b}. i < NUM \<and> \<not> vd_free (vd s) ! i"
    using assms(3,4) by (simp_all add: cells_def)
  obtain t where t: "free_desc h s = Ok () t" "frees [h] (vd s) (vd t)" "bufs t = bufs s"
    using free_desc_ok [of h s] assms(1) c by (auto simp: vlens_def)
  obtain u where u: "free_desc ?a t = Ok () u" "frees [?a] (vd t) (vd u)" "bufs u = bufs t"
    using free_desc_ok [of ?a t] c t(2) by (auto simp: frees_def)
  obtain x where x: "free_desc ?b u = Ok () x" "frees [?b] (vd u) (vd x)" "bufs x = bufs u"
    using free_desc_ok [of ?b u] c t(2) u(2) by (auto simp: frees_def)
  have "vq_desc (vd t) ! ?a = vq_desc (vd s) ! ?a" "vq_desc (vd u) ! ?b = vq_desc (vd s) ! ?b"
    using c t(2) u(2) by (auto simp: frees_def)
  then have "free_chain h s = Ok () x"
    using fl t(1) u(1) x(1) by (simp add: free_chain_def NUM_def nxt_def eval_nat_numeral Let_def)
  then show ?thesis using frees_trans [OF frees_trans [OF t(2) u(2)] x(2)] t(3) u(3) x(3) by (simp add: cells_def)
qed

lemma owned_remove:
  assumes "distinct (owned v rs)" "r \<in> set rs"
  shows "distinct (owned v (remove1 r rs))" "set (owned v (remove1 r rs)) = set (owned v rs) - set (cells v (q_head r))"
    "distinct (cells v (q_head r))"
proof -
  obtain xs ys where x: "rs = xs @ r # ys" "r \<notin> set xs" using assms(2) by (meson split_list_first)
  then have "remove1 r rs = xs @ ys" by (simp add: remove1_append)
  moreover have "owned v (xs @ ys) = owned v xs @ owned v ys" "owned v rs = owned v xs @ cells v (q_head r) @ owned v ys"
    using x by (simp_all add: owned_def)
  ultimately show "distinct (owned v (remove1 r rs))" "set (owned v (remove1 r rs)) = set (owned v rs) - set (cells v (q_head r))"
    "distinct (cells v (q_head r))"
    using assms(1) by auto
qed

lemma finish_cases:
  assumes "desc_inv (vd (m_s m)) (m_reqs m)" "r \<in> set (m_reqs m)"
  shows "b_disk (vd (m_s m)) (q_b r) \<and> (\<exists>t. virtio_finish (q_b r) (q_head r) (m_s m) = Sleep t \<and> vd t = vd (m_s m) \<and> bufs t = bufs (m_s m)) \<or>
    \<not> b_disk (vd (m_s m)) (q_b r) \<and> (\<exists>t v. virtio_finish (q_b r) (q_head r) (m_s m) = Ok () t \<and>
      v = (vd (m_s m))\<lparr>vd_info := (vd_info (vd (m_s m)))[q_head r := (vd_info (vd (m_s m)) ! q_head r)\<lparr>inf_b := None\<rparr>]\<rparr> \<and>
      frees (cells (vd (m_s m)) (q_head r)) v (vd t) \<and> bufs t = bufs (m_s m))"
proof (cases "b_disk (vd (m_s m)) (q_b r)")
  case True
  then show ?thesis by (auto simp: virtio_finish_def sleep_def upd_proc_def)
next
  case False
  let ?f = "\<lambda>v. v\<lparr>vd_info := (vd_info v)[q_head r := (vd_info v ! q_head r)\<lparr>inf_b := None\<rparr>]\<rparr>"
  let ?s = "upd_vd ?f (m_s m)"
  have c: "cells (vd ?s) (q_head r) = cells (vd (m_s m)) (q_head r)" "dev_chain (vd ?s) (q_head r) = dev_chain (vd (m_s m)) (q_head r)"
    by (rule chain_same; simp)+
  have d: "distinct (owned (vd (m_s m)) (m_reqs m))" "vlens (vd ?s)" using assms(1) by (simp_all add: desc_inv_def vlens_def)
  have n: "\<forall>i \<in> set (cells (vd ?s) (q_head r)). i < NUM \<and> \<not> vd_free (vd ?s) ! i"
    unfolding c(1) using owned_head(1) [OF assms(2), of "vd (m_s m)"] assms(1) by (auto simp: desc_inv_def)
  have "dev_chain (vd ?s) (q_head r) = Some (q_write r, sector (q_block r), q_b r, q_head r)"
    unfolding c(2) using assms by (simp add: desc_inv_def req_ok_def)
  from free_chain_ok [OF d(2) this _ n, unfolded c(1), OF owned_remove(3) [OF d(1) assms(2)]]
  obtain t where "free_chain (q_head r) ?s = Ok () t" "frees (cells (vd (m_s m)) (q_head r)) (vd ?s) (vd t)" "bufs t = bufs ?s"
    by auto
  then show ?thesis using False c(1) by (simp add: virtio_finish_def)
qed

lemma finish_inv:
  assumes "desc_inv (vd (m_s m)) (m_reqs m)" "queue_inv m A U F" "r \<in> set (m_reqs m)" "\<not> b_disk (vd (m_s m)) (q_b r)"
    "v = (vd (m_s m))\<lparr>vd_info := (vd_info (vd (m_s m)))[q_head r := (vd_info (vd (m_s m)) ! q_head r)\<lparr>inf_b := None\<rparr>]\<rparr>"
    "frees (cells (vd (m_s m)) (q_head r)) v (vd t)" "bufs t = bufs (m_s m)"
  defines "m' \<equiv> m\<lparr>m_s := t, m_reqs := remove1 r (m_reqs m)\<rparr>"
  shows "desc_inv (vd t) (m_reqs m')" "queue_inv m' A U (remove1 (q_head r) F)"
proof -
  let ?v = "vd (m_s m)" and ?rs = "remove1 r (m_reqs m)" and ?h = "q_head r"
  have d: "distinct (owned ?v (m_reqs m))" and l: "vlens ?v" using assms(1) by (simp_all add: desc_inv_def)
  note o = owned_remove [OF d assms(3)]
  have sub: "set ?rs \<subseteq> set (m_reqs m)" by (rule set_remove1_subset)
  have rest: "vrest (vd t) = vrest v" using assms(6) by (simp add: frees_def)
  note f = vrest_fields [OF rest, unfolded assms(5)]
  have same: "vq_desc (vd t) ! i = vq_desc ?v ! i \<and> vd_ops (vd t) ! i = vd_ops ?v ! i \<and> inf_b (vd_info (vd t) ! i) = inf_b (vd_info ?v ! i)"
    if "i \<in> set (owned ?v ?rs)" for i
  proof -
    have "i \<notin> set (cells ?v ?h)" "i < NUM" using that o(2) assms(1) by (auto simp: desc_inv_def)
    moreover from this have "?h \<noteq> i" by (auto simp: cells_def)
    ultimately show ?thesis using assms(5,6) f by (auto simp: frees_def)
  qed
  have "\<forall>r \<in> set ?rs. req_ok ?v r" using assms(1) sub by (auto simp: desc_inv_def)
  note old = owned_frame [OF this ballI [OF same]]
  have fr: "vd_free (vd t) ! i \<longleftrightarrow> i \<notin> set (owned (vd t) ?rs)" if "i < NUM" for i
    using that assms(1,5,6) old(1) o(2) by (auto simp: desc_inv_def frees_def)
  have "set (owned (vd t) ?rs) \<subseteq> {..<NUM}" using assms(1) old(1) o(2) by (auto simp: desc_inv_def)
  moreover have "vlens (vd t)" using l f assms(6) by (simp add: vlens_def frees_def)
  ultimately show "desc_inv (vd t) (m_reqs m')" using fr old o(1) by (simp add: desc_inv_def m'_def)
  have F: "?h \<in> set F" using assms(2-4) by (simp add: queue_inv_def Let_def place_ok_def)
  have hd: "distinct (map q_head (m_reqs m))" using heads_distinct [OF d] .
  have q: "distinct (map q_b (m_reqs m))" using assms(2) by (simp add: queue_inv_def Let_def)
  then have D: "distinct (m_reqs m)" by (simp add: distinct_map)
  have R: "set ?rs = set (m_reqs m) - {r}" using D by simp
  have heads: "q_head ` set ?rs = q_head ` set (m_reqs m) - {?h}"
    using hd assms(3) unfolding R by (auto simp: distinct_map inj_on_def)
  have "place_ok m' U (remove1 ?h F) r'" if r': "r' \<in> set ?rs" for r'
  proof -
    have "q_head r' \<noteq> ?h" using heads r' by auto
    then show ?thesis
      using assms(2,7) r' sub f by (auto simp: place_ok_def m'_def queue_inv_def Let_def in_set_remove1)
  qed
  moreover have "distinct (map q_b ?rs)" using q R D by (simp add: distinct_map inj_on_def)
  moreover note dq = queue_heads(1) [OF assms(2)] and sq = queue_heads(2) [OF assms(2)]
  from dq have "distinct (A @ m_busy m @ U @ remove1 ?h F)" by (auto simp: in_set_remove1 dest: notin_set_remove1)
  moreover have "set (A @ m_busy m @ U @ remove1 ?h F) = q_head ` set ?rs"
    unfolding heads sq [symmetric] using dq F by auto
  ultimately show "queue_inv m' A U (remove1 ?h F)"
    using assms(2) f by (simp add: queue_inv_def Let_def m'_def)
qed

text \<open>Steps of the device.\<close>

lemma fetch_inv:
  assumes "desc_inv (vd (m_s m)) (m_reqs m)" "queue_inv m A U F" "m_seen m \<noteq> avail_idx (vd (m_s m))"
  shows "\<exists>x B. A = x # B \<and> queue_inv (m\<lparr>m_seen := m_seen m + 1,
    m_busy := m_busy m @ [unat (avail_ring (vd (m_s m)) ! (unat (m_seen m) mod NUM))]\<rparr>) B U F"
proof (cases A)
  case Nil
  then show ?thesis using assms(2,3) by (simp add: queue_inv_def Let_def)
next
  case (Cons x B)
  have "window (avail_ring (vd (m_s m))) (m_seen m) (x # B)" using assms(2) Cons by (simp add: queue_inv_def Let_def)
  from window_pop [OF this] show ?thesis using assms(2) Cons
    by (auto simp: queue_inv_def Let_def place_ok_def)
qed

lemma complete_inv:
  assumes "desc_inv (vd (m_s m)) (m_reqs m)" "queue_inv m A U F" "h \<in> set (m_busy m)"
    "dev_chain (vd (m_s m)) h = Some (w, sec, b, j)"
  defines "m' \<equiv> m\<lparr>m_s := upd_vd (dev_publish h j) (dev_transfer w sec b (m_s m)), m_busy := remove1 h (m_busy m),
      m_done := m_done m @ [(w, sec, b)]\<rparr>"
  shows "desc_inv (vd (m_s m')) (m_reqs m')" "queue_inv m' A (U @ [h]) F"
    "\<exists>r \<in> set (m_reqs m). q_head r = h \<and> b = q_b r \<and> w = q_write r \<and> sec = sector (q_block r) \<and> j = h"
proof -
  let ?v = "vd (m_s m)" and ?v' = "dev_publish h j (vd (m_s m))"
  have v: "vd (m_s m') = ?v'" "m_reqs m' = m_reqs m" by (simp_all add: m'_def dev_transfer_def Let_def upd_buf_def list_update_beyond not_less)
  have bn: "b_blockno (bufs (m_s m') ! k) = b_blockno (bufs (m_s m) ! k)" for k
    by (cases "b = k"; cases "k < length (bufs (m_s m))") (simp_all add: m'_def dev_transfer_def Let_def upd_buf_def list_update_beyond not_less)
  obtain r where r: "r \<in> set (m_reqs m)" "q_head r = h" using queued_request [OF assms(2), of h] assms(3) by auto
  have "req_ok ?v r" using r assms(1) by (simp add: desc_inv_def)
  then have e: "b = q_b r" "w = q_write r" "sec = sector (q_block r)" "j = h" using assms(4) r by (simp_all add: req_ok_def)
  then show "\<exists>r \<in> set (m_reqs m). q_head r = h \<and> b = q_b r \<and> w = q_write r \<and> sec = sector (q_block r) \<and> j = h" using r by blast
  have l: "vlens ?v" using assms(1) by (simp add: desc_inv_def)
  have h: "h < NUM" using owned_head(2) [OF r(1)] r(2) assms(1) by (auto simp: desc_inv_def)
  show "desc_inv (vd (m_s m')) (m_reqs m')" unfolding v
    using l h e(4) by (intro desc_invI [OF assms(1)]) (auto simp: dev_publish_def vlens_def nth_list_update)
  have few: "length U < NUM" using queued_few [OF assms(1,2)] by (simp add: NUM_def)
  have w: "window (usedq_ring ?v') (used_idx ?v') (U @ [h])"
    using window_push [of "usedq_ring ?v" "used_idx ?v" U "of_nat h" h] assms(2) few l h
    by (simp add: queue_inv_def Let_def dev_publish_def vlens_def unat_of_nat take_bit_eq_mod NUM_def)
  have hd: "inj_on q_head (set (m_reqs m))" "inj_on q_b (set (m_reqs m))"
    using heads_distinct assms(1,2) by (auto simp: desc_inv_def queue_inv_def Let_def distinct_map)
  have "place_ok m' (U @ [h]) F r'" if r': "r' \<in> set (m_reqs m)" for r'
  proof -
    have p: "place_ok m U F r'" using r' assms(2) by (simp add: queue_inv_def Let_def)
    show ?thesis
    proof (cases "r' = r")
      case True
      have "h \<notin> set U \<union> set F" using assms(2,3) by (auto simp: queue_inv_def Let_def)
      then show ?thesis using p True r e bn l h unfolding place_ok_def v
        by (simp add: m'_def dev_publish_def moved_snoc vlens_def)
    next
      case False
      then have "q_head r' \<noteq> h" "q_b r' \<noteq> b" using hd r r' e by (auto dest: inj_onD)
      then show ?thesis using p e bn l h unfolding place_ok_def v
        by (simp add: m'_def dev_publish_def moved_snoc vlens_def)
    qed
  qed
  moreover have "distinct (A @ remove1 h (m_busy m) @ (U @ [h]) @ F)" using assms(2,3) by (auto simp: queue_inv_def Let_def)
  moreover have "set (A @ remove1 h (m_busy m) @ (U @ [h]) @ F) = set (A @ m_busy m @ U @ F)"
    using assms(2,3) by (auto simp: queue_inv_def Let_def)
  ultimately show "queue_inv m' A (U @ [h]) F"
    using assms(2) w unfolding queue_inv_def Let_def v by (simp add: dev_publish_def m'_def)
qed

text \<open>The interrupt handler moves the used ring to the requests that are handed back.\<close>

lemma intr_step_inv:
  assumes "desc_inv (vd (m_s m)) (m_reqs m)" "queue_inv m A (x # U) F"
  shows "\<exists>t. intr_step (m_s m) = Ok () t \<and> desc_inv (vd t) (m_reqs m) \<and> queue_inv (m\<lparr>m_s := t\<rparr>) A U (F @ [x])"
proof -
  let ?v = "vd (m_s m)"
  have W: "window (usedq_ring ?v) (used_idx ?v) (x # U)" using assms(2) by (simp add: queue_inv_def Let_def)
  note w = window_pop [OF W]
  obtain r where r: "r \<in> set (m_reqs m)" "q_head r = x" using queued_request [OF assms(2), of x] by auto
  have st: "inf_status (vd_info ?v ! x) = 0" using assms(2) r by (auto simp: queue_inv_def Let_def place_ok_def)
  have b: "inf_b (vd_info ?v ! x) = Some (q_b r)" using assms(1) r by (auto simp: desc_inv_def req_ok_def)
  let ?v' = "?v\<lparr>b_disk := (b_disk ?v)(q_b r := False), used_idx := used_idx ?v + 1\<rparr>"
  obtain t where t: "intr_step (m_s m) = Ok () t" "vd t = ?v'" "bufs t = bufs (m_s m)"
    using st b w(1) by (simp add: intr_step_def Let_def wakeup_def upd_vd_def)
  have "desc_inv (vd t) (m_reqs m)" unfolding t(2) using assms(1)
    by (intro desc_invI [OF assms(1)]) (simp_all add: desc_inv_def vlens_def)
  moreover have hd: "inj_on q_head (set (m_reqs m))" "inj_on q_b (set (m_reqs m))"
    using heads_distinct assms(1,2) by (auto simp: desc_inv_def queue_inv_def Let_def distinct_map)
  have x: "x \<notin> set F" using assms(2) by (auto simp: queue_inv_def Let_def)
  have "place_ok (m\<lparr>m_s := t\<rparr>) U (F @ [x]) r'" if r': "r' \<in> set (m_reqs m)" for r'
  proof -
    have p: "place_ok m (x # U) F r'" using r' assms(2) by (simp add: queue_inv_def Let_def)
    show ?thesis
    proof (cases "r' = r")
      case False
      then have "q_head r' \<noteq> x" "q_b r' \<noteq> q_b r" using hd r r' by (auto dest: inj_onD)
      then show ?thesis using p t by (simp add: place_ok_def)
    qed (use p r t in \<open>simp add: place_ok_def\<close>)
  qed
  then have "queue_inv (m\<lparr>m_s := t\<rparr>) A U (F @ [x])" using assms(2) w(2) t(2) by (auto simp: queue_inv_def Let_def)
  ultimately show ?thesis using t(1) by blast
qed

lemma intr_loop_inv:
  assumes "desc_inv (vd (m_s m)) (m_reqs m)" "queue_inv m A U F" "length xs = length U"
  shows "\<exists>t. forM xs (\<lambda>_ s. intr_step s) (m_s m) = Ok () t \<and> desc_inv (vd t) (m_reqs m) \<and> queue_inv (m\<lparr>m_s := t\<rparr>) A [] (F @ U)"
  using assms
proof (induction U arbitrary: m F xs)
  case Nil
  then show ?case by simp
next
  case (Cons x U)
  from intr_step_inv [OF Cons.prems(1,2)]
  obtain t where t: "intr_step (m_s m) = Ok () t" "desc_inv (vd t) (m_reqs m)" "queue_inv (m\<lparr>m_s := t\<rparr>) A U (F @ [x])" by blast
  then show ?case using Cons.IH [of "m\<lparr>m_s := t\<rparr>" "F @ [x]" "tl xs"] Cons.prems(3) by (cases xs) auto
qed

lemma intr_inv:
  assumes "desc_inv (vd (m_s m)) (m_reqs m)" "queue_inv m A U F"
  shows "\<exists>t. virtio_disk_intr (m_s m) = Ok () t \<and> desc_inv (vd t) (m_reqs m) \<and> queue_inv (m\<lparr>m_s := t\<rparr>) A [] (F @ U)"
proof -
  have "length U \<le> 2" using queued_few [OF assms] by simp
  then have "unat (usedq_idx (vd (m_s m)) - used_idx (vd (m_s m))) = length U"
    using assms(2) by (simp add: queue_inv_def Let_def unat_of_nat take_bit_eq_mod)
  then show ?thesis using intr_loop_inv [OF assms, of "[0..<length U]"] by (simp add: virtio_disk_intr_def)
qed

lemma disk_reach_inv: "disk_reach m \<Longrightarrow> disk_inv m"
proof (induction rule: disk_reach.induct)
  case (boot m)
  then obtain r s where i: "virtio_disk_init r s = Ok () (m_s m)" "used_idx (vd s) = 0" "length (vd_info (vd s)) = NUM"
      "length (vd_ops (vd s)) = NUM" "m_seen m = 0" "m_busy m = []" "m_reqs m = []" "m_done m = []"
    by (auto simp: disk_init_def)
  obtain d s1 a s2 u s3 where k: "kalloc s = Ok d s1" "kalloc s1 = Ok a s2" "kalloc s2 = Ok u s3"
      "m_s m = upd_vd (\<lambda>v. v\<lparr>vq_desc := replicate NUM null_desc, avail_idx := 0, avail_ring := replicate NUM 0,
                  usedq_idx := 0, usedq_ring := replicate NUM 0, vd_free := replicate NUM True\<rparr>)
        (s3\<lparr>mem := memset (memset (memset (mem s3) d 0 (unat PGSIZE)) a 0 (unat PGSIZE)) u 0 (unat PGSIZE)\<rparr>)"
    using i(1) by (auto simp: virtio_disk_init_def bindr_eq_Ok Let_def split: if_splits)
  have "vd s3 = vd s" using k(1-3) by (auto simp: kalloc_def Let_def split: if_splits)
  then have "desc_inv (vd (m_s m)) (m_reqs m)" "queue_inv m [] [] []"
    using k(4) i by (simp_all add: desc_inv_def queue_inv_def Let_def vlens_def owned_def)
  then show ?case unfolding disk_inv_def by blast
next
  case (step m m')
  from step.IH obtain A U F where inv: "desc_inv (vd (m_s m)) (m_reqs m)" "queue_inv m A U F" by (auto simp: disk_inv_def)
  have l: "vlens (vd (m_s m))" using inv(1) by (simp add: desc_inv_def)
  from step.hyps(2) show ?case
  proof cases
    case (submit b w h t)
    then obtain i1 i2 where "distinct [h, i1, i2]" "\<forall>i \<in> {h, i1, i2}. i < NUM \<and> vd_free (vd (m_s m)) ! i"
        "vd t = submitted b w (b_blockno (bufs (m_s m) ! b)) h i1 i2 (vd (m_s m))" "bufs t = bufs (m_s m)"
      using submit_cases [OF l, of b w] by auto
    from submit_inv [OF inv submit(2) this(1,2) refl this(3,4)] show ?thesis unfolding submit(1) disk_inv_def by auto
  next
    case (full b w t)
    then obtain js where "frees js (vd (m_s m)) (vd t)" "\<forall>i \<in> set js. vd_free (vd (m_s m)) ! i" "bufs t = bufs (m_s m)"
      using submit_cases [OF l, of b w] by auto
    from frees_inv [OF inv this] show ?thesis unfolding full(1) disk_inv_def by auto
  next
    case fetch
    then show ?thesis using fetch_inv [OF inv] inv(1) unfolding disk_inv_def by auto
  next
    case (complete h w sec b j)
    from complete_inv [OF inv complete(2,3)] show ?thesis unfolding complete(1) disk_inv_def by blast
  next
    case (interrupt t)
    then show ?thesis using intr_inv [OF inv] unfolding disk_inv_def by auto
  next
    case (finish r t)
    then obtain v where "\<not> b_disk (vd (m_s m)) (q_b r)" "v = (vd (m_s m))\<lparr>vd_info := (vd_info (vd (m_s m)))[q_head r := (vd_info (vd (m_s m)) ! q_head r)\<lparr>inf_b := None\<rparr>]\<rparr>"
        "frees (cells (vd (m_s m)) (q_head r)) v (vd t)" "bufs t = bufs (m_s m)"
      using finish_cases [OF inv(1) finish(2)] by auto
    from finish_inv [OF inv finish(2) this] show ?thesis unfolding finish(1) disk_inv_def by auto
  next
    case (waits r t)
    then have "vd t = vd (m_s m)" "bufs t = bufs (m_s m)" using finish_cases [OF inv(1) waits(2)] by auto
    moreover from this have "queue_inv (m\<lparr>m_s := t\<rparr>) A U F" using inv(2) by (simp add: queue_inv_def Let_def place_ok_def)
    ultimately show ?thesis using inv(1) unfolding waits(1) disk_inv_def by auto
  next
    case (other t)
    then have "queue_inv (m\<lparr>m_s := t\<rparr>) A U F" using inv(2) by (simp add: queue_inv_def Let_def place_ok_def)
    then show ?thesis using inv(1) other(2) unfolding other(1) disk_inv_def by auto
  qed
qed

section \<open>The driver against its contract\<close>

lemma transfer_disk_rw:
  assumes "b_blockno (bufs s ! b) = n" "n < 0x80000000"
  shows "dev_transfer w (sector n) b s = disk_rw b w s"
proof -
  have n: "uint n < 2147483648" using assms(2) by (simp add: word_less_def)
  have "uint (n * 2) = uint n * 2" using n by (simp add: uint_word_ariths)
  then have "uint (sector n) = uint n * 2" using n by (simp add: sector_def BSIZE_def unsigned_ucast_eq take_bit_eq_mod)
  then have "uint (drop_bit 1 (sector n)) = uint (ucast n :: 64 word)"
    using n by (simp add: drop_bit_eq_div uint_div_distrib unsigned_ucast_eq take_bit_eq_mod)
  then have "drop_bit 1 (sector n) = ucast n" by (rule word_uint_eqI)
  moreover have "ucast (ucast n :: 64 word) = n" by (rule word_uint_eqI) (simp add: unsigned_ucast_eq take_bit_word_beyond_length_eq)
  ultimately have "ucast (drop_bit 1 (sector n)) = n" by simp
  then show ?thesis using assms(1) by (simp add: dev_transfer_def disk_rw_def Let_def upd_buf_def)
qed

text \<open>
  C6. The disk driver and the device, for any interleaving of submissions, interrupts, returns and the steps of
  a device that finishes the requests it holds in any order. No check of the driver fails: a submission
  succeeds or waits for descriptors, the interrupt handler never sees a bad status, and the chain of a
  finished request is freed without a panic. The device finds every chain it takes well formed, and its
  transfer is the \<open>disk_rw\<close> of the buffer cache on the buffer of a request (for block numbers below \<open>2^31\<close>,
  where the sector number does not wrap). A request returns exactly when its buffer is released, and by then
  the device has done one transfer with that buffer, in the direction and at the sector asked for. Three
  descriptors are in use for each request and all others are free.
\<close>

theorem disk_driver_correct:
  assumes "disk_reach m"
  shows "((\<exists>h t. virtio_submit b w (m_s m) = Ok h t) \<or> (\<exists>t. virtio_submit b w (m_s m) = Sleep t)) \<and>
    (\<exists>t. virtio_disk_intr (m_s m) = Ok () t) \<and>
    (\<forall>h \<in> set (m_busy m). \<exists>r \<in> set (m_reqs m). dev_chain (vd (m_s m)) h = Some (q_write r, sector (q_block r), q_b r, h) \<and>
       (q_block r < 0x80000000 \<longrightarrow> dev_transfer (q_write r) (sector (q_block r)) (q_b r) (m_s m) = disk_rw (q_b r) (q_write r) (m_s m))) \<and>
    (\<forall>r \<in> set (m_reqs m). if b_disk (vd (m_s m)) (q_b r) then \<exists>t. virtio_finish (q_b r) (q_head r) (m_s m) = Sleep t
       else (\<exists>t. virtio_finish (q_b r) (q_head r) (m_s m) = Ok () t) \<and> moved (m_done m) r = [(q_write r, sector (q_block r), q_b r)]) \<and>
    length (filter (\<lambda>x. x) (vd_free (vd (m_s m)))) + 3 * length (m_reqs m) = NUM"
proof -
  obtain A U F where inv: "desc_inv (vd (m_s m)) (m_reqs m)" "queue_inv m A U F"
    using disk_reach_inv [OF assms] by (auto simp: disk_inv_def)
  let ?v = "vd (m_s m)"
  have l: "vlens ?v" using inv(1) by (simp add: desc_inv_def)
  have "(\<exists>h t. virtio_submit b w (m_s m) = Ok h t) \<or> (\<exists>t. virtio_submit b w (m_s m) = Sleep t)"
    using submit_cases [OF l, of b w] by blast
  moreover have "\<exists>t. virtio_disk_intr (m_s m) = Ok () t" using intr_inv [OF inv] by blast
  moreover have "\<exists>r \<in> set (m_reqs m). dev_chain ?v h = Some (q_write r, sector (q_block r), q_b r, h) \<and>
       (q_block r < 0x80000000 \<longrightarrow> dev_transfer (q_write r) (sector (q_block r)) (q_b r) (m_s m) = disk_rw (q_b r) (q_write r) (m_s m))"
    if h: "h \<in> set (m_busy m)" for h
  proof -
    obtain r where r: "r \<in> set (m_reqs m)" "q_head r = h" using queued_request [OF inv(2), of h] h by auto
    have "b_blockno (bufs (m_s m) ! q_b r) = q_block r" using r(1) inv(2) by (simp add: queue_inv_def Let_def place_ok_def)
    then show ?thesis using r inv(1) transfer_disk_rw by (intro bexI [OF _ r(1)]) (auto simp: desc_inv_def req_ok_def)
  qed
  moreover have "if b_disk ?v (q_b r) then \<exists>t. virtio_finish (q_b r) (q_head r) (m_s m) = Sleep t
       else (\<exists>t. virtio_finish (q_b r) (q_head r) (m_s m) = Ok () t) \<and> moved (m_done m) r = [(q_write r, sector (q_block r), q_b r)]"
    if r: "r \<in> set (m_reqs m)" for r
  proof -
    have "place_ok m U F r" using inv(2) r by (simp add: queue_inv_def Let_def)
    then show ?thesis using finish_cases [OF inv(1) r] by (auto simp: place_ok_def)
  qed
  moreover have "length (filter (\<lambda>x. x) (vd_free ?v)) + 3 * length (m_reqs m) = NUM"
  proof -
    have o: "length (owned ?v rs) = 3 * length rs" for rs by (induction rs) (simp_all add: owned_def cells_def)
    have "length (filter (\<lambda>x. x) (vd_free ?v)) = card {i. i < NUM \<and> vd_free ?v ! i}"
      using l by (simp add: length_filter_conv_card vlens_def)
    also have "{i. i < NUM \<and> vd_free ?v ! i} = {..<NUM} - set (owned ?v (m_reqs m))" using inv(1) by (auto simp: desc_inv_def)
    also have "card \<dots> = NUM - length (owned ?v (m_reqs m))"
      using inv(1) by (simp add: desc_inv_def card_Diff_subset distinct_card)
    finally show ?thesis using few_requests [OF inv(1)] o by (simp add: NUM_def)
  qed
  ultimately show ?thesis by blast
qed

text \<open>A write of block 0 from the start-up of the driver until the interrupt.\<close>

definition demo_disk :: vstate where
  "demo_disk = (iostate.extend (demo_io (\<lambda>_. 5) bss_proc) (vstate.fields bss_vdisk))\<lparr>freelist := 0x80001000, bufs := [bss_buf]\<rparr>"

definition demo_vregs :: vregs where
  "demo_vregs = \<lparr>vr_magic = 0x74726976, vr_version = 2, vr_device = 2, vr_vendor = 0x554d4551, vr_features = 0,
     vr_status = 8, vr_ready = 0, vr_max = 8\<rparr>"

lemma memset_const: "memset (\<lambda>_. 5) a 5 n = (\<lambda>_. 5)"
  by (induction n) auto

lemma demo_disk_init: "\<exists>t. virtio_disk_init demo_vregs demo_disk = Ok () t \<and> vd t = bss_vdisk \<and> bufs t = [bss_buf]"
proof -
  have l: "load64 (\<lambda>_. 5) a = 0x0505050505050505" for a
    by (simp add: load64_def rd_def upt_rec)
  have "kalloc s = Ok (freelist s) (s\<lparr>freelist := 0x0505050505050505\<rparr>)" if "mem s = (\<lambda>_. 5)" "freelist s \<noteq> 0" for s :: vstate
    using that by (simp add: kalloc_def Let_def l memset_const)
  then show ?thesis
    by (simp add: virtio_disk_init_def demo_vregs_def NUM_def demo_disk_def demo_io_defs vstate.defs bss_vdisk_def upd_vd_def)
qed

lemma demo_submit:
  assumes "vd t = bss_vdisk" "bufs t = [bss_buf]"
  shows "\<exists>u. virtio_submit 0 True t = Ok 0 u \<and> vd u = submitted 0 True 0 0 1 2 bss_vdisk \<and> bufs u = [bss_buf]"
proof -
  have v: "vd_free bss_vdisk = [True, True, True, True, True, True, True, True]"
    by (simp add: bss_vdisk_def NUM_def eval_nat_numeral)
  have "alloc3_desc t = Ok (Some [0, 1, 2]) (upd_vd (\<lambda>v. v\<lparr>vd_free := taken [0, 1, 2] (vd_free v)\<rparr>) t)"
    using assms(1) by (simp add: alloc3_desc_def numeral_3_eq_3 alloc_desc_def upd_vd_def v taken_def numeral_2_eq_2)
  then show ?thesis
    using assms by (simp add: virtio_submit_def submitted_def sector_def Let_def upd_vd_def bss_buf_def bss_vdisk_def NUM_def)
qed

theorem disk_driver_correct_witness:
  "\<exists>(m :: unit dmach) t. disk_reach m \<and> m_reqs m = [\<lparr>q_b = 0, q_head = 0, q_write = True, q_block = 0, q_at = 0\<rparr>] \<and>
     virtio_finish 0 0 (m_s m) = Ok () t \<and> m_done m = [(True, 0, 0)]"
proof -
  obtain t where t: "virtio_disk_init demo_vregs demo_disk = Ok () t" "vd t = bss_vdisk" "bufs t = [bss_buf]" using demo_disk_init by blast
  obtain u where u: "virtio_submit 0 True t = Ok 0 u" "vd u = submitted 0 True 0 0 1 2 bss_vdisk" "bufs u = [bss_buf]"
    using demo_submit [OF t(2,3)] by blast
  let ?r = "\<lparr>q_b = 0, q_head = 0, q_write = True, q_block = 0, q_at = 0\<rparr>"
  let ?m0 = "\<lparr>m_s = t, m_seen = 0, m_busy = [], m_reqs = [], m_done = []\<rparr>"
  let ?m1 = "?m0\<lparr>m_s := u, m_reqs := [?r]\<rparr>"
  let ?m2 = "?m1\<lparr>m_seen := 1, m_busy := [0]\<rparr>"
  let ?x = "upd_vd (dev_publish 0 0) (dev_transfer True 0 0 u)"
  let ?m3 = "?m2\<lparr>m_s := ?x, m_busy := [], m_done := [(True, 0, 0)]\<rparr>"
  have "disk_init ?m0" using t(1) unfolding disk_init_def
    by (auto simp: demo_disk_def vstate.defs iostate.defs bss_vdisk_def intro!: exI [of _ demo_vregs] exI [of _ demo_disk])
  then have r0: "disk_reach ?m0" by (rule disk_reach.boot)
  have "disk_step ?m0 ?m1" using disk_step.submit [of 0 ?m0 True 0 u] u(1) t(3) by (simp add: bss_buf_def)
  with r0 have r1: "disk_reach ?m1" by (rule disk_reach.step)
  have a: "avail_idx (vd u) = 1" "avail_ring (vd u) ! 0 = 0" by (simp_all add: u(2) submitted_def bss_vdisk_def NUM_def)
  have "disk_step ?m1 ?m2" using disk_step.fetch [of ?m1] a by simp
  with r1 have r2: "disk_reach ?m2" by (rule disk_reach.step)
  have l: "vlens bss_vdisk" by (simp add: vlens_def bss_vdisk_def)
  have "dev_chain (vd u) 0 = Some (True, 0, 0, 0)"
    using submitted_chain(2) [OF l, of 0 1 2 0 True 0] by (simp add: u(2) req_ok_def NUM_def sector_def)
  then have "disk_step ?m2 ?m3" using disk_step.complete [of 0 ?m2 True 0 0 0] by simp
  with r2 have r3: "disk_reach ?m3" by (rule disk_reach.step)
  obtain y where y: "virtio_disk_intr ?x = Ok () y" using disk_driver_correct [OF r3, of 0 True] by auto
  let ?m4 = "?m3\<lparr>m_s := y\<rparr>"
  have "disk_step ?m3 ?m4" using disk_step.interrupt [of ?m3 y] y by simp
  with r3 have r4: "disk_reach ?m4" by (rule disk_reach.step)
  have "\<not> b_disk (vd y) 0" using y
    by (simp add: virtio_disk_intr_def intr_step_def dev_publish_def dev_transfer_def u(2) submitted_def bss_vdisk_def NUM_def Let_def
      split: if_splits) auto
  then have "\<exists>t. virtio_finish 0 0 y = Ok () t" using disk_driver_correct [OF r4, of 0 True] by auto
  then show ?thesis using r4 by (intro exI [of _ ?m4]) auto
qed


end
