(* ===== verification/Txn.thy ===== *)
theory Txn
  imports Klog
begin

text \<open>
  Blocks inside a transaction: the interface that the file system uses. A state is seen as the contents of
  all blocks (\<open>V\<close>), the blocks the transaction has logged (\<open>L\<close>) and the blocks whose buffers are held
  (\<open>H\<close>). The locale gives the laws of reading a block, logging a new contents and letting the buffer go;
  the cache and the log together satisfy them as long as the log and the cache have room.
\<close>

section \<open>The interface\<close>

locale logged_blocks =
  fixes tx :: "'s \<Rightarrow> (block \<Rightarrow> byte list) \<Rightarrow> block set \<Rightarrow> block set \<Rightarrow> bool"
    and holds :: "'s \<Rightarrow> 'h \<Rightarrow> block \<Rightarrow> bool"
    and rdb :: "block \<Rightarrow> 's \<Rightarrow> ('s, 'h) res"
    and getd :: "'h \<Rightarrow> 's \<Rightarrow> byte list"
    and logw :: "'h \<Rightarrow> byte list \<Rightarrow> 's \<Rightarrow> ('s, unit) res"
    and rel :: "'h \<Rightarrow> 's \<Rightarrow> ('s, unit) res"
    and rest :: "'s \<Rightarrow> 'r"
    and cap :: nat
  assumes rdb: "tx s V L H \<Longrightarrow> b \<notin> H \<Longrightarrow> card (L \<union> H) < cap \<Longrightarrow>
      \<exists>h t. rdb b s = Ok h t \<and> tx t V L (insert b H) \<and> holds t h b \<and> rest t = rest s \<and> (\<forall>g c. holds s g c \<longrightarrow> holds t g c)"
    and getd: "tx s V L H \<Longrightarrow> holds s h b \<Longrightarrow> getd h s = V b"
    and logw: "tx s V L H \<Longrightarrow> holds s h b \<Longrightarrow> card L < cap \<Longrightarrow>
      \<exists>t. logw h x s = Ok () t \<and> tx t (V(b := x)) (insert b L) H \<and> rest t = rest s \<and> (\<forall>g c. holds s g c \<longrightarrow> holds t g c)"
    and rel: "tx s V L H \<Longrightarrow> holds s h b \<Longrightarrow>
      \<exists>t. rel h s = Ok () t \<and> tx t V L (H - {b}) \<and> rest t = rest s \<and> (\<forall>g c. c \<noteq> b \<longrightarrow> holds s g c \<longrightarrow> holds t g c)"
    and held: "tx s V L H \<Longrightarrow> holds s h b \<Longrightarrow> b \<in> H"
    and fin: "tx s V L H \<Longrightarrow> finite L \<and> finite H"
begin

text \<open>Reading a block; the buffer is given back at the end.\<close>

lemma read_block:
  assumes "tx s V L H" "b \<notin> H" "card (L \<union> H) < cap"
  shows "\<exists>h t u. rdb b s = Ok h t \<and> getd h t = V b \<and> rest t = rest s \<and> rel h t = Ok () u \<and> tx u V L H \<and> rest u = rest s \<and>
    (\<forall>g c. holds s g c \<longrightarrow> holds u g c)"
proof -
  obtain h t where t: "rdb b s = Ok h t" "tx t V L (insert b H)" "holds t h b" "rest t = rest s" "\<forall>g c. holds s g c \<longrightarrow> holds t g c"
    using rdb [OF assms] by blast
  obtain u where u: "rel h t = Ok () u" "tx u V L (insert b H - {b})" "rest u = rest t" "\<forall>g c. c \<noteq> b \<longrightarrow> holds t g c \<longrightarrow> holds u g c"
    using rel [OF t(2,3)] by blast
  have "\<forall>g c. holds s g c \<longrightarrow> c \<noteq> b" using held [OF assms(1)] assms(2) by blast
  then show ?thesis using t u getd [OF t(2,3)] assms(2) by auto
qed

text \<open>Changing a block inside the transaction.\<close>

lemma update_block:
  assumes "tx s V L H" "b \<notin> H" "card (L \<union> H) < cap"
  shows "\<exists>h t u. rdb b s = Ok h t \<and> getd h t = V b \<and> rest t = rest s \<and>
    bindr (logw h x t) (\<lambda>_ s. rel h s) = Ok () u \<and> tx u (V(b := x)) (insert b L) H \<and> rest u = rest s \<and>
    (\<forall>g c. holds s g c \<longrightarrow> holds u g c)"
proof -
  obtain h t where t: "rdb b s = Ok h t" "tx t V L (insert b H)" "holds t h b" "rest t = rest s" "\<forall>g c. holds s g c \<longrightarrow> holds t g c"
    using rdb [OF assms] by blast
  have "card L \<le> card (L \<union> H)" using fin [OF assms(1)] by (intro card_mono) auto
  then obtain w where w: "logw h x t = Ok () w" "tx w (V(b := x)) (insert b L) (insert b H)" "rest w = rest t" "\<forall>g c. holds t g c \<longrightarrow> holds w g c"
    using logw [OF t(2,3), of x] assms(3) by auto
  obtain u where u: "rel h w = Ok () u" "tx u (V(b := x)) (insert b L) (insert b H - {b})" "rest u = rest w"
      "\<forall>g c. c \<noteq> b \<longrightarrow> holds w g c \<longrightarrow> holds u g c"
    using rel [OF w(2)] w(4) t(3) by blast
  have "\<forall>g c. holds s g c \<longrightarrow> c \<noteq> b" using held [OF assms(1)] assms(2) by blast
  then show ?thesis using t w u getd [OF t(2,3)] assms(2) by auto
qed

end

section \<open>The cache and the log\<close>

definition txn :: "32 word \<Rightarrow> 'a lstate_scheme \<Rightarrow> (block \<Rightarrow> byte list) \<Rightarrow> block set \<Rightarrow> block set \<Rightarrow> bool" where
  "txn d s V L H \<longleftrightarrow> cache_ok d s \<and> length (bufs s) = NBUF \<and> bview d s = V \<and> blocked d s = H \<and>
     unat (l_n s) \<le> LOGBLOCKS \<and> length (l_block s) = LOGBLOCKS \<and> 0 < sint (l_outstanding s) \<and>
     distinct (take (unat (l_n s)) (l_block s)) \<and> set (take (unat (l_n s)) (l_block s)) = L \<and>
     (\<forall>b. bref d s b = of_bool (b \<in> L) + of_bool (b \<in> H)) \<and> (\<forall>b. b \<notin> L \<longrightarrow> V b = disk s b)"

lemma txnD:
  assumes "txn d s V L H"
  shows "cache_ok d s" "length (bufs s) = 30" "bview d s = V" "blocked d s = H" "unat (l_n s) \<le> 30" "length (l_block s) = 30"
    "0 < sint (l_outstanding s)" "distinct (take (unat (l_n s)) (l_block s))" "set (take (unat (l_n s)) (l_block s)) = L"
    "bref d s b = of_bool (b \<in> L) + of_bool (b \<in> H)" "b \<notin> L \<Longrightarrow> V b = disk s b"
    "l_len s = unat (l_n s)" "sint (l_n s) = int (unat (l_n s))" "card L = unat (l_n s)" "finite L" "finite H"
proof -
  show "unat (l_n s) \<le> 30" using assms by (simp add: txn_def LOGBLOCKS_def MAXOPBLOCKS_def)
  then show i: "sint (l_n s) = int (unat (l_n s))" by (intro sint_small) simp
  then show "l_len s = unat (l_n s)" by (simp add: l_len_def)
  have "distinct (take (unat (l_n s)) (l_block s))" "L = set (take (unat (l_n s)) (l_block s))" using assms by (simp_all add: txn_def)
  then have "card L = length (take (unat (l_n s)) (l_block s))" by (simp only: distinct_card)
  then show "card L = unat (l_n s)" using assms by (simp add: txn_def)
  have "H \<subseteq> (\<lambda>i. b_blockno (bufs s ! i)) ` {..<length (bufs s)}"
  proof
    fix b
    assume "b \<in> H"
    then obtain i where "slot d s b = Some i" using assms by (auto simp: txn_def blocked_def)
    from slot_SomeD [OF this] show "b \<in> (\<lambda>i. b_blockno (bufs s ! i)) ` {..<length (bufs s)}" by (auto simp: is_buf_def)
  qed
  then show "finite H" by (rule finite_subset) simp
  show "finite L" using assms by (auto simp: txn_def)
qed (use assms in \<open>auto simp: txn_def LOGBLOCKS_def MAXOPBLOCKS_def NBUF_def\<close>)

lemma txn_bread:
  assumes "txn d s V L H" "b \<notin> H" "card (L \<union> H) < 30"
  shows "\<exists>h t. bread d b s = Ok h t \<and> txn d t V L (insert b H) \<and> bholds d t h b \<and> lstate.more t = lstate.more s \<and>
    (\<forall>g c. bholds d s g c \<longrightarrow> bholds d t g c)"
proof -
  note D = txnD [OF assms(1)]
  have "{c. 0 < bref d s c} = L \<union> H" using D(10) by auto
  then have "broom d s" using assms(3) D(2) by (simp add: broom_def)
  moreover have "bref d s b + 1 < 2 ^ 32" using D(10) by simp
  ultimately obtain h t where t: "bread d b s = Ok h t" "cache_ok d t" "bholds d t h b" "\<forall>j c. bholds d s j c \<longrightarrow> bholds d t j c"
      "bview d t = bview d s" "disk t = disk s" "bref d t = (bref d s)(b := bref d s b + 1)" "blocked d t = insert b (blocked d s)"
      "length (bufs t) = length (bufs s)"
    using bread_law [OF D(1), of b] assms(2) D(4) by blast
  have m: "bstate.more t = bstate.more s" using cache_more(1) [OF t(1)] .
  note lf = log_fields [OF m]
  have "txn d t V L (insert b H)" using assms(1,2) t lf by (auto simp: txn_def)
  then show ?thesis using t(1,3,4) lf by blast
qed

lemma txn_log_write:
  assumes "txn d s V L H" "bholds d s h b" "card L < 30"
  shows "\<exists>t. log_write h (set_bdata h x s) = Ok () t \<and> txn d t (V(b := x)) (insert b L) H \<and> lstate.more t = lstate.more s \<and>
    (\<forall>g c. bholds d s g c \<longrightarrow> bholds d t g c)"
proof -
  note D = txnD [OF assms(1)]
  let ?s = "set_bdata h x s" and ?n = "unat (l_n s)"
  note p = set_bdata_law [OF D(1) assms(2)]
  have m: "bstate.more ?s = bstate.more s" by (rule cache_more(4))
  note lf = log_fields [OF m]
  have hs: "bholds d ?s h b" using assms(2) p(5) by simp
  have bn: "b_blockno (bufs ?s ! h) = b" using bholds_facts(3) [OF p(1) hs] .
  have bH: "b \<in> H" using bholds_facts(9) [OF D(1) assms(2)] D(4) by simp
  have n: "?n < 30" using D(14) assms(3) by simp
  show ?thesis
  proof (cases "find_idx (\<lambda>y. y = b) (take ?n (l_block s))")
    case (Some j)
    then have j: "j < ?n" "l_block s ! j = b" "j < 30" using find_idx_SomeD [OF Some] n by auto
    have "(l_block s)[j := b] = l_block s" using j(2) by (metis list_update_id)
    then have "log_write h ?s = Ok () (?s\<lparr>l_block := l_block ?s\<rparr>)"
      using Some D(7,12,13) n bn lf j(1) by (auto simp: log_write_def Let_def l_len_block LOGBLOCKS_def MAXOPBLOCKS_def simp del: of_nat_unat)
    then have e: "log_write h ?s = Ok () ?s" by simp
    have "b \<in> set (take ?n (l_block s))" using find_idx_SomeD [OF Some] nth_mem by metis
    then have "b \<in> L" using D(9) by simp
    then have "txn d ?s (V(b := x)) (insert b L) H"
      using assms(1) p lf by (auto simp: txn_def insert_absorb)
    then show ?thesis using e p(5) lf by auto
  next
    case None
    then have bL: "b \<notin> L" using D(9) by (auto simp: find_idx_None)
    define u where "u = ?s\<lparr>l_block := (l_block s)[?n := b]\<rparr>"
    have tr: "bstate.truncate u = bstate.truncate ?s" by (simp add: u_def bstate.defs)
    note cc = cache_cong [OF tr]
    have sel: "bview d u = bview d ?s" "bref d u = bref d ?s" "blocked d u = blocked d ?s"
      using cc(2) by (simp_all add: acache_def)
    have ou: "cache_ok d u" "bholds d u h b" using p(1) hs cc by simp_all
    have "bref d u b + 1 < 2 ^ 32" using sel(2) p(3) D(10) by simp
    note pin = refcnt_law(1) [OF ou this]
    define t where "t = (bpin h u)\<lparr>l_n := l_n s + 1\<rparr>"
    have "log_write h ?s = Ok () t"
      using None D(7,12,13) n bn lf by (simp add: log_write_def Let_def l_len_block LOGBLOCKS_def MAXOPBLOCKS_def t_def u_def del: of_nat_unat)
    moreover have tt: "bstate.truncate t = bstate.truncate (bpin h u)" by (simp add: t_def bstate.defs)
    note ct = cache_cong [OF tt]
    have st: "bview d t = (bview d s)(b := x)" "bref d t = (bref d s)(b := bref d s b + 1)" "blocked d t = blocked d s"
      using ct(2) pin sel p by (simp_all add: acache_def)
    have "take (Suc ?n) ((l_block s)[?n := b]) = take ?n (l_block s) @ [b]" using n D(6) by (simp add: take_Suc_conv_app_nth)
    then have tk: "distinct (take (unat (l_n t)) (l_block t))" "set (take (unat (l_n t)) (l_block t)) = insert b L"
        "length (l_block t) = 30" "unat (l_n t) \<le> 30"
      using D(6,8,9) n bL by (auto simp: t_def u_def bpin_def upd_buf_def unat_word_ariths(1))
    have oth: "l_outstanding t = l_outstanding s" "disk t = disk s" "length (bufs t) = 30" "lstate.more t = lstate.more s"
      using lf D(2) p(6,8) by (simp_all add: t_def u_def bpin_def upd_buf_def)
    have "txn d t (V(b := x)) (insert b L) H"
      unfolding txn_def using ct(1) pin st tk oth D bH bL by (auto simp: LOGBLOCKS_def MAXOPBLOCKS_def NBUF_def)
    moreover have "bholds d s g c \<longrightarrow> bholds d t g c" for g c using ct(3) pin cc(3) p(5) by simp
    ultimately show ?thesis using oth(4) by blast
  qed
qed

lemma txn_brelse:
  assumes "txn d s V L H" "bholds d s h b"
  shows "\<exists>t. brelse h s = Ok () t \<and> txn d t V L (H - {b}) \<and> lstate.more t = lstate.more s \<and>
    (\<forall>g c. c \<noteq> b \<longrightarrow> bholds d s g c \<longrightarrow> bholds d t g c)"
proof -
  note D = txnD [OF assms(1)]
  have bH: "b \<in> H" using bholds_facts(9) [OF D(1) assms(2)] D(4) by simp
  have "1 < bref d s b \<or> bview d s b = disk s b" using D(3,10,11) bH by (cases "b \<in> L") auto
  then obtain t where t: "brelse h s = Ok () t" "cache_ok d t" "\<forall>j c. c \<noteq> b \<longrightarrow> bholds d s j c \<longrightarrow> bholds d t j c"
      "bview d t = bview d s" "disk t = disk s" "bref d t = (bref d s)(b := bref d s b - 1)" "blocked d t = blocked d s - {b}"
      "length (bufs t) = length (bufs s)"
    using brelse_law [OF D(1) assms(2)] by blast
  note lf = log_fields [OF cache_more(3) [OF t(1)]]
  have "txn d t V L (H - {b})" using assms(1) bH t lf by (auto simp: txn_def)
  then show ?thesis using t(1,3) lf by blast
qed

interpretation lb: logged_blocks "txn d" "bholds d" "bread d" bdata "\<lambda>h x s. log_write h (set_bdata h x s)" brelse lstate.more 30
  for d :: "32 word"
proof
  fix s :: "'a lstate_scheme" and V L H b h x
  assume tx: "txn d s V L H"
  show "b \<notin> H \<Longrightarrow> card (L \<union> H) < 30 \<Longrightarrow> \<exists>h t. bread d b s = Ok h t \<and> txn d t V L (insert b H) \<and> bholds d t h b \<and>
      lstate.more t = lstate.more s \<and> (\<forall>g c. bholds d s g c \<longrightarrow> bholds d t g c)" by (rule txn_bread [OF tx])
  show "finite L \<and> finite H" using txnD(15,16) [OF tx] by blast
  assume h: "bholds d s h b"
  show "b \<in> H" using bholds_facts(9) [OF txnD(1) [OF tx] h] txnD(4) [OF tx] by simp
  show "bdata h s = V b" using bholds_facts(6) [OF txnD(1) [OF tx] h] txnD(3) [OF tx] by simp
  show "card L < 30 \<Longrightarrow> \<exists>t. log_write h (set_bdata h x s) = Ok () t \<and> txn d t (V(b := x)) (insert b L) H \<and>
      lstate.more t = lstate.more s \<and> (\<forall>g c. bholds d s g c \<longrightarrow> bholds d t g c)" by (rule txn_log_write [OF tx h])
  show "\<exists>t. brelse h s = Ok () t \<and> txn d t V L (H - {b}) \<and> lstate.more t = lstate.more s \<and>
      (\<forall>g c. c \<noteq> b \<longrightarrow> bholds d s g c \<longrightarrow> bholds d t g c)" by (rule txn_brelse [OF tx h])
qed

text \<open>What is outside the cache and the log does not matter.\<close>

lemma txn_cong: "lstate.truncate t = lstate.truncate s \<Longrightarrow> txn d t V L H = txn d s V L H"
proof -
  assume e: "lstate.truncate t = lstate.truncate s"
  have b: "bstate.truncate t = bstate.truncate s" using e by (cases t; cases s) (simp add: bstate.defs lstate.defs)
  have f: "l_n t = l_n s" "l_block t = l_block s" "l_outstanding t = l_outstanding s" "disk t = disk s" "bufs t = bufs s"
    using e by (cases t; cases s; simp add: lstate.defs)+
  show ?thesis unfolding txn_def cache_cong [OF b] f using cache_cong(2) [OF b, of d] by (simp add: acache_def)
qed

end
