(* ===== verification/Bitmap.thy ===== *)
theory Bitmap
  imports Txn Fs
begin

text \<open>
  The block allocator of \<open>kernel/fs.c\<close> against the bitmap it keeps on disk: \<open>balloc\<close> hands out a block whose
  bit is clear, sets the bit and zeroes the block, \<open>bfree\<close> clears the bit, and neither changes anything
  else.
\<close>

section \<open>Bits\<close>

definition used :: "(block \<Rightarrow> byte list) \<Rightarrow> superblock \<Rightarrow> block \<Rightarrow> bool" where
  "used V q b \<longleftrightarrow> V (BBLOCK b q) ! (unat b mod BPB div 8) AND bit_mask (unat b mod BPB) \<noteq> 0"

definition mark :: "byte list \<Rightarrow> nat \<Rightarrow> byte list" where
  "mark bs bi = bs[bi div 8 := bs ! (bi div 8) OR bit_mask bi]"

definition unmark :: "byte list \<Rightarrow> nat \<Rightarrow> byte list" where
  "unmark bs bi = bs[bi div 8 := bs ! (bi div 8) AND NOT (bit_mask bi)]"

lemma bit_mask_test: "x AND bit_mask i \<noteq> 0 \<longleftrightarrow> bit x (i mod 8)"
  using and_exp_eq_0_iff_not_bit [of x "i mod 8"] by (simp add: bit_mask_def push_bit_of_1)

lemma bit_bit_mask: "bit (bit_mask i) n \<longleftrightarrow> n = i mod 8"
  by (auto simp: bit_mask_def bit_exp_iff)

lemma mark_test:
  assumes "i div 8 < length bs"
  shows "mark bs i ! (j div 8) AND bit_mask j \<noteq> 0 \<longleftrightarrow> j = i \<or> bs ! (j div 8) AND bit_mask j \<noteq> 0"
proof (cases "j div 8 = i div 8")
  case True
  then have "j mod 8 = i mod 8 \<longleftrightarrow> j = i" by (metis div_mult_mod_eq)
  then show ?thesis using True assms unfolding bit_mask_test by (auto simp: mark_def bit_or_iff bit_bit_mask)
next
  case False
  then show ?thesis by (auto simp: mark_def)
qed

lemma unmark_test:
  assumes "i div 8 < length bs"
  shows "unmark bs i ! (j div 8) AND bit_mask j \<noteq> 0 \<longleftrightarrow> j \<noteq> i \<and> bs ! (j div 8) AND bit_mask j \<noteq> 0"
proof (cases "j div 8 = i div 8")
  case True
  then have "j mod 8 = i mod 8 \<longleftrightarrow> j = i" by (metis div_mult_mod_eq)
  then show ?thesis using True assms unfolding bit_mask_test by (auto simp: unmark_def bit_and_iff bit_not_iff bit_bit_mask)
next
  case False
  then show ?thesis by (auto simp: unmark_def)
qed

lemma length_mark [simp]: "length (mark bs i) = length bs" "length (unmark bs i) = length bs"
  by (simp_all add: mark_def unmark_def)

lemma BBLOCK_same: "BBLOCK b q = BBLOCK c q \<longleftrightarrow> unat b div BPB = unat c div BPB"
proof -
  have "BBLOCK b q = BBLOCK c q \<longleftrightarrow> b div 8192 = c div 8192" by (simp add: BBLOCK_def BPB_def BSIZE_def)
  also have "\<dots> \<longleftrightarrow> unat b div BPB = unat c div BPB" by (simp add: word_unat_eq_iff unat_div BPB_def BSIZE_def)
  finally show ?thesis .
qed

lemma same_bit: "unat b div BPB = unat c div BPB \<Longrightarrow> unat b mod BPB = unat c mod BPB \<longleftrightarrow> b = c"
  by (metis div_mult_mod_eq word_unat_eq_iff)

lemma used_mark:
  assumes "length (V (BBLOCK b q)) = BSIZE"
  shows "used (V(BBLOCK b q := mark (V (BBLOCK b q)) (unat b mod BPB))) q c \<longleftrightarrow> c = b \<or> used V q c"
    "used (V(BBLOCK b q := unmark (V (BBLOCK b q)) (unat b mod BPB))) q c \<longleftrightarrow> c \<noteq> b \<and> used V q c"
proof -
  have l: "unat b mod BPB div 8 < length (V (BBLOCK b q))" unfolding assms by (simp add: BPB_def BSIZE_def less_mult_imp_div_less)
  have "used (V(BBLOCK b q := mark (V (BBLOCK b q)) (unat b mod BPB))) q c = (c = b \<or> used V q c) \<and>
    used (V(BBLOCK b q := unmark (V (BBLOCK b q)) (unat b mod BPB))) q c = (c \<noteq> b \<and> used V q c)"
  proof (cases "BBLOCK c q = BBLOCK b q")
    case True
    then have "unat c mod BPB = unat b mod BPB \<longleftrightarrow> c = b" by (intro same_bit) (simp add: BBLOCK_same)
    then show ?thesis using mark_test [OF l, of "unat c mod BPB"] unmark_test [OF l, of "unat c mod BPB"]
      by (simp add: used_def True)
  next
    case False
    then show ?thesis by (auto simp: used_def)
  qed
  then show "used (V(BBLOCK b q := mark (V (BBLOCK b q)) (unat b mod BPB))) q c \<longleftrightarrow> c = b \<or> used V q c"
    "used (V(BBLOCK b q := unmark (V (BBLOCK b q)) (unat b mod BPB))) q c \<longleftrightarrow> c \<noteq> b \<and> used V q c" by blast+
qed

section \<open>The allocator\<close>

text \<open>A disk whose blocks are all full blocks and whose bitmap marks itself and block 0 as used.\<close>

definition bitmap_ok :: "(block \<Rightarrow> byte list) \<Rightarrow> superblock \<Rightarrow> bool" where
  "bitmap_ok V q \<longleftrightarrow> (\<forall>b. length (V b) = BSIZE) \<and> used V q 0 \<and>
     (\<forall>b c. c < sb_size q \<longrightarrow> BBLOCK c q = b \<longrightarrow> b < sb_size q \<longrightarrow> used V q b)"

definition alloc :: "superblock \<Rightarrow> block \<Rightarrow> (block \<Rightarrow> byte list) \<Rightarrow> block \<Rightarrow> byte list" where
  "alloc q r V = V(BBLOCK r q := mark (V (BBLOCK r q)) (unat r mod BPB), r := replicate BSIZE 0)"

lemma alloc_used:
  assumes "bitmap_ok V q" "r < sb_size q" "\<not> used V q r"
  shows "c < sb_size q \<Longrightarrow> used (alloc q r V) q c \<longleftrightarrow> c = r \<or> used V q c" "bitmap_ok (alloc q r V) q"
    "alloc q r V r = replicate BSIZE 0" "c \<noteq> r \<Longrightarrow> c \<noteq> BBLOCK r q \<Longrightarrow> alloc q r V c = V c"
proof -
  have nb: "BBLOCK c q \<noteq> r" if "c < sb_size q" for c using assms that by (auto simp: bitmap_ok_def)
  have len: "length (V b) = BSIZE" for b using assms(1) by (simp add: bitmap_ok_def)
  have u: "used (alloc q r V) q c \<longleftrightarrow> c = r \<or> used V q c" if "c < sb_size q" for c
  proof -
    have "used (alloc q r V) q c = used (V(BBLOCK r q := mark (V (BBLOCK r q)) (unat r mod BPB))) q c"
      using nb [OF that] by (simp add: used_def alloc_def)
    then show ?thesis using used_mark(1) [OF len] by simp
  qed
  then show "c < sb_size q \<Longrightarrow> used (alloc q r V) q c \<longleftrightarrow> c = r \<or> used V q c" .
  have z: "0 < sb_size q" using assms(2) by (metis word_gt_0 not_less_iff_gr_or_eq word_zero_le not_le)
  have "length (alloc q r V b) = BSIZE" for b using len by (simp add: alloc_def)
  then show "bitmap_ok (alloc q r V) q" using u [OF z] u assms(1) by (auto simp: bitmap_ok_def)
  show "alloc q r V r = replicate BSIZE 0" "c \<noteq> r \<Longrightarrow> c \<noteq> BBLOCK r q \<Longrightarrow> alloc q r V c = V c" by (simp_all add: alloc_def)
qed

text \<open>What the operations on blocks keep of the state: the fields above the log, and buffers held.\<close>

definition keep :: "32 word \<Rightarrow> 'a lstate_scheme \<Rightarrow> 'a lstate_scheme \<Rightarrow> bool" where
  "keep d s t \<longleftrightarrow> lstate.more t = lstate.more s \<and> (\<forall>g c. bholds d s g c \<longrightarrow> bholds d t g c)"

lemma keep_refl [simp]: "keep d s s"
  by (simp add: keep_def)

lemma keep_trans [trans]: "keep d s t \<Longrightarrow> keep d t u \<Longrightarrow> keep d s u"
  by (simp add: keep_def)

lemma fs_fields:
  assumes "lstate.more t = lstate.more (s :: 'a fstate_scheme)"
  shows "sb t = sb s" "itable t = itable s" "fstate.more t = fstate.more s"
  using assms by (cases s; cases t; simp)+

lemma keep_sb: "keep d (s :: 'a fstate_scheme) t \<Longrightarrow> sb t = sb s \<and> itable t = itable s"
  using fs_fields [of t s] by (simp add: keep_def)

lemma bread_txn:
  assumes "txn d s V L H" "b \<notin> H" "card (L \<union> H) < 30"
  shows "\<exists>h t u. bread d b s = Ok h t \<and> bdata h t = V b \<and> keep d s t \<and> txn d t V L (insert b H) \<and> bholds d t h b \<and>
    brelse h t = Ok () u \<and> txn d u V L H \<and> keep d s u"
proof -
  obtain h t where t: "bread d b s = Ok h t" "txn d t V L (insert b H)" "bholds d t h b" "keep d s t"
    using lb.rdb [OF assms] by (auto simp: keep_def)
  obtain h' t' u where u: "bread d b s = Ok h' t'" "bdata h' t' = V b" "brelse h' t' = Ok () u" "txn d u V L H" "keep d s u"
    using lb.read_block [OF assms] by (auto simp: keep_def)
  show ?thesis using t u by auto
qed

lemma bzero_txn:
  assumes "txn d s V L H" "b \<notin> H" "card (L \<union> H) < 30"
  shows "\<exists>t. bzero d b s = Ok () t \<and> txn d t (V(b := replicate BSIZE 0)) (insert b L) H \<and> keep d s t"
  using lb.update_block [OF assms, of "replicate BSIZE 0"] by (auto simp: bzero_def keep_def)

lemma bit_index:
  assumes "k * BPB + bi < unat (sb_size q)" "bi < BPB"
  shows "unat (of_nat (k * BPB + bi) :: block) = k * BPB + bi" "BBLOCK (of_nat (k * BPB)) q = BBLOCK (of_nat (k * BPB + bi)) q"
    "used V q (of_nat (k * BPB + bi)) \<longleftrightarrow> V (BBLOCK (of_nat (k * BPB)) q) ! (bi div 8) AND bit_mask bi \<noteq> 0"
    "(of_nat (k * BPB + bi) :: block) < sb_size q" "unat (of_nat (k * BPB + bi) :: block) mod BPB = bi"
proof -
  have "unat (sb_size q) < 2 ^ 32" using unsigned_less [of "sb_size q"] by simp
  then have lt: "k * BPB + bi < 2 ^ 32" using assms(1) by linarith
  then show u: "unat (of_nat (k * BPB + bi) :: block) = k * BPB + bi" by (rule unat_of_nat32)
  have "k * BPB < 2 ^ 32" using lt by linarith
  then have v: "unat (of_nat (k * BPB) :: block) = k * BPB" by (rule unat_of_nat32)
  have "0 < BPB" by (simp add: BPB_def BSIZE_def)
  then have d: "(k * BPB + bi) div BPB = k" "(k * BPB + bi) mod BPB = bi" using assms(2) by simp_all
  then show m: "unat (of_nat (k * BPB + bi) :: block) mod BPB = bi" unfolding u by simp
  show e: "BBLOCK (of_nat (k * BPB)) q = BBLOCK (of_nat (k * BPB + bi)) q"
    unfolding BBLOCK_same u v using d \<open>0 < BPB\<close> by simp
  show "used V q (of_nat (k * BPB + bi)) \<longleftrightarrow> V (BBLOCK (of_nat (k * BPB)) q) ! (bi div 8) AND bit_mask bi \<noteq> 0"
    unfolding used_def e m ..
  show "(of_nat (k * BPB + bi) :: block) < sb_size q" using assms(1) u by (simp add: word_less_nat_alt)
qed

lemma free_bit_Some: "free_bit bs n = Some bi \<Longrightarrow> bi < n \<and> bs ! (bi div 8) AND bit_mask bi = 0"
  unfolding free_bit_def by (drule find_SomeD) auto

lemma free_bit_None: "free_bit bs n = None \<longleftrightarrow> (\<forall>bi < n. bs ! (bi div 8) AND bit_mask bi \<noteq> 0)"
  by (auto simp: free_bit_def find_None_iff)

text \<open>Room for two more blocks in the log and in the cache, no bitmap block held, and no free block held.\<close>

definition can_alloc :: "(block \<Rightarrow> byte list) \<Rightarrow> superblock \<Rightarrow> block set \<Rightarrow> block set \<Rightarrow> bool" where
  "can_alloc V q L H \<longleftrightarrow> bitmap_ok V q \<and> card (L \<union> H) < 29 \<and>
     (\<forall>b. b < sb_size q \<longrightarrow> BBLOCK b q \<notin> H) \<and> (\<forall>b \<in> H. b < sb_size q \<longrightarrow> used V q b)"

lemma balloc_spec:
  fixes s :: "'a fstate_scheme"
  assumes "txn d s V L H" "can_alloc V (sb s) L H"
  shows "\<exists>r t. balloc d s = Ok r t \<and> keep d s t \<and>
    (r = 0 \<and> txn d t V L H \<and> (\<forall>b < sb_size (sb s). used V (sb s) b) \<or>
     r \<noteq> 0 \<and> r < sb_size (sb s) \<and> \<not> used V (sb s) r \<and> txn d t (alloc (sb s) r V) (L \<union> {BBLOCK r (sb s), r}) H)"
proof -
  let ?q = "sb s" and ?N = "unat (sb_size (sb s))"
  let ?ks = "map (\<lambda>k. k * BPB) [0..<(?N + BPB - 1) div BPB]"
  let ?P = "\<lambda>b. \<exists>bi < min BPB (?N - b). \<not> used V ?q (of_nat (b + bi))"
  let ?Q = "\<lambda>b v t. v \<noteq> 0 \<and> v < sb_size ?q \<and> \<not> used V ?q v \<and> txn d t (alloc ?q v V) (L \<union> {BBLOCK v ?q, v}) H \<and> keep d s t"
  have bm: "bitmap_ok V ?q" and room: "card (L \<union> H) < 29" using assms(2) by (simp_all add: can_alloc_def)
  have B: "0 < BPB" by (simp add: BPB_def BSIZE_def)
  have ks: "\<exists>k. b = k * BPB \<and> k * BPB < ?N" if m: "b \<in> set ?ks" for b
  proof -
    have "\<exists>k. b = k * BPB \<and> k < (?N + BPB - 1) div BPB" using m by auto
    then obtain k where "b = k * BPB" "k < (?N + BPB - 1) div BPB" by blast
    moreover from this have "Suc k * BPB \<le> ?N + BPB - 1" using B by (simp only: Suc_le_eq flip: less_eq_div_iff_mult_less_eq)
    ultimately show ?thesis using B by auto
  qed
  define body where "body = (\<lambda>b (t :: 'a fstate_scheme). bindr (bread d (BBLOCK (of_nat b) (sb t)) t) (\<lambda>bp s.
       case free_bit (bdata bp s) (min BPB (unat (sb_size (sb s)) - b)) of
         Some bi \<Rightarrow>
           let data = bdata bp s;
               s = set_bdata bp (data[bi div 8 := data ! (bi div 8) OR bit_mask bi]) s in
           bindr (log_write bp s) (\<lambda>_ s.
           bindr (brelse bp s) (\<lambda>_ s.
           bindr (bzero d (of_nat (b + bi)) s) (\<lambda>_ s. Ok (Some (of_nat (b + bi) :: block)) s)))
       | None \<Rightarrow> bindr (brelse bp s) (\<lambda>_ s. Ok None s)))"
  have step: "(\<exists>u. body b t = Ok None u \<and> (txn d u V L H \<and> keep d s u) \<and> \<not> ?P b) \<or> (\<exists>v u. body b t = Ok (Some v) u \<and> ?P b \<and> ?Q b v u)"
    if b: "b \<in> set ?ks" and I: "txn d t V L H \<and> keep d s t" for b t
  proof -
    obtain k where k: "b = k * BPB" "k * BPB < ?N" using ks [OF b] by blast
    have q: "sb t = ?q" using keep_sb I by blast
    have idx: "used V ?q (of_nat (b + bi)) \<longleftrightarrow> V (BBLOCK (of_nat b) ?q) ! (bi div 8) AND bit_mask bi \<noteq> 0"
        "BBLOCK (of_nat b) ?q = BBLOCK (of_nat (b + bi)) ?q" "(of_nat (b + bi) :: block) < sb_size ?q"
        "unat (of_nat (b + bi) :: block) mod BPB = bi" if "bi < min BPB (?N - b)" for bi
      using bit_index [where k = k and bi = bi and q = ?q] that k by (auto simp del: of_nat_add of_nat_mult)
    let ?bb = "BBLOCK (of_nat b) ?q"
    have "?bb \<notin> H" using assms(2) idx(2,3) [of 0] k B by (auto simp: can_alloc_def)
    then have nh: "?bb \<notin> H" .
    obtain h t1 t2 where t1: "bread d ?bb t = Ok h t1" "bdata h t1 = V ?bb" "keep d t t1" "brelse h t1 = Ok () t2" "txn d t2 V L H" "keep d t t2"
      using bread_txn [of d t V L H ?bb] I nh room by auto
    have q1: "sb t1 = ?q" using keep_sb [OF t1(3)] q by simp
    show ?thesis
    proof (cases "free_bit (V ?bb) (min BPB (?N - b))")
      case None
      then have "\<not> ?P b" using idx(1) by (auto simp: free_bit_None)
      moreover have "body b t = Ok None t2" using None t1 q q1 by (simp add: body_def)
      ultimately show ?thesis using t1 I keep_trans by blast
    next
      case (Some bi)
      let ?r = "of_nat (b + bi) :: block"
      have bi: "bi < min BPB (?N - b)" "\<not> used V ?q ?r" using free_bit_Some [OF Some] idx(1) by auto
      note ix = idx [OF bi(1)]
      have rH: "?r \<notin> H" using assms(2) bi ix(3) by (auto simp: can_alloc_def)
      let ?m = "mark (V ?bb) bi"
      obtain h' t1' u where u: "bread d ?bb t = Ok h' t1'" "bindr (log_write h' (set_bdata h' ?m t1')) (\<lambda>_ s. brelse h' s) = Ok () u"
          "txn d u (V(?bb := ?m)) (insert ?bb L) H" "keep d t u"
        using lb.update_block [of d t V L H ?bb ?m] I nh room by (auto simp: keep_def)
      have e: "h' = h" "t1' = t1" using u(1) t1(1) by auto
      obtain w where w: "log_write h (set_bdata h ?m t1) = Ok () w" "brelse h w = Ok () u"
        using u(2) unfolding e by (auto simp: bindr_eq_Ok)
      have "card (insert ?bb L \<union> H) \<le> Suc (card (L \<union> H))" by (simp add: card_insert_le_m1 card_insert_if)
      then obtain x where x: "bzero d ?r u = Ok () x" "txn d x ((V(?bb := ?m))(?r := replicate BSIZE 0)) (insert ?r (insert ?bb L)) H" "keep d u x"
        using bzero_txn [OF u(3) rH] room by auto
      have "alloc ?q ?r V = (V(?bb := ?m))(?r := replicate BSIZE 0)" using ix by (simp add: alloc_def)
      then have tx: "txn d x (alloc ?q ?r V) (L \<union> {BBLOCK ?r ?q, ?r}) H" using x(2) ix(2) by (simp add: insert_commute)
      have "body b t = Ok (Some ?r) x"
        using Some t1(1,2) q q1 w x(1) by (simp add: body_def Let_def mark_def)
      moreover have "?r \<noteq> 0" using bi(2) bm by (auto simp: bitmap_ok_def)
      moreover have "keep d s x" using I u(4) x(3) keep_trans by blast
      ultimately show ?thesis using bi ix(3) tx by blast
    qed
  qed
  have cover: "used V ?q c" if c: "c < sb_size ?q" and n: "\<forall>b \<in> set ?ks. \<not> ?P b" for c
  proof -
    let ?b = "unat c div BPB * BPB" and ?bi = "unat c mod BPB"
    have e: "?b + ?bi = unat c" by (rule div_mult_mod_eq)
    have lt: "unat c < ?N" using c by (simp add: word_less_nat_alt)
    have "unat c div BPB < (?N + BPB - 1) div BPB"
    proof -
      have "unat c div BPB \<le> (?N - 1) div BPB" using lt by (intro div_le_mono) simp
      moreover have "(?N + BPB - 1) div BPB = (?N - 1) div BPB + 1" using lt B by (metis Nat.add_diff_assoc2 Suc_leI div_add_self2 less_nat_zero_code neq0_conv One_nat_def)
      ultimately show ?thesis by simp
    qed
    then have "?b \<in> set ?ks" by auto
    moreover have "?bi < ?N - ?b" using lt e by linarith
    then have "?bi < min BPB (?N - ?b)" using lt e B by auto
    ultimately have "used V ?q (of_nat (?b + ?bi))" using n by blast
    then show ?thesis by (simp add: e)
  qed
  have "txn d s V L H \<and> keep d s s" using assms(1) by simp
  from loopM_cases [of "\<lambda>t. txn d t V L H \<and> keep d s t" s ?ks body ?P ?Q, OF this step]
  consider (none) t where "loopM ?ks body s = Ok None t" "txn d t V L H" "keep d s t" "\<forall>b \<in> set ?ks. \<not> ?P b"
    | (some) v t where "loopM ?ks body s = Ok (Some v) t" "?Q (0 :: nat) v t" by blast
  then show ?thesis
  proof cases
    case none
    then have "balloc d s = Ok 0 t" by (simp add: balloc_def flip: body_def)
    then show ?thesis using none cover by blast
  next
    case some
    then have "balloc d s = Ok v t" by (simp add: balloc_def flip: body_def)
    then show ?thesis using some by blast
  qed
qed

lemma bfree_spec:
  assumes "txn d s V L H" "BBLOCK b (sb s) \<notin> H" "card (L \<union> H) < 30"
  shows "if used V (sb s) b then \<exists>t. bfree d b s = Ok () t \<and> keep d s t \<and>
      txn d t (V(BBLOCK b (sb s) := unmark (V (BBLOCK b (sb s))) (unat b mod BPB))) (insert (BBLOCK b (sb s)) L) H
    else bfree d b s = Panic ''freeing free block''"
proof -
  let ?bb = "BBLOCK b (sb s)" and ?bi = "unat b mod BPB"
  obtain h t u where u: "bread d ?bb s = Ok h t" "bdata h t = V ?bb"
      "bindr (log_write h (set_bdata h (unmark (V ?bb) ?bi) t)) (\<lambda>_ s. brelse h s) = Ok () u"
      "txn d u (V(?bb := unmark (V ?bb) ?bi)) (insert ?bb L) H" "keep d s u"
    using lb.update_block [OF assms, of "unmark (V ?bb) ?bi"] by (auto simp: keep_def)
  show ?thesis using u by (simp add: bfree_def Let_def used_def unmark_def)
qed

text \<open>
  C7. The block allocator, inside a transaction with room for two more blocks. \<open>balloc\<close> never panics: it
  returns 0 when every block of the disk is used, and otherwise a block that was free, which is then used and
  full of zeros; no other block changes its use or, but for the bitmap block, its contents, and the two blocks
  are logged. \<open>bfree\<close> frees exactly the block it is given, and panics when that block is free already.
\<close>

theorem block_allocator_correct:
  assumes "txn d s V L H" "can_alloc V (sb s) L H"
  defines "q \<equiv> sb s"
  shows "(\<exists>r t V' L'. balloc d s = Ok r t \<and> txn d t V' L' H \<and>
      (if r = 0 then V' = V \<and> L' = L \<and> (\<forall>b < sb_size q. used V q b)
       else r < sb_size q \<and> \<not> used V q r \<and> (\<forall>b < sb_size q. used V' q b \<longleftrightarrow> b = r \<or> used V q b) \<and>
         V' r = replicate BSIZE 0 \<and> (\<forall>b. b \<noteq> r \<longrightarrow> b \<noteq> BBLOCK r q \<longrightarrow> V' b = V b) \<and> L' = L \<union> {BBLOCK r q, r})) \<and>
    (\<forall>b < sb_size q. if used V q b
       then \<exists>t V'. bfree d b s = Ok () t \<and> txn d t V' (insert (BBLOCK b q) L) H \<and>
         (\<forall>c. used V' q c \<longleftrightarrow> c \<noteq> b \<and> used V q c) \<and> (\<forall>c. c \<noteq> BBLOCK b q \<longrightarrow> V' c = V c)
       else bfree d b s = Panic ''freeing free block'')"
proof -
  have c: "bitmap_ok V q" "card (L \<union> H) < 30" "\<And>b. b < sb_size q \<Longrightarrow> BBLOCK b q \<notin> H"
    using assms(2) by (auto simp: can_alloc_def q_def)
  have "\<exists>r t V' L'. balloc d s = Ok r t \<and> txn d t V' L' H \<and>
      (if r = 0 then V' = V \<and> L' = L \<and> (\<forall>b < sb_size q. used V q b)
       else r < sb_size q \<and> \<not> used V q r \<and> (\<forall>b < sb_size q. used V' q b \<longleftrightarrow> b = r \<or> used V q b) \<and>
         V' r = replicate BSIZE 0 \<and> (\<forall>b. b \<noteq> r \<longrightarrow> b \<noteq> BBLOCK r q \<longrightarrow> V' b = V b) \<and> L' = L \<union> {BBLOCK r q, r})"
  proof -
    obtain r t where r: "balloc d s = Ok r t" "r = 0 \<and> txn d t V L H \<and> (\<forall>b < sb_size q. used V q b) \<or>
       r \<noteq> 0 \<and> r < sb_size q \<and> \<not> used V q r \<and> txn d t (alloc q r V) (L \<union> {BBLOCK r q, r}) H"
      using balloc_spec [OF assms(1,2)] unfolding q_def by blast
    show ?thesis
    proof (cases "r = 0")
      case False
      then have f: "r < sb_size q" "\<not> used V q r" "txn d t (alloc q r V) (L \<union> {BBLOCK r q, r}) H" using r(2) by auto
      show ?thesis using r(1) False f alloc_used [OF c(1) f(1,2)]
        by (intro exI [of _ r] exI [of _ t] exI [of _ "alloc q r V"] exI [of _ "L \<union> {BBLOCK r q, r}"]) simp
    qed (use r in auto)
  qed
  moreover have "if used V q b
       then \<exists>t V'. bfree d b s = Ok () t \<and> txn d t V' (insert (BBLOCK b q) L) H \<and>
         (\<forall>c. used V' q c \<longleftrightarrow> c \<noteq> b \<and> used V q c) \<and> (\<forall>c. c \<noteq> BBLOCK b q \<longrightarrow> V' c = V c)
       else bfree d b s = Panic ''freeing free block''" if b: "b < sb_size q" for b
  proof -
    note sp = bfree_spec [OF assms(1) c(3) [OF b, unfolded q_def] c(2), folded q_def]
    show ?thesis
    proof (cases "used V q b")
      case True
      let ?V = "V(BBLOCK b q := unmark (V (BBLOCK b q)) (unat b mod BPB))"
      obtain t where "bfree d b s = Ok () t" "txn d t ?V (insert (BBLOCK b q) L) H"
        using sp True by auto
      moreover have "length (V (BBLOCK b q)) = BSIZE" using c(1) by (simp add: bitmap_ok_def)
      ultimately show ?thesis using True used_mark(2) by (simp add: exI [of _ ?V])
    next
      case False
      then show ?thesis using sp by simp
    qed
  qed
  ultimately show ?thesis by blast
qed

text \<open>A disk of 100 blocks with the bitmap in block 45, in which blocks 48 to 55 are free, at the beginning of a
  transaction.\<close>

definition demo_sb :: superblock where
  "demo_sb = \<lparr>sb_magic = FSMAGIC, sb_size = 100, sb_nblocks = 54, sb_ninodes = 16, sb_nlog = 30, sb_logstart = 2,
     sb_inodestart = 32, sb_bmapstart = 45\<rparr>"

definition demo_blocks :: "block \<Rightarrow> byte list" where
  "demo_blocks b = (if b = 45 then (replicate BSIZE 255)[6 := 0] else replicate BSIZE 0)"

definition demo_fs :: "(block \<Rightarrow> byte list) \<Rightarrow> inode list \<Rightarrow> fstate" where
  "demo_fs V ips = lstate.extend ((demo_log (replicate NBUF bss_buf) V 0)\<lparr>lru := [0..<NBUF], l_outstanding := 1,
     l_block := replicate LOGBLOCKS 0\<rparr>) (fstate.fields demo_sb ips)"

lemma demo_txn: "txn 1 (demo_fs V ips) V {} {}"
proof -
  have s: "slot 1 (demo_fs V ips) = (\<lambda>_. None)"
    by (auto simp: slot_None is_buf_def demo_fs_def lstate.defs fstate.defs demo_log_defs bss_buf_def)
  show ?thesis unfolding txn_def cache_ok_def bview_def bref_def blocked_def s
    by (auto simp: demo_fs_def lstate.defs fstate.defs demo_log_defs bss_buf_def cur_ok_def initsleeplock_def Let_def)
qed

lemma demo_sb_fs [simp]: "sb (demo_fs V ips) = demo_sb" "itable (demo_fs V ips) = ips"
  by (simp_all add: demo_fs_def lstate.defs fstate.defs demo_log_defs)

lemma demo_used: "b < 100 \<Longrightarrow> BBLOCK b demo_sb = 45 \<and> (used demo_blocks demo_sb b \<longleftrightarrow> unat b div 8 \<noteq> 6)"
proof -
  assume b: "b < 100"
  then have u: "unat b < 100" by (simp add: word_less_nat_alt)
  then have "unat (b div 8192) = 0" by (simp add: unat_div)
  then have bb: "BBLOCK b demo_sb = 45" by (simp add: BBLOCK_def demo_sb_def BPB_def BSIZE_def unat_eq_0)
  have "bit (255 :: byte) (n mod 8)" for n
  proof -
    have e: "(255 :: byte) = - 1" by simp
    show ?thesis unfolding e bit_minus_1_iff by simp
  qed
  then have "used demo_blocks demo_sb b \<longleftrightarrow> unat b div 8 \<noteq> 6"
    using u unfolding used_def bb bit_mask_test by (auto simp: demo_blocks_def BPB_def BSIZE_def nth_list_update)
  then show ?thesis using bb by blast
qed

lemma demo_can_alloc: "can_alloc demo_blocks demo_sb {} {}"
proof -
  have "used demo_blocks demo_sb b" if "c < sb_size demo_sb" "BBLOCK c demo_sb = b" for b c
    using demo_used [of c] demo_used [of 45] that by (simp add: demo_sb_def)
  then show ?thesis using demo_used [of 0] by (auto simp: can_alloc_def bitmap_ok_def demo_blocks_def)
qed

theorem block_allocator_correct_witness:
  "\<exists>r t. balloc 1 (demo_fs demo_blocks []) = Ok r t \<and> r \<noteq> 0 \<and> bfree 1 48 (demo_fs demo_blocks []) = Panic ''freeing free block''"
proof -
  have "\<not> used demo_blocks demo_sb 48" "(48 :: block) < sb_size demo_sb" using demo_used [of 48] by (simp_all add: demo_sb_def)
  then show ?thesis
    using block_allocator_correct [OF demo_txn, of demo_blocks "[]", unfolded demo_sb_fs, OF demo_can_alloc] by fastforce
qed

end
