(* ===== verification/Contents.thy ===== *)
theory Contents
  imports Bitmap
begin

text \<open>
  The contents of files: the blocks of an inode, how \<open>bmap\<close> adds a block, and what \<open>readi\<close> and \<open>writei\<close> do
  to the bytes of the file they work on and to all other files.
\<close>

section \<open>Files on the disk\<close>

text \<open>The number of the \<open>k\<close>th block of a file, and of the block that holds the indirect numbers.\<close>

definition ind :: "inode \<Rightarrow> block" where
  "ind ip = i_addrs ip ! NDIRECT"

definition fblk :: "(block \<Rightarrow> byte list) \<Rightarrow> inode \<Rightarrow> nat \<Rightarrow> block" where
  "fblk V ip k = (if k < NDIRECT then i_addrs ip ! k
     else if ind ip = 0 then 0 else get32 (V (ind ip)) (4 * (k - NDIRECT)))"

definition fowns :: "(block \<Rightarrow> byte list) \<Rightarrow> inode \<Rightarrow> block set" where
  "fowns V ip = {b. b \<noteq> 0 \<and> (b = ind ip \<or> (\<exists>k < MAXFILE. b = fblk V ip k))}"

text \<open>A block in use that holds neither a part of the bitmap nor inodes.\<close>

definition data_block :: "(block \<Rightarrow> byte list) \<Rightarrow> superblock \<Rightarrow> block \<Rightarrow> bool" where
  "data_block V q b \<longleftrightarrow> b \<noteq> 0 \<and> b < sb_size q \<and> used V q b \<and> (\<forall>c < sb_size q. BBLOCK c q \<noteq> b) \<and>
     (\<forall>n < sb_ninodes q. IBLOCK n q \<noteq> b)"

definition fs_ok :: "(block \<Rightarrow> byte list) \<Rightarrow> superblock \<Rightarrow> bool" where
  "fs_ok V q \<longleftrightarrow> bitmap_ok V q \<and>
     (\<forall>n < sb_ninodes q. IBLOCK n q < sb_size q \<and> used V q (IBLOCK n q) \<and> (\<forall>c < sb_size q. BBLOCK c q \<noteq> IBLOCK n q))"

text \<open>The blocks of a file are data blocks, each in one place.\<close>

definition file_ok :: "(block \<Rightarrow> byte list) \<Rightarrow> superblock \<Rightarrow> inode \<Rightarrow> bool" where
  "file_ok V q ip \<longleftrightarrow> length (i_addrs ip) = NDIRECT + 1 \<and> (ind ip \<noteq> 0 \<longrightarrow> data_block V q (ind ip)) \<and>
     (\<forall>k < MAXFILE. fblk V ip k \<noteq> 0 \<longrightarrow> data_block V q (fblk V ip k) \<and> fblk V ip k \<noteq> ind ip \<and>
        (\<forall>j < MAXFILE. fblk V ip j = fblk V ip k \<longrightarrow> j = k))"

lemma fs_okD:
  assumes "fs_ok V q"
  shows "bitmap_ok V q" "length (V b) = BSIZE" "n < sb_ninodes q \<Longrightarrow> IBLOCK n q < sb_size q" "n < sb_ninodes q \<Longrightarrow> used V q (IBLOCK n q)"
    "n < sb_ninodes q \<Longrightarrow> c < sb_size q \<Longrightarrow> BBLOCK c q \<noteq> IBLOCK n q"
  using assms by (auto simp: fs_ok_def bitmap_ok_def)

lemma file_okD:
  assumes "file_ok V q ip"
  shows "length (i_addrs ip) = NDIRECT + 1" "ind ip \<noteq> 0 \<Longrightarrow> data_block V q (ind ip)"
    "k < MAXFILE \<Longrightarrow> fblk V ip k \<noteq> 0 \<Longrightarrow> data_block V q (fblk V ip k)"
    "k < MAXFILE \<Longrightarrow> fblk V ip k \<noteq> 0 \<Longrightarrow> fblk V ip k \<noteq> ind ip"
    "k < MAXFILE \<Longrightarrow> j < MAXFILE \<Longrightarrow> fblk V ip k \<noteq> 0 \<Longrightarrow> fblk V ip j = fblk V ip k \<Longrightarrow> j = k"
  using assms by (auto simp: file_ok_def)

lemma fowns_data: "file_ok V q ip \<Longrightarrow> b \<in> fowns V ip \<Longrightarrow> data_block V q b"
  by (auto simp: fowns_def dest: file_okD)

text \<open>A block from the allocator is a data block that no file has.\<close>

lemma alloc_data:
  assumes "fs_ok V q" "r < sb_size q" "\<not> used V q r" "r \<noteq> 0"
  shows "fs_ok (alloc q r V) q" "data_block (alloc q r V) q b \<longleftrightarrow> b = r \<or> data_block V q b" "\<not> data_block V q r"
    "data_block V q b \<Longrightarrow> alloc q r V b = V b" "n < sb_ninodes q \<Longrightarrow> alloc q r V (IBLOCK n q) = V (IBLOCK n q)"
proof -
  note D = fs_okD [OF assms(1)] and A = alloc_used [OF fs_okD(1) [OF assms(1)] assms(2,3)]
  have rB: "BBLOCK c q \<noteq> r" if "c < sb_size q" for c using D(1) assms(2,3) that by (auto simp: bitmap_ok_def)
  have rI: "IBLOCK n q \<noteq> r" if "n < sb_ninodes q" for n using D(4) [OF that] assms(3) by auto
  show "fs_ok (alloc q r V) q" using A(1,2) D by (auto simp: fs_ok_def)
  show "data_block (alloc q r V) q b \<longleftrightarrow> b = r \<or> data_block V q b"
    using A(1) rB rI assms(2,4) by (auto simp: data_block_def)
  show "\<not> data_block V q r" using assms(3) by (simp add: data_block_def)
  show "data_block V q b \<Longrightarrow> alloc q r V b = V b" using A(4) [of b] assms(2,3) by (auto simp: data_block_def)
  show "n < sb_ninodes q \<Longrightarrow> alloc q r V (IBLOCK n q) = V (IBLOCK n q)" using A(4) [of "IBLOCK n q"] rI D(5) assms(2) by metis
qed

section \<open>Adding blocks to a file\<close>

text \<open>What a file keeps when it gets new blocks: its blocks, other data, inodes on disk. New blocks are
  zero and were not data blocks before.\<close>

definition ext :: "superblock \<Rightarrow> (block \<Rightarrow> byte list) \<Rightarrow> inode \<Rightarrow> (block \<Rightarrow> byte list) \<Rightarrow> inode \<Rightarrow> bool" where
  "ext q V ip V' ip' \<longleftrightarrow> fs_ok V' q \<and> file_ok V' q ip' \<and> ip' = ip\<lparr>i_addrs := i_addrs ip'\<rparr> \<and>
     (\<forall>j < MAXFILE. fblk V ip j \<noteq> 0 \<longrightarrow> fblk V' ip' j = fblk V ip j) \<and>
     (\<forall>j < MAXFILE. fblk V ip j = 0 \<longrightarrow> fblk V' ip' j \<noteq> 0 \<longrightarrow> V' (fblk V' ip' j) = replicate BSIZE 0) \<and>
     (\<forall>b. data_block V q b \<longrightarrow> data_block V' q b \<and> (b \<noteq> ind ip \<longrightarrow> V' b = V b)) \<and>
     (\<forall>b \<in> fowns V' ip'. b \<in> fowns V ip \<or> \<not> data_block V q b) \<and>
     (\<forall>n < sb_ninodes q. V' (IBLOCK n q) = V (IBLOCK n q))"

lemma extD:
  assumes "ext q V ip V' ip'"
  shows "fs_ok V' q" "file_ok V' q ip'" "ip' = ip\<lparr>i_addrs := i_addrs ip'\<rparr>"
    "j < MAXFILE \<Longrightarrow> fblk V ip j \<noteq> 0 \<Longrightarrow> fblk V' ip' j = fblk V ip j"
    "j < MAXFILE \<Longrightarrow> fblk V ip j = 0 \<Longrightarrow> fblk V' ip' j \<noteq> 0 \<Longrightarrow> V' (fblk V' ip' j) = replicate BSIZE 0"
    "data_block V q b \<Longrightarrow> data_block V' q b" "data_block V q b \<Longrightarrow> b \<noteq> ind ip \<Longrightarrow> V' b = V b"
    "b \<in> fowns V' ip' \<Longrightarrow> b \<in> fowns V ip \<or> \<not> data_block V q b"
    "n < sb_ninodes q \<Longrightarrow> V' (IBLOCK n q) = V (IBLOCK n q)"
  using assms unfolding ext_def by blast+

lemma ext_refl: "fs_ok V q \<Longrightarrow> file_ok V q ip \<Longrightarrow> ext q V ip V ip"
  by (simp add: ext_def)

lemma ext_trans:
  assumes "file_ok V q ip" "ext q V ip V1 ip1" "ext q V1 ip1 V2 ip2"
  shows "ext q V ip V2 ip2"
proof -
  note a = extD [OF assms(2)] and b = extD [OF assms(3)] and f = file_okD [OF assms(1)] and f1 = file_okD [OF a(2)]
  have i: "ip2 = ip\<lparr>i_addrs := i_addrs ip2\<rparr>" by (subst b(3), subst a(3)) simp
  have new: "c \<noteq> ind ip1" if c: "data_block V q c" "c \<noteq> ind ip" for c
  proof
    assume e: "c = ind ip1"
    have "c \<in> fowns V1 ip1" using e c(1) by (auto simp: fowns_def data_block_def)
    then obtain k where k: "k < MAXFILE" "c = fblk V ip k" using a(8) c by (auto simp: fowns_def)
    then have "fblk V1 ip1 k = c" using a(4) c(1) by (auto simp: data_block_def)
    then show False using f1(4) [OF k(1)] e c(1) by (auto simp: data_block_def)
  qed
  have "fblk V2 ip2 j = fblk V ip j" if "j < MAXFILE" "fblk V ip j \<noteq> 0" for j
    using a(4) b(4) that by simp
  moreover have "V2 (fblk V2 ip2 j) = replicate BSIZE 0" if j: "j < MAXFILE" "fblk V ip j = 0" "fblk V2 ip2 j \<noteq> 0" for j
  proof (cases "fblk V1 ip1 j = 0")
    case True
    then show ?thesis using b(5) j by simp
  next
    case False
    then show ?thesis using a(5) b(4,7) f1(3,4) j by simp
  qed
  moreover have "data_block V2 q c \<and> (c \<noteq> ind ip \<longrightarrow> V2 c = V c)" if "data_block V q c" for c
    using a(6,7) b(6,7) new that by metis
  moreover have "c \<in> fowns V ip \<or> \<not> data_block V q c" if "c \<in> fowns V2 ip2" for c
    using a(6,8) b(8) that by blast
  moreover have "V2 (IBLOCK n q) = V (IBLOCK n q)" if "n < sb_ninodes q" for n using a(9) b(9) that by simp
  ultimately show ?thesis using b(1,2) i unfolding ext_def by blast
qed

lemma NDM: "NDIRECT < MAXFILE" "NDIRECT = 12" "NINDIRECT = 256" "MAXFILE = 268"
  by (simp_all add: MAXFILE_def NDIRECT_def NINDIRECT_def BSIZE_def)

lemma get32_zero: "off + 4 \<le> BSIZE \<Longrightarrow> get32 (replicate BSIZE 0) off = 0"
  by (simp add: get32_def sub_def drop_replicate take_replicate min_def numeral_eq_Suc)

text \<open>A direct block.\<close>

lemma ext_direct:
  assumes "fs_ok V q" "file_ok V q ip" "r < sb_size q" "\<not> used V q r" "r \<noteq> 0" "k < NDIRECT" "fblk V ip k = 0"
  defines "ip' \<equiv> ip\<lparr>i_addrs := (i_addrs ip)[k := r]\<rparr>"
  shows "ext q V ip (alloc q r V) ip'" "fblk (alloc q r V) ip' k = r"
proof -
  let ?V = "alloc q r V"
  note A = alloc_data [OF assms(1,3-5)] and f = file_okD [OF assms(2)]
  have i: "ind ip' = ind ip" using assms(6) by (simp add: ip'_def ind_def)
  have b: "fblk ?V ip' j = (if j = k then r else fblk V ip j)" for j
    using assms(6) f(1,2) A(4) i by (auto simp: fblk_def ip'_def)
  then show "fblk ?V ip' k = r" by simp
  have z: "?V r = replicate BSIZE 0" using alloc_used(3) [OF fs_okD(1) [OF assms(1)] assms(3,4)] .
  have nr: "\<forall>j < MAXFILE. fblk V ip j \<noteq> r" "ind ip \<noteq> r" using f(2,3) A(3) assms(5) by metis+
  have "length (i_addrs ip') = NDIRECT + 1" using f(1) by (simp add: ip'_def)
  then have "file_ok ?V q ip'"
    unfolding file_ok_def i b using f(2-5) A(2) nr by (simp split: if_splits) metis
  moreover have "c \<in> fowns V ip \<or> \<not> data_block V q c" if "c \<in> fowns ?V ip'" for c
    using that A(3) unfolding fowns_def i b by (auto split: if_splits)
  ultimately show "ext q V ip ?V ip'" unfolding ext_def b using A(1,2,4,5) z assms(7) by (auto simp: ip'_def)
qed

text \<open>The indirect block itself.\<close>

lemma ext_indirect:
  assumes "fs_ok V q" "file_ok V q ip" "r < sb_size q" "\<not> used V q r" "r \<noteq> 0" "ind ip = 0"
  defines "ip' \<equiv> ip\<lparr>i_addrs := (i_addrs ip)[NDIRECT := r]\<rparr>"
  shows "ext q V ip (alloc q r V) ip'" "j < MAXFILE \<Longrightarrow> fblk (alloc q r V) ip' j = fblk V ip j" "ind ip' = r"
proof -
  let ?V = "alloc q r V"
  note A = alloc_data [OF assms(1,3-5)] and f = file_okD [OF assms(2)]
  show i: "ind ip' = r" using f(1) by (simp add: ip'_def ind_def)
  have z: "?V r = replicate BSIZE 0" using alloc_used(3) [OF fs_okD(1) [OF assms(1)] assms(3,4)] .
  have b: "fblk ?V ip' j = fblk V ip j" if "j < MAXFILE" for j
  proof (cases "j < NDIRECT")
    case False
    then have "4 * (j - NDIRECT) + 4 \<le> BSIZE" using that NDM by (simp add: BSIZE_def)
    then show ?thesis using False assms(5,6) z by (simp add: fblk_def i get32_zero)
  qed (simp add: fblk_def ip'_def)
  then show "j < MAXFILE \<Longrightarrow> fblk ?V ip' j = fblk V ip j" .
  have "fblk V ip j \<noteq> r" if "j < MAXFILE" for j using f(3) A(3) assms(5) that by metis
  then have "file_ok ?V q ip'" unfolding file_ok_def i using b f A(2) by (simp add: ip'_def)
  moreover have "c \<in> fowns V ip \<or> \<not> data_block V q c" if "c \<in> fowns ?V ip'" for c
    using that A(3) b unfolding fowns_def i by auto
  ultimately show "ext q V ip ?V ip'" unfolding ext_def using A(1,2,4,5) b assms(6) by (auto simp: ip'_def)
qed

text \<open>A block that the indirect block names.\<close>

lemma ext_entry:
  assumes "fs_ok V q" "file_ok V q ip" "r < sb_size q" "\<not> used V q r" "r \<noteq> 0" "ind ip \<noteq> 0" "n < NINDIRECT" "fblk V ip (NDIRECT + n) = 0"
  defines "V' \<equiv> (alloc q r V)(ind ip := put32 (alloc q r V (ind ip)) (4 * n) r)"
  shows "ext q V ip V' ip" "fblk V' ip (NDIRECT + n) = r"
proof -
  let ?W = "alloc q r V"
  note A = alloc_data [OF assms(1,3-5)] and f = file_okD [OF assms(2)]
  have d: "data_block V q (ind ip)" using f(2) assms(6) .
  then have w: "?W (ind ip) = V (ind ip)" "ind ip \<noteq> r" using A(3,4) by auto
  have len: "length (V c) = BSIZE" for c using fs_okD(2) [OF assms(1)] .
  have n4: "4 * n + 4 \<le> BSIZE" using assms(7) NDM by (simp add: BSIZE_def)
  have b: "fblk V' ip j = (if j = NDIRECT + n then r else fblk V ip j)" if j: "j < MAXFILE" for j
  proof (cases "j < NDIRECT")
    case False
    then obtain m where m: "j = NDIRECT + m" "m < NINDIRECT" using j by (metis MAXFILE_def le_add_diff_inverse nat_add_left_cancel_less not_less)
    have "4 * m + 4 \<le> BSIZE" using m(2) NDM by (simp add: BSIZE_def)
    then have "get32 (put32 (V (ind ip)) (4 * n) r) (4 * m) = (if m = n then r else get32 (V (ind ip)) (4 * m))"
      using len n4 by (cases m n rule: linorder_cases) (simp_all add: get_put32_other)
    then show ?thesis using assms(6) m w by (simp add: fblk_def V'_def)
  qed (simp add: fblk_def)
  then show "fblk V' ip (NDIRECT + n) = r" using assms(7) by (simp add: MAXFILE_def)
  have u: "used V' q c = used ?W q c" if "c < sb_size q" for c
    using d that by (auto simp: used_def V'_def data_block_def)
  have oth: "V' c = ?W c" if "c \<noteq> ind ip" for c using that by (simp add: V'_def)
  have "length (V' c) = BSIZE" for c using fs_okD(2) [OF A(1)] n4 w len by (cases "c = ind ip") (auto simp: V'_def)
  moreover have "0 < sb_size q" using assms(3) by (metis word_gt_0 not_less_iff_gr_or_eq word_zero_le not_le)
  ultimately have fs: "fs_ok V' q" using u A(1) by (auto simp: fs_ok_def bitmap_ok_def)
  have db: "data_block V' q c \<longleftrightarrow> c = r \<or> data_block V q c" for c using A(2) [of c] u by (auto simp: data_block_def)
  have z: "?W r = replicate BSIZE 0" using alloc_used(3) [OF fs_okD(1) [OF assms(1)] assms(3,4)] .
  have nr: "fblk V ip j \<noteq> r" if "j < MAXFILE" for j using f(3) A(3) assms(5) that by metis
  have fo: "file_ok V' q ip" using f b db nr w(2) assms(5) by (simp add: file_ok_def) metis
  have "c \<in> fowns V ip \<or> \<not> data_block V q c" if "c \<in> fowns V' ip" for c
    using that A(3) b unfolding fowns_def by (auto split: if_splits)
  moreover have "V' (IBLOCK m q) = V (IBLOCK m q)" if m: "m < sb_ninodes q" for m
    using oth [of "IBLOCK m q"] A(5) [OF m] d m by (auto simp: data_block_def)
  moreover have "data_block V q c \<longrightarrow> data_block V' q c \<and> (c \<noteq> ind ip \<longrightarrow> V' c = V c)" for c using db oth A(4) by simp
  moreover have "V' (fblk V' ip j) = replicate BSIZE 0" if "j < MAXFILE" "fblk V ip j = 0" "fblk V' ip j \<noteq> 0" for j
    using that b z oth [OF w(2) [symmetric]] by (auto split: if_splits)
  moreover have "fblk V' ip j = fblk V ip j" if "j < MAXFILE" "fblk V ip j \<noteq> 0" for j using that b assms(8) by auto
  ultimately show "ext q V ip V' ip" unfolding ext_def using fs fo by simp
qed

section \<open>The operation\<close>

text \<open>A change of the state that, above the log, only replaces one inode in memory.\<close>

definition only_inode :: "nat \<Rightarrow> inode \<Rightarrow> 'a fstate_scheme \<Rightarrow> 'a fstate_scheme \<Rightarrow> bool" where
  "only_inode i ip' s t \<longleftrightarrow> sb t = sb s \<and> itable t = (itable s)[i := ip'] \<and> fstate.more t = fstate.more s"

lemma keep_only_inode: "keep d s t \<Longrightarrow> only_inode i (itable s ! i) s t"
  using fs_fields [of t s] by (simp add: keep_def only_inode_def)

lemma upd_only_inode: "only_inode i (f (itable s ! i)) s (upd_inode i f s)"
  by (simp add: only_inode_def upd_inode_def)

lemma only_inode_trans: "only_inode i ip s t \<Longrightarrow> only_inode i ip' t u \<Longrightarrow> only_inode i ip' s u"
  by (simp add: only_inode_def)

lemma txn_upd_inode [simp]: "txn d (upd_inode i f s) V L H = txn d s V L H"
  by (rule txn_cong) (simp add: upd_inode_def lstate.defs)

lemma bholds_upd_inode [simp]: "bholds d (upd_inode i f s) = bholds d s"
  by (rule cache_cong) (simp add: upd_inode_def bstate.defs)

lemma balloc_data:
  fixes s :: "'a fstate_scheme"
  assumes "txn d s V L H" "fs_ok V (sb s)" "card (L \<union> H) < 29" "\<forall>b \<in> H. data_block V (sb s) b"
  shows "\<exists>r t. balloc d s = Ok r t \<and> keep d s t \<and>
    (r = 0 \<and> txn d t V L H \<and> (\<forall>b < sb_size (sb s). used V (sb s) b) \<or>
     r \<noteq> 0 \<and> r < sb_size (sb s) \<and> \<not> used V (sb s) r \<and> txn d t (alloc (sb s) r V) (L \<union> {BBLOCK r (sb s), r}) H)"
  using assms by (intro balloc_spec) (auto simp: can_alloc_def fs_ok_def data_block_def)

lemma card_two: "card (L \<union> {a, b}) \<le> card L + 2"
  by (rule order_trans [OF card_Un_le]) (simp add: card_insert_if)

text \<open>The result of a step that may add blocks to the file of inode \<open>i\<close>, logging at most \<open>n\<close> more blocks.\<close>

definition adds :: "32 word \<Rightarrow> nat \<Rightarrow> nat \<Rightarrow> 'a fstate_scheme \<Rightarrow> (block \<Rightarrow> byte list) \<Rightarrow> block set \<Rightarrow>
    'a fstate_scheme \<Rightarrow> (block \<Rightarrow> byte list) \<Rightarrow> block set \<Rightarrow> inode \<Rightarrow> bool" where
  "adds d i n s V L t V' L' ip' \<longleftrightarrow> txn d t V' L' {} \<and> only_inode i ip' s t \<and> ext (sb s) V (itable s ! i) V' ip' \<and>
     card L' \<le> card L + n"

lemma txn_keep_empty: "txn d s V L {} \<Longrightarrow> \<not> bholds d s h b"
  using lb.held [of d s V L "{}" h b] by blast

lemma adds_none:
  assumes "txn d t V L {}" "keep d s t" "fs_ok V (sb s)" "file_ok V (sb s) (itable s ! i)"
  shows "adds d i n s V L t V L (itable s ! i)"
  using assms ext_refl keep_only_inode by (simp add: adds_def)

lemma bmap_direct:
  fixes s :: "'a fstate_scheme"
  assumes "txn d s V L {}" "fs_ok V (sb s)" "i_dev (itable s ! i) = d" "file_ok V (sb s) (itable s ! i)" "unat bn < NDIRECT" "card L < 29"
  shows "\<exists>t V' L' ip'. bmap i bn s = Ok (fblk V' ip' (unat bn)) t \<and> adds d i 2 s V L t V' L' ip' \<and>
    (fblk V (itable s ! i) (unat bn) \<noteq> 0 \<longrightarrow> V' = V \<and> ip' = itable s ! i \<and> L' = L) \<and>
    (fblk V' ip' (unat bn) = 0 \<longrightarrow> (\<forall>b < sb_size (sb s). used V' (sb s) b))"
proof -
  let ?q = "sb s" and ?ip = "itable s ! i" and ?k = "unat bn"
  note none = adds_none [OF _ _ assms(2,4)]
  show ?thesis
  proof (cases "fblk V ?ip ?k = 0")
    case False
    then have "bmap i bn s = Ok (fblk V ?ip ?k) s" using assms(5) by (simp add: bmap_def fblk_def inode_at_def Let_def)
    then show ?thesis using none [OF assms(1) keep_refl] False by blast
  next
    case z: True
    obtain r t where r: "balloc d s = Ok r t" "keep d s t" "r = 0 \<and> txn d t V L {} \<and> (\<forall>b < sb_size ?q. used V ?q b) \<or>
        r \<noteq> 0 \<and> r < sb_size ?q \<and> \<not> used V ?q r \<and> txn d t (alloc ?q r V) (L \<union> {BBLOCK r ?q, r}) {}"
      using balloc_data [OF assms(1,2)] assms(6) by auto
    show ?thesis
    proof (cases "r = 0")
      case True
      then have "bmap i bn s = Ok (fblk V ?ip ?k) t" using r(1) z assms(3,5) by (simp add: bmap_def fblk_def inode_at_def Let_def)
      then show ?thesis using none [OF _ r(2)] r(3) True by blast
    next
      case False
      let ?f = "\<lambda>ip. ip\<lparr>i_addrs := (i_addrs ip)[?k := r]\<rparr>"
      have e: "ext ?q V ?ip (alloc ?q r V) (?f ?ip)" "fblk (alloc ?q r V) (?f ?ip) ?k = r"
        using ext_direct [OF assms(2,4) _ _ False assms(5) z] r(3) False by auto
      have "bmap i bn s = Ok r (upd_inode i ?f t)" using r(1) z assms(3,5) False by (simp add: bmap_def fblk_def inode_at_def Let_def)
      moreover have "only_inode i (?f ?ip) s (upd_inode i ?f t)"
        using only_inode_trans [OF keep_only_inode [OF r(2)] upd_only_inode [of i ?f t]] keep_sb [OF r(2)] by simp
      ultimately show ?thesis using e r(3) False card_two [of L "BBLOCK r ?q" r] z
        by (intro exI [of _ "upd_inode i ?f t"] exI [of _ "alloc ?q r V"] exI [of _ "L \<union> {BBLOCK r ?q, r}"] exI [of _ "?f ?ip"])
          (simp add: adds_def)
    qed
  qed
qed

text \<open>The first half of the other case: the indirect block is there or is allocated.\<close>

definition bmap_ind :: "nat \<Rightarrow> 'a fstate_scheme \<Rightarrow> ('a fstate_scheme, 32 word) res" where
  "bmap_ind i s = (let addr = i_addrs (inode_at i s) ! NDIRECT in
     if addr = 0
     then bindr (balloc (i_dev (inode_at i s)) s) (\<lambda>addr s.
          if addr = 0 then Ok 0 s
          else Ok addr (upd_inode i (\<lambda>ip. ip\<lparr>i_addrs := (i_addrs ip)[NDIRECT := addr]\<rparr>) s))
     else Ok addr s)"

lemma bmap_ind_spec:
  fixes s :: "'a fstate_scheme"
  assumes "txn d s V L {}" "fs_ok V (sb s)" "i_dev (itable s ! i) = d" "file_ok V (sb s) (itable s ! i)" "card L < 29"
  shows "\<exists>t V' L' ip'. bmap_ind i s = Ok (ind ip') t \<and> adds d i 2 s V L t V' L' ip' \<and>
    (\<forall>j < MAXFILE. fblk V' ip' j = fblk V (itable s ! i) j) \<and>
    (ind (itable s ! i) \<noteq> 0 \<longrightarrow> V' = V \<and> ip' = itable s ! i \<and> L' = L) \<and>
    (ind ip' = 0 \<longrightarrow> (\<forall>b < sb_size (sb s). used V' (sb s) b))"
proof -
  let ?q = "sb s" and ?ip = "itable s ! i"
  note none = adds_none [OF _ _ assms(2,4)]
  show ?thesis
  proof (cases "ind ?ip = 0")
    case False
    then have "bmap_ind i s = Ok (ind ?ip) s" by (simp add: bmap_ind_def ind_def inode_at_def Let_def)
    then show ?thesis using none [OF assms(1) keep_refl] False by blast
  next
    case z: True
    obtain r t where r: "balloc d s = Ok r t" "keep d s t" "r = 0 \<and> txn d t V L {} \<and> (\<forall>b < sb_size ?q. used V ?q b) \<or>
        r \<noteq> 0 \<and> r < sb_size ?q \<and> \<not> used V ?q r \<and> txn d t (alloc ?q r V) (L \<union> {BBLOCK r ?q, r}) {}"
      using balloc_data [OF assms(1,2)] assms(5) by auto
    show ?thesis
    proof (cases "r = 0")
      case True
      then have "bmap_ind i s = Ok (ind ?ip) t" using r(1) z assms(3) by (simp add: bmap_ind_def ind_def inode_at_def Let_def)
      then show ?thesis using none [OF _ r(2)] r(3) True by blast
    next
      case False
      let ?f = "\<lambda>ip. ip\<lparr>i_addrs := (i_addrs ip)[NDIRECT := r]\<rparr>"
      have e: "ext ?q V ?ip (alloc ?q r V) (?f ?ip)" "\<forall>j < MAXFILE. fblk (alloc ?q r V) (?f ?ip) j = fblk V ?ip j" "ind (?f ?ip) = r"
        using ext_indirect [OF assms(2,4) _ _ False z] r(3) False by auto
      have "bmap_ind i s = Ok r (upd_inode i ?f t)" using r(1) z assms(3) False by (simp add: bmap_ind_def ind_def inode_at_def Let_def)
      moreover have "only_inode i (?f ?ip) s (upd_inode i ?f t)"
        using only_inode_trans [OF keep_only_inode [OF r(2)] upd_only_inode [of i ?f t]] keep_sb [OF r(2)] by simp
      ultimately show ?thesis using e r(3) False card_two [of L "BBLOCK r ?q" r] z
        by (intro exI [of _ "upd_inode i ?f t"] exI [of _ "alloc ?q r V"] exI [of _ "L \<union> {BBLOCK r ?q, r}"] exI [of _ "?f ?ip"])
          (simp add: adds_def)
    qed
  qed
qed

definition bmap_entry :: "nat \<Rightarrow> 32 word \<Rightarrow> nat \<Rightarrow> 'a fstate_scheme \<Rightarrow> ('a fstate_scheme, 32 word) res" where
  "bmap_entry i addr bn s = bindr (bread (i_dev (inode_at i s)) addr s) (\<lambda>bp s.
     let addr = get32 (bdata bp s) (4 * bn) in
     bindr
       (if addr = 0
        then bindr (balloc (i_dev (inode_at i s)) s) (\<lambda>addr s.
             if addr \<noteq> 0
             then bindr (log_write bp (set_bdata bp (put32 (bdata bp s) (4 * bn) addr) s)) (\<lambda>_ s. Ok addr s)
             else Ok addr s)
        else Ok addr s) (\<lambda>addr s.
     bindr (brelse bp s) (\<lambda>_ s. Ok addr s)))"

lemma bmap_halves:
  assumes "\<not> unat bn < NDIRECT" "unat bn < MAXFILE"
  shows "bmap i bn s = bindr (bmap_ind i s) (\<lambda>addr s. if addr = 0 then Ok 0 s else bmap_entry i addr (unat bn - NDIRECT) s)"
proof -
  have n: "unat bn - NDIRECT < NINDIRECT" using assms by (simp add: MAXFILE_def)
  show ?thesis unfolding bmap_def bmap_ind_def bmap_entry_def Let_def by (simp only: assms(1) n if_True if_False)
qed

lemma keep_rel:
  assumes "txn d s V L H" "bholds d s h b"
  shows "\<exists>t. brelse h s = Ok () t \<and> txn d t V L (H - {b}) \<and> lstate.more t = lstate.more s"
  using lb.rel [OF assms] by blast

lemma bmap_entry_spec:
  fixes s :: "'a fstate_scheme" and i :: nat
  defines "ip \<equiv> itable s ! i"
  assumes "txn d s V L {}" "fs_ok V (sb s)" "i_dev ip = d" "file_ok V (sb s) ip" "ind ip \<noteq> 0" "n < NINDIRECT" "card L < 28"
  shows "\<exists>t V' L'. bmap_entry i (ind ip) n s = Ok (fblk V' ip (NDIRECT + n)) t \<and> adds d i 3 s V L t V' L' ip \<and>
    (fblk V ip (NDIRECT + n) \<noteq> 0 \<longrightarrow> V' = V \<and> L' = L) \<and>
    (fblk V' ip (NDIRECT + n) = 0 \<longrightarrow> (\<forall>b < sb_size (sb s). used V' (sb s) b))"
proof -
  let ?q = "sb s" and ?b = "fblk V ip (NDIRECT + n)"
  have fin: "finite L" using txnD(15) [OF assms(2)] .
  have dev: "i_dev (inode_at i t) = d" if "keep d s t" for t using keep_sb [OF that] assms(1,4) by (simp add: inode_at_def)
  obtain h t u where t: "bread d (ind ip) s = Ok h t" "bdata h t = V (ind ip)" "keep d s t" "txn d t V L {ind ip}" "bholds d t h (ind ip)"
      "brelse h t = Ok () u" "txn d u V L {}" "keep d s u"
    using bread_txn [OF assms(2), of "ind ip"] assms(8) by auto
  have b: "get32 (V (ind ip)) (4 * n) = ?b" using assms(6) by (simp add: fblk_def)
  note none = adds_none [OF _ _ assms(3) assms(5) [unfolded ip_def], folded ip_def]
  show ?thesis
  proof (cases "?b = 0")
    case False
    then have "bmap_entry i (ind ip) n s = Ok ?b u" using t(1,2,6) b dev [OF keep_refl] by (simp add: bmap_entry_def Let_def)
    then show ?thesis using none [OF t(7,8)] False by blast
  next
    case z: True
    have q: "sb t = ?q" using keep_sb [OF t(3)] by simp
    have "card (L \<union> {ind ip}) < 29" using assms(8) fin by (simp add: card_insert_if)
    moreover have "data_block V ?q (ind ip)" using file_okD(2) [OF assms(5,6)] .
    ultimately obtain r x where r: "balloc d t = Ok r x" "keep d t x" "r = 0 \<and> txn d x V L {ind ip} \<and> (\<forall>b < sb_size ?q. used V ?q b) \<or>
        r \<noteq> 0 \<and> r < sb_size ?q \<and> \<not> used V ?q r \<and> txn d x (alloc ?q r V) (L \<union> {BBLOCK r ?q, r}) {ind ip}"
      using balloc_data [OF t(4)] assms(3) unfolding q by auto
    have sx: "keep d s x" using keep_trans [OF t(3) r(2)] .
    have hx: "bholds d x h (ind ip)" using t(5) r(2) by (simp add: keep_def)
    show ?thesis
    proof (cases "r = 0")
      case True
      then have fx: "txn d x V L {ind ip}" "\<forall>b < sb_size ?q. used V ?q b" using r(3) by auto
      obtain y where y: "brelse h x = Ok () y" "txn d y V L {}" "lstate.more y = lstate.more x" using keep_rel [OF fx(1) hx] by auto
      have "keep d s y" using txn_keep_empty [OF assms(2)] y(3) sx by (auto simp: keep_def)
      moreover have "bmap_entry i (ind ip) n s = Ok ?b y"
        using t(1,2) b z dev [OF keep_refl] dev [OF t(3)] r(1) True y(1) by (simp add: bmap_entry_def Let_def)
      ultimately show ?thesis using none [OF y(2)] fx(2) z by blast
    next
      case False
      let ?W = "alloc ?q r V" and ?L = "L \<union> {BBLOCK r ?q, r}"
      let ?V = "?W(ind ip := put32 (?W (ind ip)) (4 * n) r)"
      have fr: "r < sb_size ?q" "\<not> used V ?q r" "txn d x ?W ?L {ind ip}" using r(3) False by auto
      note e = ext_entry [OF assms(3,5) fr(1,2) False assms(6,7) z]
      have cl: "card ?L \<le> card L + 2" by (rule card_two)
      have dx: "bdata h x = ?W (ind ip)" using lb.getd [OF fr(3) hx] .
      obtain y where y: "log_write h (set_bdata h (put32 (?W (ind ip)) (4 * n) r) x) = Ok () y" "txn d y ?V (insert (ind ip) ?L) {ind ip}"
          "lstate.more y = lstate.more x" "bholds d y h (ind ip)"
        using lb.logw [OF fr(3) hx, of "put32 (?W (ind ip)) (4 * n) r"] cl assms(8) hx by auto
      obtain z' where z': "brelse h y = Ok () z'" "txn d z' ?V (insert (ind ip) ?L) {}" "lstate.more z' = lstate.more y"
        using keep_rel [OF y(2,4)] by auto
      have "bmap_entry i (ind ip) n s = Ok r z'"
        using t(1,2) b z dev [OF keep_refl] dev [OF t(3)] r(1) False y(1) z'(1) dx by (simp add: bmap_entry_def Let_def)
      moreover have "only_inode i ip s z'"
        using fs_fields [of z' s] z'(3) y(3) sx by (simp add: only_inode_def keep_def ip_def)
      moreover have "card (insert (ind ip) ?L) \<le> card L + 3" using cl fin by (simp add: card_insert_if)
      ultimately show ?thesis using e False z'(2) z unfolding adds_def ip_def [symmetric]
        by (intro exI [of _ z'] exI [of _ ?V] exI [of _ "insert (ind ip) ?L"]) simp
    qed
  qed
qed

lemma adds_trans:
  assumes "adds d i n s V L t V1 L1 ip1" "adds d i m t V1 L1 u V2 L2 ip2" "file_ok V (sb s) (itable s ! i)" "i < length (itable s)"
  shows "adds d i (n + m) s V L u V2 L2 ip2"
proof -
  have f: "sb t = sb s" "itable t ! i = ip1" using assms(1,4) by (simp_all add: adds_def only_inode_def)
  show ?thesis
    using assms(1,2) ext_trans [OF assms(3)] only_inode_trans [of i ip1 s t ip2 u] f by (auto simp: adds_def)
qed

lemma adds_mono: "adds d i n s V L t V' L' ip' \<Longrightarrow> n \<le> m \<Longrightarrow> adds d i m s V L t V' L' ip'"
  by (simp add: adds_def)

lemma bmap_spec:
  fixes s :: "'a fstate_scheme"
  assumes "txn d s V L {}" "fs_ok V (sb s)" "i < length (itable s)" "i_dev (itable s ! i) = d" "file_ok V (sb s) (itable s ! i)"
    "unat bn < MAXFILE" "card L < 26"
  shows "\<exists>t V' L' ip'. bmap i bn s = Ok (fblk V' ip' (unat bn)) t \<and> adds d i 5 s V L t V' L' ip' \<and>
    (fblk V (itable s ! i) (unat bn) \<noteq> 0 \<longrightarrow> V' = V \<and> ip' = itable s ! i \<and> L' = L) \<and>
    (fblk V' ip' (unat bn) = 0 \<longrightarrow> (\<forall>b < sb_size (sb s). used V' (sb s) b))"
proof (cases "unat bn < NDIRECT")
  case True
  have "card L < 29" using assms(7) by simp
  from bmap_direct [OF assms(1,2,4,5) True this]
  obtain t V' L' ip' where "bmap i bn s = Ok (fblk V' ip' (unat bn)) t" "adds d i 2 s V L t V' L' ip'"
      "fblk V (itable s ! i) (unat bn) \<noteq> 0 \<longrightarrow> V' = V \<and> ip' = itable s ! i \<and> L' = L"
      "fblk V' ip' (unat bn) = 0 \<longrightarrow> (\<forall>b < sb_size (sb s). used V' (sb s) b)" by blast
  moreover from this(2) have "adds d i 5 s V L t V' L' ip'" by (rule adds_mono) simp
  ultimately show ?thesis by blast
next
  case False
  let ?ip = "itable s ! i" and ?n = "unat bn - NDIRECT"
  have n: "?n < NINDIRECT" "NDIRECT + ?n = unat bn" using False assms(6) by (simp_all add: MAXFILE_def)
  have "card L < 29" using assms(7) by simp
  then obtain t V1 L1 ip1 where t: "bmap_ind i s = Ok (ind ip1) t" "adds d i 2 s V L t V1 L1 ip1"
      "\<forall>j < MAXFILE. fblk V1 ip1 j = fblk V ?ip j" "ind ?ip \<noteq> 0 \<longrightarrow> V1 = V \<and> ip1 = ?ip \<and> L1 = L"
      "ind ip1 = 0 \<longrightarrow> (\<forall>b < sb_size (sb s). used V1 (sb s) b)"
    using bmap_ind_spec [OF assms(1,2,4,5)] by blast
  have f: "txn d t V1 L1 {}" "sb t = sb s" "itable t ! i = ip1" "ext (sb s) V ?ip V1 ip1" "card L1 \<le> card L + 2" "i < length (itable t)"
    using t(2) assms(3) by (simp_all add: adds_def only_inode_def)
  note e = extD [OF f(4)]
  have same: "ind ?ip \<noteq> 0" if "fblk V ?ip (unat bn) \<noteq> 0" using that False by (auto simp: fblk_def)
  show ?thesis
  proof (cases "ind ip1 = 0")
    case True
    then have z: "fblk V1 ip1 (unat bn) = 0" using False by (simp add: fblk_def)
    then have "bmap i bn s = Ok (fblk V1 ip1 (unat bn)) t" using t(1) True False by (simp add: bmap_halves assms(6))
    then show ?thesis using adds_mono [OF t(2), of 5] t(3,5) True z assms(6)
      by (intro exI [of _ t] exI [of _ V1] exI [of _ L1] exI [of _ ip1]) simp
  next
    case nz: False
    have dev: "i_dev ip1 = d" using e(3) assms(4) by (metis inode.select_convs(1) inode.surjective inode.update_convs(11))
    have "card L1 < 28" using f(5) assms(7) by simp
    then obtain u V2 L2 where u: "bmap_entry i (ind ip1) ?n t = Ok (fblk V2 ip1 (unat bn)) u" "adds d i 3 t V1 L1 u V2 L2 ip1"
        "fblk V1 ip1 (unat bn) \<noteq> 0 \<longrightarrow> V2 = V1 \<and> L2 = L1" "fblk V2 ip1 (unat bn) = 0 \<longrightarrow> (\<forall>b < sb_size (sb s). used V2 (sb s) b)"
      using bmap_entry_spec [OF f(1), of i ?n] e(1,2) nz n dev unfolding f(2,3) by (metis n(2))
    have "bmap i bn s = Ok (fblk V2 ip1 (unat bn)) u" using t(1) nz u(1) False by (simp add: bmap_halves assms(6))
    moreover have "adds d i 5 s V L u V2 L2 ip1" using adds_trans [OF t(2) u(2) assms(5,3)] by simp
    moreover have "fblk V ?ip (unat bn) \<noteq> 0 \<longrightarrow> V2 = V \<and> ip1 = ?ip \<and> L2 = L" using same t(3,4) u(3) assms(6) by metis
    ultimately show ?thesis using u(4) by blast
  qed
qed

section \<open>Reading\<close>

definition fbyte :: "(block \<Rightarrow> byte list) \<Rightarrow> inode \<Rightarrow> nat \<Rightarrow> byte" where
  "fbyte V ip j = V (fblk V ip (j div BSIZE)) ! (j mod BSIZE)"

text \<open>The first \<open>n\<close> bytes are in allocated blocks.\<close>

definition has_bytes :: "(block \<Rightarrow> byte list) \<Rightarrow> inode \<Rightarrow> nat \<Rightarrow> bool" where
  "has_bytes V ip n \<longleftrightarrow> n \<le> MAXFILE * BSIZE \<and> (\<forall>j < n. fblk V ip (j div BSIZE) \<noteq> 0)"

lemma chunk_facts:
  fixes off n tot :: "32 word"
  assumes "tot < n"
  defines "m \<equiv> unat (chunk (n - tot) off)"
  shows "0 < m" "m \<le> unat (n - tot)" "unat off mod BSIZE + m \<le> BSIZE"
    "unat (n - tot) = m \<or> unat off mod BSIZE + m = BSIZE"
    "unat (n - (tot + chunk (n - tot) off)) = unat (n - tot) - m" "tot + chunk (n - tot) off \<le> n"
proof -
  let ?r = "n - tot" and ?o = "off mod (1024 :: 32 word)"
  have o: "unat ?o = unat off mod 1024" by (simp add: unat_mod)
  have "?o < 1024" by (simp add: word_mod_less_divisor)
  then have g: "unat (1024 - ?o) = 1024 - unat off mod 1024" using o by (simp add: unat_sub word_le_nat_alt word_less_nat_alt)
  have c: "m = min (unat ?r) (1024 - unat off mod 1024)"
    unfolding m_def chunk_def BSIZE_def by (simp add: min_def word_le_nat_alt g)
  have r: "0 < unat ?r" using assms(1) by (simp add: unat_gt_0)
  have l: "unat off mod 1024 < 1024" by simp
  show "0 < m" "m \<le> unat ?r" "unat off mod BSIZE + m \<le> BSIZE" "unat ?r = m \<or> unat off mod BSIZE + m = BSIZE"
    using c r l by (auto simp: BSIZE_def min_def)
  have le: "chunk ?r off \<le> ?r" unfolding word_le_nat_alt m_def [symmetric] using c by simp
  have e: "n - (tot + chunk ?r off) = ?r - chunk ?r off" by simp
  show "unat (n - (tot + chunk ?r off)) = unat ?r - m" unfolding e m_def using le by (rule unat_sub)
  have "tot + chunk ?r off \<le> tot + ?r" using le assms(1) by (intro word_plus_mono_right) (simp_all add: less_imp_le)
  then show "tot + chunk ?r off \<le> n" by simp
qed

lemma only_inode_keep:
  assumes "only_inode i (itable s ! i) s t" "txn d s V L {}"
  shows "keep d s t"
proof -
  have "lstate.more t = lstate.more s" using assms(1) by (cases s; cases t) (simp add: only_inode_def)
  then show ?thesis using txn_keep_empty [OF assms(2)] by (simp add: keep_def)
qed

lemma block_bytes:
  assumes "length (V (fblk V ip (a div BSIZE))) = BSIZE" "a mod BSIZE + m \<le> BSIZE"
  shows "sub (V (fblk V ip (a div BSIZE))) (a mod BSIZE) m = map (fbyte V ip) [a..<a + m]"
proof (rule nth_equalityI)
  show "length (sub (V (fblk V ip (a div BSIZE))) (a mod BSIZE) m) = length (map (fbyte V ip) [a..<a + m])"
    using assms by (simp add: sub_def)
  fix j
  assume "j < length (sub (V (fblk V ip (a div BSIZE))) (a mod BSIZE) m)"
  then have j: "j < m" by (simp add: sub_def)
  then have "a mod BSIZE + j < BSIZE" using assms(2) by simp
  moreover have "a + j = a div BSIZE * BSIZE + (a mod BSIZE + j)" by simp
  ultimately have "(a + j) div BSIZE = a div BSIZE" "(a + j) mod BSIZE = a mod BSIZE + j"
    by (metis add.commute add.right_neutral div_less div_mult_self3 gr_implies_not0, metis mod_less mod_mult_self3)
  then show "sub (V (fblk V ip (a div BSIZE))) (a mod BSIZE) m ! j = map (fbyte V ip) [a..<a + m] ! j"
    using j assms by (simp add: sub_def fbyte_def)
qed

lemma unat_block: "unat (off div of_nat BSIZE :: 32 word) = unat off div BSIZE" "unat (off mod of_nat BSIZE :: 32 word) = unat off mod BSIZE"
  by (simp_all add: unat_div unat_mod BSIZE_def)

lemma readi_from_spec:
  fixes s :: "'a fstate_scheme"
  assumes "txn d s V L {}" "fs_ok V (sb s)" "i < length (itable s)" "i_dev (itable s ! i) = d" "file_ok V (sb s) (itable s ! i)"
    "card L < 26" "tot \<le> n" "has_bytes V (itable s ! i) (unat off + unat (n - tot))"
  shows "\<exists>t. readi_from i ObjDst tot off n s = Ok (n, map (fbyte V (itable s ! i)) [unat off..<unat off + unat (n - tot)]) t \<and>
    txn d t V L {} \<and> keep d s t"
  using assms
proof (induction "unat (n - tot)" arbitrary: s tot off rule: less_induct)
  case less
  let ?ip = "itable s ! i" and ?a = "unat off"
  show ?case
  proof (cases "tot < n")
    case False
    then show ?thesis using less.prems by (subst readi_from.simps) simp
  next
    case True
    let ?m = "chunk (n - tot) off"
    note c = chunk_facts [OF True, of off]
    have lim: "?a + unat (n - tot) \<le> MAXFILE * BSIZE" and nz: "fblk V ?ip (?a div BSIZE) \<noteq> 0"
      using less.prems(8) c(1,2) by (auto simp: has_bytes_def)
    have k: "?a div BSIZE < MAXFILE" using lim c(1,2) by (simp add: BSIZE_def div_less_iff_less_mult)
    obtain t where t: "bmap i (off div of_nat BSIZE) s = Ok (fblk V ?ip (?a div BSIZE)) t" "txn d t V L {}" "only_inode i ?ip s t"
      using bmap_spec [OF less.prems(1-5), of "off div of_nat BSIZE"] k nz less.prems(6) unfolding unat_block adds_def by auto
    have kt: "keep d s t" using only_inode_keep [OF t(3) less.prems(1)] .
    have ft: "sb t = sb s" "itable t = itable s" using keep_sb [OF kt] by simp_all
    obtain h t1 t2 where h: "bread d (fblk V ?ip (?a div BSIZE)) t = Ok h t1" "bdata h t1 = V (fblk V ?ip (?a div BSIZE))"
        "brelse h t1 = Ok () t2" "txn d t2 V L {}" "keep d t t2"
      using bread_txn [OF t(2), of "fblk V ?ip (?a div BSIZE)"] less.prems(6) by auto
    have f2: "sb t2 = sb s" "itable t2 = itable s" using keep_sb [OF h(5)] ft by simp_all
    have off': "unat (off + ?m) = ?a + unat ?m"
      using lim c(2) by (simp add: unat_word_ariths(1) NDM BSIZE_def)
    have rest: "?a + unat ?m + unat (n - (tot + ?m)) = ?a + unat (n - tot)" using c(2,5) by simp
    obtain u where u: "readi_from i ObjDst (tot + ?m) (off + ?m) n t2 =
        Ok (n, map (fbyte V ?ip) [?a + unat ?m..<?a + unat (n - tot)]) u" "txn d u V L {}" "keep d t2 u"
      using less.hyps [of "tot + ?m" t2 "off + ?m"] h(4) less.prems(2-6,8) c(1,2,5,6) f2 off' rest by auto
    have "map (fbyte V ?ip) [?a..<?a + unat (n - tot)] =
        sub (V (fblk V ?ip (?a div BSIZE))) (?a mod BSIZE) (unat ?m) @ map (fbyte V ?ip) [?a + unat ?m..<?a + unat (n - tot)]"
      using block_bytes [of V ?ip ?a "unat ?m"] fs_okD(2) [OF less.prems(2)] c(2,3)
        upt_add_eq_append [of ?a "?a + unat ?m" "unat (n - tot) - unat ?m"] by simp
    moreover have "inode_at i t = ?ip" by (simp add: inode_at_def ft)
    ultimately have "readi_from i ObjDst tot off n s = Ok (n, map (fbyte V ?ip) [?a..<?a + unat (n - tot)]) u"
      using True t(1) nz h(1-3) u(1) less.prems(4) by (subst readi_from.simps) (simp add: Let_def unat_block)
    moreover have "keep d s u" using keep_trans [OF kt keep_trans [OF h(5) u(3)]] .
    ultimately show ?thesis using u(2) by blast
  qed
qed

section \<open>Writing\<close>

text \<open>What a write to one file keeps: everything in other files, the blocks the file has, inodes on disk.\<close>

definition grown :: "superblock \<Rightarrow> (block \<Rightarrow> byte list) \<Rightarrow> inode \<Rightarrow> (block \<Rightarrow> byte list) \<Rightarrow> inode \<Rightarrow> bool" where
  "grown q V ip V' ip' \<longleftrightarrow> fs_ok V' q \<and> file_ok V' q ip' \<and> ip' = ip\<lparr>i_addrs := i_addrs ip'\<rparr> \<and>
     (\<forall>j < MAXFILE. fblk V ip j \<noteq> 0 \<longrightarrow> fblk V' ip' j = fblk V ip j) \<and>
     (\<forall>b. data_block V q b \<longrightarrow> data_block V' q b \<and> (b \<notin> fowns V ip \<longrightarrow> V' b = V b)) \<and>
     (\<forall>b \<in> fowns V' ip'. b \<in> fowns V ip \<or> \<not> data_block V q b) \<and>
     (\<forall>n < sb_ninodes q. V' (IBLOCK n q) = V (IBLOCK n q))"

lemma grownD:
  assumes "grown q V ip V' ip'"
  shows "fs_ok V' q" "file_ok V' q ip'" "ip' = ip\<lparr>i_addrs := i_addrs ip'\<rparr>"
    "j < MAXFILE \<Longrightarrow> fblk V ip j \<noteq> 0 \<Longrightarrow> fblk V' ip' j = fblk V ip j"
    "data_block V q b \<Longrightarrow> data_block V' q b" "data_block V q b \<Longrightarrow> b \<notin> fowns V ip \<Longrightarrow> V' b = V b"
    "b \<in> fowns V' ip' \<Longrightarrow> b \<in> fowns V ip \<or> \<not> data_block V q b"
    "n < sb_ninodes q \<Longrightarrow> V' (IBLOCK n q) = V (IBLOCK n q)"
  using assms unfolding grown_def by blast+

lemma ext_grown: "file_ok V q ip \<Longrightarrow> ext q V ip V' ip' \<Longrightarrow> grown q V ip V' ip'"
  using extD [of q V ip V' ip'] file_okD(2) [of V q ip] by (auto simp: grown_def fowns_def data_block_def)

lemma grown_refl: "fs_ok V q \<Longrightarrow> file_ok V q ip \<Longrightarrow> grown q V ip V ip"
  by (simp add: grown_def)

lemma grown_trans:
  assumes "grown q V ip V1 ip1" "grown q V1 ip1 V2 ip2"
  shows "grown q V ip V2 ip2"
proof -
  note a = grownD [OF assms(1)] and b = grownD [OF assms(2)]
  have i: "ip2 = ip\<lparr>i_addrs := i_addrs ip2\<rparr>" by (subst b(3), subst a(3)) simp
  have "data_block V2 q c \<and> (c \<notin> fowns V ip \<longrightarrow> V2 c = V c)" if "data_block V q c" for c
    using a(5-7) b(5,6) that by metis
  moreover have "c \<in> fowns V ip \<or> \<not> data_block V q c" if "c \<in> fowns V2 ip2" for c using a(5,7) b(7) that by blast
  moreover have "fblk V2 ip2 j = fblk V ip j" if "j < MAXFILE" "fblk V ip j \<noteq> 0" for j using a(4) b(4) that by simp
  ultimately show ?thesis using a(8) b(1,2,8) i by (simp add: grown_def)
qed

text \<open>Bytes of a file, zero where it has no block.\<close>

definition zbyte :: "(block \<Rightarrow> byte list) \<Rightarrow> inode \<Rightarrow> nat \<Rightarrow> byte" where
  "zbyte V ip j = (if fblk V ip (j div BSIZE) = 0 then 0 else fbyte V ip j)"

lemma ext_zbyte:
  assumes "file_ok V q ip" "ext q V ip V' ip'" "j < MAXFILE * BSIZE"
  shows "zbyte V' ip' j = zbyte V ip j"
proof -
  let ?k = "j div BSIZE"
  have k: "?k < MAXFILE" using assms(3) by (simp add: less_mult_imp_div_less)
  have m: "j mod BSIZE < BSIZE" by (simp add: BSIZE_def)
  note e = extD [OF assms(2)] and f = file_okD [OF assms(1)]
  show ?thesis
  proof (cases "fblk V ip ?k = 0")
    case True
    then show ?thesis using e(5) [OF k True] m by (simp add: zbyte_def fbyte_def)
  next
    case False
    then have "fblk V' ip' ?k = fblk V ip ?k" "V' (fblk V ip ?k) = V (fblk V ip ?k)" using e(4,7) f(3,4) k by auto
    then show ?thesis using False by (simp add: zbyte_def fbyte_def)
  qed
qed

text \<open>Writing into a block that the file has.\<close>

lemma write_block:
  assumes "fs_ok V q" "file_ok V q ip" "k < MAXFILE" "fblk V ip k \<noteq> 0" "o' + length bs \<le> BSIZE"
  defines "V' \<equiv> V(fblk V ip k := patch (V (fblk V ip k)) o' bs)"
  shows "grown q V ip V' ip" "fblk V' ip j = fblk V ip j"
    "j < MAXFILE * BSIZE \<Longrightarrow> zbyte V' ip j = (if k * BSIZE + o' \<le> j \<and> j < k * BSIZE + o' + length bs then bs ! (j - (k * BSIZE + o')) else zbyte V ip j)"
proof -
  let ?b = "fblk V ip k"
  note f = file_okD [OF assms(2)] and D = fs_okD [OF assms(1)]
  have db: "data_block V q ?b" "?b \<noteq> ind ip" using f(3,4) assms(3,4) by auto
  have fb: "fblk V' ip j = fblk V ip j" for j using db(2) by (simp add: fblk_def V'_def)
  then show "fblk V' ip j = fblk V ip j" .
  have u: "used V' q c = used V q c" if "c < sb_size q" for c using db(1) that by (auto simp: used_def V'_def data_block_def)
  have len: "length (V c) = BSIZE" for c using D(2) .
  have "length (V' c) = BSIZE" for c using len assms(5) by (auto simp: V'_def)
  moreover have "0 < sb_size q" using db(1) by (metis data_block_def word_gt_0 not_less_iff_gr_or_eq word_zero_le not_le)
  ultimately have "fs_ok V' q" using u D assms(1) by (auto simp: fs_ok_def bitmap_ok_def)
  moreover have d: "data_block V' q c = data_block V q c" for c using u by (auto simp: data_block_def)
  then have "file_ok V' q ip" using assms(2) by (simp add: file_ok_def fb)
  moreover have "fowns V' ip = fowns V ip" by (simp add: fowns_def fb)
  moreover have "?b \<in> fowns V ip" using assms(3,4) by (auto simp: fowns_def)
  moreover have "V' (IBLOCK n q) = V (IBLOCK n q)" if "n < sb_ninodes q" for n using db(1) that by (auto simp: V'_def data_block_def)
  ultimately show "grown q V ip V' ip" using d fb by (auto simp: grown_def V'_def)
  have B: "0 < BSIZE" by (simp add: BSIZE_def)
  show "zbyte V' ip j = (if k * BSIZE + o' \<le> j \<and> j < k * BSIZE + o' + length bs then bs ! (j - (k * BSIZE + o')) else zbyte V ip j)"
    if lim: "j < MAXFILE * BSIZE"
  proof (cases "j div BSIZE = k")
    case True
    then have j: "j = k * BSIZE + j mod BSIZE" by (metis div_mult_mod_eq)
    have m: "j mod BSIZE < BSIZE" using B by simp
    have "patch (V ?b) o' bs ! (j mod BSIZE) = (if o' \<le> j mod BSIZE \<and> j mod BSIZE < o' + length bs then bs ! (j mod BSIZE - o') else V ?b ! (j mod BSIZE))"
      using m len assms(5) by (intro nth_patch) simp_all
    moreover have "o' \<le> j mod BSIZE \<longleftrightarrow> k * BSIZE + o' \<le> j" "j mod BSIZE < o' + length bs \<longleftrightarrow> j < k * BSIZE + o' + length bs"
      "j mod BSIZE - o' = j - (k * BSIZE + o')" using j by linarith+
    ultimately show ?thesis using True assms(4) by (simp add: zbyte_def fbyte_def fb) (simp add: V'_def)
  next
    case False
    have "\<not> (k * BSIZE + o' \<le> j \<and> j < k * BSIZE + o' + length bs)"
    proof
      assume a: "k * BSIZE + o' \<le> j \<and> j < k * BSIZE + o' + length bs"
      then have "k * BSIZE \<le> j" "j < k * BSIZE + BSIZE" using assms(5) by linarith+
      then have "j div BSIZE = k" using B by (metis add.commute div_nat_eqI mult.commute mult_Suc)
      then show False using False by simp
    qed
    moreover have "j div BSIZE < MAXFILE" using lim by (simp add: less_mult_imp_div_less)
    then have "V' (fblk V ip (j div BSIZE)) = V (fblk V ip (j div BSIZE))"
      using f(5) [OF assms(3) _ assms(4), of "j div BSIZE"] False by (auto simp: V'_def)
    ultimately show ?thesis by (simp only: zbyte_def fbyte_def fb if_False)
  qed
qed

text \<open>The number of blocks that \<open>len\<close> bytes at \<open>off\<close> touch.\<close>

definition span :: "nat \<Rightarrow> nat \<Rightarrow> nat" where
  "span off len = (if len = 0 then 0 else (off mod BSIZE + len + BSIZE - 1) div BSIZE)"

lemma span_step:
  assumes "0 < m" "m \<le> len" "off mod BSIZE + m \<le> BSIZE" "len = m \<or> off mod BSIZE + m = BSIZE"
  shows "Suc (span (off + m) (len - m)) \<le> span off len"
proof (cases "len = m")
  case True
  have "(off mod BSIZE + m + BSIZE - 1) div BSIZE = 1" by (rule div_nat_eqI) (use assms(1,3) in auto)
  then show ?thesis using True assms(1) by (simp add: span_def)
next
  case False
  then have e: "off mod BSIZE + m = BSIZE" using assms(4) by blast
  then have "(off + m) mod BSIZE = 0" by (metis mod_add_left_eq mod_self)
  moreover have "off mod BSIZE + len + BSIZE - 1 = (len - m + BSIZE - 1) + BSIZE" using e assms(2) by (simp add: BSIZE_def)
  then have "(off mod BSIZE + len + BSIZE - 1) div BSIZE = Suc ((len - m + BSIZE - 1) div BSIZE)"
    by (simp only: div_add_self2 [of BSIZE]) (simp add: BSIZE_def)
  ultimately show ?thesis using False assms(1,2) by (simp add: span_def)
qed

definition writes :: "32 word \<Rightarrow> nat \<Rightarrow> nat \<Rightarrow> 'a fstate_scheme \<Rightarrow> (block \<Rightarrow> byte list) \<Rightarrow> block set \<Rightarrow>
    'a fstate_scheme \<Rightarrow> (block \<Rightarrow> byte list) \<Rightarrow> block set \<Rightarrow> inode \<Rightarrow> bool" where
  "writes d i n s V L t V' L' ip' \<longleftrightarrow> txn d t V' L' {} \<and> only_inode i ip' s t \<and> grown (sb s) V (itable s ! i) V' ip' \<and>
     card L' \<le> card L + n"

lemma writes_trans:
  assumes "writes d i n s V L t V1 L1 ip1" "writes d i m t V1 L1 u V2 L2 ip2" "i < length (itable s)"
  shows "writes d i (n + m) s V L u V2 L2 ip2"
proof -
  have f: "sb t = sb s" "itable t ! i = ip1" using assms(1,3) by (simp_all add: writes_def only_inode_def)
  show ?thesis using assms(1,2) grown_trans only_inode_trans [of i ip1 s t ip2 u] f by (auto simp: writes_def)
qed

lemma adds_writes: "adds d i n s V L t V' L' ip' \<Longrightarrow> file_ok V (sb s) (itable s ! i) \<Longrightarrow> writes d i n s V L t V' L' ip'"
  using ext_grown by (auto simp: adds_def writes_def)

text \<open>A write that stops short does so at the end of a block, because every block of the disk is in use.\<close>

definition stopped :: "(block \<Rightarrow> byte list) \<Rightarrow> superblock \<Rightarrow> nat \<Rightarrow> nat \<Rightarrow> nat \<Rightarrow> bool" where
  "stopped V q off n r \<longleftrightarrow> r \<le> n \<and> (r < n \<longrightarrow> (r = 0 \<or> (off + r) mod BSIZE = 0) \<and> (\<forall>b < sb_size q. used V q b))"

lemma writei_from_spec:
  fixes s :: "'a fstate_scheme"
  assumes "txn d s V L {}" "fs_ok V (sb s)" "i < length (itable s)" "i_dev (itable s ! i) = d" "file_ok V (sb s) (itable s ! i)"
    "tot \<le> n" "unat off + unat (n - tot) \<le> MAXFILE * BSIZE" "unat (n - tot) \<le> length bs"
    "card L + 6 * span (unat off) (unat (n - tot)) < 31"
  shows "\<exists>r t V' L' ip'. writei_from i (ObjSrc bs) tot off n s = Ok (tot + of_nat r, off + of_nat r) t \<and>
    stopped V' (sb s) (unat off) (unat (n - tot)) r \<and>
    writes d i (6 * span (unat off) (unat (n - tot))) s V L t V' L' ip' \<and>
    (\<forall>j. unat off \<le> j \<longrightarrow> j < unat off + r \<longrightarrow> fblk V' ip' (j div BSIZE) \<noteq> 0) \<and>
    (\<forall>j < MAXFILE * BSIZE. zbyte V' ip' j =
       (if unat off \<le> j \<and> j < unat off + r then bs ! (j - unat off) else zbyte V (itable s ! i) j))"
  using assms
proof (induction "unat (n - tot)" arbitrary: s tot off bs V L rule: less_induct)
  case less
  let ?ip = "itable s ! i" and ?a = "unat off" and ?len = "unat (n - tot)" and ?q = "sb s"
  show ?case
  proof (cases "tot < n")
    case False
    then have "writei_from i (ObjSrc bs) tot off n s = Ok (tot, off) s" "?len = 0" using less.prems(6) by (simp_all add: writei_from.simps)
    moreover have "writes d i (6 * span ?a 0) s V L s V L ?ip"
      using less.prems(1,2,5) keep_only_inode [OF keep_refl] grown_refl by (simp add: writes_def)
    ultimately show ?thesis by (intro exI [of _ 0] exI [of _ s] exI [of _ V] exI [of _ L] exI [of _ ?ip]) (auto simp: stopped_def)
  next
    case True
    let ?m = "chunk (n - tot) off"
    note c = chunk_facts [OF True, of off]
    have sp: "Suc (span (?a + unat ?m) (?len - unat ?m)) \<le> span ?a ?len"
      using span_step [OF c(1-4)] .
    then have "1 \<le> span ?a ?len" by auto
    then have cL: "card L < 25" using less.prems(9) by simp
    let ?k = "?a div BSIZE"
    have k: "?k < MAXFILE" using less.prems(7) c(1,2) by (simp add: BSIZE_def div_less_iff_less_mult)
    obtain t V1 L1 ip1 where t: "bmap i (off div of_nat BSIZE) s = Ok (fblk V1 ip1 ?k) t" "adds d i 5 s V L t V1 L1 ip1"
        "fblk V1 ip1 ?k = 0 \<longrightarrow> (\<forall>b < sb_size ?q. used V1 ?q b)"
      using bmap_spec [OF less.prems(1-5), of "off div of_nat BSIZE"] k cL unfolding unat_block by auto
    have e: "ext ?q V ?ip V1 ip1" "txn d t V1 L1 {}" "card L1 \<le> card L + 5" and ft: "sb t = ?q" "itable t ! i = ip1" "i < length (itable t)"
      using t(2) less.prems(3) by (simp_all add: adds_def only_inode_def)
    note E = extD [OF e(1)]
    have zb: "\<forall>j < MAXFILE * BSIZE. zbyte V1 ip1 j = zbyte V ?ip j" using ext_zbyte [OF less.prems(5) e(1)] by blast
    have w1: "writes d i 5 s V L t V1 L1 ip1" using adds_writes [OF t(2) less.prems(5)] .
    show ?thesis
    proof (cases "fblk V1 ip1 ?k = 0")
      case z: True
      have "writei_from i (ObjSrc bs) tot off n s = Ok (tot, off) t" using True t(1) z by (subst writei_from.simps) simp
      moreover have "writes d i (6 * span ?a ?len) s V L t V1 L1 ip1" using w1 \<open>1 \<le> span ?a ?len\<close> by (simp add: writes_def)
      ultimately show ?thesis using t(3) z zb
        by (intro exI [of _ 0] exI [of _ t] exI [of _ V1] exI [of _ L1] exI [of _ ip1]) (auto simp: stopped_def)
    next
      case nz: False
      let ?b = "fblk V1 ip1 ?k" and ?bs = "take (unat ?m) bs" and ?o = "?a mod BSIZE"
      let ?V2 = "V1(?b := patch (V1 ?b) ?o ?bs)"
      have lb: "length ?bs = unat ?m" using c(2) less.prems(8) by simp
      have dev: "i_dev ip1 = d" using E(3) less.prems(4) by (metis inode.select_convs(1) inode.surjective inode.update_convs(11))
      have wl: "?o + length ?bs \<le> BSIZE" using lb c(3) by simp
      note wb = write_block [OF E(1,2) k nz wl]
      obtain h t1 u where u: "bread d ?b t = Ok h t1" "bdata h t1 = V1 ?b" "lstate.more t1 = lstate.more t"
          "bindr (log_write h (set_bdata h (patch (V1 ?b) ?o ?bs) t1)) (\<lambda>_ s. brelse h s) = Ok () u"
          "txn d u ?V2 (insert ?b L1) {}" "lstate.more u = lstate.more t"
        using lb.update_block [OF e(2), of ?b "patch (V1 ?b) ?o ?bs"] e(3) cL by auto
      obtain x where x: "log_write h (set_bdata h (patch (V1 ?b) ?o ?bs) t1) = Ok () x" "brelse h x = Ok () u"
        using u(4) by (auto simp: bindr_eq_Ok)
      note fu = fs_fields [OF u(6)]
      have "card (insert ?b L1) \<le> card L1 + 1" by (simp add: card_insert_le_m1 card_insert_if)
      then have "writes d i 1 t V1 L1 u ?V2 (insert ?b L1) ip1"
        using u(5) wb(1) fu ft list_update_id [of "itable t" i] by (simp add: writes_def only_inode_def)
      then have w2: "writes d i 6 s V L u ?V2 (insert ?b L1) ip1" using writes_trans [OF w1 _ less.prems(3)] by fastforce
      have off': "unat (off + ?m) = ?a + unat ?m" using less.prems(7) c(2) by (simp add: unat_word_ariths(1) NDM BSIZE_def)
      have c6: "card (insert ?b L1) \<le> card L + 6" using w2 by (simp add: writes_def)
      have rest: "unat (n - (tot + ?m)) = ?len - unat ?m" using c(5) .
      have fi: "itable u ! i = ip1" "sb u = ?q" "i < length (itable u)" using fu ft by simp_all
      have cb: "card (insert ?b L1) + 6 * span (?a + unat ?m) (?len - unat ?m) < 31"
        using sp c6 less.prems(9) by linarith
      have p: "unat (n - (tot + ?m)) < ?len" "fs_ok ?V2 (sb u)" "i_dev (itable u ! i) = d" "file_ok ?V2 (sb u) (itable u ! i)"
          "unat (off + ?m) + unat (n - (tot + ?m)) \<le> MAXFILE * BSIZE" "unat (n - (tot + ?m)) \<le> length (drop (unat ?m) bs)"
          "card (insert ?b L1) + 6 * span (unat (off + ?m)) (unat (n - (tot + ?m))) < 31"
        using grownD(1,2) [OF wb(1)] dev c(1,2) less.prems(7,8) cb unfolding fi off' rest by auto
      obtain r v V' L' ip' where IH: "writei_from i (ObjSrc (drop (unat ?m) bs)) (tot + ?m) (off + ?m) n u =
          Ok (tot + ?m + of_nat r, off + ?m + of_nat r) v" "stopped V' ?q (?a + unat ?m) (?len - unat ?m) r"
          "writes d i (6 * span (?a + unat ?m) (?len - unat ?m)) u ?V2 (insert ?b L1) v V' L' ip'"
          "\<forall>j. ?a + unat ?m \<le> j \<longrightarrow> j < ?a + unat ?m + r \<longrightarrow> fblk V' ip' (j div BSIZE) \<noteq> 0"
          "\<forall>j < MAXFILE * BSIZE. zbyte V' ip' j = (if ?a + unat ?m \<le> j \<and> j < ?a + unat ?m + r
             then drop (unat ?m) bs ! (j - (?a + unat ?m)) else zbyte ?V2 ip1 j)"
        using less.hyps [OF p(1) u(5) p(2) fi(3) p(3,4) c(6) p(5-7)] unfolding fi off' rest
        by (elim exE conjE) (rule that; assumption)
      have "inode_at i t = ip1" using ft(2) by (simp add: inode_at_def)
      then have "writei_from i (ObjSrc bs) tot off n s = writei_from i (ObjSrc (drop (unat ?m) bs)) (tot + ?m) (off + ?m) n u"
        using True t(1) nz u(1,2) x dev by (subst writei_from.simps) (simp add: Let_def unat_block)
      then have "writei_from i (ObjSrc bs) tot off n s = Ok (tot + of_nat (unat ?m + r), off + of_nat (unat ?m + r)) v"
        using IH(1) by (simp add: add.assoc)
      moreover have "writes d i (6 * span ?a ?len) s V L v V' L' ip'"
      proof -
        have "writes d i (6 + 6 * span (?a + unat ?m) (?len - unat ?m)) s V L v V' L' ip'" using writes_trans [OF w2 IH(3) less.prems(3)] .
        moreover have "6 + 6 * span (?a + unat ?m) (?len - unat ?m) \<le> 6 * span ?a ?len" using sp by linarith
        ultimately show ?thesis by (simp add: writes_def)
      qed
      moreover have "fblk V' ip' (j div BSIZE) \<noteq> 0" if j: "?a \<le> j" "j < ?a + (unat ?m + r)" for j
      proof (cases "?a + unat ?m \<le> j")
        case True
        then show ?thesis using IH(4) j by simp
      next
        case False
        have "j div BSIZE = ?k"
        proof -
          have "?k * BSIZE \<le> j" using j(1) div_mult_mod_eq [of ?a BSIZE] by linarith
          moreover have "j < ?k * BSIZE + BSIZE" using False c(3) div_mult_mod_eq [of ?a BSIZE] by linarith
          ultimately show ?thesis by (metis add.commute div_nat_eqI mult.commute mult_Suc)
        qed
        moreover have "fblk V' ip' ?k = fblk ?V2 ip1 ?k" using grownD(4) [of ?q ?V2 ip1 V' ip' ?k] IH(3) fi k wb(2) nz by (simp add: writes_def)
        ultimately show ?thesis using wb(2) nz by simp
      qed
      moreover have "zbyte V' ip' j = (if ?a \<le> j \<and> j < ?a + (unat ?m + r) then bs ! (j - ?a) else zbyte V ?ip j)"
        if j: "j < MAXFILE * BSIZE" for j
      proof -
        have ka: "?k * BSIZE + ?o = ?a" by (rule div_mult_mod_eq)
        have z2: "zbyte ?V2 ip1 j = (if ?a \<le> j \<and> j < ?a + unat ?m then ?bs ! (j - ?a) else zbyte V ?ip j)"
          using wb(3) [OF j] zb j lb unfolding ka by simp
        show ?thesis using IH(5) j z2 c(2) less.prems(8) by (auto simp: add.commute)
      qed
      moreover have "stopped V' ?q ?a ?len (unat ?m + r)"
      proof -
        have "(?a + unat ?m) mod BSIZE = 0" if "unat ?m + r < ?len"
        proof -
          have "?o + unat ?m = BSIZE" using c(4) that by linarith
          then show ?thesis by (metis mod_add_left_eq mod_self)
        qed
        then show ?thesis using IH(2) c(2) by (auto simp: stopped_def add.assoc)
      qed
      ultimately show ?thesis by blast
    qed
  qed
qed

section \<open>Inodes on the disk\<close>

lemma put_dinode_length: "off + DINODE \<le> length bs \<Longrightarrow> length (put_dinode ip off bs) = length bs"
proof -
  assume a: "off + DINODE \<le> length bs"
  have "length (fold (\<lambda>k bs. put32 bs (off + 12 + 4 * k) (i_addrs ip ! k)) ks cs) = length cs"
    if "\<forall>k \<in> set ks. k \<le> NDIRECT" "length cs = length bs" for ks cs
    using that a by (induction ks arbitrary: cs) (auto simp: DINODE_def NDIRECT_def)
  then show ?thesis using a by (simp add: put_dinode_def Let_def DINODE_def NDIRECT_def)
qed

lemma dinode_off_fits: "dinode_off n + DINODE \<le> BSIZE"
proof -
  have "unat n mod 16 < 16" by simp
  then show ?thesis by (simp add: dinode_off_def IPB_def DINODE_def BSIZE_def)
qed

text \<open>A change of a block of inodes leaves all file contents alone.\<close>

lemma inode_block_frame:
  assumes "fs_ok V q" "n < sb_ninodes q" "length x = BSIZE"
  defines "V' \<equiv> V(IBLOCK n q := x)"
  shows "fs_ok V' q" "data_block V' q b = data_block V q b" "data_block V q b \<Longrightarrow> V' b = V b"
    "file_ok V q ip \<Longrightarrow> fblk V' ip k = fblk V ip k" "file_ok V q ip \<Longrightarrow> file_ok V' q ip"
    "file_ok V q ip \<Longrightarrow> k < MAXFILE \<Longrightarrow> fblk V ip k \<noteq> 0 \<Longrightarrow> V' (fblk V ip k) = V (fblk V ip k)" "used V' q b = used V q b \<or> \<not> b < sb_size q"
proof -
  note D = fs_okD [OF assms(1)]
  have u: "used V' q b = used V q b" if "b < sb_size q" for b using D(5) [OF assms(2) that] by (simp add: used_def V'_def)
  then show "used V' q b = used V q b \<or> \<not> b < sb_size q" by blast
  have "length (V' b) = BSIZE" for b using D(2) assms(3) by (simp add: V'_def)
  moreover have "0 < sb_size q" using D(3) [OF assms(2)] by (metis word_gt_0 not_less_iff_gr_or_eq word_zero_le not_le)
  ultimately show "fs_ok V' q" using u D assms(1) by (auto simp: fs_ok_def bitmap_ok_def)
  show db: "data_block V' q b = data_block V q b" for b using u by (auto simp: data_block_def)
  show eq: "data_block V q b \<Longrightarrow> V' b = V b" for b using assms(2) by (auto simp: V'_def data_block_def)
  show fb: "fblk V' ip k = fblk V ip k" if "file_ok V q ip" for k using eq file_okD(2) [OF that] by (simp add: fblk_def)
  show "file_ok V' q ip" if "file_ok V q ip" using that db fb [OF that] by (simp add: file_ok_def)
  show "V' (fblk V ip k) = V (fblk V ip k)" if "file_ok V q ip" "k < MAXFILE" "fblk V ip k \<noteq> 0" using eq file_okD(3) [OF that] by blast
qed

lemma iupdate_spec:
  fixes s :: "'a fstate_scheme"
  assumes "txn d s V L {}" "fs_ok V (sb s)" "i_dev (itable s ! i) = d" "i_inum (itable s ! i) < sb_ninodes (sb s)" "card L < 30"
  shows "\<exists>t. iupdate i s = Ok () t \<and> keep d s t \<and>
    txn d t (V(IBLOCK (i_inum (itable s ! i)) (sb s) := put_dinode (itable s ! i) (dinode_off (i_inum (itable s ! i)))
       (V (IBLOCK (i_inum (itable s ! i)) (sb s))))) (insert (IBLOCK (i_inum (itable s ! i)) (sb s)) L) {}"
proof -
  let ?b = "IBLOCK (i_inum (itable s ! i)) (sb s)" and ?o = "dinode_off (i_inum (itable s ! i))"
  obtain h t u where u: "bread d ?b s = Ok h t" "bdata h t = V ?b" "lstate.more t = lstate.more s"
      "bindr (log_write h (set_bdata h (put_dinode (itable s ! i) ?o (V ?b)) t)) (\<lambda>_ s. brelse h s) = Ok () u"
      "txn d u (V(?b := put_dinode (itable s ! i) ?o (V ?b))) (insert ?b L) {}" "lstate.more u = lstate.more s"
    using lb.update_block [OF assms(1), of ?b "put_dinode (itable s ! i) ?o (V ?b)"] assms(5) by auto
  have "iupdate i s = Ok () u" using u(1,2,4) fs_fields [OF u(3)] assms(3) by (simp add: iupdate_def inode_at_def Let_def)
  moreover have "keep d s u" using u(6) txn_keep_empty [OF assms(1)] by (simp add: keep_def)
  ultimately show ?thesis using u(5) by blast
qed

section \<open>Whole files\<close>

definition file_bytes :: "(block \<Rightarrow> byte list) \<Rightarrow> inode \<Rightarrow> byte list" where
  "file_bytes V ip = map (fbyte V ip) [0..<unat (i_size ip)]"

text \<open>Inode \<open>i\<close> is in memory, inside a transaction, and its file is well formed.\<close>

definition file_state :: "32 word \<Rightarrow> 'a fstate_scheme \<Rightarrow> (block \<Rightarrow> byte list) \<Rightarrow> block set \<Rightarrow> nat \<Rightarrow> bool" where
  "file_state d s V L i \<longleftrightarrow> txn d s V L {} \<and> fs_ok V (sb s) \<and> i < length (itable s) \<and> i_dev (itable s ! i) = d \<and>
     i_inum (itable s ! i) < sb_ninodes (sb s) \<and> file_ok V (sb s) (itable s ! i) \<and> has_bytes V (itable s ! i) (unat (i_size (itable s ! i)))"

lemma readi_spec:
  fixes s :: "'a fstate_scheme"
  assumes "file_state d s V L i" "card L < 26" "unat off \<le> unat (i_size (itable s ! i))" "unat off + unat n < 2 ^ 32"
  defines "k \<equiv> min (unat n) (unat (i_size (itable s ! i)) - unat off)"
  shows "\<exists>t. readi i ObjDst off n s = Ok (of_nat k, sub (file_bytes V (itable s ! i)) (unat off) k) t \<and> txn d t V L {} \<and> keep d s t"
proof -
  let ?ip = "itable s ! i" and ?z = "i_size (itable s ! i)"
  have a: "txn d s V L {}" "fs_ok V (sb s)" "i < length (itable s)" "i_dev ?ip = d" "file_ok V (sb s) ?ip" "has_bytes V ?ip (unat ?z)"
    using assms(1) by (simp_all add: file_state_def)
  have on: "unat (off + n) = unat off + unat n" using assms(4) by (simp add: unat_word_ariths(1))
  define n' where "n' = (if off + n > ?z then ?z - off else n)"
  have n': "unat n' = k" using assms(3) on by (auto simp: n'_def k_def word_less_nat_alt word_le_nat_alt unat_sub)
  have "readi i ObjDst off n s = readi_from i ObjDst 0 off n' s"
    using assms(3) on by (simp add: readi_def inode_at_def n'_def Let_def word_less_nat_alt)
  moreover have "has_bytes V ?ip (unat off + unat (n' - 0))" using a(6) n' assms(3) by (auto simp: has_bytes_def k_def)
  then obtain t where "readi_from i ObjDst 0 off n' s = Ok (n', map (fbyte V ?ip) [unat off..<unat off + k]) t" "txn d t V L {}" "keep d s t"
    using readi_from_spec [OF a(1-5) assms(2), of 0 n' off] n' by auto
  moreover have "sub (file_bytes V ?ip) (unat off) k = map (fbyte V ?ip) [unat off..<unat off + k]"
    using assms(3) by (intro nth_equalityI) (auto simp: sub_def file_bytes_def k_def)
  moreover have "of_nat k = n'" by (simp flip: n')
  ultimately show ?thesis by simp
qed

text \<open>Another file: it has no block in common with the one that is written.\<close>

definition apart_files :: "(block \<Rightarrow> byte list) \<Rightarrow> inode \<Rightarrow> inode \<Rightarrow> bool" where
  "apart_files V ip jp \<longleftrightarrow> fowns V ip \<inter> fowns V jp = {}"

lemma grown_other:
  assumes "grown q V ip V' ip'" "file_ok V q jp" "apart_files V ip jp"
  shows "fblk V' jp k = fblk V jp k" "file_ok V' q jp" "apart_files V' ip' jp"
    "k < MAXFILE \<Longrightarrow> fblk V jp k \<noteq> 0 \<Longrightarrow> V' (fblk V jp k) = V (fblk V jp k)"
proof -
  note g = grownD [OF assms(1)] and f = file_okD [OF assms(2)]
  have own: "V' b = V b" "data_block V q b" if "b \<in> fowns V jp" for b
    using g(6) fowns_data [OF assms(2) that] that assms(3) by (auto simp: apart_files_def)
  have ij: "ind jp \<noteq> 0 \<Longrightarrow> V' (ind jp) = V (ind jp)" using own(1) [of "ind jp"] by (auto simp: fowns_def)
  show fb: "fblk V' jp k = fblk V jp k" for k using ij by (simp add: fblk_def)
  show "file_ok V' q jp" using f g(5) fb by (simp add: file_ok_def)
  have "fowns V' jp = fowns V jp" by (simp add: fowns_def fb)
  then show "apart_files V' ip' jp" using assms(3) g(7) own(2) by (auto simp: apart_files_def)
  show "V' (fblk V jp k) = V (fblk V jp k)" if "k < MAXFILE" "fblk V jp k \<noteq> 0" using own(1) that by (auto simp: fowns_def)
qed

lemma file_bytes_cong:
  assumes "has_bytes V jp (unat (i_size jp))" "\<And>k. k < MAXFILE \<Longrightarrow> fblk V' jp k = fblk V jp k"
    "\<And>k. k < MAXFILE \<Longrightarrow> fblk V jp k \<noteq> 0 \<Longrightarrow> V' (fblk V jp k) = V (fblk V jp k)"
  shows "file_bytes V' jp = file_bytes V jp" "has_bytes V' jp (unat (i_size jp))"
proof -
  have k: "j div BSIZE < MAXFILE" if "j < unat (i_size jp)" for j
    using that assms(1) by (auto simp: has_bytes_def intro: less_mult_imp_div_less)
  have "fbyte V' jp j = fbyte V jp j" if "j < unat (i_size jp)" for j
    using assms k [OF that] that by (simp add: fbyte_def has_bytes_def)
  then show "file_bytes V' jp = file_bytes V jp" by (simp add: file_bytes_def)
  show "has_bytes V' jp (unat (i_size jp))" using assms(1,2) k by (simp add: has_bytes_def)
qed

text \<open>The bytes of the file after a write of \<open>bs\<close> at \<open>off\<close>.\<close>

definition overwrite :: "byte list \<Rightarrow> nat \<Rightarrow> byte list \<Rightarrow> byte list" where
  "overwrite xs off bs = take off xs @ bs @ drop (off + length bs) xs"

lemma overwrite_nth:
  assumes "off \<le> length xs"
  shows "length (overwrite xs off bs) = max (length xs) (off + length bs)"
    "j < max (length xs) (off + length bs) \<Longrightarrow> overwrite xs off bs ! j = (if off \<le> j \<and> j < off + length bs then bs ! (j - off) else xs ! j)"
  using assms by (auto simp: overwrite_def nth_append max_def split: if_splits)

lemma writei_spec:
  fixes s :: "'a fstate_scheme"
  assumes fs: "file_state d s V L i" and "unat off \<le> unat (i_size (itable s ! i))" "unat off + unat n \<le> MAXFILE * BSIZE"
    "unat n \<le> length bs" "card L + 6 * span (unat off) (unat n) < 30"
  shows "\<exists>r t V' L' ip'. writei i (ObjSrc bs) off n s = Ok (of_nat r) t \<and> stopped V' (sb s) (unat off) (unat n) r \<and>
    file_state d t V' L' i \<and> card L' \<le> card L + 6 * span (unat off) (unat n) + 1 \<and> only_inode i ip' s t \<and>
    ip' = (itable s ! i)\<lparr>i_addrs := i_addrs ip', i_size := i_size ip'\<rparr> \<and>
    file_bytes V' ip' = overwrite (file_bytes V (itable s ! i)) (unat off) (take r bs) \<and>
    (\<forall>jp. file_ok V (sb s) jp \<longrightarrow> has_bytes V jp (unat (i_size jp)) \<longrightarrow> apart_files V (itable s ! i) jp \<longrightarrow>
       file_ok V' (sb s) jp \<and> apart_files V' ip' jp \<and> file_bytes V' jp = file_bytes V jp)"
proof -
  let ?ip = "itable s ! i" and ?q = "sb s" and ?a = "unat off" and ?z = "unat (i_size (itable s ! i))"
  have a: "txn d s V L {}" "fs_ok V ?q" "i < length (itable s)" "i_dev ?ip = d" "file_ok V ?q ?ip" "has_bytes V ?ip ?z" "i_inum ?ip < sb_ninodes ?q"
    using fs by (simp_all add: file_state_def)
  have lim: "?a + unat n < 2 ^ 32" using assms(3) by (simp add: NDM BSIZE_def)
  have on: "unat (off + n) = ?a + unat n" using lim by (simp add: unat_word_ariths(1))
  have p: "0 \<le> n" "?a + unat (n - 0) \<le> MAXFILE * BSIZE" "unat (n - 0) \<le> length bs" "card L + 6 * span ?a (unat (n - 0)) < 31"
    using assms(3-5) by simp_all
  obtain r t V1 L1 ip1 where w: "writei_from i (ObjSrc bs) 0 off n s = Ok (of_nat r, off + of_nat r) t" "stopped V1 ?q ?a (unat n) r"
      "writes d i (6 * span ?a (unat n)) s V L t V1 L1 ip1"
      "\<forall>j. ?a \<le> j \<longrightarrow> j < ?a + r \<longrightarrow> fblk V1 ip1 (j div BSIZE) \<noteq> 0"
      "\<forall>j < MAXFILE * BSIZE. zbyte V1 ip1 j = (if ?a \<le> j \<and> j < ?a + r then bs ! (j - ?a) else zbyte V ?ip j)"
    using writei_from_spec [OF a(1-5) p] unfolding diff_zero add_0
    by (elim exE conjE) (rule that; assumption)
  have rn: "r \<le> unat n" using w(2) by (simp add: stopped_def)
  note g = grownD [of ?q V ?ip V1 ip1]
  have gr: "grown ?q V ?ip V1 ip1" and tx: "txn d t V1 L1 {}" and oi: "only_inode i ip1 s t" and cl: "card L1 \<le> card L + 6 * span ?a (unat n)"
    using w(3) by (simp_all add: writes_def)
  note G = g [OF gr]
  have ro: "unat (off + of_nat r :: 32 word) = ?a + r" using rn lim by (simp add: unat_word_ariths(1) unat_of_nat take_bit_eq_mod)
  define ip2 where "ip2 = (if ?z < ?a + r then ip1\<lparr>i_size := off + of_nat r\<rparr> else ip1)"
  define t2 where "t2 = (if off + of_nat r > i_size (inode_at i t) then upd_inode i (\<lambda>ip. ip\<lparr>i_size := off + of_nat r\<rparr>) t else t)"
  have it: "itable t ! i = ip1" "i < length (itable t)" "sb t = ?q" using oi a(3) by (simp_all add: only_inode_def)
  have sz1: "i_size ip1 = i_size ?ip" "i_dev ip1 = d" "i_inum ip1 = i_inum ?ip"
    by (subst G(3), simp add: a(4))+
  have oi2: "only_inode i ip2 s t2"
    using oi it sz1 ro by (auto simp: t2_def ip2_def inode_at_def word_less_nat_alt only_inode_def upd_inode_def)
  have tx2: "txn d t2 V1 L1 {}" using tx by (simp add: t2_def)
  have i2: "itable t2 ! i = ip2" "sb t2 = ?q" "i < length (itable t2)" "i_dev ip2 = d" "i_inum ip2 = i_inum ?ip"
    using oi2 a(3) sz1 by (auto simp: only_inode_def ip2_def)
  have sz2: "unat (i_size ip2) = max ?z (?a + r)" using sz1 ro by (auto simp: ip2_def)
  have ad: "i_addrs ip2 = i_addrs ip1" by (simp add: ip2_def)
  have fb2: "fblk W ip2 k = fblk W ip1 k" for W k by (simp add: fblk_def ind_def ad)
  have own2: "fowns W ip2 = fowns W ip1" for W by (simp add: fowns_def fb2 ind_def ad)
  have fo2: "file_ok V1 ?q ip2" using G(2) unfolding file_ok_def fb2 by (simp add: ind_def ad)
  let ?b = "IBLOCK (i_inum ?ip) ?q" and ?x = "put_dinode ip2 (dinode_off (i_inum ?ip)) (V1 (IBLOCK (i_inum ?ip) ?q))"
  have "card L1 < 30" using cl assms(5) by simp
  then obtain u where u: "iupdate i t2 = Ok () u" "keep d t2 u" "txn d u (V1(?b := ?x)) (insert ?b L1) {}"
    using iupdate_spec [OF tx2, of i] G(1) a(7) i2 by auto
  have lx: "length ?x = BSIZE" using put_dinode_length fs_okD(2) [OF G(1)] dinode_off_fits by simp
  note F = inode_block_frame [OF G(1) a(7) lx]
  let ?V = "V1(?b := ?x)"
  have e: "writei i (ObjSrc bs) off n s = Ok (of_nat r) u"
    using assms(2,3) on w(1) u(1) by (simp add: writei_def inode_at_def t2_def Let_def word_less_nat_alt NDM BSIZE_def)
  have oiu: "only_inode i ip2 s u" using only_inode_trans [OF oi2 keep_only_inode [OF u(2), of i]] i2(1) by simp
  have iu: "itable u ! i = ip2" "sb u = ?q" "i < length (itable u)" using oiu a(3) by (simp_all add: only_inode_def)
  have hb: "has_bytes V1 ip2 (unat (i_size ip2))"
  proof -
    have "fblk V1 ip1 (j div BSIZE) \<noteq> 0" if "j < max ?z (?a + r)" for j
    proof (cases "j < ?z")
      case True
      then have "fblk V ?ip (j div BSIZE) \<noteq> 0" "j div BSIZE < MAXFILE" using a(6) by (auto simp: has_bytes_def intro: less_mult_imp_div_less)
      then show ?thesis using G(4) by simp
    next
      case False
      then show ?thesis using that w(4) assms(2) by simp
    qed
    then show ?thesis using a(6) rn assms(3) by (simp add: has_bytes_def sz2 fb2)
  qed
  note C = file_bytes_cong [where V' = ?V, OF hb F(4) [OF fo2] F(6) [OF fo2]]
  have c1: "file_bytes ?V ip2 = file_bytes V1 ip2" by (rule C(1))
  have fsu: "file_state d u ?V (insert ?b L1) i"
    using u(3) F(1) F(5) [OF fo2] C(2) iu i2(4,5) a(7) by (simp add: file_state_def)
  have bytes: "file_bytes ?V ip2 = overwrite (file_bytes V ?ip) ?a (take r bs)"
  proof (rule nth_equalityI)
    have lr: "length (take r bs) = r" using rn assms(4) by simp
    have lf: "length (file_bytes V ?ip) = ?z" by (simp add: file_bytes_def)
    have al: "?a \<le> length (file_bytes V ?ip)" using assms(2) lf by simp
    note ov = overwrite_nth [where bs = "take r bs", OF al, unfolded lr lf]
    show "length (file_bytes ?V ip2) = length (overwrite (file_bytes V ?ip) ?a (take r bs))"
      unfolding ov(1) by (simp add: file_bytes_def sz2)
    fix j
    assume "j < length (file_bytes ?V ip2)"
    then have j: "j < max ?z (?a + r)" by (simp add: file_bytes_def sz2)
    have jm: "j < MAXFILE * BSIZE" using j hb sz2 by (auto simp: has_bytes_def)
    have "file_bytes ?V ip2 ! j = fbyte V1 ip2 j" unfolding c1 using j by (simp add: file_bytes_def sz2)
    also have "\<dots> = zbyte V1 ip1 j" using hb j by (simp add: zbyte_def fbyte_def fb2 has_bytes_def sz2)
    also have "\<dots> = (if ?a \<le> j \<and> j < ?a + r then bs ! (j - ?a) else zbyte V ?ip j)" using w(5) jm by blast
    also have "\<dots> = overwrite (file_bytes V ?ip) ?a (take r bs) ! j"
      unfolding ov(2) [OF j] using j a(6) assms(2) by (auto simp: file_bytes_def zbyte_def has_bytes_def)
    finally show "file_bytes ?V ip2 ! j = overwrite (file_bytes V ?ip) ?a (take r bs) ! j" .
  qed
  have other: "file_ok ?V ?q jp \<and> apart_files ?V ip2 jp \<and> file_bytes ?V jp = file_bytes V jp"
    if jp: "file_ok V ?q jp" "has_bytes V jp (unat (i_size jp))" "apart_files V ?ip jp" for jp
  proof -
    note o = grown_other [OF gr jp(1,3)]
    have c1: "file_bytes V1 jp = file_bytes V jp" "has_bytes V1 jp (unat (i_size jp))" using file_bytes_cong [OF jp(2) o(1) o(4)] by auto
    have c2: "file_bytes ?V jp = file_bytes V1 jp" using file_bytes_cong(1) [where V' = ?V, OF c1(2) F(4) [OF o(2)] F(6) [OF o(2)]] .
    have "apart_files ?V ip2 jp" using o(3) F(4) [OF o(2)] F(4) [OF fo2] by (simp add: apart_files_def own2 fowns_def fb2 ind_def ad)
    then show ?thesis using c1 c2 F(5) [OF o(2)] by simp
  qed
  have "card (insert ?b L1) \<le> card L + 6 * span ?a (unat n) + 1" using cl by (simp add: card_insert_le_m1 card_insert_if)
  moreover have "ip2 = ?ip\<lparr>i_addrs := i_addrs ip2, i_size := i_size ip2\<rparr>" using G(3) by (cases ip1; cases ?ip) (simp add: ip2_def)
  moreover have "stopped ?V ?q ?a (unat n) r" using w(2) F(7) unfolding stopped_def by metis
  ultimately show ?thesis using e fsu oiu bytes other by blast
qed


definition demo_inode :: inode where
  "demo_inode = bss_inode\<lparr>i_dev := 1, i_inum := 1, i_ref := 1, i_valid := True, i_type := T_FILE, i_nlink := 1\<rparr>"

lemma demo_fs_ok: "fs_ok demo_blocks demo_sb"
proof -
  have "IBLOCK n demo_sb = 32" if "n < 16" for n
  proof -
    have "unat n < 16" using that by (simp add: word_less_nat_alt)
    then have "unat (n div 16) = 0" by (simp add: unat_div)
    then show ?thesis by (simp add: IBLOCK_def demo_sb_def IPB_def BSIZE_def DINODE_def unat_eq_0)
  qed
  moreover have "bitmap_ok demo_blocks demo_sb" using demo_can_alloc by (simp add: can_alloc_def)
  moreover have "BBLOCK c demo_sb = 45" if "c < 100" for c using demo_used that by blast
  ultimately show ?thesis using demo_used [of 32] by (simp add: fs_ok_def demo_sb_def)
qed

lemma demo_file_state: "file_state 1 (demo_fs demo_blocks [demo_inode]) demo_blocks {} 0"
proof -
  have "fblk demo_blocks demo_inode k = 0" for k by (simp add: fblk_def ind_def demo_inode_def bss_inode_def NDIRECT_def)
  then have "file_ok demo_blocks demo_sb demo_inode" by (simp add: file_ok_def ind_def demo_inode_def bss_inode_def NDIRECT_def)
  then show ?thesis
    using demo_txn demo_fs_ok by (simp add: file_state_def demo_inode_def bss_inode_def has_bytes_def demo_sb_def)
qed


end
