(* ===== verification/Dirs.thy ===== *)
theory Dirs
  imports Contents
begin

text \<open>
  Directories as finite maps from names to inode numbers: the contents of a directory file are read as a
  map, which \<open>dirlookup\<close> looks up and \<open>dirlink\<close> extends. Also the splitting of path names by \<open>skipelem\<close>.
\<close>

section \<open>Directories as maps\<close>

text \<open>Entry \<open>k\<close> of a directory, and the first entry with a name. Names are compared up to \<open>DIRSIZ\<close> bytes or
  their NUL.\<close>

definition dent :: "byte list \<Rightarrow> nat \<Rightarrow> byte list" where
  "dent bs k = sub bs (k * DIRENT) DIRENT"

definition ndents :: "byte list \<Rightarrow> nat" where
  "ndents bs = length bs div DIRENT"

definition dname :: "byte list \<Rightarrow> byte list" where
  "dname name = cstr DIRSIZ name"

definition dir_match :: "byte list \<Rightarrow> byte list \<Rightarrow> nat \<Rightarrow> bool" where
  "dir_match bs name k \<longleftrightarrow> de_inum (dent bs k) \<noteq> 0 \<and> dname (de_name (dent bs k)) = dname name"

definition dir_find :: "byte list \<Rightarrow> byte list \<Rightarrow> nat option" where
  "dir_find bs name = find (dir_match bs name) [0..<ndents bs]"

definition dir_map :: "byte list \<Rightarrow> byte list \<Rightarrow> 16 word option" where
  "dir_map bs name = map_option (\<lambda>k. de_inum (dent bs k)) (dir_find bs name)"

lemma namecmp_dname: "namecmp s t = 0 \<longleftrightarrow> dname t = dname s"
  by (auto simp: namecmp_def dname_def lstrncmp_eq_0)

section \<open>Lookup\<close>

lemma loopM_first:
  assumes "I s" "\<And>x s. x \<in> set xs \<Longrightarrow> I s \<Longrightarrow> \<not> P x \<Longrightarrow> \<exists>t. f x s = Ok None t \<and> I t"
    "\<And>x s t. x \<in> set xs \<Longrightarrow> I s \<Longrightarrow> P x \<Longrightarrow> f x s \<noteq> Ok None t"
  shows "\<exists>t. I t \<and> loopM xs f s = (case find P xs of None \<Rightarrow> Ok None t | Some x \<Rightarrow> f x t)"
  using assms
proof (induction xs arbitrary: s)
  case (Cons x xs)
  show ?case
  proof (cases "P x")
    case True
    have "loopM (x # xs) f s = f x s"
      using Cons.prems(3) [of x s] Cons.prems(1) True by (cases "f x s") (auto split: option.split)
    then show ?thesis using True Cons.prems(1) by auto
  next
    case False
    then obtain t where "f x s = Ok None t" "I t" using Cons.prems(1,2) by force
    then show ?thesis using Cons.IH [of t] Cons.prems(2,3) False by auto
  qed
qed auto

lemma file_state_keep: "file_state d s V L i \<Longrightarrow> txn d t V L {} \<Longrightarrow> keep d s t \<Longrightarrow> file_state d t V L i"
  using keep_sb [of d s t] by (simp add: file_state_def)

text \<open>A directory whose size is a whole number of entries.\<close>

definition dir_state :: "32 word \<Rightarrow> 'a fstate_scheme \<Rightarrow> (block \<Rightarrow> byte list) \<Rightarrow> block set \<Rightarrow> nat \<Rightarrow> bool" where
  "dir_state d s V L i \<longleftrightarrow> file_state d s V L i \<and> i_type (itable s ! i) = T_DIR \<and> unat (i_size (itable s ! i)) mod DIRENT = 0"

lemma dir_state_keep: "dir_state d s V L i \<Longrightarrow> txn d t V L {} \<Longrightarrow> keep d s t \<Longrightarrow> dir_state d t V L i"
  using keep_sb [of d s t] file_state_keep [of d s V L i t] by (simp add: dir_state_def)

lemma dir_offs_eq:
  assumes "dir_state d s V L i"
  shows "dir_offs (i_size (itable s ! i)) = map (\<lambda>k. of_nat (k * DIRENT)) [0..<ndents (file_bytes V (itable s ! i))]"
    "unat (i_size (itable s ! i)) = ndents (file_bytes V (itable s ! i)) * DIRENT"
proof -
  let ?z = "unat (i_size (itable s ! i))"
  have "?z mod 16 = 0" using assms by (simp add: dir_state_def DIRENT_def)
  then obtain q where m: "?z = 16 * q" by (metis mod_0_imp_dvd dvdE)
  then have "(15 + ?z) div 16 = ?z div 16" by simp
  then show "dir_offs (i_size (itable s ! i)) = map (\<lambda>k. of_nat (k * DIRENT)) [0..<ndents (file_bytes V (itable s ! i))]"
    by (simp add: dir_offs_def ndents_def file_bytes_def DIRENT_def)
  show "?z = ndents (file_bytes V (itable s ! i)) * DIRENT" using m by (simp add: ndents_def file_bytes_def DIRENT_def)
qed

lemma read_dent:
  fixes s :: "'a fstate_scheme"
  assumes "dir_state d s V L i" "card L < 26" "k < ndents (file_bytes V (itable s ! i))"
  shows "\<exists>t. readi i ObjDst (of_nat (k * DIRENT)) (of_nat DIRENT) s = Ok (of_nat DIRENT, dent (file_bytes V (itable s ! i)) k) t \<and>
    txn d t V L {} \<and> keep d s t"
proof -
  let ?z = "unat (i_size (itable s ! i))"
  have fs: "file_state d s V L i" using assms(1) by (simp add: dir_state_def)
  have z: "?z = ndents (file_bytes V (itable s ! i)) * 16" using dir_offs_eq(2) [OF assms(1)] by (simp add: DIRENT_def)
  have zm: "?z \<le> 274432" using fs by (simp add: file_state_def has_bytes_def NDM BSIZE_def)
  have k: "k * 16 + 16 \<le> ?z" using assms(3) z by simp
  then have u: "unat (of_nat (k * 16) :: 32 word) = k * 16" using zm by (intro unat_of_nat32) simp
  have "min 16 (?z - k * 16) = 16" using k by simp
  then show ?thesis using readi_spec [OF fs assms(2), of "of_nat (k * 16)" 16] k zm unfolding u by (simp add: DIRENT_def dent_def)
qed

text \<open>The loop of \<open>dirlookup\<close> and of \<open>dirlink\<close>: read the entries in order until \<open>g\<close> has a result, which it has
  for the entries with \<open>P\<close>.\<close>

lemma dir_scan:
  fixes s :: "'a fstate_scheme" and g :: "32 word \<Rightarrow> byte list \<Rightarrow> 'a fstate_scheme \<Rightarrow> ('a fstate_scheme, 'b option) res"
  assumes ds: "dir_state d s V L dp" and "card L < 26"
    and skip: "\<And>k t. k < ndents (file_bytes V (itable s ! dp)) \<Longrightarrow> keep d s t \<Longrightarrow> \<not> P k \<Longrightarrow>
      g (of_nat (k * DIRENT)) (dent (file_bytes V (itable s ! dp)) k) t = Ok None t"
    and hit: "\<And>k t u. k < ndents (file_bytes V (itable s ! dp)) \<Longrightarrow> keep d s t \<Longrightarrow> P k \<Longrightarrow>
      g (of_nat (k * DIRENT)) (dent (file_bytes V (itable s ! dp)) k) t \<noteq> Ok None u"
  shows "\<exists>t. txn d t V L {} \<and> keep d s t \<and>
    loopM (dir_offs (i_size (itable s ! dp))) (\<lambda>off s. bindr (readi dp ObjDst off (of_nat DIRENT) s) (\<lambda>(r, de) s.
      if r \<noteq> of_nat DIRENT then Panic msg else g off de s)) s =
    (case find P [0..<ndents (file_bytes V (itable s ! dp))] of
       None \<Rightarrow> Ok None t | Some k \<Rightarrow> g (of_nat (k * DIRENT)) (dent (file_bytes V (itable s ! dp)) k) t)"
proof -
  let ?bs = "file_bytes V (itable s ! dp)"
  define body where "body = (\<lambda>off (s :: 'a fstate_scheme). bindr (readi dp ObjDst off (of_nat DIRENT) s) (\<lambda>(r, de) s.
      if r \<noteq> of_nat DIRENT then Panic msg else g off de s))"
  let ?f = "\<lambda>k. of_nat (k * DIRENT) :: 32 word"
  have l: "loopM (map ?f ks) body s = loopM ks (body \<circ> ?f) s" for ks and s :: "'a fstate_scheme"
    by (induction ks arbitrary: s) (simp_all add: comp_def cong: bindr_cong option.case_cong)
  let ?I = "\<lambda>t. txn d t V L {} \<and> keep d s t"
  have rd: "\<exists>t'. (body \<circ> ?f) k t = g (?f k) (dent ?bs k) t' \<and> ?I t'" if k: "k \<in> set [0..<ndents ?bs]" and t: "?I t" for k t
  proof -
    have it: "itable t = itable s" using keep_sb t by blast
    have "dir_state d t V L dp" using dir_state_keep [OF ds] t by blast
    then obtain t' where t': "readi dp ObjDst (?f k) (of_nat DIRENT) t = Ok (of_nat DIRENT, dent ?bs k) t'" "txn d t' V L {}" "keep d t t'"
      using read_dent [OF _ assms(2), of d t V dp k] k unfolding it by auto
    moreover have "keep d s t'" using keep_trans t t'(3) by blast
    ultimately show ?thesis by (intro exI [of _ t']) (simp add: body_def)
  qed
  have "\<exists>t. ?I t \<and> loopM [0..<ndents ?bs] (body \<circ> ?f) s = (case find P [0..<ndents ?bs] of None \<Rightarrow> Ok None t | Some x \<Rightarrow> (body \<circ> ?f) x t)"
  proof (rule loopM_first)
    show "?I s" using ds by (simp add: dir_state_def file_state_def)
  next
    fix x t assume "x \<in> set [0..<ndents ?bs]" "?I t" "\<not> P x"
    then show "\<exists>t'. (body \<circ> ?f) x t = Ok None t' \<and> ?I t'" using rd [of x t] skip [of x] by auto
  next
    fix x t u assume x: "x \<in> set [0..<ndents ?bs]" "?I t" "P x"
    then obtain t' where "(body \<circ> ?f) x t = g (?f x) (dent ?bs x) t'" "?I t'" using rd [of x t] by blast
    then show "(body \<circ> ?f) x t \<noteq> Ok None u" using hit [of x t' u] x by simp
  qed
  then obtain t where t: "?I t" "loopM [0..<ndents ?bs] (body \<circ> ?f) s = (case find P [0..<ndents ?bs] of None \<Rightarrow> Ok None t | Some x \<Rightarrow> (body \<circ> ?f) x t)"
    by blast
  show ?thesis
  proof (cases "find P [0..<ndents ?bs]")
    case None
    then show ?thesis using t unfolding dir_offs_eq(1) [OF ds] body_def [symmetric] l by auto
  next
    case (Some k)
    then have "k \<in> set [0..<ndents ?bs]" using find_SomeD by fast
    then show ?thesis using rd [of k t] t Some unfolding dir_offs_eq(1) [OF ds] body_def [symmetric] l by auto
  qed
qed

lemma dirlookup_spec:
  fixes s :: "'a fstate_scheme"
  assumes "dir_state d s V L dp" "card L < 26"
  shows "\<exists>t. txn d t V L {} \<and> keep d s t \<and> dirlookup dp name s =
    (case dir_find (file_bytes V (itable s ! dp)) name of
       None \<Rightarrow> Ok None t
     | Some k \<Rightarrow> bindr (iget d (ucast (de_inum (dent (file_bytes V (itable s ! dp)) k))) t) (\<lambda>ip s. Ok (Some (ip, of_nat (k * DIRENT))) s))"
proof -
  let ?bs = "file_bytes V (itable s ! dp)"
  define g where "g = (\<lambda>off de (s :: 'a fstate_scheme). if de_inum de = 0 then Ok None s
        else if namecmp name (de_name de) = 0
             then bindr (iget (i_dev (inode_at dp s)) (ucast (de_inum de)) s) (\<lambda>ip s. Ok (Some (ip, off :: 32 word)) s)
             else Ok None s)"
  have dev: "i_dev (itable s ! dp) = d" "i_type (itable s ! dp) = T_DIR" using assms(1) by (simp_all add: dir_state_def file_state_def)
  have g1: "g off (dent ?bs k) t = bindr (iget d (ucast (de_inum (dent ?bs k))) t) (\<lambda>ip s. Ok (Some (ip, off)) s)"
    if "keep d s t" "dir_match ?bs name k" for k t off
    using that keep_sb [OF that(1)] dev by (simp add: g_def dir_match_def namecmp_dname inode_at_def)
  have "\<exists>t. txn d t V L {} \<and> keep d s t \<and>
      loopM (dir_offs (i_size (itable s ! dp))) (\<lambda>off s. bindr (readi dp ObjDst off (of_nat DIRENT) s) (\<lambda>(r, de) s.
        if r \<noteq> of_nat DIRENT then Panic ''dirlookup read'' else g off de s)) s =
      (case find (dir_match ?bs name) [0..<ndents ?bs] of
         None \<Rightarrow> Ok None t | Some k \<Rightarrow> g (of_nat (k * DIRENT)) (dent ?bs k) t)"
  proof (rule dir_scan [OF assms])
    show "g (of_nat (k * DIRENT)) (dent ?bs k) t = Ok None t" if "\<not> dir_match ?bs name k" for k t
      using that by (auto simp: g_def dir_match_def namecmp_dname)
    show "g (of_nat (k * DIRENT)) (dent ?bs k) t \<noteq> Ok None u" if "keep d s t" "dir_match ?bs name k" for k t u
      unfolding g1 [OF that] by (cases "iget d (ucast (de_inum (dent ?bs k))) t") auto
  qed
  then obtain t where t: "txn d t V L {}" "keep d s t"
      "dirlookup dp name s = (case dir_find ?bs name of None \<Rightarrow> Ok None t | Some k \<Rightarrow> g (of_nat (k * DIRENT)) (dent ?bs k) t)"
    unfolding dirlookup_def inode_at_def dir_find_def g_def using dev by auto
  have "dir_match ?bs name k" if "dir_find ?bs name = Some k" for k using that find_SomeD unfolding dir_find_def by fast
  then show ?thesis using t(1,2) unfolding t(3) by (intro exI [of _ t]) (auto simp: g1 split: option.split)
qed

section \<open>Insertion\<close>

text \<open>The slot that a new entry gets: the first free one, or the end. The entry is the number and the name, filled up with NULs.\<close>

definition dir_slot :: "byte list \<Rightarrow> nat" where
  "dir_slot bs = (case find (\<lambda>k. de_inum (dent bs k) = 0) [0..<ndents bs] of None \<Rightarrow> ndents bs | Some k \<Rightarrow> k)"

definition new_entry :: "byte list \<Rightarrow> 32 word \<Rightarrow> byte list" where
  "new_entry name inum = word_le 2 (ucast inum :: 16 word) @ lstrncpy name DIRSIZ"

lemma dir_slot_le: "dir_slot bs \<le> ndents bs" "dir_slot bs < ndents bs \<Longrightarrow> de_inum (dent bs (dir_slot bs)) = 0"
  using find_SomeD [of "\<lambda>k. de_inum (dent bs k) = 0" "[0..<ndents bs]"] by (auto simp: dir_slot_def split: option.split)

lemma length_lstrncpy: "length (lstrncpy t n) = n"
proof -
  have "length (cstr n t) \<le> n" using length_takeWhile_le [of "\<lambda>c. c \<noteq> 0" "take n t"] by (simp add: cstr_def)
  then show ?thesis by (simp add: lstrncpy_def)
qed

lemma new_entry_fields:
  "length (new_entry name inum) = DIRENT" "de_inum (new_entry name inum) = ucast inum" "dname (de_name (new_entry name inum)) = dname name"
proof -
  show "length (new_entry name inum) = DIRENT" by (simp add: new_entry_def length_lstrncpy DIRENT_def DIRSIZ_def)
  show "de_inum (new_entry name inum) = ucast inum"
    by (simp add: de_inum_def get16_def new_entry_def sub_def le_word_word_le)
  have "\<forall>c \<in> set (cstr 14 name). c \<noteq> 0" by (auto simp: cstr_def dest: set_takeWhileD)
  then have "takeWhile (\<lambda>c. c \<noteq> 0) (cstr 14 name @ replicate n 0) = cstr 14 name" for n
    by (cases n) (simp_all add: takeWhile_append1 takeWhile_append2 takeWhile_tail)
  moreover have "de_name (new_entry name inum) = lstrncpy name DIRSIZ" by (simp add: de_name_def new_entry_def sub_def length_lstrncpy)
  ultimately show "dname (de_name (new_entry name inum)) = dname name"
    using length_lstrncpy [of name 14] by (simp add: dname_def cstr_def [of _ "lstrncpy _ _"] DIRSIZ_def) (simp add: lstrncpy_def)
qed

lemma dent_overwrite:
  assumes "length e = DIRENT" "length bs mod DIRENT = 0" "k \<le> ndents bs"
  shows "ndents (overwrite bs (k * DIRENT) e) = max (ndents bs) (Suc k)" "length (overwrite bs (k * DIRENT) e) mod DIRENT = 0"
    "j < max (ndents bs) (Suc k) \<Longrightarrow> dent (overwrite bs (k * DIRENT) e) j = (if j = k then e else dent bs j)"
proof -
  obtain q where q: "length bs = 16 * q" using assms(2) by (metis DIRENT_def mod_0_imp_dvd dvdE)
  have k: "k \<le> q" using assms(3) q by (simp add: ndents_def DIRENT_def)
  let ?zs = "overwrite bs (k * 16) e"
  have o: "k * 16 \<le> length bs" using k q by simp
  have len: "length ?zs = 16 * max q (Suc k)" using overwrite_nth(1) [OF o, of e] assms(1) q by (simp add: DIRENT_def max_def)
  show "ndents (overwrite bs (k * DIRENT) e) = max (ndents bs) (Suc k)" "length (overwrite bs (k * DIRENT) e) mod DIRENT = 0"
    using len q by (simp_all add: ndents_def DIRENT_def)
  assume "j < max (ndents bs) (Suc k)"
  then have j: "16 * j + 16 \<le> length ?zs" using q unfolding len by (simp add: ndents_def DIRENT_def)
  have at: "?zs ! (16 * j + i) = (if j = k then e ! i else bs ! (16 * j + i))" if "i < 16" for i
  proof -
    have "k * 16 \<le> 16 * j + i \<and> 16 * j + i < k * 16 + 16 \<longleftrightarrow> j = k" using that by auto
    moreover have "16 * j + i < max (length bs) (k * 16 + length e)" using overwrite_nth(1) [OF o, of e] j that by simp
    ultimately show ?thesis using overwrite_nth(2) [OF o, of "16 * j + i" e] assms(1) that by (auto simp: DIRENT_def mult.commute)
  qed
  have jq: "16 * j + 16 \<le> length bs" if "j \<noteq> k" using that j k q unfolding len by (auto simp: max_def split: if_splits)
  show "dent (overwrite bs (k * DIRENT) e) j = (if j = k then e else dent bs j)"
    using j jq assms(1) at by (auto intro!: nth_equalityI simp: dent_def sub_def DIRENT_def mult.commute)
qed

lemma find_cong_upt: "(\<And>j. j < n \<Longrightarrow> P j = Q j) \<Longrightarrow> find P [0..<n] = find Q [0..<n]"
  by (rule find_cong) auto

lemma find_append: "find P (xs @ ys) = (case find P xs of None \<Rightarrow> find P ys | Some x \<Rightarrow> Some x)"
  by (induction xs) auto

lemma find_only: "k < n \<Longrightarrow> (\<And>j. j < n \<Longrightarrow> P j \<longleftrightarrow> j = k) \<Longrightarrow> find P [0..<n] = Some k"
proof -
  assume k: "k < n" and P: "\<And>j. j < n \<Longrightarrow> P j \<longleftrightarrow> j = k"
  then have "find P [0..<n] \<noteq> None" by (auto simp: find_None_iff)
  then show ?thesis using find_SomeD [of P "[0..<n]"] P by (cases "find P [0..<n]") fastforce+
qed

lemma dir_map_insert:
  assumes "length bs mod DIRENT = 0" "dir_map bs name = None" "(ucast inum :: 16 word) \<noteq> 0"
  shows "dir_map (overwrite bs (dir_slot bs * DIRENT) (new_entry name inum)) nm =
    (if dname nm = dname name then Some (ucast inum) else dir_map bs nm)"
proof -
  let ?k = "dir_slot bs" and ?e = "new_entry name inum"
  let ?zs = "overwrite bs (?k * DIRENT) ?e"
  note D = dent_overwrite [where e = ?e, OF new_entry_fields(1) assms(1) dir_slot_le(1)]
  have m: "dir_match ?zs nm j = (if j = ?k then dname nm = dname name else dir_match bs nm j)" if "j < max (ndents bs) (Suc ?k)" for j
    using D(3) [OF that] assms(3) by (auto simp: dir_match_def new_entry_fields)
  have no: "\<not> dir_match bs nm j" if "dname nm = dname name" "j < ndents bs" for j
    using assms(2) that by (auto simp: dir_map_def dir_find_def find_None_iff dir_match_def)
  show ?thesis
  proof (cases "dname nm = dname name")
    case True
    have "find (dir_match ?zs nm) [0..<ndents ?zs] = Some ?k"
      unfolding D(1) by (rule find_only) (use m no True dir_slot_le(1) [of bs] in \<open>auto simp: max_def split: if_splits\<close>)
    then show ?thesis using True D(3) [of ?k] by (simp add: dir_map_def dir_find_def new_entry_fields)
  next
    case False
    have f: "\<not> dir_match bs nm ?k" if "?k < ndents bs" using dir_slot_le(2) [OF that] by (simp add: dir_match_def)
    have m': "dir_match ?zs nm j = (j < ndents bs \<and> dir_match bs nm j)" if "j < max (ndents bs) (Suc ?k)" for j
      using m [OF that] f False that dir_slot_le(1) [of bs] by (auto simp: max_def split: if_splits)
    have "find (dir_match ?zs nm) [0..<max (ndents bs) (Suc ?k)] = find (\<lambda>j. j < ndents bs \<and> dir_match bs nm j) [0..<max (ndents bs) (Suc ?k)]"
      by (rule find_cong_upt) (rule m')
    also have "\<dots> = find (dir_match bs nm) [0..<ndents bs]"
    proof (cases "?k < ndents bs")
      case True
      then have n: "max (ndents bs) (Suc ?k) = ndents bs" by simp
      show ?thesis unfolding n by (rule find_cong_upt) simp
    next
      case False
      then have n: "max (ndents bs) (Suc ?k) = Suc (ndents bs)" using dir_slot_le(1) [of bs] by simp
      have "find (\<lambda>j. j < ndents bs \<and> dir_match bs nm j) [0..<ndents bs] = find (dir_match bs nm) [0..<ndents bs]"
        by (rule find_cong_upt) simp
      then show ?thesis unfolding n by (simp add: find_append split: option.split)
    qed
    finally have e: "dir_find ?zs nm = dir_find bs nm" by (simp add: dir_find_def D(1))
    have "de_inum (dent ?zs k) = de_inum (dent bs k)" if "dir_find bs nm = Some k" for k
    proof -
      have "k < ndents bs" "dir_match bs nm k" using that find_SomeD [of "dir_match bs nm" "[0..<ndents bs]" k] by (auto simp: dir_find_def)
      then show ?thesis using f D(3) [of k] by (cases "k = ?k") auto
    qed
    then show ?thesis using e False by (cases "dir_find bs nm") (auto simp: dir_map_def)
  qed
qed

text \<open>Writing one aligned entry is all or nothing.\<close>

lemma entry_span: "span (k * DIRENT) DIRENT = 1"
proof -
  have "k * 16 mod 1024 = 16 * (k mod 64)" using mult_mod_right [of 16 k 64] by (simp add: mult.commute)
  then have "k * 16 mod 1024 \<le> 1008" by simp
  then show ?thesis by (simp add: span_def DIRENT_def BSIZE_def)
qed

lemma entry_write:
  assumes "stopped V q (k * DIRENT) DIRENT r"
  shows "r = DIRENT \<or> r = 0 \<and> (\<forall>b < sb_size q. used V q b)"
proof -
  have "(k * 16 + r) mod 1024 mod 16 = r mod 16" by (simp add: mod_mod_cancel)
  then have "(k * 16 + r) mod 1024 = 0 \<Longrightarrow> r < 16 \<Longrightarrow> r = 0" by (metis mod_0 mod_less)
  then show ?thesis using assms by (cases "r < 16") (auto simp: stopped_def DIRENT_def BSIZE_def)
qed

lemma dirlink_scan:
  fixes s :: "'a fstate_scheme"
  assumes "dir_state d s V L dp" "card L < 26" "dir_map (file_bytes V (itable s ! dp)) name = None"
  shows "\<exists>t. txn d t V L {} \<and> keep d s t \<and> dirlink dp name inum s =
    bindr (writei dp (ObjSrc (new_entry name inum)) (of_nat (dir_slot (file_bytes V (itable s ! dp)) * DIRENT)) (of_nat DIRENT) t)
      (\<lambda>r s. if r \<noteq> of_nat DIRENT then Ok (-1) s else Ok 0 s)"
proof -
  let ?bs = "file_bytes V (itable s ! dp)"
  have "dir_find ?bs name = None" using assms(3) by (simp add: dir_map_def)
  then obtain t where t: "txn d t V L {}" "keep d s t" "dirlookup dp name s = Ok None t" using dirlookup_spec [OF assms(1,2), of name] by auto
  have it: "itable t = itable s" using keep_sb t(2) by blast
  have ds: "dir_state d t V L dp" using dir_state_keep [OF assms(1)] t by blast
  have "\<exists>u. txn d u V L {} \<and> keep d t u \<and>
      loopM (dir_offs (i_size (itable t ! dp))) (\<lambda>off s. bindr (readi dp ObjDst off (of_nat DIRENT) s) (\<lambda>(r, de) s.
        if r \<noteq> of_nat DIRENT then Panic ''dirlink read'' else if de_inum de = 0 then Ok (Some off) s else Ok None s)) t =
      (case find (\<lambda>k. de_inum (dent ?bs k) = 0) [0..<ndents ?bs] of
         None \<Rightarrow> Ok None u | Some k \<Rightarrow> if de_inum (dent ?bs k) = 0 then Ok (Some (of_nat (k * DIRENT))) u else Ok None u)"
    using dir_scan [OF ds assms(2), where P = "\<lambda>k. de_inum (dent ?bs k) = 0" and g = "\<lambda>off de s. if de_inum de = 0 then Ok (Some off) s else Ok None s" and msg = "''dirlink read''"]
    unfolding it by simp
  then obtain u where u: "txn d u V L {}" "keep d t u"
      "loopM (dir_offs (i_size (itable t ! dp))) (\<lambda>off s. bindr (readi dp ObjDst off (of_nat DIRENT) s) (\<lambda>(r, de) s.
        if r \<noteq> of_nat DIRENT then Panic ''dirlink read'' else if de_inum de = 0 then Ok (Some off) s else Ok None s)) t =
      Ok (map_option (\<lambda>k. of_nat (k * DIRENT)) (find (\<lambda>k. de_inum (dent ?bs k) = 0) [0..<ndents ?bs])) u"
    using find_SomeD [of "\<lambda>k. de_inum (dent ?bs k) = 0" "[0..<ndents ?bs]"] by (auto split: option.splits)
  have iu: "itable u = itable s" using keep_sb u(2) it by metis
  have "length (dir_offs (i_size (itable u ! dp))) = ndents ?bs" unfolding iu dir_offs_eq(1) [OF assms(1)] by simp
  then have "dirlink dp name inum s = bindr (writei dp (ObjSrc (new_entry name inum)) (of_nat (dir_slot ?bs * DIRENT)) (of_nat DIRENT) u)
      (\<lambda>r s. if r \<noteq> of_nat DIRENT then Ok (-1) s else Ok 0 s)"
    using t(3) u(3) unfolding dirlink_def inode_at_def new_entry_def dir_slot_def by (simp add: Let_def split: option.split)
  then show ?thesis using u keep_trans [OF t(2) u(2)] by blast
qed

lemma dirlink_spec:
  fixes s :: "'a fstate_scheme"
  assumes ds: "dir_state d s V L dp" and cL: "card L < 24" and new: "dir_map (file_bytes V (itable s ! dp)) name = None"
    and room: "unat (i_size (itable s ! dp)) + DIRENT \<le> MAXFILE * BSIZE"
  shows "\<exists>r t V' L'. dirlink dp name inum s = Ok r t \<and> dir_state d t V' L' dp \<and> card L' \<le> card L + 7 \<and>
    (r = 0 \<and> file_bytes V' (itable t ! dp) =
        overwrite (file_bytes V (itable s ! dp)) (dir_slot (file_bytes V (itable s ! dp)) * DIRENT) (new_entry name inum) \<or>
     r = -1 \<and> file_bytes V' (itable t ! dp) = file_bytes V (itable s ! dp) \<and> (\<forall>b < sb_size (sb s). used V' (sb s) b)) \<and>
    (\<forall>jp. file_ok V (sb s) jp \<longrightarrow> has_bytes V jp (unat (i_size jp)) \<longrightarrow> apart_files V (itable s ! dp) jp \<longrightarrow> file_bytes V' jp = file_bytes V jp)"
proof -
  let ?bs = "file_bytes V (itable s ! dp)" and ?e = "new_entry name inum"
  let ?off = "of_nat (dir_slot ?bs * DIRENT) :: 32 word"
  have "card L < 26" using cL by simp
  then obtain t where t: "txn d t V L {}" "keep d s t" "dirlink dp name inum s =
      bindr (writei dp (ObjSrc ?e) ?off (of_nat DIRENT) t) (\<lambda>r s. if r \<noteq> of_nat DIRENT then Ok (-1) s else Ok 0 s)"
    using dirlink_scan [OF ds _ new, of inum] by blast
  have k: "itable t = itable s" "sb t = sb s" using keep_sb [OF t(2)] by simp_all
  have fs: "file_state d t V L dp" using dir_state_keep [OF ds t(1,2)] by (simp add: dir_state_def)
  have z: "unat (i_size (itable s ! dp)) = ndents ?bs * DIRENT" using dir_offs_eq(2) [OF ds] .
  have le: "dir_slot ?bs * DIRENT \<le> unat (i_size (itable s ! dp))" unfolding z using dir_slot_le(1) [of ?bs] by simp
  have uo: "unat ?off = dir_slot ?bs * DIRENT" using le room by (intro unat_of_nat32) (simp add: NDM BSIZE_def)
  have un: "unat (of_nat DIRENT :: 32 word) = DIRENT" by (simp add: DIRENT_def)
  have p: "unat ?off \<le> unat (i_size (itable t ! dp))" "unat ?off + unat (of_nat DIRENT :: 32 word) \<le> MAXFILE * BSIZE"
    "unat (of_nat DIRENT :: 32 word) \<le> length ?e" "card L + 6 * span (unat ?off) (unat (of_nat DIRENT :: 32 word)) < 30"
    unfolding uo un k entry_span new_entry_fields using le room cL by simp_all
  obtain r v V' L' ip' where w: "writei dp (ObjSrc ?e) ?off (of_nat DIRENT) t = Ok (of_nat r) v" "stopped V' (sb s) (dir_slot ?bs * DIRENT) DIRENT r"
      "file_state d v V' L' dp" "card L' \<le> card L + 6 * 1 + 1" "only_inode dp ip' t v" "ip' = (itable s ! dp)\<lparr>i_addrs := i_addrs ip', i_size := i_size ip'\<rparr>"
      "file_bytes V' ip' = overwrite ?bs (dir_slot ?bs * DIRENT) (take r ?e)"
      "\<forall>jp. file_ok V (sb s) jp \<longrightarrow> has_bytes V jp (unat (i_size jp)) \<longrightarrow> apart_files V (itable s ! dp) jp \<longrightarrow>
         file_ok V' (sb s) jp \<and> apart_files V' ip' jp \<and> file_bytes V' jp = file_bytes V jp"
    using writei_spec [OF fs p] unfolding uo un entry_span k by (elim exE conjE) (rule that; assumption)
  have ip: "itable v ! dp = ip'" using w(5) fs by (simp add: only_inode_def file_state_def)
  have r: "r = DIRENT \<or> r = 0 \<and> (\<forall>b < sb_size (sb s). used V' (sb s) b)" by (rule entry_write) (rule w(2))
  have lb: "length ?bs mod DIRENT = 0" using ds by (simp add: dir_state_def file_bytes_def)
  have fb: "file_bytes V' ip' = (if r = DIRENT then overwrite ?bs (dir_slot ?bs * DIRENT) ?e else ?bs)"
    using w(7) r new_entry_fields(1) [of name inum] by (auto simp: overwrite_def DIRENT_def)
  have "length (file_bytes V' ip') mod DIRENT = 0"
    unfolding fb using lb dent_overwrite(2) [OF new_entry_fields(1) lb dir_slot_le(1)] by simp
  then have "unat (i_size ip') mod DIRENT = 0" by (simp add: file_bytes_def)
  moreover have "i_type ip' = T_DIR" using ds by (subst w(6)) (simp add: dir_state_def)
  ultimately have "dir_state d v V' L' dp" using w(3) ip by (simp add: dir_state_def)
  moreover have "dirlink dp name inum s = Ok (if r = DIRENT then 0 else -1) v" using t(3) w(1) r by (auto simp: DIRENT_def)
  ultimately show ?thesis using w(4,8) r fb ip
    by (intro exI [of _ "if r = DIRENT then 0 else -1"] exI [of _ v] exI [of _ V'] exI [of _ L']) auto
qed

text \<open>
  C8. Directories are maps from names to inode numbers. \<open>dirlink\<close> of a name that the directory does not have
  returns 0 and the map then has the name with its number, every other name as before; or it returns -1, the
  directory is unchanged and every block of the disk is in use. With a name that is there it takes and gives
  back a reference to that inode and returns -1. The directory stays well formed, files that share no block
  with it keep their bytes, and \<open>dirlookup\<close> of any name then gets the inode of the map, or nothing. Names count
  up to 14 characters.
\<close>

theorem dirlink_dirlookup:
  fixes s :: "'a fstate_scheme"
  assumes "dir_state d s V L dp" "card L < 19" "unat (i_size (itable s ! dp)) + DIRENT \<le> MAXFILE * BSIZE" "(ucast inum :: 16 word) \<noteq> 0"
  defines "m \<equiv> dir_map (file_bytes V (itable s ! dp))"
  shows "case m name of
    Some n \<Rightarrow> \<exists>u. keep d s u \<and> dirlink dp name inum s = bindr (iget d (ucast n) u) (\<lambda>ip s. bindr (iput ip s) (\<lambda>_ s. Ok (-1) s))
  | None \<Rightarrow> \<exists>r t V' L'. dirlink dp name inum s = Ok r t \<and> dir_state d t V' L' dp \<and>
      (let m' = dir_map (file_bytes V' (itable t ! dp)) in
       (r = 0 \<and> m' = (\<lambda>nm. if dname nm = dname name then Some (ucast inum) else m nm) \<or>
        r = -1 \<and> m' = m \<and> (\<forall>b < sb_size (sb s). used V' (sb s) b)) \<and>
       (\<forall>nm. \<exists>u off. keep d t u \<and> dirlookup dp nm t =
          (case m' nm of None \<Rightarrow> Ok None u | Some n \<Rightarrow> bindr (iget d (ucast n) u) (\<lambda>ip s. Ok (Some (ip, off)) s)))) \<and>
      (\<forall>jp. file_ok V (sb s) jp \<longrightarrow> has_bytes V jp (unat (i_size jp)) \<longrightarrow> apart_files V (itable s ! dp) jp \<longrightarrow> file_bytes V' jp = file_bytes V jp)"
proof (cases "m name")
  case (Some n)
  then obtain k where k: "dir_find (file_bytes V (itable s ! dp)) name = Some k" "n = de_inum (dent (file_bytes V (itable s ! dp)) k)"
    by (auto simp: m_def dir_map_def)
  have "card L < 26" using assms(2) by simp
  then obtain u where "keep d s u" "dirlookup dp name s = bindr (iget d (ucast n) u) (\<lambda>ip s. Ok (Some (ip, of_nat (k * DIRENT))) s)"
    using dirlookup_spec [OF assms(1), of name] k by auto
  then show ?thesis using Some by (auto simp: dirlink_def bindr_assoc intro!: exI [of _ u])
next
  case None
  have c: "card L < 24" using assms(2) by simp
  obtain r t V' L' where w: "dirlink dp name inum s = Ok r t" "dir_state d t V' L' dp" "card L' \<le> card L + 7"
     "r = 0 \<and> file_bytes V' (itable t ! dp) =
        overwrite (file_bytes V (itable s ! dp)) (dir_slot (file_bytes V (itable s ! dp)) * DIRENT) (new_entry name inum) \<or>
      r = -1 \<and> file_bytes V' (itable t ! dp) = file_bytes V (itable s ! dp) \<and> (\<forall>b < sb_size (sb s). used V' (sb s) b)"
     "\<forall>jp. file_ok V (sb s) jp \<longrightarrow> has_bytes V jp (unat (i_size jp)) \<longrightarrow> apart_files V (itable s ! dp) jp \<longrightarrow> file_bytes V' jp = file_bytes V jp"
    using dirlink_spec [OF assms(1) c None [unfolded m_def] assms(3), of inum] by (elim exE conjE) (rule that; assumption)
  let ?m = "dir_map (file_bytes V' (itable t ! dp))"
  have "length (file_bytes V (itable s ! dp)) mod DIRENT = 0" using assms(1) by (simp add: dir_state_def file_bytes_def)
  then have "r = 0 \<and> ?m = (\<lambda>nm. if dname nm = dname name then Some (ucast inum) else m nm) \<or>
      r = -1 \<and> ?m = m \<and> (\<forall>b < sb_size (sb s). used V' (sb s) b)"
    using w(4) dir_map_insert [OF _ None [unfolded m_def] assms(4)] by (auto simp: m_def)
  moreover have "\<exists>u off. keep d t u \<and> dirlookup dp nm t =
      (case ?m nm of None \<Rightarrow> Ok None u | Some n \<Rightarrow> bindr (iget d (ucast n) u) (\<lambda>ip s. Ok (Some (ip, off)) s))" for nm
    using dirlookup_spec [OF w(2), of nm] w(3) assms(2) by (cases "dir_find (file_bytes V' (itable t ! dp)) nm") (auto simp: dir_map_def)
  ultimately show ?thesis using w(1,2,5) None unfolding Let_def
    by (simp del: split_paired_Ex) (intro exI [of _ r] exI [of _ t] exI [of _ V'] exI [of _ L'], blast)
qed

definition demo_dir :: inode where
  "demo_dir = bss_inode\<lparr>i_dev := 1, i_inum := 1, i_ref := 1, i_valid := True, i_type := T_DIR, i_nlink := 1\<rparr>"

lemma demo_dir_state: "dir_state 1 (demo_fs demo_blocks [demo_dir]) demo_blocks {} 0"
proof -
  have "fblk demo_blocks demo_dir k = 0" for k by (simp add: fblk_def ind_def demo_dir_def bss_inode_def NDIRECT_def)
  then have "file_ok demo_blocks demo_sb demo_dir" by (simp add: file_ok_def ind_def demo_dir_def bss_inode_def NDIRECT_def)
  then show ?thesis
    using demo_txn demo_fs_ok by (simp add: dir_state_def file_state_def demo_dir_def bss_inode_def has_bytes_def demo_sb_def)
qed

theorem dirlink_dirlookup_witness:
  "\<exists>r t V' L'. dirlink 0 [104, 105] 5 (demo_fs demo_blocks [demo_dir]) = Ok r t \<and> dir_state 1 t V' L' 0 \<and>
     (r = 0 \<and> dir_map (file_bytes V' (itable t ! 0)) [104, 105, 0] = Some 5 \<or> r = -1 \<and> dir_map (file_bytes V' (itable t ! 0)) [104, 105, 0] = None)"
proof -
  have z: "file_bytes demo_blocks demo_dir = []" by (simp add: file_bytes_def demo_dir_def bss_inode_def)
  have m: "dir_map [] = (\<lambda>nm. None)" by (rule ext) (simp add: dir_map_def dir_find_def ndents_def)
  have i: "itable (demo_fs demo_blocks [demo_dir]) ! 0 = demo_dir" by simp
  have u: "(ucast (5 :: 32 word) :: 16 word) = 5" by simp
  have n: "dname [104, 105, 0] = dname [104, 105]" by (simp add: dname_def cstr_def DIRSIZ_def)
  have "unat (i_size demo_dir) + DIRENT \<le> MAXFILE * BSIZE" by (simp add: demo_dir_def bss_inode_def NDM BSIZE_def DIRENT_def)
  then have "\<exists>r t V' L'. dirlink 0 [104, 105] 5 (demo_fs demo_blocks [demo_dir]) = Ok r t \<and> dir_state 1 t V' L' 0 \<and>
     (r = 0 \<and> dir_map (file_bytes V' (itable t ! 0)) = (\<lambda>nm. if dname nm = dname [104, 105] then Some 5 else None) \<or>
      r = -1 \<and> dir_map (file_bytes V' (itable t ! 0)) = (\<lambda>nm. None))"
    using dirlink_dirlookup [OF demo_dir_state, of 5 "[104, 105]"] unfolding i z m u Let_def by (simp del: split_paired_Ex) blast
  then show ?thesis
  proof (elim exE conjE)
    fix r t V' L'
    assume "dirlink 0 [104, 105] 5 (demo_fs demo_blocks [demo_dir]) = Ok r t" "dir_state 1 t V' L' 0"
      "r = 0 \<and> dir_map (file_bytes V' (itable t ! 0)) = (\<lambda>nm. if dname nm = dname [104, 105] then Some 5 else None) \<or>
       r = -1 \<and> dir_map (file_bytes V' (itable t ! 0)) = (\<lambda>nm. None)"
    then show ?thesis using n by (intro exI [of _ r] exI [of _ t] exI [of _ V'] exI [of _ L']) auto
  qed
qed

section \<open>Path names\<close>

text \<open>The elements of a path: what is between the slashes, empty parts left out.\<close>

fun splits :: "byte list \<Rightarrow> byte list list" where
  "splits [] = [[]]"
| "splits (c # cs) = (if c = slash then [] # splits cs else (case splits cs of e # es \<Rightarrow> (c # e) # es | [] \<Rightarrow> []))"

definition elems :: "byte list \<Rightarrow> byte list list" where
  "elems path = filter (\<lambda>e. e \<noteq> []) (splits path)"

lemma splits_cut: "splits path = takeWhile (\<lambda>c. c \<noteq> slash) path #
    (case dropWhile (\<lambda>c. c \<noteq> slash) path of [] \<Rightarrow> [] | c # cs \<Rightarrow> splits cs)"
  by (induction path) auto

lemma elems_drop: "elems (dropWhile (\<lambda>c. c = slash) path) = elems path"
  by (induction path) (auto simp: elems_def)

lemma elems_skip: "path \<noteq> [] \<Longrightarrow> hd path \<noteq> slash \<Longrightarrow>
    elems path = takeWhile (\<lambda>c. c \<noteq> slash) path # elems (dropWhile (\<lambda>c. c \<noteq> slash) path)"
proof (cases "dropWhile (\<lambda>c. c \<noteq> slash) path")
  case (Cons c cs)
  assume "path \<noteq> []" "hd path \<noteq> slash"
  then have "takeWhile (\<lambda>c. c \<noteq> slash) path \<noteq> []" by (cases path) auto
  moreover have "c = slash" using Cons hd_dropWhile [of "\<lambda>c. c \<noteq> slash" path] by auto
  ultimately show ?thesis unfolding elems_def splits_cut [of path] Cons by simp
next
  case Nil
  assume "path \<noteq> []" "hd path \<noteq> slash"
  then have "takeWhile (\<lambda>c. c \<noteq> slash) path \<noteq> []" by (cases path) auto
  then show ?thesis unfolding elems_def splits_cut [of path] Nil by simp
qed

text \<open>
  C31. \<open>skipelem\<close> takes a path apart element by element: it returns nothing exactly when the path has no element
  left, and otherwise the first element, cut at 14 characters and with a NUL when it is shorter, and a rest that
  has exactly the other elements and does not begin with a slash.
\<close>

theorem skipelem_elements:
  "case elems path of
     [] \<Rightarrow> skipelem path = None
   | e # es \<Rightarrow> \<exists>rest. skipelem path = Some (rest, if DIRSIZ \<le> length e then take DIRSIZ e else e @ [0]) \<and>
       elems rest = es \<and> takeWhile (\<lambda>c. c = slash) rest = [] \<and> slash \<notin> set e"
proof (cases "dropWhile (\<lambda>c. c = slash) path = []")
  case True
  have "elems path = elems []" using elems_drop [of path] unfolding True by simp
  then have "elems path = []" by (simp add: elems_def)
  then show ?thesis using True by (simp add: skipelem_def)
next
  case False
  let ?p = "dropWhile (\<lambda>c. c = slash) path"
  have "elems path = takeWhile (\<lambda>c. c \<noteq> slash) ?p # elems (dropWhile (\<lambda>c. c \<noteq> slash) ?p)"
    using elems_skip [OF False] hd_dropWhile [OF False] elems_drop [of path] by simp
  moreover have "slash \<notin> set (takeWhile (\<lambda>c. c \<noteq> slash) ?p)" by (auto dest: set_takeWhileD)
  moreover have "takeWhile (\<lambda>c. c = slash) (dropWhile (\<lambda>c. c = slash) xs) = []" for xs :: "byte list"
    by (induction xs) auto
  ultimately show ?thesis using False elems_drop by (auto simp: skipelem_def Let_def)
qed

end
