(* ===== verification/Ulib.thy ===== *)
theory Ulib
  imports Console
begin

text \<open>
  The C library of the user programs, user/ulib.c and user/printf.c. A C string is the list of its bytes before the
  NUL. What a program reads from a descriptor is the list of the pieces that the kernel will deliver.
\<close>

section \<open>Strings\<close>

fun ustrcmp :: "byte list \<Rightarrow> byte list \<Rightarrow> int" where
  "ustrcmp (a # p) (b # q) = (if a = b then ustrcmp p q else uint a - uint b)"
| "ustrcmp (a # p) [] = uint a"
| "ustrcmp [] (b # q) = - uint b"
| "ustrcmp [] [] = 0"

fun strchr :: "byte list \<Rightarrow> byte \<Rightarrow> nat option" where
  "strchr [] c = None"
| "strchr (x # xs) c = (if x = 0 then None else if x = c then Some 0 else map_option Suc (strchr xs c))"

fun atoi_from :: "32 word \<Rightarrow> byte list \<Rightarrow> 32 word" where
  "atoi_from n [] = n"
| "atoi_from n (c # s) = (if 48 \<le> c \<and> c \<le> 57 then atoi_from (n * 10 + ucast c - 48) s else n)"

definition atoi :: "byte list \<Rightarrow> 32 word" where
  "atoi s = atoi_from 0 s"

definition umemmove :: "memory \<Rightarrow> addr \<Rightarrow> addr \<Rightarrow> nat \<Rightarrow> memory" where
  "umemmove m vdst vsrc n =
     (if vsrc > vdst then copy_up m vdst vsrc n else copy_down m (vdst + of_nat n) (vsrc + of_nat n) n)"

definition umemcpy :: "memory \<Rightarrow> addr \<Rightarrow> addr \<Rightarrow> nat \<Rightarrow> memory" where
  "umemcpy m dst src n = umemmove m dst src n"

lemma ustrcmp_eq_0: "0 \<notin> set p \<Longrightarrow> 0 \<notin> set q \<Longrightarrow> ustrcmp p q = 0 \<longleftrightarrow> p = q"
  by (induction p q rule: ustrcmp.induct) (auto simp: word_uint_eq_iff)

lemma strchr_less: "strchr p c = Some q \<Longrightarrow> q < length p"
  by (induction p arbitrary: q) (auto split: if_splits)

section \<open>Input\<close>

text \<open>
  A \<open>read\<close> returns at most as many bytes as it asks for, from the piece that is next. An empty piece is the end of
  the file or an error.
\<close>

fun uread :: "byte list list \<Rightarrow> nat \<Rightarrow> byte list \<times> byte list list" where
  "uread [] n = ([], [])"
| "uread (c # cs) n = (take n c, if length c \<le> n then cs else drop n c # cs)"

lemma uread_concat: "fst (uread inp n) @ concat (snd (uread inp n)) = concat inp"
  by (cases "(inp, n)" rule: uread.cases) auto

text \<open>The line that \<open>gets\<close> stores, without the NUL it adds, given the room that is left.\<close>

fun gets_from :: "nat \<Rightarrow> byte list list \<Rightarrow> byte list \<times> byte list list" where
  "gets_from 0 inp = ([], inp)"
| "gets_from (Suc n) inp =
     (case uread inp 1 of (c, inp) \<Rightarrow>
        if c = [] then ([], inp)
        else if hd c = 10 \<or> hd c = 13 then (c, inp)
        else case gets_from n inp of (l, inp) \<Rightarrow> (hd c # l, inp))"

definition ugets :: "nat \<Rightarrow> byte list list \<Rightarrow> byte list \<times> byte list list" where
  "ugets n inp = gets_from (n - 1) inp"

lemma gets_from_concat: "fst (gets_from n inp) @ concat (snd (gets_from n inp)) = concat inp \<and> length (fst (gets_from n inp)) \<le> n"
proof (induction n arbitrary: inp)
  case (Suc n)
  obtain c inp' where u: "uread inp 1 = (c, inp')" by force
  have c: "c @ concat inp' = concat inp" using uread_concat [of inp 1] u by simp
  have l: "length c \<le> 1" using u by (cases inp) auto
  show ?case using Suc.IH [of inp'] u c l by (cases c) (auto split: prod.split)
qed simp

lemma ugets_progress: "ugets n inp = (l, inp') \<Longrightarrow> l \<noteq> [] \<Longrightarrow> length (concat inp') < length (concat inp)"
proof -
  assume a: "ugets n inp = (l, inp')" "l \<noteq> []"
  then have "l @ concat inp' = concat inp" using gets_from_concat [of "n - 1" inp] by (simp add: ugets_def)
  then have "length l + length (concat inp') = length (concat inp)" by (metis length_append)
  then show ?thesis using a(2) by (cases l) auto
qed

section \<open>Formatted output\<close>

definition udigits :: "byte list" where
  "udigits = chars ''0123456789ABCDEF''"

function udigits_rev :: "64 word \<Rightarrow> 64 word \<Rightarrow> byte list" where
  "udigits_rev base x =
     (if base < 2 then []
      else udigits ! unat (x mod base) # (if x div base \<noteq> 0 then udigits_rev base (x div base) else []))"
  by pat_completeness auto
termination
proof (relation "measure (\<lambda>(base, x). unat x)")
  fix base x :: "64 word"
  assume b: "\<not> base < 2" and d: "x div base \<noteq> 0"
  have "2 \<le> unat base" using b by (simp add: word_less_nat_alt not_less)
  moreover have "unat x \<noteq> 0" using d by (auto simp: unat_eq_0)
  ultimately have "unat x div unat base < unat x" by (intro div_less_dividend) auto
  then show "((base, x div base), (base, x)) \<in> measure (\<lambda>(base, x). unat x)" by (simp add: unat_div)
qed simp

declare udigits_rev.simps [simp del]

definition uprintint :: "64 word \<Rightarrow> 64 word \<Rightarrow> bool \<Rightarrow> byte list" where
  "uprintint xx base sign =
     (let neg = sign \<and> sint xx < 0;
          x = (if neg then - xx else xx)
      in rev (udigits_rev base x @ (if neg then [45] else [])))"

definition uprintptr :: "64 word \<Rightarrow> byte list" where
  "uprintptr x = chars ''0x'' @ map (\<lambda>i. udigits ! unat (drop_bit 60 (push_bit (4 * i) x))) [0..<16]"

text \<open>The characters of a conversion, by how much \<open>i\<close> advances and the remaining arguments.\<close>

definition vprintf_conv :: "byte \<Rightarrow> byte \<Rightarrow> byte \<Rightarrow> va_arg list \<Rightarrow> byte list \<times> nat \<times> va_arg list" where
  "vprintf_conv c0 c1 c2 ap =
     (let d = of_char CHR ''d''; l = of_char CHR ''l''; u = of_char CHR ''u''; x = of_char CHR ''x'';
          int32 = scast (ucast (va_num ap) :: 32 word); uint32 = ucast (ucast (va_num ap) :: 32 word)
      in
      if c0 = d then (uprintint int32 10 True, 0, tl ap)
      else if c0 = l \<and> c1 = d then (uprintint (va_num ap) 10 True, 1, tl ap)
      else if c0 = l \<and> c1 = l \<and> c2 = d then (uprintint (va_num ap) 10 True, 2, tl ap)
      else if c0 = u then (uprintint uint32 10 False, 0, tl ap)
      else if c0 = l \<and> c1 = u then (uprintint (va_num ap) 10 False, 1, tl ap)
      else if c0 = l \<and> c1 = l \<and> c2 = u then (uprintint (va_num ap) 10 False, 2, tl ap)
      else if c0 = x then (uprintint uint32 16 False, 0, tl ap)
      else if c0 = l \<and> c1 = x then (uprintint (va_num ap) 16 False, 1, tl ap)
      else if c0 = l \<and> c1 = l \<and> c2 = x then (uprintint (va_num ap) 16 False, 2, tl ap)
      else if c0 = of_char CHR ''p'' then (uprintptr (va_num ap), 0, tl ap)
      else if c0 = of_char CHR ''c'' then ([ucast (va_num ap)], 0, tl ap)
      else if c0 = of_char CHR ''s''
      then (case va_str ap of None \<Rightarrow> chars ''(null)'' | Some str \<Rightarrow> takeWhile (\<lambda>c. c \<noteq> 0) str, 0, tl ap)
      else if c0 = 37 then ([37], 0, ap)
      else ([37, c0], 0, ap))"

text \<open>The loop over the format; the flag is whether the last character was a percent sign.\<close>

function vprintf :: "bool \<Rightarrow> byte list \<Rightarrow> va_arg list \<Rightarrow> byte list" where
  "vprintf state fmt ap =
     (let c0 = chr_at fmt 0 in
      if c0 = 0 then []
      else if \<not> state
      then (if c0 = 37 then vprintf True (drop 1 fmt) ap else c0 # vprintf False (drop 1 fmt) ap)
      else
        let c1 = chr_at fmt 1; c2 = (if c1 \<noteq> 0 then chr_at fmt 2 else 0)
        in case vprintf_conv c0 c1 c2 ap of (out, k, ap) \<Rightarrow> out @ vprintf False (drop (1 + k) fmt) ap)"
  by pat_completeness auto
termination
  by (relation "measure (\<lambda>(state, fmt, ap). length fmt)") (auto simp: chr_at_def split: if_splits)

declare vprintf.simps [simp del]

definition uprintf :: "string \<Rightarrow> va_arg list \<Rightarrow> byte list" where
  "uprintf fmt ap = vprintf False (chars fmt) ap"

end
