(* ===== verification/Grep.thy ===== *)
theory Grep
  imports Ulib
begin

text \<open>
  The \<open>grep\<close> program of the user library: the matcher of \<open>match\<close>, \<open>matchhere\<close> and \<open>matchstar\<close>, and the loop
  that reads its input piece by piece into a buffer of 1024 bytes and prints the lines that match. The matcher
  is compared with the language of a pattern, the loop with a filter on the lines of the whole input.
\<close>

section \<open>The matcher\<close>

text \<open>C strings are lists of bytes without their terminator; \<open>re[0] == 0\<close> is that the list is empty.\<close>

function matchhere :: "byte list \<Rightarrow> byte list \<Rightarrow> bool" and matchstar :: "byte \<Rightarrow> byte list \<Rightarrow> byte list \<Rightarrow> bool" where
  "matchhere re line =
     (if re = [] then True
      else if tl re \<noteq> [] \<and> hd (tl re) = 42 then matchstar (hd re) (tl (tl re)) line
      else if hd re = 36 \<and> tl re = [] then line = []
      else if line \<noteq> [] \<and> (hd re = 46 \<or> hd re = hd line) then matchhere (tl re) (tl line)
      else False)"
| "matchstar c re line =
     (if matchhere re line then True
      else if line \<noteq> [] \<and> (hd line = c \<or> c = 46) then matchstar c re (tl line)
      else False)"
  by pat_completeness auto
termination
  by (relation "inv_image (less_than <*lex*> less_than <*lex*> less_than)
      (\<lambda>x. case x of Inl (re, line) \<Rightarrow> (length re, length line, 0) | Inr (c, re, line) \<Rightarrow> (length re, length line, Suc 0))")
    (auto simp: neq_Nil_conv)

declare matchhere.simps [simp del] matchstar.simps [simp del]

function match_any :: "byte list \<Rightarrow> byte list \<Rightarrow> bool" where
  "match_any re line = (if matchhere re line then True else if line \<noteq> [] then match_any re (tl line) else False)"
  by pat_completeness auto
termination
  by (relation "measure (\<lambda>(re, line). length line)") auto

declare match_any.simps [simp del]

definition match :: "byte list \<Rightarrow> byte list \<Rightarrow> bool" where
  "match re line = (if re \<noteq> [] \<and> hd re = 94 then matchhere (tl re) line else match_any re line)"

section \<open>The language of a pattern\<close>

text \<open>A pattern is a sequence of single characters and repeated characters, where a dot is any character. A
  last \<open>$\<close> that is not repeated anchors the pattern at the end of the line.\<close>

datatype item = Single byte | Repeat byte

fun items :: "byte list \<Rightarrow> item list" where
  "items [] = []"
| "items [c] = (if c = 36 then [] else [Single c])"
| "items (c # d # re) = (if d = 42 then Repeat c # items re else Single c # items (d # re))"

fun at_end :: "byte list \<Rightarrow> bool" where
  "at_end [] = False"
| "at_end [c] = (c = 36)"
| "at_end (c # d # re) = (if d = 42 then at_end re else at_end (d # re))"

definition fits :: "byte \<Rightarrow> byte \<Rightarrow> bool" where
  "fits c x \<longleftrightarrow> c = 46 \<or> c = x"

fun plang :: "item list \<Rightarrow> byte list set" where
  "plang [] = {[]}"
| "plang (Single c # r) = {x # w | x w. fits c x \<and> w \<in> plang r}"
| "plang (Repeat c # r) = {xs @ w | xs w. (\<forall>x \<in> set xs. fits c x) \<and> w \<in> plang r}"

text \<open>Some prefix of the text, or all of it, is in the language.\<close>

definition prefix_in :: "byte list \<Rightarrow> byte list \<Rightarrow> bool" where
  "prefix_in re line \<longleftrightarrow> (\<exists>u v. line = u @ v \<and> u \<in> plang (items re) \<and> (at_end re \<longrightarrow> v = []))"

lemma prefix_in_Nil: "prefix_in [] line"
  by (simp add: prefix_in_def)

lemma prefix_in_end: "prefix_in [36] line \<longleftrightarrow> line = []"
  by (simp add: prefix_in_def)

lemma prefix_in_Single:
  assumes "re = [] \<or> hd re \<noteq> 42" "re = [] \<longrightarrow> c \<noteq> 36"
  shows "prefix_in (c # re) line \<longleftrightarrow> line \<noteq> [] \<and> fits c (hd line) \<and> prefix_in re (tl line)"
proof -
  have "items (c # re) = Single c # items re" "at_end (c # re) = at_end re" using assms by (cases re; simp)+
  then show ?thesis by (cases line) (auto simp: prefix_in_def Cons_eq_append_conv)
qed

lemma plang_Repeat_Cons: "fits c x \<Longrightarrow> u \<in> plang (Repeat c # r) \<Longrightarrow> x # u \<in> plang (Repeat c # r)"
proof -
  assume a: "fits c x" "u \<in> plang (Repeat c # r)"
  then obtain xs w where "u = xs @ w" "\<forall>y \<in> set xs. fits c y" "w \<in> plang r" by auto
  then show ?thesis using a(1) unfolding plang.simps mem_Collect_eq by (intro exI [of _ "x # xs"] exI [of _ w]) simp
qed

lemma prefix_in_Repeat:
  "prefix_in (c # 42 # re) line \<longleftrightarrow> prefix_in re line \<or> line \<noteq> [] \<and> fits c (hd line) \<and> prefix_in (c # 42 # re) (tl line)"
proof
  assume "prefix_in (c # 42 # re) line"
  then obtain u v where u: "line = u @ v" "u \<in> plang (Repeat c # items re)" "at_end re \<longrightarrow> v = []" by (auto simp: prefix_in_def)
  then obtain xs w where x: "line = (xs @ w) @ v" "\<forall>x \<in> set xs. fits c x" "w \<in> plang (items re)" by auto
  show "prefix_in re line \<or> line \<noteq> [] \<and> fits c (hd line) \<and> prefix_in (c # 42 # re) (tl line)"
  proof (cases xs)
    case Nil
    then show ?thesis using x u(3) by (auto simp: prefix_in_def)
  next
    case (Cons y ys)
    then have "ys @ w \<in> plang (items (c # 42 # re))" using x by auto
    then have "prefix_in (c # 42 # re) ((ys @ w) @ v)" using u(3) unfolding prefix_in_def by (intro exI [of _ "ys @ w"] exI [of _ v]) simp
    then show ?thesis using x Cons by simp
  qed
next
  assume "prefix_in re line \<or> line \<noteq> [] \<and> fits c (hd line) \<and> prefix_in (c # 42 # re) (tl line)"
  then show "prefix_in (c # 42 # re) line"
  proof
    assume "prefix_in re line"
    then obtain u v where "line = u @ v" "u \<in> plang (items re)" "at_end re \<longrightarrow> v = []" by (auto simp: prefix_in_def)
    moreover have "[] @ u \<in> plang (Repeat c # items re)" if "u \<in> plang (items re)" for u unfolding plang.simps using that by fastforce
    ultimately show ?thesis unfolding prefix_in_def by (intro exI [of _ u] exI [of _ v]) simp
  next
    assume "line \<noteq> [] \<and> fits c (hd line) \<and> prefix_in (c # 42 # re) (tl line)"
    then obtain x u v where l: "line = x # u @ v" "fits c x" "u \<in> plang (Repeat c # items re)" "at_end re \<longrightarrow> v = []"
      by (cases line) (auto simp: prefix_in_def)
    have "x # u \<in> plang (Repeat c # items re)" by (rule plang_Repeat_Cons) (use l in auto)
    then show ?thesis using l unfolding prefix_in_def by (intro exI [of _ "x # u"] exI [of _ v]) simp
  qed
qed

lemma matchhere_prefix: "matchhere re line = prefix_in re line" "matchstar c re line = prefix_in (c # 42 # re) line"
proof (induction re line and c re line rule: matchhere_matchstar.induct)
  case (1 re line)
  show ?case
  proof (cases re)
    case Nil
    then show ?thesis by (simp add: matchhere.simps prefix_in_Nil)
  next
    case (Cons c r)
    consider "r \<noteq> [] \<and> hd r = 42" | "\<not> (r \<noteq> [] \<and> hd r = 42)" "c = 36 \<and> r = []" | "\<not> (r \<noteq> [] \<and> hd r = 42)" "\<not> (c = 36 \<and> r = [])" by blast
    then show ?thesis
    proof cases
      case c1: 1
      then obtain r' where "re = c # 42 # r'" using Cons by (cases r) auto
      then show ?thesis using 1(1) by (simp add: matchhere.simps [of "c # 42 # r'"])
    next
      case 2
      then show ?thesis using Cons by (simp add: matchhere.simps [of "[36]"] prefix_in_end)
    next
      case c3: 3
      have "matchhere re line = (line \<noteq> [] \<and> fits c (hd line) \<and> prefix_in r (tl line))"
        using 1(2) c3 Cons by (auto simp: matchhere.simps [of "c # r"] fits_def)
      then show ?thesis using prefix_in_Single [of r c line] c3 Cons by blast
    qed
  qed
next
  case (2 c re line)
  show ?case using 2 prefix_in_Repeat [of c re line] by (auto simp: matchstar.simps [of c re line] fits_def)
qed

lemma match_any_suffix: "match_any re line \<longleftrightarrow> (\<exists>w t. line = w @ t \<and> prefix_in re t)"
proof (induction line)
  case Nil
  show ?case by (simp add: match_any.simps [of re "[]"] matchhere_prefix)
next
  case (Cons x line)
  have "match_any re (x # line) = (prefix_in re (x # line) \<or> match_any re line)"
    by (simp add: match_any.simps [of re "x # line"] matchhere_prefix)
  then show ?case unfolding Cons.IH by (auto simp: Cons_eq_append_conv)
qed

definition pat_start :: "byte list \<Rightarrow> bool" where
  "pat_start re \<longleftrightarrow> re \<noteq> [] \<and> hd re = 94"

definition pat_body :: "byte list \<Rightarrow> byte list" where
  "pat_body re = (if pat_start re then tl re else re)"

text \<open>
  C28. The matcher of \<open>grep\<close> decides the language of its patterns: \<open>match\<close> accepts a line exactly when some part of
  it is a word of the pattern, at the start of the line when the pattern begins with \<open>^\<close> and at its end when it
  ends in \<open>$\<close>. Both recursions end for every pattern and every line.
\<close>

theorem match_language:
  "match re line \<longleftrightarrow> (\<exists>w u v. line = w @ u @ v \<and> u \<in> plang (items (pat_body re)) \<and>
     (pat_start re \<longrightarrow> w = []) \<and> (at_end (pat_body re) \<longrightarrow> v = []))"
proof (cases "pat_start re")
  case True
  then show ?thesis by (auto simp: match_def pat_start_def pat_body_def matchhere_prefix prefix_in_def)
next
  case False
  then show ?thesis unfolding match_def pat_start_def [symmetric] pat_body_def
    by (auto simp: match_any_suffix prefix_in_def)
qed

text \<open>The pattern \<open>^a.*c$\<close> on two lines.\<close>

theorem match_language_witness:
  "match [94, 97, 46, 42, 99, 36] [97, 98, 99] \<and>
   (\<exists>w u v. [97, 98, 99] = w @ u @ v \<and> u \<in> plang (items (pat_body [94, 97, 46, 42, 99, 36])) \<and> w = [] \<and> v = []) \<and>
   \<not> match [94, 97, 46, 42, 99, 36] [98, 97, 99]"
proof -
  have m: "match [94, 97, 46, 42, 99, 36] [97, 98, 99]" "\<not> match [94, 97, 46, 42, 99, 36] [98, 97, 99]"
    by (simp_all add: match_def matchhere.simps matchstar.simps)
  then show ?thesis using match_language [of "[94, 97, 46, 42, 99, 36]" "[97, 98, 99]"] by (simp add: pat_start_def pat_body_def)
qed

section \<open>The loop over the input\<close>

text \<open>The lines of the buffer from \<open>p\<close> on: what is written, and what is left without a newline.\<close>

function grep_lines :: "byte list \<Rightarrow> byte list \<Rightarrow> byte list \<times> byte list" where
  "grep_lines pattern p =
     (case strchr p 10 of
        None \<Rightarrow> ([], p)
      | Some q \<Rightarrow>
          let (out, rest) = grep_lines pattern (drop (Suc q) p) in
          ((if match pattern (take q p) then take (Suc q) p else []) @ out, rest))"
  by pat_completeness auto

termination
  by (relation "measure (\<lambda>(pattern, p). length p)") (auto dest: strchr_less)

declare grep_lines.simps [simp del]

function grep :: "byte list \<Rightarrow> byte list \<Rightarrow> byte list list \<Rightarrow> byte list" where
  "grep pattern buf inp =
     (let (c, inp') = uread inp (1024 - length buf - 1) in
      if c = [] then []
      else let (out, rest) = grep_lines pattern (buf @ c) in out @ grep pattern rest inp')"
  by pat_completeness auto
termination
proof (relation "measure (\<lambda>(pattern, buf, inp). length (concat inp))", goal_cases)
  case (2 pattern buf inp x c inp' y out rest)
  then have "uread inp (1024 - length buf - 1) = (c, inp')" by simp
  then have "c @ concat inp' = concat inp" using uread_concat [of inp "1024 - length buf - 1"] by simp
  then have "length c + length (concat inp') = length (concat inp)" by (metis length_append)
  then show ?case using 2(3) by (cases c) auto
qed simp

declare grep.simps [simp del]

definition grep_main :: "byte list list \<Rightarrow> (byte list \<Rightarrow> byte list list option) \<Rightarrow> byte list list \<Rightarrow> byte list \<times> byte list \<times> int" where
  "grep_main argv open stdin =
     (if length argv \<le> 1 then ([], chars ''usage: grep pattern [file ...]'' @ [10], 1)
      else if length argv \<le> 2 then (grep (argv ! 1) [] stdin, [], 0)
      else foldr (\<lambda>name (out, err, rc).
             case open name of
               None \<Rightarrow> (chars ''grep: cannot open '' @ name @ [10], [], 1)
             | Some inp \<Rightarrow> (grep (argv ! 1) [] inp @ out, err, rc)) (drop 2 argv) ([], [], 0))"

section \<open>Lines\<close>

text \<open>The lines of a text, each with its newline taken off, and the rest after the last newline.\<close>

fun text_lines :: "byte list \<Rightarrow> byte list list \<times> byte list" where
  "text_lines [] = ([], [])"
| "text_lines (c # cs) =
     (let (ls, r) = text_lines cs in
      if c = 10 then ([] # ls, r) else case ls of [] \<Rightarrow> ([], c # r) | l # ls \<Rightarrow> ((c # l) # ls, r))"

definition show_lines :: "byte list list \<Rightarrow> byte list" where
  "show_lines ls = concat (map (\<lambda>l. l @ [10]) ls)"

lemma text_lines_append:
  "text_lines (xs @ ys) = (fst (text_lines xs) @ fst (text_lines (snd (text_lines xs) @ ys)), snd (text_lines (snd (text_lines xs) @ ys)))"
proof (induction xs)
  case (Cons x xs)
  obtain ls r where e: "text_lines xs = (ls, r)" by force
  obtain ls' r' where f: "text_lines (r @ ys) = (ls', r')" by force
  show ?case using Cons.IH e f by (cases ls) (auto simp: Let_def split: list.split)
qed simp

lemma text_lines_strchr:
  assumes "0 \<notin> set p"
  shows "text_lines p = (case strchr p 10 of None \<Rightarrow> ([], p)
    | Some q \<Rightarrow> (take q p # fst (text_lines (drop (Suc q) p)), snd (text_lines (drop (Suc q) p))))"
  using assms
proof (induction p)
  case (Cons x p)
  then have "x \<noteq> 0" "text_lines p = (case strchr p 10 of None \<Rightarrow> ([], p)
    | Some q \<Rightarrow> (take q p # fst (text_lines (drop (Suc q) p)), snd (text_lines (drop (Suc q) p))))" by simp_all
  then show ?case by (cases "strchr p 10") (auto simp: Let_def split: prod.split)
qed simp

lemma grep_lines_text:
  assumes "0 \<notin> set p"
  shows "grep_lines pattern p = (show_lines (filter (match pattern) (fst (text_lines p))), snd (text_lines p))"
  using assms
proof (induction pattern p rule: grep_lines.induct)
  case (1 pattern p)
  show ?case
  proof (cases "strchr p 10")
    case None
    then show ?thesis using text_lines_strchr [OF 1(2)] by (simp add: grep_lines.simps [of pattern p] show_lines_def)
  next
    case (Some q)
    have q: "take (Suc q) p = take q p @ [10]"
      using Some by (induction p arbitrary: q) (auto split: if_splits)
    have "0 \<notin> set (drop (Suc q) p)" using 1(2) by (meson in_set_dropD)
    then show ?thesis using 1(1) [OF Some] text_lines_strchr [OF 1(2)] Some q
      by (simp add: grep_lines.simps [of pattern p] show_lines_def)
  qed
qed

lemma text_lines_rest: "10 \<notin> set xs \<Longrightarrow> text_lines xs = ([], xs)" "10 \<notin> set (snd (text_lines xs))"
proof -
  show "10 \<notin> set xs \<Longrightarrow> text_lines xs = ([], xs)" by (induction xs) auto
  show "10 \<notin> set (snd (text_lines xs))" by (induction xs) (auto simp: Let_def split: prod.split list.split)
qed

lemma first_line_long: "10 \<notin> set xs \<Longrightarrow> fst (text_lines (xs @ ys)) = l # ls \<Longrightarrow> length xs \<le> length l"
  by (induction xs arbitrary: l ls) (auto simp: Let_def split: prod.splits list.splits)

lemma set_rest: "set (snd (text_lines xs)) \<subseteq> set xs"
  by (induction xs) (auto simp: Let_def split: prod.split list.split)

lemma grep_loop:
  assumes "[] \<notin> set inp" "0 \<notin> set buf \<union> set (concat inp)" "10 \<notin> set buf" "\<forall>l \<in> set (fst (text_lines (buf @ concat inp))). length l \<le> 1022"
  shows "grep pattern buf inp = show_lines (filter (match pattern) (fst (text_lines (buf @ concat inp))))"
  using assms
proof (induction pattern buf inp rule: grep.induct)
  case (1 pattern buf inp)
  let ?n = "1024 - length buf - 1"
  obtain c inp' where u: "uread inp ?n = (c, inp')" by force
  have cc: "c @ concat inp' = concat inp" using uread_concat [of inp ?n] u by simp
  show ?case
  proof (cases "c = []")
    case True
    then have "inp = [] \<or> length buf \<ge> 1023" using u 1(2) by (cases inp) auto
    then have "fst (text_lines (buf @ concat inp)) = []"
    proof
      assume "length buf \<ge> 1023"
      then show ?thesis using first_line_long [OF 1(4), of "concat inp"] 1(5) by (cases "fst (text_lines (buf @ concat inp))") fastforce+
    qed (use text_lines_rest(1) [OF 1(4)] in simp)
    then show ?thesis using True u by (simp add: grep.simps [of pattern buf inp] show_lines_def)
  next
    case False
    obtain ls r where t: "text_lines (buf @ c) = (ls, r)" by force
    have z: "0 \<notin> set (buf @ c)" using 1(3) arg_cong [OF cc, of set] by auto
    have g: "grep_lines pattern (buf @ c) = (show_lines (filter (match pattern) ls), r)" using grep_lines_text [OF z] t by simp
    have l: "fst (text_lines (buf @ concat inp)) = ls @ fst (text_lines (r @ concat inp'))"
      using text_lines_append [of "buf @ c" "concat inp'"] t cc by simp
    have "[] \<notin> set inp'" using u 1(2) by (cases inp) (auto split: if_splits)
    moreover have "0 \<notin> set r \<union> set (concat inp')" using set_rest [of "buf @ c"] t z 1(3) arg_cong [OF cc, of set] by auto
    moreover have "10 \<notin> set r" using text_lines_rest(2) [of "buf @ c"] t by simp
    ultimately have "grep pattern r inp' = show_lines (filter (match pattern) (fst (text_lines (r @ concat inp'))))"
      using 1(1) [OF u [symmetric] refl False g [symmetric] refl] 1(5) l by simp
    then show ?thesis using u g l False by (simp add: grep.simps [of pattern buf inp] show_lines_def)
  qed
qed

text \<open>
  C29. \<open>grep\<close> prints exactly the lines that match, in their order, however the input arrives: for any division of
  the input into pieces, when it has no NUL and no line of more than 1022 characters, the output is the lines of
  the input that \<open>match\<close> accepts, each with its newline. What follows the last newline is not looked at.
\<close>

theorem grep_prints_matches:
  assumes "[] \<notin> set inp" "0 \<notin> set (concat inp)" "\<forall>l \<in> set (fst (text_lines (concat inp))). length l \<le> 1022"
  shows "grep pattern [] inp = show_lines (filter (match pattern) (fst (text_lines (concat inp))))"
  using grep_loop [of inp "[]"] assms by simp

theorem grep_prints_matches_witness: "grep [97] [] [[98, 97], [10, 99], [10, 97, 10]] = [98, 97, 10, 97, 10]"
proof -
  have "match [97] [98, 97]" "match [97] [97]" "\<not> match [97] [99]"
    by (simp_all add: match_def match_any.simps matchhere.simps)
  then show ?thesis using grep_prints_matches [of "[[98, 97], [10, 99], [10, 97, 10]]" "[97]"] by (simp add: show_lines_def)
qed

end
