(* ===== verification/Shparse.thy ===== *)
theory Shparse
  imports Sysfile
begin

text \<open>
  The parser of the shell, user/sh.c: the token reader, the recursive-descent parser and the pass that ends every
  word of the line with a NUL. Shown: the parser ends on every line, with a command or with a syntax error; the
  commands it returns are well formed; and it inverts a printer of commands, so every well-formed command can be
  written and is read back as itself.
\<close>

section \<open>Tokens\<close>

text \<open>A line is a C string, given without its NUL; pointers into it are indices, and \<open>es\<close> is its length.\<close>

definition at :: "byte list \<Rightarrow> nat \<Rightarrow> byte" where
  "at buf s = (if s < length buf then buf ! s else 0)"

definition whitespace :: "byte list" where
  "whitespace = [32, 9, 13, 10, 11]"

definition symbols :: "byte list" where
  "symbols = [60, 124, 62, 38, 59, 40, 41]"

definition skip_ws :: "byte list \<Rightarrow> nat \<Rightarrow> nat" where
  "skip_ws buf s = s + length (takeWhile (\<lambda>c. c \<in> set whitespace) (drop s buf))"

definition wordc :: "byte \<Rightarrow> bool" where
  "wordc c \<longleftrightarrow> c \<notin> set whitespace \<and> c \<notin> set symbols"

text \<open>The token, where it begins and ends, and the new position.\<close>

definition gettoken :: "byte list \<Rightarrow> nat \<Rightarrow> byte \<times> nat \<times> nat \<times> nat" where
  "gettoken buf s =
     (let q = skip_ws buf s;
          (ret, eq) =
            (if at buf q = 0 then (0, q)
             else if at buf q \<in> set [124, 40, 41, 59, 38, 60] then (at buf q, q + 1)
             else if at buf q = 62 then (if at buf (q + 1) = 62 then (43, q + 2) else (62, q + 1))
             else (97, q + length (takeWhile wordc (drop q buf))))
      in (ret, q, eq, skip_ws buf eq))"

definition peek :: "byte list \<Rightarrow> byte list \<Rightarrow> nat \<Rightarrow> bool \<times> nat" where
  "peek buf toks s = (let s = skip_ws buf s in (at buf s \<noteq> 0 \<and> at buf s \<in> set toks, s))"

section \<open>Commands\<close>

text \<open>The nodes of struct cmd; a word is where it begins and ends in the line.\<close>

datatype 'w cmd =
    EXEC "'w list"
  | REDIR "'w cmd" 'w "32 word" int
  | PIPE "'w cmd" "'w cmd"
  | LIST "'w cmd" "'w cmd"
  | BACK "'w cmd"

abbreviation execcmd :: "'w cmd" where
  "execcmd \<equiv> EXEC []"

abbreviation redircmd :: "'w cmd \<Rightarrow> 'w \<Rightarrow> 32 word \<Rightarrow> int \<Rightarrow> 'w cmd" where
  "redircmd subcmd f mode fd \<equiv> REDIR subcmd f mode fd"

abbreviation pipecmd :: "'w cmd \<Rightarrow> 'w cmd \<Rightarrow> 'w cmd" where
  "pipecmd left right \<equiv> PIPE left right"

abbreviation listcmd :: "'w cmd \<Rightarrow> 'w cmd \<Rightarrow> 'w cmd" where
  "listcmd left right \<equiv> LIST left right"

abbreviation backcmd :: "'w cmd \<Rightarrow> 'w cmd" where
  "backcmd subcmd \<equiv> BACK subcmd"

definition MAXARGS :: nat where
  "MAXARGS = 10"

text \<open>The argument vector that \<open>parseexec\<close> still fills while redirections are put around its node.\<close>

fun add_arg :: "'w \<Rightarrow> 'w cmd \<Rightarrow> 'w cmd" where
  "add_arg w (EXEC ws) = EXEC (ws @ [w])"
| "add_arg w (REDIR c f m d) = REDIR (add_arg w c) f m d"
| "add_arg w c = c"

section \<open>Positions\<close>

lemma skip_ws_le: "s \<le> skip_ws buf s" "s \<le> length buf \<Longrightarrow> skip_ws buf s \<le> length buf"
  using length_takeWhile_le [of "\<lambda>c. c \<in> set whitespace" "drop s buf"] by (auto simp: skip_ws_def)

lemma skip_ws_stop: "skip_ws buf s < length buf \<Longrightarrow> buf ! skip_ws buf s \<notin> set whitespace"
proof -
  assume a: "skip_ws buf s < length buf"
  let ?P = "\<lambda>c. c \<in> set whitespace"
  have s: "s \<le> length buf" using a skip_ws_le(1) [of s buf] by simp
  have "length (takeWhile ?P (drop s buf)) < length (drop s buf)" using a s by (simp add: skip_ws_def)
  then show ?thesis using nth_length_takeWhile [of ?P "drop s buf"] s by (simp add: skip_ws_def add.commute)
qed

lemma gettoken_le: "gettoken buf s = (ret, q, eq, s') \<Longrightarrow> s \<le> q \<and> q \<le> eq \<and> eq \<le> s'"
  by (auto simp: gettoken_def Let_def skip_ws_le split: if_splits)

lemma at_nonzero: "at buf s \<noteq> 0 \<Longrightarrow> s < length buf"
  by (auto simp: at_def split: if_splits)

lemma gettoken_word:
  assumes "gettoken buf s = (97, q, eq, s')"
  shows "q < eq \<and> eq \<le> length buf \<and> (\<forall>i. q \<le> i \<longrightarrow> i < eq \<longrightarrow> wordc (buf ! i)) \<and> (eq < length buf \<longrightarrow> \<not> wordc (buf ! eq))"
proof -
  let ?q = "skip_ws buf s"
  have e: "q = ?q" "at buf q \<noteq> 0" "at buf q \<notin> set [124, 40, 41, 59, 38, 60]" "at buf q \<noteq> 62" "eq = q + length (takeWhile wordc (drop q buf))"
    using assms by (auto simp: gettoken_def Let_def split: if_splits)
  have l: "q < length buf" using e(2) by (rule at_nonzero)
  have "wordc (buf ! q)" using skip_ws_stop [of buf s] e l by (auto simp: wordc_def symbols_def at_def)
  then have "takeWhile wordc (drop q buf) \<noteq> []" using l by (simp add: Cons_nth_drop_Suc [symmetric])
  moreover have "length (takeWhile wordc (drop q buf)) \<le> length (drop q buf)" by (rule length_takeWhile_le)
  moreover have "wordc (buf ! i)" if "q \<le> i" "i < eq" for i
    using that e(5) l takeWhile_nth [of "i - q" wordc "drop q buf"] nth_mem [of "i - q" "takeWhile wordc (drop q buf)"]
      set_takeWhileD [of "buf ! i" wordc "drop q buf"] by auto
  moreover have "\<not> wordc (buf ! eq)" if "eq < length buf"
    using that e(5) l nth_length_takeWhile [of wordc "drop q buf"] by (simp add: add.commute)
  ultimately show ?thesis using e(5) l by auto
qed

lemma gettoken_progress:
  assumes "gettoken buf s = (ret, q, eq, s')" "ret \<noteq> 0"
  shows "q < length buf \<and> q < eq \<and> q = skip_ws buf s"
proof -
  have "q = skip_ws buf s" using assms(1) by (auto simp: gettoken_def Let_def split: if_splits)
  moreover have "at buf q \<noteq> 0" using assms by (auto simp: gettoken_def Let_def split: if_splits)
  moreover have "q < eq"
    using assms gettoken_word [of buf s q eq s'] by (auto simp: gettoken_def Let_def split: if_splits)
  ultimately show ?thesis using at_nonzero by blast
qed

lemma skip_ws_idem [simp]: "skip_ws buf (skip_ws buf s) = skip_ws buf s"
proof (cases "skip_ws buf s < length buf")
  case True
  then show ?thesis using skip_ws_stop [OF True] by (simp add: skip_ws_def [of buf "skip_ws buf s"] Cons_nth_drop_Suc [symmetric])
qed (simp add: skip_ws_def [of buf "skip_ws buf s"])

lemma peek_token:
  assumes "peek buf toks s = (True, s1)" "gettoken buf s1 = (ret, q, eq, s2)"
  shows "s \<le> s1 \<and> s1 < length buf \<and> s1 < s2"
proof -
  have p: "s1 = skip_ws buf s" "at buf s1 \<noteq> 0" using assms(1) by (auto simp: peek_def Let_def)
  have "ret \<noteq> 0" using assms(2) p by (auto simp: gettoken_def Let_def split: if_splits)
  then show ?thesis using gettoken_progress [OF assms(2)] gettoken_le [OF assms(2)] p skip_ws_le [of s buf] by simp
qed

lemma peek_le: "peek buf toks s = (b, s1) \<Longrightarrow> s \<le> s1"
  using skip_ws_le(1) by (auto simp: peek_def Let_def)

section \<open>The parser\<close>

lemma redir_progress:
  "peek buf toks s = (True, s1) \<Longrightarrow> gettoken buf s1 = (tok, a, b, s2) \<Longrightarrow> gettoken buf s2 = (t, q, eq, s3) \<Longrightarrow> s < length buf \<and> s < s3"
  using peek_token [of buf toks s s1 tok a b s2] gettoken_le [of buf s2 t q eq s3] by simp

text \<open>The position is the state; \<open>Panic\<close> is the panic of the shell, which prints its message and exits with 1.
  Memory for the nodes is there.\<close>

function parseredirs :: "byte list \<Rightarrow> (nat \<times> nat) cmd \<Rightarrow> nat \<Rightarrow> (nat, (nat \<times> nat) cmd) res" where
  "parseredirs buf cmd s =
     (case peek buf [60, 62] s of
        (False, s) \<Rightarrow> Ok cmd s
      | (True, s) \<Rightarrow>
          (case gettoken buf s of (tok, _, _, s) \<Rightarrow>
          (case gettoken buf s of (t, q, eq, s) \<Rightarrow>
             if t \<noteq> 97 then Panic ''missing file for redirection''
             else parseredirs buf
               (if tok = 60 then redircmd cmd (q, eq) O_RDONLY 0
                else if tok = 62 then redircmd cmd (q, eq) (O_WRONLY OR O_CREATE OR O_TRUNC) 1
                else if tok = 43 then redircmd cmd (q, eq) (O_WRONLY OR O_CREATE) 1
                else cmd) s)))"
  by pat_completeness auto
termination
  by (relation "measure (\<lambda>(buf, cmd, s). length buf - s)") (auto dest: redir_progress [OF sym sym sym])

declare parseredirs.simps [simp del]

text \<open>What a loop over the words of a line keeps: the position moves on, and new words are words of the line.\<close>

definition good :: "byte list \<Rightarrow> nat \<times> nat \<Rightarrow> bool" where
  "good buf w \<longleftrightarrow> fst w < snd w \<and> snd w \<le> length buf \<and> (\<forall>i. fst w \<le> i \<longrightarrow> i < snd w \<longrightarrow> wordc (buf ! i)) \<and>
     (snd w < length buf \<longrightarrow> \<not> wordc (buf ! snd w))"

definition redir_ok :: "32 word \<Rightarrow> int \<Rightarrow> bool" where
  "redir_ok m d \<longleftrightarrow> (m, d) \<in> set [(O_RDONLY, 0), (O_WRONLY OR O_CREATE OR O_TRUNC, 1), (O_WRONLY OR O_CREATE, 1)]"

fun cmd_ok :: "('w \<Rightarrow> bool) \<Rightarrow> 'w cmd \<Rightarrow> bool" where
  "cmd_ok P (EXEC ws) \<longleftrightarrow> length ws < MAXARGS \<and> (\<forall>w \<in> set ws. P w)"
| "cmd_ok P (REDIR c f m d) \<longleftrightarrow> cmd_ok P c \<and> P f \<and> redir_ok m d"
| "cmd_ok P (PIPE l r) \<longleftrightarrow> cmd_ok P l \<and> cmd_ok P r"
| "cmd_ok P (LIST l r) \<longleftrightarrow> cmd_ok P l \<and> cmd_ok P r"
| "cmd_ok P (BACK c) \<longleftrightarrow> cmd_ok P c"

lemma gettoken_good: "gettoken buf s = (97, q, eq, s') \<Longrightarrow> good buf (q, eq)"
  using gettoken_word by (simp add: good_def)

text \<open>The innermost command of a chain of redirections, and the number of its arguments.\<close>

fun nargs :: "'w cmd \<Rightarrow> nat" where
  "nargs (EXEC ws) = length ws"
| "nargs (REDIR c f m d) = nargs c"
| "nargs c = 0"

lemma parseredirs_cases:
  "(\<exists>c s'. parseredirs buf cmd s = Ok c s' \<and> s \<le> s' \<and> nargs c = nargs cmd \<and> (cmd_ok (good buf) cmd \<longrightarrow> cmd_ok (good buf) c)) \<or>
   (\<exists>m. parseredirs buf cmd s = Panic m)"
proof (induction buf cmd s rule: parseredirs.induct)
  case (1 buf cmd s)
  obtain b s1 where p: "peek buf [60, 62] s = (b, s1)" by force
  show ?case
  proof (cases b)
    case False
    then show ?thesis using p skip_ws_le(1) [of s buf] by (auto simp: parseredirs.simps [of buf cmd s] peek_def Let_def)
  next
    case True
    obtain tok a e s2 where g: "gettoken buf s1 = (tok, a, e, s2)" by (metis prod_cases4)
    obtain t q eq s3 where h: "gettoken buf s2 = (t, q, eq, s3)" by (metis prod_cases4)
    let ?c = "if tok = 60 then redircmd cmd (q, eq) O_RDONLY 0
                else if tok = 62 then redircmd cmd (q, eq) (O_WRONLY OR O_CREATE OR O_TRUNC) 1
                else if tok = 43 then redircmd cmd (q, eq) (O_WRONLY OR O_CREATE) 1
                else cmd"
    have e: "parseredirs buf cmd s = (if t \<noteq> 97 then Panic ''missing file for redirection'' else parseredirs buf ?c s3)"
      using p True g h by (simp add: parseredirs.simps [of buf cmd s])
    show ?thesis
    proof (cases "t = 97")
      case t: True
      have "good buf (q, eq)" using h t gettoken_good by blast
      then have c: "nargs ?c = nargs cmd" "cmd_ok (good buf) cmd \<longrightarrow> cmd_ok (good buf) ?c" by (simp_all add: redir_ok_def)
      have "s < s3" using redir_progress [of buf "[60, 62]" s s1 tok a e s2 t q eq s3] p g h True by simp
      then show ?thesis using 1 [OF p [symmetric]] p g h True t c e by force
    qed (use e in auto)
  qed
qed

lemma arg_progress:
  assumes "peek buf toks s0 = (b, s)" "gettoken buf s = (97, q, eq, s1)" "parseredirs buf c s1 = Ok c' s2"
  shows "s0 < length buf \<and> s0 < s2"
proof -
  have "q < length buf" "q < eq" "s \<le> q" "eq \<le> s1" using gettoken_progress [OF assms(2)] gettoken_le [OF assms(2)] by simp_all
  moreover have "s1 \<le> s2" using parseredirs_cases [of buf c s1] assms(3) by auto
  ultimately show ?thesis using peek_le [OF assms(1)] by simp
qed

text \<open>The loop of \<open>parseexec\<close> over the words.\<close>

function parse_args :: "byte list \<Rightarrow> (nat \<times> nat) cmd \<Rightarrow> nat \<Rightarrow> nat \<Rightarrow> (nat, (nat \<times> nat) cmd) res" where
  "parse_args buf ret argc s =
     (case peek buf [124, 41, 38, 59] s of
        (True, s) \<Rightarrow> Ok ret s
      | (False, s) \<Rightarrow>
          (case gettoken buf s of (tok, q, eq, s) \<Rightarrow>
             if tok = 0 then Ok ret s
             else if tok \<noteq> 97 then Panic ''syntax''
             else if argc + 1 \<ge> MAXARGS then Panic ''too many args''
             else bindr (parseredirs buf (add_arg (q, eq) ret) s) (\<lambda>ret s. parse_args buf ret (argc + 1) s)))"
  by pat_completeness auto
termination
  by (relation "measure (\<lambda>(buf, ret, argc, s). length buf - s)") (auto dest: arg_progress [OF sym sym])

declare parse_args.simps [simp del]

text \<open>The loop of \<open>parseline\<close> over the ampersands.\<close>

function parse_back :: "byte list \<Rightarrow> (nat \<times> nat) cmd \<Rightarrow> nat \<Rightarrow> (nat \<times> nat) cmd \<times> nat" where
  "parse_back buf cmd s =
     (case peek buf [38] s of
        (False, s) \<Rightarrow> (cmd, s)
      | (True, s) \<Rightarrow> (case gettoken buf s of (_, _, _, s) \<Rightarrow> parse_back buf (backcmd cmd) s))"
  by pat_completeness auto
termination
  by (relation "measure (\<lambda>(buf, cmd, s). length buf - s)") (auto dest: peek_token [OF sym sym])

declare parse_back.simps [simp del]

fun parseline :: "nat \<Rightarrow> byte list \<Rightarrow> nat \<Rightarrow> (nat, (nat \<times> nat) cmd) res"
  and parsepipe :: "nat \<Rightarrow> byte list \<Rightarrow> nat \<Rightarrow> (nat, (nat \<times> nat) cmd) res"
  and parseexec :: "nat \<Rightarrow> byte list \<Rightarrow> nat \<Rightarrow> (nat, (nat \<times> nat) cmd) res"
  and parseblock :: "nat \<Rightarrow> byte list \<Rightarrow> nat \<Rightarrow> (nat, (nat \<times> nat) cmd) res" where
  "parseline 0 buf s = Diverge"
| "parseline (Suc n) buf s =
     bindr (parsepipe n buf s) (\<lambda>cmd s.
     case parse_back buf cmd s of (cmd, s) \<Rightarrow>
     (case peek buf [59] s of
        (True, s) \<Rightarrow>
          (case gettoken buf s of (_, _, _, s) \<Rightarrow> bindr (parseline n buf s) (\<lambda>r s. Ok (listcmd cmd r) s))
      | (False, s) \<Rightarrow> Ok cmd s))"
| "parsepipe 0 buf s = Diverge"
| "parsepipe (Suc n) buf s =
     bindr (parseexec n buf s) (\<lambda>cmd s.
     case peek buf [124] s of
       (True, s) \<Rightarrow> (case gettoken buf s of (_, _, _, s) \<Rightarrow> bindr (parsepipe n buf s) (\<lambda>r s. Ok (pipecmd cmd r) s))
     | (False, s) \<Rightarrow> Ok cmd s)"
| "parseexec 0 buf s = Diverge"
| "parseexec (Suc n) buf s =
     (case peek buf [40] s of
        (True, s) \<Rightarrow> parseblock n buf s
      | (False, s) \<Rightarrow> bindr (parseredirs buf execcmd s) (\<lambda>ret s. parse_args buf ret 0 s))"
| "parseblock 0 buf s = Diverge"
| "parseblock (Suc n) buf s =
     (case peek buf [40] s of
        (False, s) \<Rightarrow> Panic ''parseblock''
      | (True, s) \<Rightarrow>
          (case gettoken buf s of (_, _, _, s) \<Rightarrow>
          bindr (parseline n buf s) (\<lambda>cmd s.
          case peek buf [41] s of
            (False, s) \<Rightarrow> Panic ''syntax - missing )''
          | (True, s) \<Rightarrow> (case gettoken buf s of (_, _, _, s) \<Rightarrow> parseredirs buf cmd s))))"

text \<open>The NULs that end the words, in the line with its own NUL.\<close>

fun nulterminate :: "(nat \<times> nat) cmd \<Rightarrow> byte list \<Rightarrow> byte list" where
  "nulterminate (EXEC ws) b = fold (\<lambda>w b. b[snd w := 0]) ws b"
| "nulterminate (REDIR c f m d) b = (nulterminate c b)[snd f := 0]"
| "nulterminate (PIPE l r) b = nulterminate r (nulterminate l b)"
| "nulterminate (LIST l r) b = nulterminate r (nulterminate l b)"
| "nulterminate (BACK c) b = nulterminate c b"

text \<open>The recursion is at most four calls deep for each character that is left. The result is the command and the
  line its words are in.\<close>

definition parsecmd :: "byte list \<Rightarrow> (nat, (nat \<times> nat) cmd \<times> byte list) res" where
  "parsecmd buf =
     bindr (parseline (4 * length buf + 4) buf 0) (\<lambda>cmd s.
     case peek buf [] s of (_, s) \<Rightarrow>
       if s \<noteq> length buf then Panic ''syntax''
       else Ok (cmd, nulterminate cmd (buf @ [0])) s)"

section \<open>Every line\<close>

text \<open>A result of a parser at \<open>s\<close>: a well-formed command at a position from \<open>s\<close> on, or an error of the shell.\<close>

definition parsed :: "byte list \<Rightarrow> nat \<Rightarrow> (nat, (nat \<times> nat) cmd) res \<Rightarrow> bool" where
  "parsed buf s r \<longleftrightarrow> (\<exists>c s'. r = Ok c s' \<and> s \<le> s' \<and> cmd_ok (good buf) c) \<or> (\<exists>m. r = Panic m)"

lemma parsed_bind:
  assumes "parsed buf s r" "\<And>c s'. s \<le> s' \<Longrightarrow> cmd_ok (good buf) c \<Longrightarrow> parsed buf s' (f c s')"
  shows "parsed buf s (bindr r f)"
proof -
  consider c s' where "r = Ok c s'" "s \<le> s'" "cmd_ok (good buf) c" | m where "r = Panic m" using assms(1) by (auto simp: parsed_def)
  then show ?thesis
  proof cases
    case 1
    then have "parsed buf s' (f c s')" using assms(2) by blast
    then show ?thesis using 1 by (auto simp: parsed_def intro: order_trans)
  qed (simp add: parsed_def)
qed

lemma parsed_mono: "parsed buf s' r \<Longrightarrow> s \<le> s' \<Longrightarrow> parsed buf s r"
  by (auto simp: parsed_def intro: order_trans)

lemma parsed_Ok: "s \<le> s' \<Longrightarrow> cmd_ok (good buf) c \<Longrightarrow> parsed buf s (Ok c s')"
  by (simp add: parsed_def)

lemma parsed_Panic: "parsed buf s (Panic m)"
  by (simp add: parsed_def)

lemma parsed_redirs: "cmd_ok (good buf) c \<Longrightarrow> parsed buf s (parseredirs buf c s)"
  using parseredirs_cases [of buf c s] by (auto simp: parsed_def)

lemma add_arg_ok: "P w \<Longrightarrow> cmd_ok P c \<Longrightarrow> nargs c + 1 < MAXARGS \<Longrightarrow> cmd_ok P (add_arg w c)"
  by (induction c) auto

lemma nargs_add_arg: "nargs (add_arg w c) \<le> nargs c + 1"
  by (induction c) auto

lemma parsed_args: "cmd_ok (good buf) ret \<Longrightarrow> nargs ret \<le> argc \<Longrightarrow> parsed buf s (parse_args buf ret argc s)"
proof (induction buf ret argc s rule: parse_args.induct)
  case (1 buf ret argc s)
  obtain b s1 where p: "peek buf [124, 41, 38, 59] s = (b, s1)" by force
  obtain tok q eq s2 where g: "gettoken buf s1 = (tok, q, eq, s2)" by (metis prod_cases4)
  have le: "s \<le> s1" "s \<le> s2" using peek_le [OF p] gettoken_le [OF g] by simp_all
  show ?case
  proof (cases "b \<or> tok \<noteq> 97 \<or> argc + 1 \<ge> MAXARGS")
    case True
    then show ?thesis using p g le 1(2) by (cases b) (auto simp: parse_args.simps [of buf ret argc s] intro: parsed_Ok parsed_Panic)
  next
    case False
    let ?c = "add_arg (q, eq) ret"
    have e: "parse_args buf ret argc s = bindr (parseredirs buf ?c s2) (\<lambda>ret s. parse_args buf ret (argc + 1) s)"
      using False p g by (simp add: parse_args.simps [of buf ret argc s])
    have c: "cmd_ok (good buf) ?c" using add_arg_ok [of "good buf" "(q, eq)" ret] False 1(2,3) gettoken_good [of buf s1 q eq s2] g by simp
    show ?thesis
    proof (cases "parseredirs buf ?c s2")
      case (Ok c' s3)
      then have r: "s2 \<le> s3" "nargs c' \<le> argc + 1" "cmd_ok (good buf) c'"
        using parseredirs_cases [of buf ?c s2] c nargs_add_arg [of "(q, eq)" ret] 1(3) by auto
      then have "parsed buf s3 (parse_args buf c' (argc + 1) s3)" using 1(1) p g False Ok by force
      then show ?thesis using e Ok parsed_mono le r(1) by fastforce
    qed (use parseredirs_cases [of buf ?c s2] e in \<open>auto intro: parsed_Panic\<close>)
  qed
qed

lemma parse_back_cases:
  "\<exists>c s'. parse_back buf cmd s = (c, s') \<and> s \<le> s' \<and> (cmd_ok (good buf) cmd \<longrightarrow> cmd_ok (good buf) c)"
proof (induction buf cmd s rule: parse_back.induct)
  case (1 buf cmd s)
  obtain b s1 where p: "peek buf [38] s = (b, s1)" by force
  obtain tok q eq s2 where g: "gettoken buf s1 = (tok, q, eq, s2)" by (metis prod_cases4)
  have "s \<le> s1" "s \<le> s2" using peek_le [OF p] gettoken_le [OF g] by simp_all
  then show ?case using 1 [OF p [symmetric]] p g by (cases b) (fastforce simp: parse_back.simps [of buf cmd s])+
qed

lemma parser_total:
  "(4 * (length buf - s) + 4 \<le> n \<longrightarrow> parsed buf s (parseline n buf s)) \<and>
   (4 * (length buf - s) + 3 \<le> n \<longrightarrow> parsed buf s (parsepipe n buf s)) \<and>
   (4 * (length buf - s) + 2 \<le> n \<longrightarrow> parsed buf s (parseexec n buf s)) \<and>
   (4 * (length buf - s) + 1 \<le> n \<longrightarrow> parsed buf s (parseblock n buf s))"
proof (induction n arbitrary: s)
  case (Suc n)
  have fits: "4 * (length buf - s2) + 4 \<le> 4 * (length buf - s)" if "peek buf toks s' = (True, s1)" "gettoken buf s1 = (tok, q, eq, s2)" "s \<le> s'"
    for toks s' s1 tok q eq s2
    using peek_token [OF that(1,2)] that(3) by arith
  have line: "parsed buf s (parseline (Suc n) buf s)" if n: "4 * (length buf - s) + 4 \<le> Suc n"
    unfolding parseline.simps
  proof (rule parsed_bind)
    show "parsed buf s (parsepipe n buf s)" using Suc.IH n by simp
    fix c s' assume c: "s \<le> s'" "cmd_ok (good buf) c"
    obtain c1 s1 where b: "parse_back buf c s' = (c1, s1)" "s' \<le> s1" "cmd_ok (good buf) c1" using parse_back_cases [of buf c s'] c by auto
    obtain t s2 where p: "peek buf [59] s1 = (t, s2)" by force
    obtain tok q eq s3 where g: "gettoken buf s2 = (tok, q, eq, s3)" by (metis prod_cases4)
    have le: "s' \<le> s2" "s' \<le> s3" using b(2) peek_le [OF p] gettoken_le [OF g] by simp_all
    have "parsed buf s3 (bindr (parseline n buf s3) (\<lambda>r s. Ok (LIST c1 r) s))" if t
      by (rule parsed_bind) (use Suc.IH [of s3] fits [of "[59]" s1 s2 tok q eq s3] p g n that c b in \<open>auto intro: parsed_Ok\<close>)
    then show "parsed buf s' (case parse_back buf c s' of (cmd, s) \<Rightarrow>
        (case peek buf [59] s of
          (True, s) \<Rightarrow> (case gettoken buf s of (_, _, _, s) \<Rightarrow> bindr (parseline n buf s) (\<lambda>r s. Ok (LIST cmd r) s))
        | (False, s) \<Rightarrow> Ok cmd s))"
      using b p g le by (cases t) (auto intro: parsed_Ok parsed_mono)
  qed
  have pipe: "parsed buf s (parsepipe (Suc n) buf s)" if n: "4 * (length buf - s) + 3 \<le> Suc n"
    unfolding parsepipe.simps
  proof (rule parsed_bind)
    show "parsed buf s (parseexec n buf s)" using Suc.IH n by simp
    fix c s' assume c: "s \<le> s'" "cmd_ok (good buf) c"
    obtain t s2 where p: "peek buf [124] s' = (t, s2)" by force
    obtain tok q eq s3 where g: "gettoken buf s2 = (tok, q, eq, s3)" by (metis prod_cases4)
    have le: "s' \<le> s2" "s' \<le> s3" using peek_le [OF p] gettoken_le [OF g] by simp_all
    have "parsed buf s3 (bindr (parsepipe n buf s3) (\<lambda>r s. Ok (PIPE c r) s))" if t
      by (rule parsed_bind) (use Suc.IH [of s3] fits [of "[124]" s' s2 tok q eq s3] p g n that c in \<open>auto intro: parsed_Ok\<close>)
    then show "parsed buf s' (case peek buf [124] s' of
        (True, s) \<Rightarrow> (case gettoken buf s of (_, _, _, s) \<Rightarrow> bindr (parsepipe n buf s) (\<lambda>r s. Ok (PIPE c r) s))
      | (False, s) \<Rightarrow> Ok c s)"
      using p g le c by (cases t) (auto intro: parsed_Ok parsed_mono)
  qed
  obtain t s1 where p: "peek buf [40] s = (t, s1)" by force
  have s1: "s \<le> s1" using peek_le [OF p] .
  have ex: "parsed buf s (parseexec (Suc n) buf s)" if n: "4 * (length buf - s) + 2 \<le> Suc n"
  proof (cases t)
    case True
    then have "parsed buf s1 (parseblock n buf s1)" using Suc.IH [of s1] n s1 by simp
    then show ?thesis using p True s1 parsed_mono by fastforce
  next
    case False
    obtain r where r: "parseredirs buf (EXEC []) s1 = r" by simp
    have "parsed buf s1 (bindr r (\<lambda>ret s. parse_args buf ret 0 s))"
    proof (cases r)
      case (Ok c s2)
      then have "s1 \<le> s2" "nargs c = 0" "cmd_ok (good buf) c" using parseredirs_cases [of buf "EXEC []" s1] r by (auto simp: MAXARGS_def)
      then show ?thesis using Ok parsed_args [of buf c 0 s2] parsed_mono by auto
    qed (use parseredirs_cases [of buf "EXEC []" s1] r in \<open>auto intro: parsed_Panic\<close>)
    then show ?thesis using p False r s1 parsed_mono by fastforce
  qed
  have block: "parsed buf s (parseblock (Suc n) buf s)" if n: "4 * (length buf - s) + 1 \<le> Suc n"
  proof (cases t)
    case True
    obtain tok q eq s2 where g: "gettoken buf s1 = (tok, q, eq, s2)" by (metis prod_cases4)
    have "parsed buf s2 (bindr (parseline n buf s2) (\<lambda>cmd s.
          case peek buf [41] s of
            (False, s) \<Rightarrow> Panic ''syntax - missing )''
          | (True, s) \<Rightarrow> (case gettoken buf s of (_, _, _, s) \<Rightarrow> parseredirs buf cmd s)))"
    proof (rule parsed_bind)
      show "parsed buf s2 (parseline n buf s2)" using Suc.IH [of s2] fits [of "[40]" s s1 tok q eq s2] p g n True by simp
      fix c s' assume c: "s2 \<le> s'" "cmd_ok (good buf) c"
      obtain u s3 where p': "peek buf [41] s' = (u, s3)" by force
      obtain tok q eq s4 where g': "gettoken buf s3 = (tok, q, eq, s4)" by (metis prod_cases4)
      have "s' \<le> s4" using peek_le [OF p'] gettoken_le [OF g'] by simp
      then show "parsed buf s' (case peek buf [41] s' of
            (False, s) \<Rightarrow> Panic ''syntax - missing )''
          | (True, s) \<Rightarrow> (case gettoken buf s of (_, _, _, s) \<Rightarrow> parseredirs buf c s))"
        using p' g' c(2) parsed_redirs [of buf c s4] by (cases u) (auto intro: parsed_Panic parsed_mono)
    qed
    moreover have "s \<le> s2" using s1 gettoken_le [OF g] by simp
    ultimately show ?thesis using p True g parsed_mono by fastforce
  qed (use p in \<open>auto intro: parsed_Panic\<close>)
  show ?case using line pipe ex block by blast
qed simp

section \<open>The words\<close>

definition word_at :: "byte list \<Rightarrow> nat \<times> nat \<Rightarrow> byte list" where
  "word_at buf w = sub buf (fst w) (snd w - fst w)"

definition cstring :: "byte list \<Rightarrow> nat \<Rightarrow> byte list" where
  "cstring b q = takeWhile (\<lambda>c. c \<noteq> 0) (drop q b)"

definition shell_word :: "byte list \<Rightarrow> bool" where
  "shell_word w \<longleftrightarrow> w \<noteq> [] \<and> (\<forall>c \<in> set w. wordc c \<and> c \<noteq> 0)"

lemma cmd_ok_set: "cmd_ok P c \<Longrightarrow> w \<in> set_cmd c \<Longrightarrow> P w"
  by (induction c) auto

lemma cmd_ok_map: "cmd_ok P (map_cmd f c) = cmd_ok (P \<circ> f) c"
  by (induction c) auto

lemma cmd_ok_mono: "cmd_ok P c \<Longrightarrow> (\<And>w. w \<in> set_cmd c \<Longrightarrow> P w \<Longrightarrow> Q w) \<Longrightarrow> cmd_ok Q c"
  by (induction c) auto

lemma nth_upd: "j < length xs \<Longrightarrow> xs[i := x] ! j = (if i = j then x else xs ! j)"
  by (cases "i = j") auto

lemma nul_words:
  fixes ws :: "(nat \<times> nat) list"
  shows "length (fold (\<lambda>w b. b[snd w := 0]) ws b) = length b"
    "i < length b \<Longrightarrow> fold (\<lambda>w b. b[snd w := 0]) ws b ! i = (if i \<in> snd ` set ws then 0 else b ! i)"
  by (induction ws arbitrary: b) (auto simp: nth_upd)

lemma length_nulterminate: "length (nulterminate c b) = length b"
  by (induction c arbitrary: b) (auto simp: nul_words)

lemma nulterminate_nth: "i < length b \<Longrightarrow> nulterminate c b ! i = (if i \<in> snd ` set_cmd c then 0 else b ! i)"
  by (induction c arbitrary: b) (auto simp: nul_words length_nulterminate nth_upd image_Un)

lemma good_word:
  assumes "good buf w" "0 \<notin> set buf" "\<forall>v \<in> W. good buf v"
    and b: "length b = Suc (length buf)" "\<And>i. i < Suc (length buf) \<Longrightarrow> b ! i = (if i \<in> snd ` (insert w W) then 0 else (buf @ [0]) ! i)"
  shows "cstring b (fst w) = word_at buf w \<and> shell_word (word_at buf w)"
proof -
  let ?n = "snd w - fst w"
  have g: "fst w < snd w" "snd w \<le> length buf" "\<forall>i. fst w \<le> i \<longrightarrow> i < snd w \<longrightarrow> wordc (buf ! i)" using assms(1) by (simp_all add: good_def)
  have keep: "b ! i = buf ! i \<and> buf ! i \<noteq> 0" if i: "fst w \<le> i" "i < snd w" for i
  proof -
    have "i \<noteq> snd v" if "v \<in> insert w W" for v
    proof -
      have "good buf v" using that assms(1,3) by blast
      then show ?thesis using g i by (auto simp: good_def)
    qed
    then have "i \<notin> snd ` insert w W" by auto
    moreover have "i < length buf" using g i by simp
    moreover then have "buf ! i \<noteq> 0" using assms(2) nth_mem by metis
    ultimately show ?thesis using b(2) [of i] by (simp add: nth_append)
  qed
  have z: "b ! snd w = 0" using b(2) [of "snd w"] g by simp
  have d: "drop (fst w) b = sub b (fst w) ?n @ 0 # drop (Suc (snd w)) b"
  proof -
    have "drop (fst w) b = take ?n (drop (fst w) b) @ drop (snd w) b" using g by (metis append_take_drop_id drop_drop le_add_diff_inverse2 less_imp_le_nat)
    then show ?thesis using z g b(1) by (simp add: sub_def Cons_nth_drop_Suc [symmetric])
  qed
  have e: "sub b (fst w) ?n = word_at buf w" using g b(1) keep by (auto intro!: nth_equalityI simp: sub_def word_at_def)
  have "\<forall>c \<in> set (word_at buf w). wordc c \<and> c \<noteq> 0"
    using g keep by (auto simp: word_at_def sub_def in_set_conv_nth)
  then show ?thesis using d e g by (auto simp: cstring_def shell_word_def takeWhile_append2 word_at_def sub_def)
qed

text \<open>
  C30. The parser of the shell is total and its results are well typed. On every line it ends, within the bound on
  the depth of its recursion that \<open>parsecmd\<close> has: with an error message of the shell, or with a command whose
  words, read as C strings from the line after \<open>nulterminate\<close>, are not empty and have no white space and no symbol,
  with fewer than \<open>MAXARGS\<close> arguments for every program and with one of the three modes for every redirection.
\<close>

theorem parsecmd_well_formed:
  assumes "0 \<notin> set buf"
  shows "case parsecmd buf of Ok (c, b) s \<Rightarrow> cmd_ok shell_word (map_cmd (\<lambda>w. cstring b (fst w)) c) \<and> s = length buf
    | Panic m \<Rightarrow> True | Sleep s \<Rightarrow> False | Diverge \<Rightarrow> False"
proof -
  have p: "parsed buf 0 (parseline (4 * length buf + 4) buf 0)" using parser_total [of buf 0 "4 * length buf + 4"] by simp
  have words: "cmd_ok shell_word (map_cmd (\<lambda>w. cstring (nulterminate c (buf @ [0])) (fst w)) c)" if c: "cmd_ok (good buf) c" for c
    unfolding cmd_ok_map
  proof (rule cmd_ok_mono [OF c])
    fix w assume w: "w \<in> set_cmd c" "good buf w"
    then have "insert w (set_cmd c) = set_cmd c" by blast
    then show "(shell_word \<circ> (\<lambda>w. cstring (nulterminate c (buf @ [0])) (fst w))) w"
      using good_word [OF w(2) assms, of "set_cmd c" "nulterminate c (buf @ [0])"] cmd_ok_set [OF c]
      by (simp add: length_nulterminate nulterminate_nth)
  qed
  consider c s where "parseline (4 * length buf + 4) buf 0 = Ok c s" "cmd_ok (good buf) c" | m where "parseline (4 * length buf + 4) buf 0 = Panic m"
    using p by (auto simp: parsed_def)
  then show ?thesis by cases (use words in \<open>auto simp: parsecmd_def split: prod.split\<close>)
qed

text \<open>The line \<open>a|b>c\<close>.\<close>

theorem parsecmd_well_formed_witness:
  "parsecmd [97, 124, 98, 62, 99] = Ok (PIPE (EXEC [(0, 1)]) (REDIR (EXEC [(2, 3)]) (4, 5) 0x601 1), [97, 0, 98, 0, 99, 0]) 5 \<and>
   cmd_ok shell_word (PIPE (EXEC [[97]]) (REDIR (EXEC [[98]]) [99] 0x601 1))"
proof -
  have "parsecmd [97, 124, 98, 62, 99] = Ok (PIPE (EXEC [(0, 1)]) (REDIR (EXEC [(2, 3)]) (4, 5) 0x601 1), [97, 0, 98, 0, 99, 0]) 5"
    by code_simp
  then show ?thesis using parsecmd_well_formed [of "[97, 124, 98, 62, 99]"] by (simp add: cstring_def)
qed

section \<open>Printing commands\<close>

text \<open>A command as a line, with parentheses where its level needs them: 0 for a program with redirections, 1 for a
  pipe, 2 for a command in the background, 3 for a list.\<close>

definition parens :: "bool \<Rightarrow> byte list \<Rightarrow> byte list" where
  "parens b xs = (if b then [40] @ xs @ [41] else xs)"

definition show_words :: "byte list list \<Rightarrow> byte list" where
  "show_words ws = concat (map (\<lambda>w. w @ [32]) ws)"

definition show_redir :: "byte list \<times> 32 word \<times> int \<Rightarrow> byte list" where
  "show_redir r = (case r of (f, m, d) \<Rightarrow>
     (if m = O_RDONLY then [60] else if m AND O_TRUNC \<noteq> 0 then [62] else [62, 62]) @ f @ [32])"

fun show_cmd :: "nat \<Rightarrow> byte list cmd \<Rightarrow> byte list" where
  "show_cmd k (EXEC ws) = show_words ws"
| "show_cmd k (REDIR c f m d) = show_cmd 0 c @ show_redir (f, m, d)"
| "show_cmd k (PIPE l r) = parens (k < 1) (show_cmd 0 l @ [124] @ show_cmd 1 r)"
| "show_cmd k (BACK c) = parens (k < 2) (show_cmd 2 c @ [38])"
| "show_cmd k (LIST l r) = parens (k < 3) (show_cmd 2 l @ [59] @ show_cmd 3 r)"

text \<open>Text at a position that does not begin with white space.\<close>

definition nows :: "byte list \<Rightarrow> bool" where
  "nows xs \<longleftrightarrow> xs = [] \<or> hd xs \<notin> set whitespace"

definition text_at :: "byte list \<Rightarrow> nat \<Rightarrow> byte list \<Rightarrow> bool" where
  "text_at buf s xs \<longleftrightarrow> drop s buf = xs \<and> s \<le> length buf \<and> nows xs \<and> 0 \<notin> set buf"

lemma text_at_drop: "drop s buf = xs @ ys \<Longrightarrow> drop (s + length xs) buf = ys"
  by (metis add.commute append_eq_conv_conj drop_drop)

lemma text_at_step: "text_at buf s (xs @ ys) \<Longrightarrow> nows ys \<Longrightarrow> text_at buf (s + length xs) ys"
  using text_at_drop [of s buf xs ys] by (auto simp: text_at_def dest: arg_cong [of _ _ length])

lemma skip_text: "text_at buf s xs \<Longrightarrow> skip_ws buf s = s"
  by (cases xs) (auto simp: text_at_def skip_ws_def nows_def)

lemma at_text: "text_at buf s xs \<Longrightarrow> at buf s = (case xs of [] \<Rightarrow> 0 | c # _ \<Rightarrow> c)" "text_at buf s (c # xs) \<Longrightarrow> c \<noteq> 0"
proof -
  have h: "s < length buf \<and> buf ! s = c \<and> c \<noteq> 0" if "text_at buf s (c # xs)" for c xs
  proof -
    have d: "drop s buf = c # xs" "0 \<notin> set buf" using that by (simp_all add: text_at_def)
    then have l: "s < length buf" by (metis drop_eq_Nil list.distinct(1) not_le)
    then show ?thesis using d nth_mem [OF l] by (metis hd_drop_conv_nth list.sel(1))
  qed
  show "text_at buf s xs \<Longrightarrow> at buf s = (case xs of [] \<Rightarrow> 0 | c # _ \<Rightarrow> c)"
    using h by (cases xs) (auto simp: at_def text_at_def)
  show "text_at buf s (c # xs) \<Longrightarrow> c \<noteq> 0" using h by blast
qed

lemma peek_text: "text_at buf s xs \<Longrightarrow> peek buf toks s = (xs \<noteq> [] \<and> hd xs \<in> set toks, s)"
  using at_text [of buf s] by (cases xs) (auto simp: peek_def skip_text)

lemma skip_after: "drop s buf = xs \<Longrightarrow> nows xs \<Longrightarrow> skip_ws buf s = s"
  by (cases xs) (auto simp: skip_ws_def nows_def)

lemma token_end: "text_at buf s [] \<Longrightarrow> gettoken buf s = (0, s, s, s)"
  using at_text(1) [of buf s "[]"] skip_text [of buf s "[]"] by (simp add: gettoken_def)

lemma token_sym: "text_at buf s (c # xs) \<Longrightarrow> c \<in> set [124, 40, 41, 59, 38, 60] \<Longrightarrow> nows xs \<Longrightarrow> gettoken buf s = (c, s, s + 1, s + 1)"
  using at_text [of buf s] skip_text [of buf s "c # xs"] skip_text [OF text_at_step [of buf s "[c]" xs]] by (simp add: gettoken_def)

lemma token_out:
  assumes "text_at buf s ([62] @ xs)" "nows xs" "xs \<noteq> [] \<Longrightarrow> hd xs \<noteq> 62"
  shows "gettoken buf s = (62, s, s + 1, s + 1)"
proof -
  have t: "text_at buf (s + 1) xs" using text_at_step [OF assms(1,2)] by simp
  then show ?thesis using at_text(1) [OF assms(1)] at_text(1) [OF t] skip_text [OF assms(1)] skip_text [OF t] assms(3)
    by (cases xs) (auto simp: gettoken_def)
qed

lemma token_append:
  assumes "text_at buf s ([62, 62] @ xs)" "nows xs"
  shows "gettoken buf s = (43, s, s + 2, s + 2)"
proof -
  have t: "text_at buf (s + 2) xs" using text_at_step [OF assms] by simp
  have u: "text_at buf (s + 1) (62 # xs)" using text_at_step [of buf s "[62]" "62 # xs"] assms(1) by (simp add: nows_def whitespace_def)
  show ?thesis using at_text(1) [OF assms(1)] at_text(1) [OF u] skip_text [OF assms(1)] skip_text [OF t] by (simp add: gettoken_def)
qed

lemma shell_word_hd: "shell_word w \<Longrightarrow> w \<noteq> [] \<and> wordc (hd w) \<and> hd w \<noteq> 0"
  by (cases w) (auto simp: shell_word_def)

lemma nows_word: "shell_word w \<Longrightarrow> nows (w @ xs)"
  using shell_word_hd [of w] by (cases w) (auto simp: nows_def wordc_def)

lemma token_word:
  assumes "text_at buf s (w @ [32] @ xs)" "shell_word w" "nows xs"
  shows "gettoken buf s = (97, s, s + length w, s + length w + 1)" "text_at buf (s + length w + 1) xs" "word_at buf (s, s + length w) = w"
proof -
  have d: "drop s buf = w @ 32 # xs" using assms(1) by (simp add: text_at_def)
  show t: "text_at buf (s + length w + 1) xs" using text_at_step [of buf s "w @ [32]" xs] assms by simp
  show "word_at buf (s, s + length w) = w" using d by (simp add: word_at_def sub_def)
  have "takeWhile wordc (drop s buf) = w" unfolding d using assms(2) by (simp add: shell_word_def takeWhile_append2 wordc_def whitespace_def)
  moreover have "at buf s = hd w" using at_text(1) [OF assms(1)] assms(2) by (cases w) (auto simp: shell_word_def)
  moreover have "drop (s + length w) buf = [32] @ xs" using text_at_drop [of s buf w "[32] @ xs"] d by simp
  then have "skip_ws buf (s + length w) = s + length w + 1"
    using assms(3) by (cases xs) (auto simp: skip_ws_def whitespace_def nows_def)
  ultimately show "gettoken buf s = (97, s, s + length w, s + length w + 1)"
    using skip_text [OF assms(1)] shell_word_hd [OF assms(2)] by (simp add: gettoken_def wordc_def symbols_def)
qed

section \<open>Reading a printed command\<close>

definition add_redirs :: "'w cmd \<Rightarrow> ('w \<times> 32 word \<times> int) list \<Rightarrow> 'w cmd" where
  "add_redirs c rs = foldl (\<lambda>c r. REDIR c (fst r) (fst (snd r)) (snd (snd r))) c rs"

definition redirs_ok :: "(byte list \<times> 32 word \<times> int) list \<Rightarrow> bool" where
  "redirs_ok rs \<longleftrightarrow> (\<forall>r \<in> set rs. shell_word (fst r) \<and> redir_ok (fst (snd r)) (snd (snd r)))"

definition read_redirs :: "byte list \<Rightarrow> ((nat \<times> nat) \<times> 32 word \<times> int) list \<Rightarrow> (byte list \<times> 32 word \<times> int) list" where
  "read_redirs buf rs = map (\<lambda>r. (word_at buf (fst r), snd r)) rs"

definition show_redirs :: "(byte list \<times> 32 word \<times> int) list \<Rightarrow> byte list" where
  "show_redirs rs = concat (map show_redir rs)"

lemma map_add_redirs: "map_cmd (word_at buf) (add_redirs c rs) = add_redirs (map_cmd (word_at buf) c) (read_redirs buf rs)"
  by (induction rs arbitrary: c) (auto simp: add_redirs_def read_redirs_def)

lemma redir_modes: "redir_ok m d \<longleftrightarrow> m = 0 \<and> d = 0 \<or> m = 0x601 \<and> d = 1 \<or> m = 0x201 \<and> d = 1"
  by (auto simp: redir_ok_def O_RDONLY_def O_WRONLY_def O_CREATE_def O_TRUNC_def)

lemma nows_redirs: "nows xs \<Longrightarrow> nows (show_redirs rs @ xs)"
  by (cases rs) (auto simp: show_redirs_def show_redir_def nows_def whitespace_def split: prod.splits)

lemma read_one_redir:
  assumes "text_at buf s (show_redir (f, m, d) @ xs)" "shell_word f" "redir_ok m d" "nows xs"
  shows "\<exists>w s'. s' = s + length (show_redir (f, m, d)) \<and> word_at buf w = f \<and> text_at buf s' xs \<and>
    parseredirs buf c s = parseredirs buf (REDIR c w m d) s'"
proof -
  let ?op = "if m = 0 then [60] else if m AND 0x400 \<noteq> 0 then [62] else [62, 62] :: byte list"
  have sh: "show_redir (f, m, d) = ?op @ f @ [32]" by (simp add: show_redir_def O_RDONLY_def O_TRUNC_def)
  have t1: "text_at buf s (?op @ f @ [32] @ xs)" using assms(1) unfolding sh by simp
  have n: "nows (f @ [32] @ xs)" using nows_word [OF assms(2)] .
  have t2: "text_at buf (s + length ?op) (f @ [32] @ xs)" using text_at_step [OF t1 n] .
  have hf: "f \<noteq> []" "hd f \<noteq> 62" using shell_word_hd [OF assms(2)] by (auto simp: wordc_def symbols_def)
  have g1: "\<exists>tok. gettoken buf s = (tok, s, s + length ?op, s + length ?op) \<and> (tok = 60 \<and> m = 0 \<and> d = 0 \<or> tok = 62 \<and> m = 0x601 \<and> d = 1 \<or> tok = 43 \<and> m = 0x201 \<and> d = 1)"
    using assms(3) unfolding redir_modes
  proof (elim disjE conjE)
    assume m: "m = 0" "d = 0"
    then show ?thesis using token_sym [of buf s 60 "f @ [32] @ xs"] t1 n by simp
  next
    assume m: "m = 0x601" "d = 1"
    then show ?thesis using token_out [of buf s "f @ [32] @ xs"] t1 n hf by (cases f) auto
  next
    assume m: "m = 0x201" "d = 1"
    then show ?thesis using token_append [of buf s "f @ [32] @ xs"] t1 n by simp
  qed
  note w = token_word [OF t2 assms(2,4)]
  have "peek buf [60, 62] s = (True, s)" using peek_text [OF t1, of "[60, 62]"] by (auto split: if_splits)
  then have "parseredirs buf c s = parseredirs buf (REDIR c (s + length ?op, s + length ?op + length f) m d) (s + length ?op + length f + 1)"
    using g1 w(1) by (auto simp: parseredirs.simps [of buf c s] O_RDONLY_def O_WRONLY_def O_CREATE_def O_TRUNC_def)
  then show ?thesis using w(2,3) unfolding sh
    by (intro exI [of _ "(s + length ?op, s + length ?op + length f)"] exI [of _ "s + length ?op + length f + 1"]) simp
qed

lemma redirs_stop: "text_at buf s xs \<Longrightarrow> xs = [] \<or> hd xs \<notin> set [60, 62] \<Longrightarrow> parseredirs buf c s = Ok c s"
  using peek_text [of buf s xs "[60, 62]"] by (auto simp: parseredirs.simps [of buf c s])

lemma read_show_redirs:
  assumes "text_at buf s (show_redirs rs @ xs)" "redirs_ok rs" "nows xs" "xs = [] \<or> hd xs \<notin> set [60, 62]"
  shows "\<exists>rs'. parseredirs buf c s = Ok (add_redirs c rs') (s + length (show_redirs rs)) \<and> read_redirs buf rs' = rs"
  using assms(1,2)
proof (induction rs arbitrary: s c)
  case Nil
  then show ?case using redirs_stop [of buf s xs c] assms(4) by (intro exI [of _ "[]"]) (simp add: show_redirs_def add_redirs_def read_redirs_def)
next
  case (Cons r rs)
  obtain f m d where r: "r = (f, m, d)" by (metis prod_cases3)
  have ok: "shell_word f" "redir_ok m d" "redirs_ok rs" using Cons.prems(2) r by (simp_all add: redirs_ok_def)
  have t: "text_at buf s (show_redir (f, m, d) @ show_redirs rs @ xs)" using Cons.prems(1) r by (simp add: show_redirs_def)
  obtain w where w: "word_at buf w = f" "text_at buf (s + length (show_redir (f, m, d))) (show_redirs rs @ xs)"
      "parseredirs buf c s = parseredirs buf (REDIR c w m d) (s + length (show_redir (f, m, d)))"
    using read_one_redir [OF t ok(1,2) nows_redirs [OF assms(3)], of c] by blast
  obtain rs' where "parseredirs buf (REDIR c w m d) (s + length (show_redir (f, m, d))) =
      Ok (add_redirs (REDIR c w m d) rs') (s + length (show_redir (f, m, d)) + length (show_redirs rs))" "read_redirs buf rs' = rs"
    using Cons.IH [OF w(2) ok(3)] by blast
  then show ?case using w r by (intro exI [of _ "(w, m, d) # rs'"]) (simp add: add_redirs_def read_redirs_def show_redirs_def)
qed

text \<open>What may follow a program with its redirections.\<close>

definition follow :: "byte list \<Rightarrow> byte list \<Rightarrow> bool" where
  "follow cs xs \<longleftrightarrow> xs = [] \<or> hd xs \<in> set cs"

lemma follow_nows: "follow cs xs \<Longrightarrow> set cs \<subseteq> set symbols \<Longrightarrow> nows xs"
  by (auto simp: follow_def nows_def whitespace_def symbols_def)

lemma args_stop: "text_at buf s xs \<Longrightarrow> follow [124, 41, 38, 59] xs \<Longrightarrow> parse_args buf ret argc s = Ok ret s"
  using peek_text [of buf s xs "[124, 41, 38, 59]"] token_end [of buf s]
  by (cases xs) (auto simp: parse_args.simps [of buf ret argc s] follow_def)

lemma nows_words: "\<forall>w \<in> set ws. shell_word w \<Longrightarrow> nows xs \<Longrightarrow> nows (show_words ws @ xs)"
  using nows_word by (cases ws) (auto simp: show_words_def)

lemma read_show_args:
  assumes "text_at buf s (show_words ws @ show_redirs rs @ xs)" "ws \<noteq> [] \<or> rs = []" "\<forall>w \<in> set ws. shell_word w" "length a + length ws < MAXARGS"
    "redirs_ok rs" "follow [124, 41, 38, 59] xs"
  shows "\<exists>ws' rs'. parse_args buf (EXEC a) (length a) s = Ok (add_redirs (EXEC (a @ ws')) rs') (s + length (show_words ws @ show_redirs rs)) \<and>
    map (word_at buf) ws' = ws \<and> read_redirs buf rs' = rs"
  using assms(1-4)
proof (induction ws arbitrary: a s)
  case Nil
  then show ?case using args_stop [of buf s xs "EXEC a" "length a"] assms(6)
    by (intro exI [of _ "[]"]) (simp add: show_words_def show_redirs_def add_redirs_def read_redirs_def)
next
  case (Cons w ws)
  have nx: "nows xs" using follow_nows [OF assms(6)] by (simp add: symbols_def)
  let ?r = "show_words ws @ show_redirs rs @ xs" and ?s1 = "s + length w + 1" and ?w = "(s, s + length w)"
  have t: "text_at buf s (w @ [32] @ ?r)" using Cons.prems(1) by (simp add: show_words_def)
  have ok: "shell_word w" "\<forall>w \<in> set ws. shell_word w" using Cons.prems(3) by simp_all
  note T = token_word [OF t ok(1) nows_words [OF ok(2) nows_redirs [OF nx]]]
  have h: "hd w \<notin> set [124, 41, 38, 59]" "w \<noteq> []" using shell_word_hd [OF ok(1)] by (auto simp: wordc_def symbols_def)
  have "peek buf [124, 41, 38, 59] s = (False, s)" using peek_text [OF t, of "[124, 41, 38, 59]"] h by simp
  then have e: "parse_args buf (EXEC a) (length a) s = bindr (parseredirs buf (EXEC (a @ [?w])) ?s1) (\<lambda>ret s. parse_args buf ret (length a + 1) s)"
    using T(1) Cons.prems(4) by (simp add: parse_args.simps [of buf "EXEC a"])
  show ?case
  proof (cases "ws = []")
    case True
    then have t1: "text_at buf ?s1 (show_redirs rs @ xs)" using T(2) by (simp add: show_words_def)
    obtain rs' where r: "parseredirs buf (EXEC (a @ [?w])) ?s1 = Ok (add_redirs (EXEC (a @ [?w])) rs') (?s1 + length (show_redirs rs))" "read_redirs buf rs' = rs"
      using read_show_redirs [OF t1 assms(5) nx] assms(6) by (fastforce simp: follow_def)
    have "text_at buf (?s1 + length (show_redirs rs)) xs" using text_at_step [OF t1 nx] .
    then have "parse_args buf (EXEC a) (length a) s = Ok (add_redirs (EXEC (a @ [?w])) rs') (?s1 + length (show_redirs rs))"
      using e r(1) args_stop [OF _ assms(6)] by simp
    then show ?thesis using r(2) T(3) True by (intro exI [of _ "[?w]"] exI [of _ rs']) (simp add: show_words_def)
  next
    case False
    then have "?r \<noteq> []" "hd ?r \<notin> set [60, 62]" using ok(2) shell_word_hd by (cases ws; fastforce simp: show_words_def wordc_def symbols_def)+
    then have "parse_args buf (EXEC a) (length a) s = parse_args buf (EXEC (a @ [?w])) (length a + 1) ?s1" using e redirs_stop [OF T(2)] by simp
    moreover obtain ws' rs' where "parse_args buf (EXEC (a @ [?w])) (length (a @ [?w])) ?s1 =
        Ok (add_redirs (EXEC ((a @ [?w]) @ ws')) rs') (?s1 + length (show_words ws @ show_redirs rs))" "map (word_at buf) ws' = ws" "read_redirs buf rs' = rs"
      using Cons.IH [of ?s1 "a @ [?w]"] T(2) False ok(2) Cons.prems(4) by auto
    ultimately show ?thesis using T(3) by (intro exI [of _ "?w # ws'"] exI [of _ rs']) (simp add: show_words_def)
  qed
qed

lemma nows_syms [simp]: "nows (124 # xs)" "nows (40 # xs)" "nows (41 # xs)" "nows (38 # xs)" "nows (59 # xs)"
  by (simp_all add: nows_def whitespace_def)

lemma nows_show: "cmd_ok shell_word c \<Longrightarrow> nows xs \<Longrightarrow> nows (show_cmd k c @ xs)"
proof (induction c arbitrary: k xs)
  case (EXEC ws)
  then show ?case using nows_words by simp
next
  case (REDIR c f m d)
  have "nows (show_redir (f, m, d) @ xs)" by (simp add: show_redir_def nows_def whitespace_def)
  then show ?case using REDIR by simp
qed (auto simp: parens_def)

text \<open>A parser at \<open>s\<close> reads the command \<open>c\<close> up to \<open>s'\<close>, given enough depth.\<close>

definition reads_as :: "byte list \<Rightarrow> (nat \<Rightarrow> (nat, (nat \<times> nat) cmd) res) \<Rightarrow> byte list cmd \<Rightarrow> nat \<Rightarrow> bool" where
  "reads_as buf f c s' \<longleftrightarrow> (\<exists>c' n. map_cmd (word_at buf) c' = c \<and> (\<forall>m \<ge> n. f m = Ok c' s'))"

definition exec_reads :: "byte list cmd \<Rightarrow> bool" where
  "exec_reads c \<longleftrightarrow> (\<forall>buf s rs xs. text_at buf s (show_cmd 0 c @ show_redirs rs @ xs) \<longrightarrow> redirs_ok rs \<longrightarrow> follow [124, 41, 38, 59] xs \<longrightarrow>
     reads_as buf (\<lambda>m. parseexec m buf s) (add_redirs c rs) (s + length (show_cmd 0 c @ show_redirs rs)))"

definition pipe_reads :: "byte list cmd \<Rightarrow> bool" where
  "pipe_reads c \<longleftrightarrow> (\<forall>buf s xs. text_at buf s (show_cmd 1 c @ xs) \<longrightarrow> follow [41, 38, 59] xs \<longrightarrow>
     reads_as buf (\<lambda>m. parsepipe m buf s) c (s + length (show_cmd 1 c)))"

definition back_reads :: "byte list cmd \<Rightarrow> bool" where
  "back_reads c \<longleftrightarrow> (\<forall>buf s xs. text_at buf s (show_cmd 2 c @ xs) \<longrightarrow> follow [41, 38, 59] xs \<longrightarrow>
     (\<exists>c' c0 s0 n. map_cmd (word_at buf) c' = c \<and> (\<forall>m \<ge> n. parsepipe m buf s = Ok c0 s0) \<and>
        parse_back buf c0 s0 = parse_back buf c' (s + length (show_cmd 2 c))))"

definition line_reads :: "byte list cmd \<Rightarrow> bool" where
  "line_reads c \<longleftrightarrow> (\<forall>buf s xs. text_at buf s (show_cmd 3 c @ xs) \<longrightarrow> follow [41] xs \<longrightarrow>
     reads_as buf (\<lambda>m. parseline m buf s) c (s + length (show_cmd 3 c)))"

lemma reads_asI: "map_cmd (word_at buf) c' = c \<Longrightarrow> (\<And>m. n \<le> m \<Longrightarrow> f (Suc m) = Ok c' s') \<Longrightarrow> reads_as buf f c s'"
proof -
  assume a: "map_cmd (word_at buf) c' = c" "\<And>m. n \<le> m \<Longrightarrow> f (Suc m) = Ok c' s'"
  have "f m = Ok c' s'" if "Suc n \<le> m" for m using that a(2) [of "m - 1"] by (cases m) auto
  then show ?thesis using a(1) unfolding reads_as_def by blast
qed

lemma exec_pipe: "exec_reads c \<Longrightarrow> (\<And>l r. c \<noteq> PIPE l r) \<Longrightarrow> pipe_reads c"
  unfolding pipe_reads_def
proof (intro allI impI)
  fix buf s xs
  assume c: "exec_reads c" "\<And>l r. c \<noteq> PIPE l r" and t: "text_at buf s (show_cmd 1 c @ xs)" and f: "follow [41, 38, 59] xs"
  have e: "show_cmd 1 c = show_cmd 0 c" using c(2) by (cases c) auto
  have "follow [124, 41, 38, 59] xs" using f by (auto simp: follow_def)
  then obtain c' n where w: "map_cmd (word_at buf) c' = c" "\<forall>m \<ge> n. parseexec m buf s = Ok c' (s + length (show_cmd 0 c))"
    using c(1) [unfolded exec_reads_def, rule_format, of buf s "[]" xs] t e by (auto simp: show_redirs_def redirs_ok_def add_redirs_def reads_as_def)
  have "text_at buf (s + length (show_cmd 0 c)) xs" using text_at_step [of buf s "show_cmd 0 c" xs] t e follow_nows [OF f] by (simp add: symbols_def)
  then have "peek buf [124] (s + length (show_cmd 0 c)) = (False, s + length (show_cmd 0 c))" using peek_text [of buf _ xs "[124]"] f by (auto simp: follow_def)
  then show "reads_as buf (\<lambda>m. parsepipe m buf s) c (s + length (show_cmd 1 c))"
    using w e by (intro reads_asI [of buf c' c n]) auto
qed

lemma pipe_back: "pipe_reads c \<Longrightarrow> (\<And>d. c \<noteq> BACK d) \<Longrightarrow> back_reads c"
proof -
  assume c: "pipe_reads c" "\<And>d. c \<noteq> BACK d"
  have "show_cmd 2 c = show_cmd 1 c" using c(2) by (cases c) (auto simp: parens_def)
  then show ?thesis using c(1) unfolding back_reads_def pipe_reads_def reads_as_def by metis
qed

lemma back_stop: "text_at buf s xs \<Longrightarrow> xs = [] \<or> hd xs \<noteq> 38 \<Longrightarrow> parse_back buf c s = (c, s)"
  using peek_text [of buf s xs "[38]"] by (auto simp: parse_back.simps [of buf c s])

lemma back_line: "back_reads c \<Longrightarrow> (\<And>l r. c \<noteq> LIST l r) \<Longrightarrow> line_reads c"
  unfolding line_reads_def
proof (intro allI impI)
  fix buf s xs
  assume c: "back_reads c" "\<And>l r. c \<noteq> LIST l r" and t: "text_at buf s (show_cmd 3 c @ xs)" and f: "follow [41] xs"
  have e: "show_cmd 3 c = show_cmd 2 c" using c(2) by (cases c) (auto simp: parens_def)
  let ?s = "s + length (show_cmd 2 c)"
  have "follow [41, 38, 59] xs" using f by (auto simp: follow_def)
  then obtain c' c0 s0 n where w: "map_cmd (word_at buf) c' = c" "\<forall>m \<ge> n. parsepipe m buf s = Ok c0 s0" "parse_back buf c0 s0 = parse_back buf c' ?s"
    using c(1) t e unfolding back_reads_def by metis
  have u: "text_at buf ?s xs" using text_at_step [of buf s "show_cmd 2 c" xs] t e follow_nows [OF f] by (simp add: symbols_def)
  then have "peek buf [59] ?s = (False, ?s)" "parse_back buf c' ?s = (c', ?s)"
    using peek_text [OF u, of "[59]"] back_stop [OF u, of c'] f by (auto simp: follow_def)
  then show "reads_as buf (\<lambda>m. parseline m buf s) c (s + length (show_cmd 3 c))" using w e by (intro reads_asI [of buf c' c n]) auto
qed

lemma back_back: "back_reads c \<Longrightarrow> back_reads (BACK c)"
  unfolding back_reads_def [of "BACK c"]
proof (intro allI impI)
  fix buf s xs
  assume c: "back_reads c" and t: "text_at buf s (show_cmd 2 (BACK c) @ xs)" and f: "follow [41, 38, 59] xs"
  have t: "text_at buf s (show_cmd 2 c @ [38] @ xs)" using t by (simp add: parens_def)
  let ?s = "s + length (show_cmd 2 c)"
  have "follow [41, 38, 59] ([38] @ xs)" by (simp add: follow_def)
  then obtain c' c0 s0 n where w: "map_cmd (word_at buf) c' = c" "\<forall>m \<ge> n. parsepipe m buf s = Ok c0 s0" "parse_back buf c0 s0 = parse_back buf c' ?s"
    using c t unfolding back_reads_def by metis
  have u: "text_at buf ?s ([38] @ xs)" using text_at_step [OF t] by (simp add: nows_def whitespace_def)
  have "nows xs" using follow_nows [OF f] by (simp add: symbols_def)
  then have "parse_back buf c' ?s = parse_back buf (BACK c') (?s + 1)"
    using peek_text [OF u, of "[38]"] token_sym [of buf ?s 38 xs] u by (simp add: parse_back.simps [of buf c' ?s])
  then show "\<exists>c' c0 s0 n. map_cmd (word_at buf) c' = BACK c \<and> (\<forall>m \<ge> n. parsepipe m buf s = Ok c0 s0) \<and>
        parse_back buf c0 s0 = parse_back buf c' (s + length (show_cmd 2 (BACK c)))"
    using w by (intro exI [of _ "BACK c'"] exI [of _ c0] exI [of _ s0] exI [of _ n]) (simp add: parens_def)
qed

lemma pipe_pipe: "cmd_ok shell_word r \<Longrightarrow> exec_reads l \<Longrightarrow> pipe_reads r \<Longrightarrow> pipe_reads (PIPE l r)"
  unfolding pipe_reads_def [of "PIPE l r"]
proof (intro allI impI)
  fix buf s xs
  assume c: "cmd_ok shell_word r" "exec_reads l" "pipe_reads r" and t: "text_at buf s (show_cmd 1 (PIPE l r) @ xs)" and f: "follow [41, 38, 59] xs"
  have t: "text_at buf s (show_cmd 0 l @ [124] @ show_cmd 1 r @ xs)" using t by (simp add: parens_def)
  let ?s = "s + length (show_cmd 0 l)"
  have nx: "nows (show_cmd 1 r @ xs)" using nows_show [OF c(1) follow_nows [OF f]] by (simp add: symbols_def)
  have u: "text_at buf ?s ([124] @ show_cmd 1 r @ xs)" using text_at_step [OF t] by simp
  have v: "text_at buf (?s + 1) (show_cmd 1 r @ xs)" using text_at_step [OF u nx] by simp
  obtain l' n where l: "map_cmd (word_at buf) l' = l" "\<forall>m \<ge> n. parseexec m buf s = Ok l' ?s"
    using c(2) [unfolded exec_reads_def, rule_format, of buf s "[]" "[124] @ show_cmd 1 r @ xs"] t
    by (auto simp: show_redirs_def redirs_ok_def add_redirs_def reads_as_def follow_def)
  obtain r' k where r: "map_cmd (word_at buf) r' = r" "\<forall>m \<ge> k. parsepipe m buf (?s + 1) = Ok r' (?s + 1 + length (show_cmd 1 r))"
    using c(3) [unfolded pipe_reads_def, rule_format, OF v f] by (auto simp: reads_as_def)
  have "peek buf [124] ?s = (True, ?s)" "gettoken buf ?s = (124, ?s, ?s + 1, ?s + 1)" using peek_text [OF u, of "[124]"] token_sym [of buf ?s 124] u nx by simp_all
  then show "reads_as buf (\<lambda>m. parsepipe m buf s) (PIPE l r) (s + length (show_cmd 1 (PIPE l r)))"
    using l r by (intro reads_asI [of buf "PIPE l' r'" _ "max n k"]) (auto simp: parens_def)
qed

lemma list_line: "cmd_ok shell_word r \<Longrightarrow> back_reads l \<Longrightarrow> line_reads r \<Longrightarrow> line_reads (LIST l r)"
  unfolding line_reads_def [of "LIST l r"]
proof (intro allI impI)
  fix buf s xs
  assume c: "cmd_ok shell_word r" "back_reads l" "line_reads r" and t: "text_at buf s (show_cmd 3 (LIST l r) @ xs)" and f: "follow [41] xs"
  have t: "text_at buf s (show_cmd 2 l @ [59] @ show_cmd 3 r @ xs)" using t by (simp add: parens_def)
  let ?s = "s + length (show_cmd 2 l)"
  have nx: "nows (show_cmd 3 r @ xs)" using nows_show [OF c(1) follow_nows [OF f]] by (simp add: symbols_def)
  have u: "text_at buf ?s ([59] @ show_cmd 3 r @ xs)" using text_at_step [OF t] by simp
  have v: "text_at buf (?s + 1) (show_cmd 3 r @ xs)" using text_at_step [OF u nx] by simp
  have "follow [41, 38, 59] ([59] @ show_cmd 3 r @ xs)" by (simp add: follow_def)
  then obtain l' c0 s0 n where l: "map_cmd (word_at buf) l' = l" "\<forall>m \<ge> n. parsepipe m buf s = Ok c0 s0" "parse_back buf c0 s0 = parse_back buf l' ?s"
    using c(2) t unfolding back_reads_def by metis
  obtain r' k where r: "map_cmd (word_at buf) r' = r" "\<forall>m \<ge> k. parseline m buf (?s + 1) = Ok r' (?s + 1 + length (show_cmd 3 r))"
    using c(3) [unfolded line_reads_def, rule_format, OF v f] by (auto simp: reads_as_def)
  have "parse_back buf l' ?s = (l', ?s)" using back_stop [OF u] by simp
  moreover have "peek buf [59] ?s = (True, ?s)" "gettoken buf ?s = (59, ?s, ?s + 1, ?s + 1)" using peek_text [OF u, of "[59]"] token_sym [of buf ?s 59] u nx by simp_all
  ultimately show "reads_as buf (\<lambda>m. parseline m buf s) (LIST l r) (s + length (show_cmd 3 (LIST l r)))"
    using l r by (intro reads_asI [of buf "LIST l' r'" _ "max n k"]) (auto simp: parens_def)
qed

lemma line_exec: "cmd_ok shell_word c \<Longrightarrow> line_reads c \<Longrightarrow> show_cmd 0 c = [40] @ show_cmd 3 c @ [41] \<Longrightarrow> exec_reads c"
  unfolding exec_reads_def
proof (intro allI impI)
  fix buf s rs xs
  assume c: "cmd_ok shell_word c" "line_reads c" and e: "show_cmd 0 c = [40] @ show_cmd 3 c @ [41]"
    and t: "text_at buf s (show_cmd 0 c @ show_redirs rs @ xs)" and rs: "redirs_ok rs" and f: "follow [124, 41, 38, 59] xs"
  have t: "text_at buf s ([40] @ show_cmd 3 c @ [41] @ show_redirs rs @ xs)" using t e by simp
  have nx: "nows xs" using follow_nows [OF f] by (simp add: symbols_def)
  let ?s = "s + 1 + length (show_cmd 3 c)"
  have n1: "nows (show_cmd 3 c @ [41] @ show_redirs rs @ xs)" by (rule nows_show [OF c(1)]) simp
  have u: "text_at buf (s + 1) (show_cmd 3 c @ [41] @ show_redirs rs @ xs)" using text_at_step [OF t n1] by simp
  have v: "text_at buf ?s ([41] @ show_redirs rs @ xs)" using text_at_step [OF u] by simp
  have w: "text_at buf (?s + 1) (show_redirs rs @ xs)" using text_at_step [OF v nows_redirs [OF nx]] by simp
  obtain c' n where l: "map_cmd (word_at buf) c' = c" "\<forall>m \<ge> n. parseline m buf (s + 1) = Ok c' ?s"
    using c(2) [unfolded line_reads_def, rule_format, OF u] by (auto simp: reads_as_def follow_def)
  obtain rs' where r: "parseredirs buf c' (?s + 1) = Ok (add_redirs c' rs') (?s + 1 + length (show_redirs rs))" "read_redirs buf rs' = rs"
    using read_show_redirs [OF w rs nx, of c'] f by (fastforce simp: follow_def)
  have "peek buf [40] s = (True, s)" "gettoken buf s = (40, s, s + 1, s + 1)" using peek_text [OF t, of "[40]"] token_sym [of buf s 40] t n1 by simp_all
  moreover have "peek buf [41] ?s = (True, ?s)" "gettoken buf ?s = (41, ?s, ?s + 1, ?s + 1)"
    using peek_text [OF v, of "[41]"] token_sym [of buf ?s 41] v nows_redirs [OF nx, of rs] by simp_all
  ultimately have "parseexec (Suc (Suc m)) buf s = Ok (add_redirs c' rs') (?s + 1 + length (show_redirs rs))" if "n \<le> m" for m
    using l r(1) that by simp
  then have "parseexec (Suc m) buf s = Ok (add_redirs c' rs') (?s + 1 + length (show_redirs rs))" if "Suc n \<le> m" for m
    using that by (cases m) auto
  moreover have "map_cmd (word_at buf) (add_redirs c' rs') = add_redirs c rs" using l(1) r(2) by (simp add: map_add_redirs)
  ultimately show "reads_as buf (\<lambda>m. parseexec m buf s) (add_redirs c rs) (s + length (show_cmd 0 c @ show_redirs rs))"
    unfolding e by (intro reads_asI [of buf "add_redirs c' rs'" _ "Suc n"]) auto
qed

lemma exec_words: "cmd_ok shell_word (EXEC ws) \<Longrightarrow> exec_reads (EXEC ws)"
  unfolding exec_reads_def
proof (intro allI impI)
  fix buf s rs xs
  assume c: "cmd_ok shell_word (EXEC ws)" and t: "text_at buf s (show_cmd 0 (EXEC ws) @ show_redirs rs @ xs)" and rs: "redirs_ok rs" and f: "follow [124, 41, 38, 59] xs"
  have t: "text_at buf s (show_words ws @ show_redirs rs @ xs)" using t by simp
  have nx: "nows xs" using follow_nows [OF f] by (simp add: symbols_def)
  have ok: "\<forall>w \<in> set ws. shell_word w" "length ws < MAXARGS" using c by simp_all
  let ?r = "show_words ws @ show_redirs rs @ xs" and ?s = "s + length (show_words ws @ show_redirs rs)"
  have "\<exists>ws' rs'. bindr (parseredirs buf (EXEC []) s) (\<lambda>ret s. parse_args buf ret 0 s) = Ok (add_redirs (EXEC ws') rs') ?s \<and>
      map (word_at buf) ws' = ws \<and> read_redirs buf rs' = rs"
  proof (cases "ws = []")
    case True
    then obtain rs' where r: "parseredirs buf (EXEC []) s = Ok (add_redirs (EXEC []) rs') ?s" "read_redirs buf rs' = rs"
      using read_show_redirs [OF _ rs nx, of buf s "EXEC []"] t f by (fastforce simp: follow_def show_words_def)
    have "text_at buf ?s xs" using text_at_step [of buf s "show_words ws @ show_redirs rs" xs] t nx by simp
    then show ?thesis using r args_stop [OF _ f] True by (intro exI [of _ "[]"] exI [of _ rs']) simp
  next
    case False
    then have "hd ?r \<notin> set [60, 62]" using ok(1) shell_word_hd by (cases ws; fastforce simp: show_words_def wordc_def symbols_def)
    then show ?thesis using redirs_stop [OF t] read_show_args [OF t _ ok(1) _ rs f, of "[]"] False ok(2) by simp
  qed
  then obtain ws' rs' where r: "bindr (parseredirs buf (EXEC []) s) (\<lambda>ret s. parse_args buf ret 0 s) = Ok (add_redirs (EXEC ws') rs') ?s"
      "map (word_at buf) ws' = ws" "read_redirs buf rs' = rs" by blast
  have "?r = [] \<or> hd ?r \<noteq> 40"
  proof (cases ws)
    case Nil
    then show ?thesis using f by (cases rs) (auto simp: show_words_def show_redirs_def show_redir_def follow_def split: prod.splits)
  next
    case (Cons w ws')
    then show ?thesis using ok(1) shell_word_hd [of w] by (auto simp: show_words_def wordc_def symbols_def)
  qed
  then have "peek buf [40] s = (False, s)" using peek_text [OF t, of "[40]"] by auto
  then show "reads_as buf (\<lambda>m. parseexec m buf s) (add_redirs (EXEC ws) rs) (s + length (show_cmd 0 (EXEC ws) @ show_redirs rs))"
    using r by (intro reads_asI [of buf "add_redirs (EXEC ws') rs'" _ 0]) (auto simp: map_add_redirs)
qed

lemma exec_redir: "exec_reads c \<Longrightarrow> shell_word f \<Longrightarrow> redir_ok m d \<Longrightarrow> exec_reads (REDIR c f m d)"
  unfolding exec_reads_def [of "REDIR c f m d"]
proof (intro allI impI)
  fix buf s rs xs
  assume c: "exec_reads c" "shell_word f" "redir_ok m d" and t: "text_at buf s (show_cmd 0 (REDIR c f m d) @ show_redirs rs @ xs)"
    and rs: "redirs_ok rs" and f: "follow [124, 41, 38, 59] xs"
  have "text_at buf s (show_cmd 0 c @ show_redirs ((f, m, d) # rs) @ xs)" using t by (simp add: show_redirs_def)
  moreover have "redirs_ok ((f, m, d) # rs)" using c rs by (simp add: redirs_ok_def)
  ultimately show "reads_as buf (\<lambda>m. parseexec m buf s) (add_redirs (REDIR c f m d) rs) (s + length (show_cmd 0 (REDIR c f m d) @ show_redirs rs))"
    using c(1) [unfolded exec_reads_def, rule_format, of buf s "(f, m, d) # rs" xs] f by (simp add: add_redirs_def show_redirs_def add.assoc)
qed

lemma all_reads: "cmd_ok shell_word c \<Longrightarrow> exec_reads c \<and> pipe_reads c \<and> back_reads c \<and> line_reads c"
proof (induction c)
  case (EXEC ws)
  then show ?case using exec_words exec_pipe pipe_back back_line by (metis cmd.distinct)
next
  case (REDIR c f m d)
  then have "exec_reads (REDIR c f m d)" using exec_redir by simp
  then show ?case using exec_pipe pipe_back back_line by (metis cmd.distinct)
next
  case (PIPE l r)
  then have p: "pipe_reads (PIPE l r)" using pipe_pipe by simp
  then have "line_reads (PIPE l r)" using pipe_back back_line by (metis cmd.distinct)
  then show ?case using p pipe_back line_exec [OF PIPE.prems] by (auto simp: parens_def)
next
  case (LIST l r)
  then have l: "line_reads (LIST l r)" using list_line by simp
  then have "exec_reads (LIST l r)" using line_exec [OF LIST.prems] by (auto simp: parens_def)
  then show ?case using l exec_pipe pipe_back by (metis cmd.distinct)
next
  case (BACK c)
  then have b: "back_reads (BACK c)" using back_back by simp
  then have l: "line_reads (BACK c)" using back_line by blast
  then have "exec_reads (BACK c)" using line_exec [OF BACK.prems] by (auto simp: parens_def)
  then show ?case using l b exec_pipe by blast
qed

text \<open>More depth does not change a result.\<close>

definition line_rest :: "byte list \<Rightarrow> (nat \<Rightarrow> (nat, (nat \<times> nat) cmd) res) \<Rightarrow> (nat \<times> nat) cmd \<Rightarrow> nat \<Rightarrow> (nat, (nat \<times> nat) cmd) res" where
  "line_rest buf f cmd s =
     (case parse_back buf cmd s of (cmd, s) \<Rightarrow>
     (case peek buf [59] s of
        (True, s) \<Rightarrow> (case gettoken buf s of (_, _, _, s) \<Rightarrow> bindr (f s) (\<lambda>r s. Ok (LIST cmd r) s))
      | (False, s) \<Rightarrow> Ok cmd s))"

definition pipe_rest :: "byte list \<Rightarrow> (nat \<Rightarrow> (nat, (nat \<times> nat) cmd) res) \<Rightarrow> (nat \<times> nat) cmd \<Rightarrow> nat \<Rightarrow> (nat, (nat \<times> nat) cmd) res" where
  "pipe_rest buf f cmd s =
     (case peek buf [124] s of
        (True, s) \<Rightarrow> (case gettoken buf s of (_, _, _, s) \<Rightarrow> bindr (f s) (\<lambda>r s. Ok (PIPE cmd r) s))
      | (False, s) \<Rightarrow> Ok cmd s)"

lemma parse_steps:
  "parseline (Suc n) buf s = bindr (parsepipe n buf s) (line_rest buf (parseline n buf))"
  "parsepipe (Suc n) buf s = bindr (parseexec n buf s) (pipe_rest buf (parsepipe n buf))"
  by (simp_all add: line_rest_def [abs_def] pipe_rest_def [abs_def])

lemma bind_more:
  "bindr r g \<noteq> Diverge \<Longrightarrow> r = Diverge \<or> r' = r \<Longrightarrow> (\<And>a s. r = Ok a s \<Longrightarrow> g a s \<noteq> Diverge \<Longrightarrow> g' a s = g a s) \<Longrightarrow> bindr r' g' = bindr r g"
  by (cases r) auto

lemma rest_more:
  assumes "\<And>s. f s = Diverge \<or> f' s = f s"
  shows "line_rest buf f c s \<noteq> Diverge \<Longrightarrow> line_rest buf f' c s = line_rest buf f c s"
    "pipe_rest buf f c s \<noteq> Diverge \<Longrightarrow> pipe_rest buf f' c s = pipe_rest buf f c s"
  using assms by (auto simp: line_rest_def pipe_rest_def intro!: bind_more split: prod.splits bool.splits)

lemma more_depth:
  "(parseline n buf s \<noteq> Diverge \<longrightarrow> parseline (Suc n) buf s = parseline n buf s) \<and>
   (parsepipe n buf s \<noteq> Diverge \<longrightarrow> parsepipe (Suc n) buf s = parsepipe n buf s) \<and>
   (parseexec n buf s \<noteq> Diverge \<longrightarrow> parseexec (Suc n) buf s = parseexec n buf s) \<and>
   (parseblock n buf s \<noteq> Diverge \<longrightarrow> parseblock (Suc n) buf s = parseblock n buf s)"
proof (induction n arbitrary: s)
  case (Suc n)
  have ih: "parseline n buf s = Diverge \<or> parseline (Suc n) buf s = parseline n buf s"
    "parsepipe n buf s = Diverge \<or> parsepipe (Suc n) buf s = parsepipe n buf s"
    "parseexec n buf s = Diverge \<or> parseexec (Suc n) buf s = parseexec n buf s"
    "parseblock n buf s = Diverge \<or> parseblock (Suc n) buf s = parseblock n buf s" for s using Suc.IH by blast+
  have "parseline (Suc (Suc n)) buf s = parseline (Suc n) buf s" if "parseline (Suc n) buf s \<noteq> Diverge"
    using bind_more [of "parsepipe n buf s" "line_rest buf (parseline n buf)", OF _ ih(2) rest_more(1) [OF ih(1)]] that
    unfolding parse_steps(1) [of "Suc n" buf s] parse_steps(1) [of n buf s] .
  moreover have "parsepipe (Suc (Suc n)) buf s = parsepipe (Suc n) buf s" if "parsepipe (Suc n) buf s \<noteq> Diverge"
    using bind_more [of "parseexec n buf s" "pipe_rest buf (parsepipe n buf)", OF _ ih(3) rest_more(2) [OF ih(2)]] that
    unfolding parse_steps(2) [of "Suc n" buf s] parse_steps(2) [of n buf s] .
  moreover have "parseexec (Suc (Suc n)) buf s = parseexec (Suc n) buf s" if "parseexec (Suc n) buf s \<noteq> Diverge"
    using that ih(4) unfolding parseexec.simps(2) [of "Suc n"] parseexec.simps(2) [of n]
    by (auto simp del: parseblock.simps split: prod.splits bool.splits)
  moreover have "parseblock (Suc (Suc n)) buf s = parseblock (Suc n) buf s" if "parseblock (Suc n) buf s \<noteq> Diverge"
    using that unfolding parseblock.simps(2) [of "Suc n"] parseblock.simps(2) [of n]
    by (auto intro!: bind_more ih simp del: parseline.simps split: prod.splits bool.splits)
  ultimately show ?case by blast
qed simp

lemma enough_depth:
  assumes "4 * length buf + 4 \<le> m"
  shows "parseline m buf 0 = parseline (4 * length buf + 4) buf 0"
  using assms
proof (induction m rule: dec_induct)
  case (step m)
  have "parsed buf 0 (parseline m buf 0)" using parser_total [of buf 0 m] step.hyps by simp
  then have "parseline m buf 0 \<noteq> Diverge" by (auto simp: parsed_def)
  then show ?case using more_depth [of m buf 0] step.IH by simp
qed simp

lemma show_nonzero: "cmd_ok shell_word c \<Longrightarrow> 0 \<notin> set (show_cmd k c)"
  by (induction c arbitrary: k) (auto simp: show_words_def show_redir_def parens_def shell_word_def)

text \<open>
  C10. The parser of the shell reads back every command: a well-formed command, printed with parentheses where its
  structure needs them, is parsed to a tree that is the same command when its words are read as C strings from the
  line that \<open>nulterminate\<close> has cut up. So \<open>;\<close>, \<open>&\<close>, \<open>|\<close> and the redirections have the precedence and the nesting of
  the printer, and no NUL that ends one word damages another.
\<close>

theorem parsecmd_inverts_show:
  assumes "cmd_ok shell_word c"
  shows "\<exists>c' b s. parsecmd (show_cmd 3 c) = Ok (c', b) s \<and> map_cmd (\<lambda>w. cstring b (fst w)) c' = c"
proof -
  let ?buf = "show_cmd 3 c"
  have z: "0 \<notin> set ?buf" using show_nonzero [OF assms] .
  have "nows (show_cmd 3 c @ [])" by (rule nows_show [OF assms]) (simp add: nows_def)
  then have t: "text_at ?buf 0 (show_cmd 3 c @ [])" using z by (simp add: text_at_def)
  obtain c' n where c: "map_cmd (word_at ?buf) c' = c" "\<forall>m \<ge> n. parseline m ?buf 0 = Ok c' (length ?buf)"
    using conjunct2 [OF conjunct2 [OF conjunct2 [OF all_reads [OF assms]]], unfolded line_reads_def, rule_format, OF t]
    by (auto simp: follow_def reads_as_def)
  have p: "parseline (4 * length ?buf + 4) ?buf 0 = Ok c' (length ?buf)"
    using c(2) [rule_format, of "max n (4 * length ?buf + 4)"] enough_depth [of ?buf "max n (4 * length ?buf + 4)"] by simp
  have g: "cmd_ok (good ?buf) c'" using parser_total [of ?buf 0 "4 * length ?buf + 4"] p by (auto simp: parsed_def)
  let ?b = "nulterminate c' (?buf @ [0])"
  have "cstring ?b (fst w) = word_at ?buf w" if "w \<in> set_cmd c'" for w
  proof -
    have "insert w (set_cmd c') = set_cmd c'" using that by blast
    then show ?thesis using good_word [of ?buf w "set_cmd c'" ?b] cmd_ok_set [OF g] that z by (simp add: length_nulterminate nulterminate_nth)
  qed
  then have "map_cmd (\<lambda>w. cstring ?b (fst w)) c' = c" using c(1) by (metis (mono_tags, lifting) cmd.map_cong0)
  moreover have "parsecmd ?buf = Ok (c', ?b) (length ?buf)" using p by (simp add: parsecmd_def peek_def skip_ws_def)
  ultimately show ?thesis by blast
qed

text \<open>The list \<open>(a ; b >> c) &\<close>.\<close>

theorem parsecmd_inverts_show_witness:
  "\<exists>c' b s. parsecmd (show_cmd 3 (BACK (LIST (EXEC [[97]]) (REDIR (EXEC [[98]]) [99] 0x201 1)))) = Ok (c', b) s \<and>
     map_cmd (\<lambda>w. cstring b (fst w)) c' = BACK (LIST (EXEC [[97]]) (REDIR (EXEC [[98]]) [99] 0x201 1))"
  by (rule parsecmd_inverts_show) (simp add: MAXARGS_def shell_word_def wordc_def whitespace_def symbols_def redir_modes)

end
