(* ===== verification/Shrun.thy ===== *)
theory Shrun
  imports Shparse Ulib
begin

text \<open>
  What the shell does with a command: \<open>runcmd\<close> and the loop of \<open>main\<close> as trees of system calls, with the replies of
  the kernel as arguments of the continuations. An interpreter of the calls on tables of file descriptors then shows
  with which descriptors every program of a command runs.
\<close>

section \<open>System calls\<close>

datatype call =
    Close int
  | Open "byte list" "32 word"
  | Dup int
  | Exec "byte list list"
  | Wait
  | Chdir "byte list"
  | Write int "byte list"

text \<open>A program: it exits, or makes a call and continues with the reply. \<open>fork\<close> replies 0 in the child; \<open>pipe\<close>
  replies with its result and the two descriptors.\<close>

datatype act = Exit int | Sys call "int \<Rightarrow> act" | Pipe "int \<Rightarrow> int \<Rightarrow> int \<Rightarrow> act" | Fork "int \<Rightarrow> act"

section \<open>Running commands\<close>

definition spanic :: "string \<Rightarrow> act" where
  "spanic m = Sys (Write 2 (chars m @ [10])) (\<lambda>_. Exit 1)"

definition fork1 :: "(int \<Rightarrow> act) \<Rightarrow> act" where
  "fork1 k = Fork (\<lambda>pid. if pid = -1 then spanic ''fork'' else k pid)"

text \<open>The words of the command are C strings.\<close>

primrec runcmd :: "byte list cmd \<Rightarrow> act" where
  "runcmd (EXEC argv) =
     (if argv = [] then Exit 1
      else Sys (Exec argv) (\<lambda>_. Sys (Write 2 (chars ''exec '' @ hd argv @ chars '' failed'' @ [10])) (\<lambda>_. Exit 0)))"
| "runcmd (REDIR cmd f mode fd) =
     Sys (Close fd) (\<lambda>_. Sys (Open f mode) (\<lambda>r.
       if r < 0 then Sys (Write 2 (chars ''open '' @ f @ chars '' failed'' @ [10])) (\<lambda>_. Exit 1)
       else runcmd cmd))"
| "runcmd (LIST left right) =
     fork1 (\<lambda>pid. if pid = 0 then runcmd left else Sys Wait (\<lambda>_. runcmd right))"
| "runcmd (PIPE left right) =
     Pipe (\<lambda>r p0 p1.
       if r < 0 then spanic ''pipe''
       else fork1 (\<lambda>pid.
         if pid = 0
         then Sys (Close 1) (\<lambda>_. Sys (Dup p1) (\<lambda>_. Sys (Close p0) (\<lambda>_. Sys (Close p1) (\<lambda>_. runcmd left))))
         else fork1 (\<lambda>pid.
           if pid = 0
           then Sys (Close 0) (\<lambda>_. Sys (Dup p0) (\<lambda>_. Sys (Close p0) (\<lambda>_. Sys (Close p1) (\<lambda>_. runcmd right))))
           else Sys (Close p0) (\<lambda>_. Sys (Close p1) (\<lambda>_. Sys Wait (\<lambda>_. Sys Wait (\<lambda>_. Exit 0)))))))"
| "runcmd (BACK cmd) = fork1 (\<lambda>pid. if pid = 0 then runcmd cmd else Exit 0)"

text \<open>The child that runs a line: the command, or the message of a syntax error.\<close>

definition run_line :: "byte list \<Rightarrow> act" where
  "run_line cmd =
     (case parsecmd cmd of
        Ok (c, b) _ \<Rightarrow> runcmd (map_cmd (\<lambda>w. cstring b (fst w)) c)
      | Panic m \<Rightarrow> spanic m
      | _ \<Rightarrow> Exit 1)"

text \<open>The loop of \<open>main\<close> after the three descriptors are open.\<close>

function sh_loop :: "byte list list \<Rightarrow> act" where
  "sh_loop inp =
     Sys (Write 2 (chars ''$ '')) (\<lambda>_.
       case ugets 100 inp of (buf, inp) \<Rightarrow>
         if buf = [] \<or> hd buf = 0 then Exit 0
         else let cmd = dropWhile (\<lambda>c. c = 32 \<or> c = 9) (cstring buf 0) in
           if cmd \<noteq> [] \<and> hd cmd = 10 then sh_loop inp
           else if take 3 cmd = chars ''cd ''
           then let dir = drop 3 (butlast cmd) in
             Sys (Chdir dir) (\<lambda>r.
               if r < 0 then Sys (Write 2 (chars ''cannot cd '' @ dir @ [10])) (\<lambda>_. sh_loop inp) else sh_loop inp)
           else fork1 (\<lambda>pid. if pid = 0 then run_line cmd else Sys Wait (\<lambda>_. sh_loop inp)))"
  by pat_completeness auto
termination
  by (relation "measure (\<lambda>inp. length (concat inp))") (auto dest: ugets_progress [OF sym])

declare sh_loop.simps [simp del]

section \<open>File descriptors\<close>

text \<open>What a descriptor stands for: something the shell was started with, an opened file, or an end of a pipe. A new
  descriptor is the lowest that is free, as \<open>fdalloc\<close> of the kernel chooses it.\<close>

datatype obj = Given nat | File "byte list" "32 word" | ReadEnd nat | WriteEnd nat

type_synonym fds = "nat \<Rightarrow> obj option"

definition new_fd :: "fds \<Rightarrow> nat option" where
  "new_fd t = find (\<lambda>d. t d = None) [0..<16]"

text \<open>The programs that a process and its children execute, with their descriptors, when no call fails; pipes are
  numbered in the order in which they are made.\<close>

primrec execs :: "act \<Rightarrow> fds \<Rightarrow> nat \<Rightarrow> (byte list list \<times> fds) list \<times> nat" where
  "execs (Exit n) t k = ([], k)"
| "execs (Sys c f) t k =
     (case c of
        Close d \<Rightarrow> execs (f 0) (t(nat d := None)) k
      | Open name m \<Rightarrow> (case new_fd t of None \<Rightarrow> execs (f (-1)) t k | Some d \<Rightarrow> execs (f (int d)) (t(d := Some (File name m))) k)
      | Dup d \<Rightarrow> (case new_fd t of None \<Rightarrow> execs (f (-1)) t k | Some e \<Rightarrow> execs (f (int e)) (t(e := t (nat d))) k)
      | Exec argv \<Rightarrow> ([(argv, t)], k)
      | _ \<Rightarrow> execs (f 0) t k)"
| "execs (Pipe f) t k =
     (case new_fd t of
        None \<Rightarrow> execs (f (-1) 0 0) t k
      | Some d \<Rightarrow> (case new_fd (t(d := Some (ReadEnd k))) of
          None \<Rightarrow> execs (f (-1) 0 0) t k
        | Some e \<Rightarrow> execs (f 0 (int d) (int e)) (t(d := Some (ReadEnd k), e := Some (WriteEnd k))) (Suc k)))"
| "execs (Fork f) t k =
     (case execs (f 0) t k of (xs, k) \<Rightarrow> case execs (f 1) t k of (ys, k) \<Rightarrow> (xs @ ys, k))"

text \<open>What the syntax of a command means for the descriptors of its programs.\<close>

primrec plumb :: "byte list cmd \<Rightarrow> fds \<Rightarrow> nat \<Rightarrow> (byte list list \<times> fds) list \<times> nat" where
  "plumb (EXEC argv) t k = (if argv = [] then [] else [(argv, t)], k)"
| "plumb (REDIR c f m d) t k = plumb c (t(nat d := Some (File f m))) k"
| "plumb (PIPE l r) t k =
     (case plumb l (t(1 := Some (WriteEnd k))) (Suc k) of (xs, j) \<Rightarrow>
      case plumb r (t(0 := Some (ReadEnd k))) j of (ys, j) \<Rightarrow> (xs @ ys, j))"
| "plumb (LIST l r) t k = (case plumb l t k of (xs, j) \<Rightarrow> case plumb r t j of (ys, j) \<Rightarrow> (xs @ ys, j))"
| "plumb (BACK c) t k = plumb c t k"

lemma new_fd_least: "d < 16 \<Longrightarrow> t d = None \<Longrightarrow> (\<And>e. e < d \<Longrightarrow> t e \<noteq> None) \<Longrightarrow> new_fd t = Some d"
  unfolding new_fd_def find_Some_iff by (intro exI [of _ d]) simp

lemma execs_fork1: "execs (fork1 f) t k = (case execs (f 0) t k of (xs, k) \<Rightarrow> case execs (f 1) t k of (ys, k) \<Rightarrow> (xs @ ys, k))"
  by (simp add: fork1_def)

definition stdio :: "fds \<Rightarrow> bool" where
  "stdio t \<longleftrightarrow> (\<forall>d. t d \<noteq> None \<longleftrightarrow> d < 3)"

lemma stdio_upd: "stdio t \<Longrightarrow> d < 3 \<Longrightarrow> stdio (t(d := Some x))"
  by (auto simp: stdio_def)

lemma runcmd_plumb: "cmd_ok P c \<Longrightarrow> stdio t \<Longrightarrow> execs (runcmd c) t k = plumb c t k"
proof (induction c arbitrary: t k)
  case (REDIR c f m d)
  have d: "d = 0 \<or> d = 1" using REDIR.prems(1) by (auto simp: redir_modes)
  then have "nat d < 3" by auto
  moreover have "new_fd (t(nat d := None)) = Some (nat d)"
    by (rule new_fd_least) (use d REDIR.prems(2) in \<open>auto simp: stdio_def\<close>)
  moreover have "execs (runcmd c) (t(nat d := Some (File f m))) k = plumb c (t(nat d := Some (File f m))) k"
    by (rule REDIR.IH [OF _ stdio_upd [OF REDIR.prems(2) calculation(1)]]) (use REDIR.prems in simp)
  ultimately show ?case using d by (elim disjE) simp_all
next
  case (PIPE l r)
  let ?t = "t(3 := Some (ReadEnd k), 4 := Some (WriteEnd k))"
  have s: "t d = None \<longleftrightarrow> \<not> d < 3" for d using PIPE.prems(2) unfolding stdio_def by metis
  then have s': "\<exists>y. t d = Some y" if "d < 3" for d using that by (metis option.exhaust)
  have n: "new_fd t = Some 3" "new_fd (t(3 := Some (ReadEnd k))) = Some 4" "new_fd (?t(1 := None)) = Some 1" "new_fd (?t(0 := None)) = Some 0"
    using s s' by (auto intro!: new_fd_least)
  have l: "?t(1 := None, 1 := Some (WriteEnd k), 3 := None, 4 := None) = t(1 := Some (WriteEnd k))"
    and r: "?t(0 := None, 0 := Some (ReadEnd k), 3 := None, 4 := None) = t(0 := Some (ReadEnd k))" using s [of 3] s [of 4] by (auto simp: fun_eq_iff)
  have "execs (runcmd l) (t(1 := Some (WriteEnd k))) (Suc k) = plumb l (t(1 := Some (WriteEnd k))) (Suc k)"
    "execs (runcmd r) (t(0 := Some (ReadEnd k))) j = plumb r (t(0 := Some (ReadEnd k))) j" for j
    using PIPE stdio_upd [of t] by simp_all
  then show ?case using n l r by (simp add: execs_fork1 split: prod.split)
qed (auto simp: execs_fork1 split: prod.split)

text \<open>
  C11. The shell gives every program exactly its three descriptors. When the shell runs a command with nothing but
  the descriptors 0, 1 and 2 open and no call fails, the programs that it and its children execute, in the order of
  the command, are the programs of the command; a redirection is the standard input or output of its command, the two
  sides of a pipe write to and read from the same new pipe, everything else is inherited, and no program has any
  other descriptor open, so no end of a pipe leaks.
\<close>

theorem runcmd_plumbing:
  assumes "cmd_ok shell_word c" "stdio t"
  shows "execs (runcmd c) t k = plumb c t k \<and> (\<forall>(argv, u) \<in> set (fst (plumb c t k)). argv \<noteq> [] \<and> stdio u)"
proof -
  have "\<forall>(argv, u) \<in> set (fst (plumb c t k)). argv \<noteq> [] \<and> stdio u"
    using assms
  proof (induction c arbitrary: t k)
    case (REDIR c f m d)
    have "nat d < 3" using REDIR.prems(1) by (auto simp: redir_modes)
    then have "stdio (t(nat d := Some (File f m)))" using REDIR.prems(2) stdio_upd by blast
    then show ?case using REDIR.IH [of "t(nat d := Some (File f m))" k] REDIR.prems(1) by (simp del: fun_upd_apply)
  next
    case (PIPE l r)
    have "stdio (t(1 := Some (WriteEnd k)))" "stdio (t(0 := Some (ReadEnd k)))" using PIPE.prems(2) stdio_upd by simp_all
    then have a: "\<forall>(argv, u) \<in> set (fst (plumb l (t(1 := Some (WriteEnd k))) (Suc k))). argv \<noteq> [] \<and> stdio u"
      "\<forall>(argv, u) \<in> set (fst (plumb r (t(0 := Some (ReadEnd k))) j)). argv \<noteq> [] \<and> stdio u" for j
      using PIPE.IH PIPE.prems(1) unfolding cmd_ok.simps by blast+
    obtain xs j where l: "plumb l (t(1 := Some (WriteEnd k))) (Suc k) = (xs, j)" by force
    obtain ys i where r: "plumb r (t(0 := Some (ReadEnd k))) j = (ys, i)" by force
    show ?case using a(1) a(2) [of j] l r by (auto simp del: fun_upd_apply One_nat_def)
  next
    case (LIST l r)
    obtain xs j where l: "plumb l t k = (xs, j)" by force
    obtain ys i where r: "plumb r t j = (ys, i)" by force
    show ?case using LIST.IH(1) [of t k] LIST.IH(2) [of t j] LIST.prems l r by auto
  qed auto
  then show ?thesis using runcmd_plumb [OF assms] by blast
qed

text \<open>The command \<open>a | b > c\<close>.\<close>

theorem runcmd_plumbing_witness:
  "fst (execs (runcmd (PIPE (EXEC [[97]]) (REDIR (EXEC [[98]]) [99] 0x601 1))) (\<lambda>d. if d < 3 then Some (Given d) else None) 0) =
     [([[97]], (\<lambda>d. if d < 3 then Some (Given d) else None)(1 := Some (WriteEnd 0))),
      ([[98]], (\<lambda>d. if d < 3 then Some (Given d) else None)(0 := Some (ReadEnd 0), 1 := Some (File [99] 0x601)))]"
proof -
  have "cmd_ok shell_word (PIPE (EXEC [[97]]) (REDIR (EXEC [[98]]) [99] 0x601 1))"
    by (simp add: MAXARGS_def shell_word_def wordc_def whitespace_def symbols_def redir_modes)
  moreover have "stdio (\<lambda>d. if d < 3 then Some (Given d) else None)" by (simp add: stdio_def)
  ultimately show ?thesis
    using runcmd_plumbing [of "PIPE (EXEC [[97]]) (REDIR (EXEC [[98]]) [99] 0x601 1)" "\<lambda>d. if d < 3 then Some (Given d) else None" 0] by simp
qed

end
