(* ===== verification/Boot.thy ===== *)
theory Boot
  imports Trap
begin

text \<open>
  The start of a processor: the machine-mode code of kernel/start.c on the control registers it writes, and the part
  of \<open>main\<close> that the processors other than 0 run.
\<close>

record mregs =
  mstatus :: "64 word"
  mepc :: "64 word"
  satp_reg :: "64 word"
  medeleg :: "64 word"
  mideleg :: "64 word"
  sie_reg :: "64 word"
  mie :: "64 word"
  pmpaddr0 :: "64 word"
  pmpcfg0 :: "64 word"
  menvcfg :: "64 word"
  mcounteren :: "64 word"
  stimecmp :: "64 word"
  tp_reg :: "64 word"

definition MSTATUS_MPP_MASK :: "64 word" where "MSTATUS_MPP_MASK = push_bit 11 3"
definition MSTATUS_MPP_S :: "64 word" where "MSTATUS_MPP_S = push_bit 11 1"
definition SIE_SEIE :: "64 word" where "SIE_SEIE = push_bit 9 1"
definition SIE_STIE :: "64 word" where "SIE_STIE = push_bit 5 1"
definition MIE_STIE :: "64 word" where "MIE_STIE = push_bit 5 1"

definition timerinit :: "64 word \<Rightarrow> mregs \<Rightarrow> mregs" where
  "timerinit time r =
     (let r = r\<lparr>mie := mie r OR MIE_STIE\<rparr>;
          r = r\<lparr>menvcfg := menvcfg r OR push_bit 63 1\<rparr>;
          r = r\<lparr>mcounteren := mcounteren r OR 2\<rparr>
      in r\<lparr>stimecmp := time + 1000000\<rparr>)"

text \<open>Up to the \<open>mret\<close>; the address of \<open>main\<close>, the number of the processor and the clock are arguments.\<close>

definition start :: "64 word \<Rightarrow> 64 word \<Rightarrow> 64 word \<Rightarrow> mregs \<Rightarrow> mregs" where
  "start main_addr mhartid time r =
     (let x = mstatus r;
          x = x AND NOT MSTATUS_MPP_MASK;
          x = x OR MSTATUS_MPP_S;
          r = r\<lparr>mstatus := x\<rparr>;
          r = r\<lparr>mepc := main_addr\<rparr>;
          r = r\<lparr>satp_reg := 0\<rparr>;
          r = r\<lparr>medeleg := 0xffff, mideleg := 0xffff\<rparr>;
          r = r\<lparr>sie_reg := sie_reg r OR SIE_SEIE OR SIE_STIE\<rparr>;
          r = r\<lparr>pmpaddr0 := 0x3fffffffffffff, pmpcfg0 := 0xf\<rparr>;
          r = timerinit time r
      in r\<lparr>tp_reg := scast (ucast mhartid :: 32 word)\<rparr>)"

text \<open>What \<open>mret\<close> does with the registers: the privilege mode and the address it continues at.\<close>

definition mret :: "mregs \<Rightarrow> nat \<times> 64 word" where
  "mret r = (unat (drop_bit 11 (mstatus r AND MSTATUS_MPP_MASK)), mepc r)"

text \<open>The code of \<open>main\<close> on the other processors after \<open>started\<close> is set.\<close>

definition kmain_hart :: "64 word \<Rightarrow> 'a tstate_scheme \<Rightarrow> ('a tstate_scheme, unit) res" where
  "kmain_hart hart s =
     bindr (printf ''hart %d starting\<newline>'' [Num hart] s) (\<lambda>_ s.
     let s = trapinithart s in Ok () (plicinithart hart s))"

text \<open>Every processor enters \<open>main\<close> in supervisor mode, without paging, with external and timer interrupts of that
  mode enabled and delegated, and with its own number in \<open>tp\<close>.\<close>

lemma start_enters_main:
  fixes r :: mregs and main_addr mhartid time :: "64 word"
  assumes "unat mhartid < 2 ^ 31"
  defines "r' \<equiv> start main_addr mhartid time r"
  shows "mret r' = (1, main_addr)" "satp_reg r' = 0" "bit (sie_reg r') 9" "bit (sie_reg r') 5" "bit (mie r') 5"
    "bit (mideleg r') 9" "bit (mideleg r') 5" "tp_reg r' = mhartid"
proof -
  have m: "mstatus r' AND MSTATUS_MPP_MASK = MSTATUS_MPP_S"
  proof -
    have "((x AND NOT m) OR s) AND m = s AND m" for x m s :: "64 word" by (rule bit_word_eqI) (auto simp: bit_simps)
    moreover have "MSTATUS_MPP_S AND MSTATUS_MPP_MASK = MSTATUS_MPP_S" by (simp add: MSTATUS_MPP_S_def MSTATUS_MPP_MASK_def)
    moreover have "mstatus r' = (mstatus r AND NOT MSTATUS_MPP_MASK) OR MSTATUS_MPP_S" by (simp add: r'_def start_def timerinit_def Let_def)
    ultimately show ?thesis by simp
  qed
  show "mret r' = (1, main_addr)" unfolding mret_def m by (simp add: MSTATUS_MPP_S_def) (simp add: r'_def start_def timerinit_def Let_def)
  show "satp_reg r' = 0" by (simp add: r'_def start_def timerinit_def Let_def)
  show "bit (sie_reg r') 9" "bit (sie_reg r') 5" "bit (mie r') 5"
    by (simp_all add: r'_def start_def timerinit_def Let_def bit_simps SIE_SEIE_def SIE_STIE_def MIE_STIE_def)
  show "bit (mideleg r') 9" "bit (mideleg r') 5" by (simp_all add: r'_def start_def timerinit_def Let_def)
  have "tp_reg r' = scast (ucast mhartid :: 32 word)" by (simp add: r'_def start_def)
  also have "\<dots> = mhartid"
  proof (rule bit_word_eqI)
    fix n :: nat assume n: "n < LENGTH(64)"
    have "\<not> bit mhartid k" if "31 \<le> k" for k using not_bit_small [of mhartid 31 k] assms(1) that by simp
    then show "bit (scast (ucast mhartid :: 32 word) :: 64 word) n = bit mhartid n" using n by (auto simp: bit_simps min_def)
  qed
  finally show "tp_reg r' = mhartid" .
qed

end
