(* ===== verification/Mkfs.thy ===== *)
theory Mkfs
  imports Dirs Console
begin

text \<open>
  The program mkfs/mkfs.c, which writes the first file system image: a root directory with the files given to it.
  Shown: the image is a file system as the kernel needs it, in which the kernel's view of every file is its contents
  and of the root directory is the map from the names to the files. Seeking, reading and writing on the host succeed.
\<close>

section \<open>The program\<close>

definition NINODES :: nat where
  "NINODES = 200"

definition FSSIZE :: nat where
  "FSSIZE = 2000"

definition nbitmap :: nat where
  "nbitmap = FSSIZE div BPB + 1"

definition ninodeblocks :: nat where
  "ninodeblocks = NINODES div IPB + 1"

definition nlog :: nat where
  "nlog = LOGBLOCKS + 1"

definition nmeta :: nat where
  "nmeta = 2 + nlog + ninodeblocks + nbitmap"

definition mkfs_sb :: superblock where
  "mkfs_sb = \<lparr>sb_magic = FSMAGIC, sb_size = of_nat FSSIZE, sb_nblocks = of_nat (FSSIZE - nmeta), sb_ninodes = of_nat NINODES,
     sb_nlog = of_nat nlog, sb_logstart = 2, sb_inodestart = of_nat (2 + nlog), sb_bmapstart = of_nat (2 + nlog + ninodeblocks)\<rparr>"

text \<open>The image and the two counters.\<close>

record mkfs =
  img :: "block \<Rightarrow> byte list"
  freeinode :: "32 word"
  freeblock :: "32 word"

definition wsect :: "32 word \<Rightarrow> byte list \<Rightarrow> mkfs \<Rightarrow> mkfs" where
  "wsect sec buf s = s\<lparr>img := (img s)(sec := buf)\<rparr>"

definition rsect :: "32 word \<Rightarrow> mkfs \<Rightarrow> byte list" where
  "rsect sec s = img s sec"

definition winode :: "32 word \<Rightarrow> inode \<Rightarrow> mkfs \<Rightarrow> mkfs" where
  "winode inum ip s =
     (let bn = IBLOCK inum mkfs_sb; buf = rsect bn s in wsect bn (put_dinode ip (dinode_off inum) buf) s)"

definition rinode :: "32 word \<Rightarrow> mkfs \<Rightarrow> inode" where
  "rinode inum s = (let bn = IBLOCK inum mkfs_sb; buf = rsect bn s in get_dinode buf (dinode_off inum) bss_inode)"

definition mkfs_ialloc :: "16 word \<Rightarrow> mkfs \<Rightarrow> 32 word \<times> mkfs" where
  "mkfs_ialloc type s =
     (let inum = freeinode s;
          s = s\<lparr>freeinode := freeinode s + 1\<rparr>;
          din = bss_inode\<lparr>i_type := type, i_nlink := 1, i_size := 0\<rparr>
      in (inum, winode inum din s))"

definition mkfs_balloc :: "nat \<Rightarrow> mkfs \<Rightarrow> (mkfs, unit) res" where
  "mkfs_balloc n s =
     (if \<not> n < BPB then Panic ''assert''
      else Ok () (wsect (sb_bmapstart mkfs_sb) (fold (\<lambda>i buf. buf[i div 8 := buf ! (i div 8) OR bit_mask i]) [0..<n] (replicate BSIZE 0)) s))"

text \<open>The block of a file that \<open>iappend\<close> writes to, allocated when there is none.\<close>

definition append_block :: "nat \<Rightarrow> inode \<Rightarrow> mkfs \<Rightarrow> 32 word \<times> inode \<times> mkfs" where
  "append_block fbn din s =
     (if fbn < NDIRECT
      then let (din, s) = (if i_addrs din ! fbn = 0
                           then (din\<lparr>i_addrs := (i_addrs din)[fbn := freeblock s]\<rparr>, s\<lparr>freeblock := freeblock s + 1\<rparr>) else (din, s))
           in (i_addrs din ! fbn, din, s)
      else let (din, s) = (if i_addrs din ! NDIRECT = 0
                           then (din\<lparr>i_addrs := (i_addrs din)[NDIRECT := freeblock s]\<rparr>, s\<lparr>freeblock := freeblock s + 1\<rparr>) else (din, s));
               indirect = rsect (i_addrs din ! NDIRECT) s;
               (indirect, s) = (if get32 indirect (4 * (fbn - NDIRECT)) = 0
                           then let indirect = put32 indirect (4 * (fbn - NDIRECT)) (freeblock s);
                                    s = s\<lparr>freeblock := freeblock s + 1\<rparr>
                                in (indirect, wsect (i_addrs din ! NDIRECT) indirect s)
                           else (indirect, s))
           in (get32 indirect (4 * (fbn - NDIRECT)), din, s))"

function iappend_from :: "nat \<Rightarrow> inode \<Rightarrow> byte list \<Rightarrow> mkfs \<Rightarrow> (mkfs, nat \<times> inode) res" where
  "iappend_from off din p s =
     (if p = [] then Ok (off, din) s
      else let fbn = off div BSIZE in
        if \<not> fbn < MAXFILE then Panic ''assert''
        else let (x, din, s) = append_block fbn din s;
                 n1 = min (length p) ((fbn + 1) * BSIZE - off);
                 buf = patch (rsect x s) (off - fbn * BSIZE) (take n1 p);
                 s = wsect x buf s
             in iappend_from (off + n1) din (drop n1 p) s)"
  by pat_completeness auto
termination
proof (relation "measure (\<lambda>(off, din, p, s). length p)", goal_cases)
  case (2 off din p s fbn)
  have "off < (off div BSIZE + 1) * BSIZE" by (simp add: BSIZE_def)
  then show ?case using 2 by (cases p) auto
qed simp

declare iappend_from.simps [simp del]

definition iappend :: "32 word \<Rightarrow> byte list \<Rightarrow> mkfs \<Rightarrow> (mkfs, unit) res" where
  "iappend inum xp s =
     (let din = rinode inum s in
      bindr (iappend_from (unat (i_size din)) din xp s) (\<lambda>(off, din) s.
      Ok () (winode inum (din\<lparr>i_size := of_nat off\<rparr>) s)))"

text \<open>One file of the command line. What the reads from it return is an argument, \<open>None\<close> when it cannot be opened.\<close>

definition short_name :: "byte list \<Rightarrow> byte list" where
  "short_name arg = (if take 5 arg = chars ''user/'' then drop 5 arg else arg)"

definition file_name :: "byte list \<Rightarrow> byte list" where
  "file_name arg = (if short_name arg \<noteq> [] \<and> hd (short_name arg) = 95 then tl (short_name arg) else short_name arg)"

definition mkfs_file :: "(byte list \<Rightarrow> byte list list option) \<Rightarrow> byte list \<Rightarrow> mkfs \<Rightarrow> (mkfs, unit) res" where
  "mkfs_file host arg s =
     (if slash \<in> set (short_name arg) then Panic ''assert''
      else case host arg of
        None \<Rightarrow> Panic ''die''
      | Some chunks \<Rightarrow>
          if \<not> length (file_name arg) \<le> DIRSIZ then Panic ''assert''
          else let (inum, s) = mkfs_ialloc T_FILE s in
            bindr (iappend ROOTINO (new_entry (file_name arg) inum) s) (\<lambda>_ s. forM chunks (iappend inum) s))"

definition sb_bytes :: "superblock \<Rightarrow> byte list" where
  "sb_bytes q = word_le 4 (sb_magic q) @ word_le 4 (sb_size q) @ word_le 4 (sb_nblocks q) @ word_le 4 (sb_ninodes q) @
     word_le 4 (sb_nlog q) @ word_le 4 (sb_logstart q) @ word_le 4 (sb_inodestart q) @ word_le 4 (sb_bmapstart q)"

definition mkfs_main :: "(byte list \<Rightarrow> byte list list option) \<Rightarrow> byte list list \<Rightarrow> (mkfs, unit) res" where
  "mkfs_main host args =
     (let s = \<lparr>img = \<lambda>_. replicate BSIZE 0, freeinode = 1, freeblock = of_nat nmeta\<rparr>;
          s = wsect 1 (patch (replicate BSIZE 0) 0 (sb_bytes mkfs_sb)) s;
          (rootino, s) = mkfs_ialloc T_DIR s in
      if rootino \<noteq> ROOTINO then Panic ''assert''
      else
        bindr (iappend rootino (new_entry [46] rootino) s) (\<lambda>_ s.
        bindr (iappend rootino (new_entry [46, 46] rootino) s) (\<lambda>_ s.
        bindr (forM args (mkfs_file host) s) (\<lambda>_ s.
        let din = rinode rootino s;
            off = unat (i_size din);
            off = (off div BSIZE + 1) * BSIZE;
            s = winode rootino (din\<lparr>i_size := of_nat off\<rparr>) s
        in mkfs_balloc (unat (freeblock s)) s))))"

section \<open>The image as the kernel will see it\<close>

text \<open>The image with the bitmap that \<open>mkfs_balloc\<close> will write: the blocks below the counter are in use. Taking the next
  block of the counter is then the block allocation of the kernel.\<close>

definition bits :: "nat \<Rightarrow> byte list" where
  "bits n = fold (\<lambda>i buf. mark buf i) [0..<n] (replicate BSIZE 0)"

abbreviation bmb :: "32 word" where
  "bmb \<equiv> 46"

definition final :: "mkfs \<Rightarrow> block \<Rightarrow> byte list" where
  "final s = (img s)(bmb := bits (unat (freeblock s)))"

lemma mkfs_numbers:
  "nmeta = 47" "sb_size mkfs_sb = 2000" "sb_ninodes mkfs_sb = 200" "sb_bmapstart mkfs_sb = bmb" "sb_inodestart mkfs_sb = 33"
  by (simp_all add: mkfs_sb_def nmeta_def nlog_def ninodeblocks_def nbitmap_def FSSIZE_def NINODES_def LOGBLOCKS_def MAXOPBLOCKS_def BPB_def BSIZE_def IPB_def DINODE_def)

lemma BBLOCK_mkfs: "b < 2000 \<Longrightarrow> BBLOCK b mkfs_sb = bmb"
proof -
  assume "b < 2000"
  then have "unat b < 2000" by (simp add: word_less_nat_alt)
  then have "b div 8192 = 0" by (simp add: word_unat_eq_iff unat_div)
  then show ?thesis by (simp add: BBLOCK_def mkfs_numbers BPB_def BSIZE_def)
qed

lemma IBLOCK_mkfs: "n < 200 \<Longrightarrow> unat (IBLOCK n mkfs_sb) = unat n div 16 + 33"
proof -
  assume "n < 200"
  then have "unat n < 200" by (simp add: word_less_nat_alt)
  then have "unat (n div 16) = unat n div 16" "unat n div 16 < 13" by (simp_all add: unat_div)
  then show ?thesis by (simp add: IBLOCK_def mkfs_numbers IPB_def BSIZE_def DINODE_def unat_word_ariths(1))
qed

lemma bits_Suc: "bits (Suc n) = mark (bits n) n"
  by (simp add: bits_def)

lemma length_bits [simp]: "length (bits n) = BSIZE"
  by (induction n) (simp_all add: bits_Suc, simp add: bits_def)

lemma bits_test: "n \<le> BPB \<Longrightarrow> j < BPB \<Longrightarrow> bits n ! (j div 8) AND bit_mask j \<noteq> 0 \<longleftrightarrow> j < n"
proof (induction n)
  case 0
  then show ?case by (simp add: bits_def BPB_def BSIZE_def less_mult_imp_div_less)
next
  case (Suc n)
  have "n div 8 < length (bits n)" using Suc.prems(1) by (simp add: BPB_def less_mult_imp_div_less)
  then show ?case using Suc mark_test [of n "bits n" j] by (auto simp: bits_Suc)
qed

text \<open>The counter is between the metadata and the end of the disk, and the blocks from it on are zero.\<close>

definition blank_from :: "mkfs \<Rightarrow> bool" where
  "blank_from s \<longleftrightarrow> 47 \<le> unat (freeblock s) \<and> unat (freeblock s) \<le> 2000 \<and> (\<forall>b. length (img s b) = BSIZE) \<and>
     (\<forall>b. freeblock s \<le> b \<longrightarrow> img s b = replicate BSIZE 0)"

lemma used_final: "blank_from s \<Longrightarrow> b < 2000 \<Longrightarrow> used (final s) mkfs_sb b \<longleftrightarrow> b < freeblock s"
proof -
  assume s: "blank_from s" and b: "b < 2000"
  have "unat b < 2000" using b by (simp add: word_less_nat_alt)
  then show ?thesis using s bits_test [of "unat (freeblock s)" "unat b"]
    by (simp add: used_def BBLOCK_mkfs [OF b] final_def blank_from_def BPB_def BSIZE_def word_less_nat_alt)
qed

lemma final_fs_ok: "blank_from s \<Longrightarrow> fs_ok (final s) mkfs_sb"
proof -
  assume s: "blank_from s"
  have "IBLOCK n mkfs_sb < 46" if "n < 200" for n
    using IBLOCK_mkfs [OF that] that by (simp add: word_less_nat_alt)
  moreover have f: "47 \<le> freeblock s" using s by (simp add: blank_from_def word_le_nat_alt)
  moreover have "IBLOCK n mkfs_sb < 2000" if "n < 200" for n using calculation(1) [OF that] by (rule order_less_trans) simp
  moreover have "IBLOCK n mkfs_sb < freeblock s" if "n < 200" for n
    using calculation(1) [OF that] f by (simp add: word_less_nat_alt word_le_nat_alt)
  moreover have "IBLOCK n mkfs_sb \<noteq> bmb" if "n < 200" for n using calculation(1) [OF that] by auto
  moreover have "bmb < freeblock s" "0 < freeblock s" using f by (simp_all add: word_less_nat_alt word_le_nat_alt)
  ultimately show ?thesis using s
    by (auto simp: fs_ok_def bitmap_ok_def mkfs_numbers used_final BBLOCK_mkfs) (auto simp: final_def blank_from_def)
qed

lemma final_alloc:
  assumes "blank_from s" "freeblock s < 2000"
  shows "final (s\<lparr>freeblock := freeblock s + 1\<rparr>) = alloc mkfs_sb (freeblock s) (final s)" "blank_from (s\<lparr>freeblock := freeblock s + 1\<rparr>)"
    "\<not> used (final s) mkfs_sb (freeblock s)" "freeblock s \<noteq> 0" "unat (freeblock s + 1) = Suc (unat (freeblock s))"
proof -
  have f: "unat (freeblock s) < 2000" "47 \<le> unat (freeblock s)" using assms by (simp_all add: word_less_nat_alt blank_from_def)
  show u: "unat (freeblock s + 1) = Suc (unat (freeblock s))" using f by (simp add: unat_word_ariths(1))
  have "img s (freeblock s) = replicate BSIZE 0" using assms(1) by (simp add: blank_from_def)
  moreover have "freeblock s \<noteq> bmb" using f by auto
  ultimately show "final (s\<lparr>freeblock := freeblock s + 1\<rparr>) = alloc mkfs_sb (freeblock s) (final s)"
    using u f by (auto simp: final_def alloc_def BBLOCK_mkfs [OF assms(2)] bits_Suc BPB_def BSIZE_def fun_eq_iff)
  show "blank_from (s\<lparr>freeblock := freeblock s + 1\<rparr>)" using assms(1) u f by (auto simp: blank_from_def word_le_nat_alt)
  show "\<not> used (final s) mkfs_sb (freeblock s)" using used_final [OF assms] by simp
  show "freeblock s \<noteq> 0" using f by auto
qed

lemma data_final:
  assumes "blank_from s" "data_block (final s) mkfs_sb b"
  shows "b \<noteq> bmb" "b < freeblock s" "final s b = img s b"
proof -
  have b: "b < 2000" "used (final s) mkfs_sb b" "\<forall>c < 2000. BBLOCK c mkfs_sb \<noteq> b" using assms(2) by (simp_all add: data_block_def mkfs_numbers)
  show n: "b \<noteq> bmb" using b(1,3) BBLOCK_mkfs by metis
  show "b < freeblock s" using used_final [OF assms(1) b(1)] b(2) by simp
  show "final s b = img s b" using n by (simp add: final_def)
qed

lemma final_wsect:
  assumes "blank_from s" "b < freeblock s" "b \<noteq> bmb" "length buf = BSIZE"
  shows "final (wsect b buf s) = (final s)(b := buf)" "blank_from (wsect b buf s)" "freeblock (wsect b buf s) = freeblock s" "freeinode (wsect b buf s) = freeinode s"
  using assms by (auto simp: final_def wsect_def blank_from_def fun_eq_iff)

section \<open>Appending to a file\<close>

text \<open>A file whose first \<open>k\<close> blocks are allocated, and how many blocks that takes.\<close>

definition shape :: "(block \<Rightarrow> byte list) \<Rightarrow> inode \<Rightarrow> nat \<Rightarrow> bool" where
  "shape V ip k \<longleftrightarrow> (\<forall>j < MAXFILE. fblk V ip j \<noteq> 0 \<longleftrightarrow> j < k) \<and> (ind ip \<noteq> 0 \<longleftrightarrow> NDIRECT < k)"

definition blocks_of :: "nat \<Rightarrow> nat" where
  "blocks_of k = k + (if NDIRECT < k then 1 else 0)"

lemma fblk_direct:
  assumes "fs_ok V q" "file_ok V q ip" "r < sb_size q" "\<not> used V q r" "r \<noteq> 0" "k < NDIRECT" "j \<noteq> k"
  shows "fblk (alloc q r V) (ip\<lparr>i_addrs := (i_addrs ip)[k := r]\<rparr>) j = fblk V ip j"
  using assms(6,7) alloc_data(4) [OF assms(1,3-5), of "ind ip"] file_okD(2) [OF assms(2)] by (auto simp: fblk_def ind_def)

lemma fblk_entry:
  assumes "fs_ok V q" "file_ok V q ip" "r < sb_size q" "\<not> used V q r" "r \<noteq> 0" "ind ip \<noteq> 0" "n < NINDIRECT" "j < MAXFILE" "j \<noteq> NDIRECT + n"
  shows "fblk ((alloc q r V)(ind ip := put32 (alloc q r V (ind ip)) (4 * n) r)) ip j = fblk V ip j"
proof (cases "j < NDIRECT")
  case False
  have e: "alloc q r V (ind ip) = V (ind ip)" using alloc_data(4) [OF assms(1,3-5)] file_okD(2) [OF assms(2,6)] by blast
  have l: "length (V (ind ip)) = 1024" using fs_okD(2) [OF assms(1)] by (simp add: BSIZE_def)
  have "get32 (put32 (V (ind ip)) (4 * n) r) (4 * (j - NDIRECT)) = get32 (V (ind ip)) (4 * (j - NDIRECT))"
    by (rule get_put32_other) (use False assms(7-9) l in \<open>auto simp: MAXFILE_def NDIRECT_def NINDIRECT_def BSIZE_def\<close>)
  then show ?thesis using False assms(6) e by (simp add: fblk_def)
qed (simp add: fblk_def)

lemma append_direct:
  assumes "blank_from s" "file_ok (final s) mkfs_sb ip" "shape (final s) ip k" "k < NDIRECT" "freeblock s < 2000"
  defines "ip' \<equiv> ip\<lparr>i_addrs := (i_addrs ip)[k := freeblock s]\<rparr>" and "s' \<equiv> s\<lparr>freeblock := freeblock s + 1\<rparr>"
  shows "ext mkfs_sb (final s) ip (final s') ip'" "shape (final s') ip' (Suc k)" "fblk (final s') ip' k = freeblock s"
proof -
  note A = final_alloc [OF assms(1,5)] and F = final_fs_ok [OF assms(1)]
  have k: "k < MAXFILE" using assms(4) by (simp add: MAXFILE_def)
  have z: "fblk (final s) ip k = 0" using assms(3) k unfolding shape_def by (metis less_irrefl)
  have q: "freeblock s < sb_size mkfs_sb" using assms(5) by (simp add: mkfs_numbers)
  note E = ext_direct [OF F assms(2) q A(3,4) assms(4) z, folded A(1), folded ip'_def s'_def]
  show "ext mkfs_sb (final s) ip (final s') ip'" "fblk (final s') ip' k = freeblock s" using E by simp_all
  moreover have "fblk (final s') ip' j = fblk (final s) ip j" if "j \<noteq> k" for j
    using fblk_direct [OF F assms(2) q A(3,4) assms(4) that] unfolding A(1) [symmetric] ip'_def s'_def .
  moreover have "ind ip' = ind ip" using assms(4) by (simp add: ip'_def ind_def)
  ultimately show "shape (final s') ip' (Suc k)" using assms(3,4) A(4) unfolding shape_def by (metis less_Suc_eq not_less_eq)
qed

lemma append_indirect:
  assumes "blank_from s" "file_ok (final s) mkfs_sb ip" "ind ip = 0" "freeblock s < 2000"
  defines "ip' \<equiv> ip\<lparr>i_addrs := (i_addrs ip)[NDIRECT := freeblock s]\<rparr>" and "s' \<equiv> s\<lparr>freeblock := freeblock s + 1\<rparr>"
  shows "ext mkfs_sb (final s) ip (final s') ip'" "j < MAXFILE \<Longrightarrow> fblk (final s') ip' j = fblk (final s) ip j" "ind ip' = freeblock s"
proof -
  note A = final_alloc [OF assms(1,4)]
  have q: "freeblock s < sb_size mkfs_sb" using assms(4) by (simp add: mkfs_numbers)
  note E = ext_indirect [OF final_fs_ok [OF assms(1)] assms(2) q A(3,4) assms(3), folded A(1), folded ip'_def s'_def]
  show "ext mkfs_sb (final s) ip (final s') ip'" "j < MAXFILE \<Longrightarrow> fblk (final s') ip' j = fblk (final s) ip j" "ind ip' = freeblock s"
    using E by simp_all
qed

lemma append_entry:
  assumes "blank_from s" "file_ok (final s) mkfs_sb ip" "ind ip \<noteq> 0" "freeblock s < 2000" "n < NINDIRECT" "fblk (final s) ip (NDIRECT + n) = 0"
  defines "buf \<equiv> put32 (img s (ind ip)) (4 * n) (freeblock s)" and "s1 \<equiv> s\<lparr>freeblock := freeblock s + 1\<rparr>"
  defines "s' \<equiv> wsect (ind ip) buf s1"
  shows "ext mkfs_sb (final s) ip (final s') ip" "fblk (final s') ip (NDIRECT + n) = freeblock s" "blank_from s'"
    "j < MAXFILE \<Longrightarrow> j \<noteq> NDIRECT + n \<Longrightarrow> fblk (final s') ip j = fblk (final s) ip j" "get32 buf (4 * n) = freeblock s"
proof -
  note A = final_alloc [OF assms(1,4)] and F = final_fs_ok [OF assms(1)]
  have q: "freeblock s < sb_size mkfs_sb" using assms(4) by (simp add: mkfs_numbers)
  have d: "data_block (final s) mkfs_sb (ind ip)" using file_okD(2) [OF assms(2,3)] .
  note D = data_final [OF assms(1) d]
  have l: "length (img s (ind ip)) = 1024" using assms(1) by (simp add: blank_from_def BSIZE_def)
  have n: "4 * n + 4 \<le> 1024" using assms(5) by (simp add: NINDIRECT_def BSIZE_def)
  show "get32 buf (4 * n) = freeblock s" unfolding buf_def using l n by simp
  have e: "alloc mkfs_sb (freeblock s) (final s) (ind ip) = img s (ind ip)" using alloc_data(4) [OF F q A(3,4) d] D(3) by simp
  have "length buf = BSIZE" unfolding buf_def using l n by (simp add: length_put BSIZE_def)
  moreover have "ind ip < freeblock s1" using D(2) A(5) by (simp add: s1_def word_less_nat_alt)
  ultimately have w: "final s' = (final s1)(ind ip := buf)" "blank_from s'" using final_wsect [of s1 "ind ip" buf] A(2) D(1) unfolding s'_def s1_def by blast+
  have f: "final s' = (alloc mkfs_sb (freeblock s) (final s))(ind ip := put32 (alloc mkfs_sb (freeblock s) (final s) (ind ip)) (4 * n) (freeblock s))"
    using w(1) A(1) e by (simp add: buf_def s1_def)
  show "ext mkfs_sb (final s) ip (final s') ip" "fblk (final s') ip (NDIRECT + n) = freeblock s"
    using ext_entry [OF F assms(2) q A(3,4) assms(3,5,6)] unfolding f by simp_all
  show "blank_from s'" by (rule w(2))
  show "j < MAXFILE \<Longrightarrow> j \<noteq> NDIRECT + n \<Longrightarrow> fblk (final s') ip j = fblk (final s) ip j"
    using fblk_entry [OF F assms(2) q A(3,4) assms(3,5)] unfolding f by blast
qed

text \<open>The block that \<open>append_block\<close> returns, for a file that ends in that block or at its beginning.\<close>

definition appended :: "nat \<Rightarrow> nat \<Rightarrow> inode \<Rightarrow> mkfs \<Rightarrow> 32 word \<Rightarrow> inode \<Rightarrow> mkfs \<Rightarrow> bool" where
  "appended k fbn ip s x ip' s' \<longleftrightarrow> blank_from s' \<and> ext mkfs_sb (final s) ip (final s') ip' \<and> shape (final s') ip' (Suc fbn) \<and>
     x = fblk (final s') ip' fbn \<and> x \<noteq> 0 \<and> unat (freeblock s') = unat (freeblock s) + (blocks_of (Suc fbn) - blocks_of k) \<and>
     freeinode s' = freeinode s"

lemma rsect_indirect:
  assumes "blank_from s" "file_ok (final s) mkfs_sb ip" "ind ip \<noteq> 0" "NDIRECT \<le> fbn"
  shows "get32 (rsect (ind ip) s) (4 * (fbn - NDIRECT)) = fblk (final s) ip fbn"
  using data_final(3) [OF assms(1) file_okD(2) [OF assms(2,3)]] assms(3,4) by (simp add: rsect_def fblk_def)

lemma append_new_entry:
  assumes "blank_from s" "file_ok (final s) mkfs_sb ip" "ind ip \<noteq> 0" "\<forall>j < MAXFILE. fblk (final s) ip j \<noteq> 0 \<longleftrightarrow> j < k"
    "NDIRECT \<le> k" "k < MAXFILE" "freeblock s < 2000"
  defines "s' \<equiv> wsect (ind ip) (put32 (rsect (ind ip) s) (4 * (k - NDIRECT)) (freeblock s)) (s\<lparr>freeblock := freeblock s + 1\<rparr>)"
  shows "blank_from s'" "ext mkfs_sb (final s) ip (final s') ip" "shape (final s') ip (Suc k)" "fblk (final s') ip k = freeblock s"
    "unat (freeblock s') = Suc (unat (freeblock s))" "get32 (put32 (rsect (ind ip) s) (4 * (k - NDIRECT)) (freeblock s)) (4 * (k - NDIRECT)) = freeblock s"
proof -
  have n: "k - NDIRECT < NINDIRECT" "NDIRECT + (k - NDIRECT) = k" using assms(5,6) by (simp_all add: MAXFILE_def)
  have z: "fblk (final s) ip (NDIRECT + (k - NDIRECT)) = 0" using assms(4,6) n(2) by (metis less_irrefl)
  note E = append_entry [OF assms(1-3,7) n(1) z, folded rsect_def [of _ s], folded s'_def, unfolded n(2)]
  show "blank_from s'" "ext mkfs_sb (final s) ip (final s') ip" "fblk (final s') ip k = freeblock s"
    "get32 (put32 (rsect (ind ip) s) (4 * (k - NDIRECT)) (freeblock s)) (4 * (k - NDIRECT)) = freeblock s" using E(1-3,5) by simp_all
  show "unat (freeblock s') = Suc (unat (freeblock s))" using final_alloc(5) [OF assms(1,7)] by (simp add: s'_def wsect_def)
  show "shape (final s') ip (Suc k)"
    using E(2,4) assms(3-5) final_alloc(4) [OF assms(1,7)] unfolding shape_def by (metis le_imp_less_Suc less_Suc_eq not_less_eq)
qed

lemma append_block_spec:
  assumes s: "blank_from s" and ok: "file_ok (final s) mkfs_sb ip" and sh: "shape (final s) ip k" and k: "fbn = k \<or> Suc fbn = k" "fbn < MAXFILE"
    and room: "unat (freeblock s) + (blocks_of (Suc fbn) - blocks_of k) \<le> 2000"
  shows "\<exists>x ip' s'. append_block fbn ip s = (x, ip', s') \<and> appended k fbn ip s x ip' s'"
proof -
  note F = final_fs_ok [OF s]
  have b: "fblk (final s) ip j \<noteq> 0 \<longleftrightarrow> j < k" if "j < MAXFILE" for j using sh that by (simp add: shape_def)
  have i: "ind ip \<noteq> 0 \<longleftrightarrow> NDIRECT < k" using sh by (simp add: shape_def)
  have len: "length (i_addrs ip) = NDIRECT + 1" using file_okD(1) [OF ok] .
  show ?thesis
  proof (cases "Suc fbn = k")
    case True
    have nz: "fblk (final s) ip fbn \<noteq> 0" using b [OF k(2)] True by simp
    have "append_block fbn ip s = (fblk (final s) ip fbn, ip, s)"
    proof (cases "fbn < NDIRECT")
      case False
      then have "ind ip \<noteq> 0" using i True by simp
      then show ?thesis using False nz rsect_indirect [OF s ok, of fbn] by (simp add: append_block_def ind_def)
    qed (use nz in \<open>simp add: append_block_def fblk_def\<close>)
    then show ?thesis using True nz s sh ext_refl [OF F ok] by (simp add: appended_def)
  next
    case False
    then have kf: "k = fbn" using k(1) by simp
    have z: "fblk (final s) ip fbn = 0" using b [OF k(2)] kf by simp
    have f: "freeblock s < 2000" using room kf by (simp add: word_less_nat_alt blocks_of_def split: if_splits)
    note A = final_alloc [OF s f]
    show ?thesis
    proof (cases "fbn < NDIRECT")
      case True
      let ?ip = "ip\<lparr>i_addrs := (i_addrs ip)[fbn := freeblock s]\<rparr>" and ?s = "s\<lparr>freeblock := freeblock s + 1\<rparr>"
      have "append_block fbn ip s = (freeblock s, ?ip, ?s)" using True z len by (simp add: append_block_def fblk_def)
      then show ?thesis using append_direct [OF s ok sh [unfolded kf] True f] A True kf by (simp add: appended_def blocks_of_def)
    next
      case nd: False
      show ?thesis
      proof (cases "fbn = NDIRECT")
        case False
        then have ni: "ind ip \<noteq> 0" "NDIRECT \<le> fbn" using i nd kf by simp_all
        let ?buf = "put32 (rsect (ind ip) s) (4 * (fbn - NDIRECT)) (freeblock s)"
        let ?s = "wsect (ind ip) ?buf (s\<lparr>freeblock := freeblock s + 1\<rparr>)"
        have bb: "\<forall>j < MAXFILE. fblk (final s) ip j \<noteq> 0 \<longleftrightarrow> j < fbn" using b kf by simp
        note E = append_new_entry [OF s ok ni(1) bb ni(2) k(2) f]
        have "append_block fbn ip s = (freeblock s, ip, ?s)"
          using nd ni z rsect_indirect [OF s ok, of fbn] E(6) by (simp add: append_block_def ind_def Let_def)
        then show ?thesis using E A(4) nd kf False by (simp add: appended_def blocks_of_def) (simp add: wsect_def)
      next
        case True
        then have i0: "ind ip = 0" using i kf by simp
        let ?ip = "ip\<lparr>i_addrs := (i_addrs ip)[NDIRECT := freeblock s]\<rparr>" and ?s = "s\<lparr>freeblock := freeblock s + 1\<rparr>"
        note I = append_indirect [OF s ok i0 f]
        have two: "unat (freeblock s) + 2 \<le> 2000" using room kf True by (simp add: blocks_of_def)
        have f2: "freeblock ?s < 2000" using two A(5) by (simp add: word_less_nat_alt)
        have ni: "ind ?ip \<noteq> 0" using I(3) A(4) by simp
        have bb: "\<forall>j < MAXFILE. fblk (final ?s) ?ip j \<noteq> 0 \<longleftrightarrow> j < fbn" using I(2) b kf by simp
        let ?buf = "put32 (rsect (ind ?ip) ?s) (4 * (fbn - NDIRECT)) (freeblock ?s)"
        let ?t = "wsect (ind ?ip) ?buf (?s\<lparr>freeblock := freeblock ?s + 1\<rparr>)"
        note E = append_new_entry [OF A(2) extD(2) [OF I(1)] ni bb _ k(2) f2]
        have z2: "fblk (final ?s) ?ip fbn = 0" using bb k(2) by (metis less_irrefl)
        have "append_block fbn ip s = (freeblock ?s, ?ip, ?t)"
          using nd i0 z2 len rsect_indirect [OF A(2) extD(2) [OF I(1)] ni, of fbn] E(6) True by (simp add: append_block_def ind_def Let_def)
        moreover have "ext mkfs_sb (final s) ip (final ?t) ?ip" using ext_trans [OF ok I(1)] E(2) True by simp
        moreover have "unat (freeblock ?t) = unat (freeblock s) + 2" using E(5) A(5) True by simp
        moreover have "freeblock ?s \<noteq> 0" using final_alloc(4) [OF A(2) f2] .
        ultimately show ?thesis using E(1,3,4) True kf by (simp add: appended_def blocks_of_def) (simp add: wsect_def)
      qed
    qed
  qed
qed

text \<open>The number of blocks of \<open>n\<close> bytes.\<close>

definition nblk :: "nat \<Rightarrow> nat" where
  "nblk n = (n + BSIZE - 1) div BSIZE"

lemma nblk_at: "nblk off = off div BSIZE \<or> nblk off = Suc (off div BSIZE)" "off div BSIZE * BSIZE < n \<Longrightarrow> n \<le> Suc (off div BSIZE) * BSIZE \<Longrightarrow> nblk n = Suc (off div BSIZE)"
proof -
  have "off + 1023 < (off div 1024 + 2) * 1024" "off div 1024 * 1024 \<le> off + 1023" by simp_all
  then have "(off + 1023) div 1024 < off div 1024 + 2" "off div 1024 \<le> (off + 1023) div 1024" by (simp_all only: less_mult_imp_div_less div_le_mono le_add1)
  then show "nblk off = off div BSIZE \<or> nblk off = Suc (off div BSIZE)" by (auto simp: nblk_def BSIZE_def)
  assume a: "off div BSIZE * BSIZE < n" "n \<le> Suc (off div BSIZE) * BSIZE"
  define k where "k = off div BSIZE"
  have "k * 1024 < n" "n \<le> Suc k * 1024" using a unfolding k_def BSIZE_def by simp_all
  then have "(n + 1023) div 1024 = Suc k" by (intro div_nat_eqI) simp_all
  then have "nblk n = Suc k" by (simp add: nblk_def BSIZE_def)
  then show "nblk n = Suc (off div BSIZE)" by (simp add: k_def)
qed

lemma nblk_mono: "m \<le> n \<Longrightarrow> nblk m \<le> nblk n"
  by (simp add: nblk_def div_le_mono)

lemma blocks_of_mono: "a \<le> b \<Longrightarrow> blocks_of a \<le> blocks_of b"
  by (simp add: blocks_of_def)

definition append_result :: "nat \<Rightarrow> byte list \<Rightarrow> inode \<Rightarrow> mkfs \<Rightarrow> inode \<Rightarrow> mkfs \<Rightarrow> bool" where
  "append_result off p ip s ip' s' \<longleftrightarrow> blank_from s' \<and> grown mkfs_sb (final s) ip (final s') ip' \<and> shape (final s') ip' (nblk (off + length p)) \<and>
     unat (freeblock s') = unat (freeblock s) + (blocks_of (nblk (off + length p)) - blocks_of (nblk off)) \<and> freeinode s' = freeinode s \<and>
     (\<forall>j < MAXFILE * BSIZE. zbyte (final s') ip' j = (if off \<le> j \<and> j < off + length p then p ! (j - off) else zbyte (final s) ip j))"

lemma write_appended:
  assumes "blank_from s" "fs_ok (final s) mkfs_sb" "file_ok (final s) mkfs_sb ip" "shape (final s) ip (Suc k)" "k < MAXFILE" "o' + length bs \<le> BSIZE"
  defines "x \<equiv> fblk (final s) ip k"
  defines "s' \<equiv> wsect x (patch (rsect x s) o' bs) s"
  shows "blank_from s'" "grown mkfs_sb (final s) ip (final s') ip" "shape (final s') ip (Suc k)" "freeblock s' = freeblock s" "freeinode s' = freeinode s"
    "j < MAXFILE * BSIZE \<Longrightarrow> zbyte (final s') ip j = (if k * BSIZE + o' \<le> j \<and> j < k * BSIZE + o' + length bs then bs ! (j - (k * BSIZE + o')) else zbyte (final s) ip j)"
proof -
  have nz: "x \<noteq> 0" using assms(4,5) by (simp add: shape_def x_def)
  note D = data_final [OF assms(1) file_okD(3) [OF assms(3,5) nz [unfolded x_def]], folded x_def]
  have "length (img s x) = BSIZE" using assms(1) by (simp add: blank_from_def)
  then have l: "length (patch (rsect x s) o' bs) = BSIZE" using assms(6) by (simp add: rsect_def length_patch)
  note W = final_wsect [OF assms(1) D(2,1) l, folded s'_def]
  have f: "final s' = (final s)(fblk (final s) ip k := patch (final s (fblk (final s) ip k)) o' bs)"
    using W(1) D(3) by (simp add: rsect_def x_def)
  note B = write_block [OF assms(2,3,5) nz [unfolded x_def] assms(6), folded f]
  show "blank_from s'" "freeblock s' = freeblock s" "freeinode s' = freeinode s" using W by simp_all
  show "grown mkfs_sb (final s) ip (final s') ip" using B(1) .
  show "shape (final s') ip (Suc k)" using B(2) assms(4) by (simp add: shape_def)
  show "j < MAXFILE * BSIZE \<Longrightarrow> zbyte (final s') ip j = (if k * BSIZE + o' \<le> j \<and> j < k * BSIZE + o' + length bs then bs ! (j - (k * BSIZE + o')) else zbyte (final s) ip j)"
    using B(3) .
qed

lemma iappend_from_spec:
  assumes "blank_from s" "file_ok (final s) mkfs_sb ip" "shape (final s) ip (nblk off)" "off + length p \<le> MAXFILE * BSIZE"
    "unat (freeblock s) + (blocks_of (nblk (off + length p)) - blocks_of (nblk off)) \<le> 2000"
  shows "\<exists>ip' s'. iappend_from off ip p s = Ok (off + length p, ip') s' \<and> append_result off p ip s ip' s'"
  using assms
proof (induction "length p" arbitrary: off ip p s rule: less_induct)
  case less
  note s = less.prems(1) and ok = less.prems(2) and sh = less.prems(3)
  note F = final_fs_ok [OF s]
  show ?case
  proof (cases "p = []")
    case True
    then show ?thesis using s sh grown_refl [OF F ok]
      by (intro exI [of _ ip] exI [of _ s]) (auto simp: iappend_from.simps [of off ip "[]" s] append_result_def)
  next
    case False
    define k where "k = off div BSIZE"
    define n1 where "n1 = min (length p) ((k + 1) * BSIZE - off)"
    have off: "k * BSIZE \<le> off" "off < (k + 1) * BSIZE" by (simp_all add: k_def BSIZE_def)
    have n1: "0 < n1" "n1 \<le> length p" "off + n1 \<le> (k + 1) * BSIZE" using False off by (simp_all add: n1_def)
    have "off < MAXFILE * BSIZE" using less.prems(4) False by (cases p) simp_all
    then have k: "k < MAXFILE" by (simp add: k_def less_mult_imp_div_less)
    have nb: "k = nblk off \<or> Suc k = nblk off" using nblk_at(1) [of off] by (auto simp: k_def)
    have nb1: "nblk (off + n1) = Suc k" using nblk_at(2) [of off "off + n1", folded k_def] off n1 by simp
    have mono: "blocks_of (nblk off) \<le> blocks_of (Suc k)" "blocks_of (Suc k) \<le> blocks_of (nblk (off + length p))"
      using blocks_of_mono nblk_mono [of off "off + n1"] nblk_mono [of "off + n1" "off + length p"] n1(2) nb1 by simp_all
    obtain x ip1 s1 where a: "append_block k ip s = (x, ip1, s1)" "appended (nblk off) k ip s x ip1 s1"
      using append_block_spec [OF s ok sh nb k] less.prems(5) mono by force
    have A: "blank_from s1" "ext mkfs_sb (final s) ip (final s1) ip1" "shape (final s1) ip1 (Suc k)" "x = fblk (final s1) ip1 k"
      "unat (freeblock s1) = unat (freeblock s) + (blocks_of (Suc k) - blocks_of (nblk off))" "freeinode s1 = freeinode s" using a(2) by (simp_all add: appended_def)
    let ?bs = "take n1 p" and ?o = "off - k * BSIZE"
    let ?s2 = "wsect x (patch (rsect x s1) ?o ?bs) s1"
    have lo: "?o + length ?bs \<le> BSIZE" using off n1 by (simp add: BSIZE_def)
    note W = write_appended [OF A(1) final_fs_ok [OF A(1)] extD(2) [OF A(2)] A(3) k lo, folded A(4)]
    have e: "iappend_from off ip p s = iappend_from (off + n1) ip1 (drop n1 p) ?s2"
      using False k a(1) by (simp add: iappend_from.simps [of off ip p s] Let_def k_def [symmetric] n1_def)
    have p: "length (drop n1 p) < length p" "off + n1 + length (drop n1 p) = off + length p" using n1 False by simp_all
    have h: "shape (final ?s2) ip1 (nblk (off + n1))" "off + n1 + length (drop n1 p) \<le> MAXFILE * BSIZE"
      "unat (freeblock ?s2) + (blocks_of (nblk (off + n1 + length (drop n1 p))) - blocks_of (nblk (off + n1))) \<le> 2000"
      unfolding p(2) nb1 W(4) using W(3) less.prems(4,5) A(5) mono by simp_all
    obtain ip' s' where r: "iappend_from (off + n1) ip1 (drop n1 p) ?s2 = Ok (off + n1 + length (drop n1 p), ip') s'"
        "append_result (off + n1) (drop n1 p) ip1 ?s2 ip' s'"
      using less.hyps [OF p(1) W(1) grownD(2) [OF W(2)] h] by blast
    have R: "blank_from s'" "grown mkfs_sb (final ?s2) ip1 (final s') ip'" "shape (final s') ip' (nblk (off + length p))"
      "unat (freeblock s') = unat (freeblock ?s2) + (blocks_of (nblk (off + length p)) - blocks_of (Suc k))" "freeinode s' = freeinode ?s2"
      "\<forall>j < MAXFILE * BSIZE. zbyte (final s') ip' j = (if off + n1 \<le> j \<and> j < off + length p then drop n1 p ! (j - (off + n1)) else zbyte (final ?s2) ip1 j)"
      using r(2) unfolding append_result_def p(2) nb1 by simp_all
    have "grown mkfs_sb (final s) ip (final s') ip'"
      using grown_trans [OF ext_grown [OF ok A(2)] grown_trans [OF W(2) R(2)]] .
    moreover have "zbyte (final s') ip' j = (if off \<le> j \<and> j < off + length p then p ! (j - off) else zbyte (final s) ip j)" if j: "j < MAXFILE * BSIZE" for j
    proof -
      have "zbyte (final ?s2) ip1 j = (if off \<le> j \<and> j < off + n1 then p ! (j - off) else zbyte (final s) ip j)"
        using W(6) [OF j] ext_zbyte [OF ok A(2) j] off n1 by auto
      then show ?thesis using R(6) j n1 by auto
    qed
    moreover have "unat (freeblock s') = unat (freeblock s) + (blocks_of (nblk (off + length p)) - blocks_of (nblk off))"
      using R(4) W(4) A(5) mono by simp
    ultimately show ?thesis using e r(1) R W(5) A(6) p(2) by (simp add: append_result_def)
  qed
qed

section \<open>Inodes in their blocks\<close>

lemma sub_put:
  "off + 2 \<le> length xs \<Longrightarrow> o' + n \<le> length xs \<Longrightarrow> o' + n \<le> off \<or> off + 2 \<le> o' \<Longrightarrow> sub (put16 xs off v) o' n = sub xs o' n"
  "off + 4 \<le> length xs \<Longrightarrow> o' + n \<le> length xs \<Longrightarrow> o' + n \<le> off \<or> off + 4 \<le> o' \<Longrightarrow> sub (put32 xs off w) o' n = sub xs o' n"
  by (simp_all add: put16_def put32_def sub_patch_other)

lemma put_addrs:
  fixes a :: "32 word list"
  assumes "base + 4 * m \<le> length bs"
  defines "r \<equiv> fold (\<lambda>k bs. put32 bs (base + 4 * k) (a ! k)) [0..<m] bs"
  shows "length r = length bs" "o' + n \<le> length bs \<Longrightarrow> o' + n \<le> base \<or> base + 4 * m \<le> o' \<Longrightarrow> sub r o' n = sub bs o' n"
    "j < m \<Longrightarrow> get32 r (base + 4 * j) = a ! j"
proof -
  have l: "length (fold (\<lambda>k bs. put32 bs (base + 4 * k) (a ! k)) [0..<k] bs) = length bs" if "k \<le> m" for k
    using that assms(1) by (induction k) auto
  then show "length r = length bs" by (simp add: r_def)
  have "sub (fold (\<lambda>k bs. put32 bs (base + 4 * k) (a ! k)) [0..<k] bs) o' n = sub bs o' n"
    if "k \<le> m" "o' + n \<le> length bs" "o' + n \<le> base \<or> base + 4 * m \<le> o'" for k
    using that assms(1) by (induction k) (auto simp: l sub_put(2))
  then show "o' + n \<le> length bs \<Longrightarrow> o' + n \<le> base \<or> base + 4 * m \<le> o' \<Longrightarrow> sub r o' n = sub bs o' n" by (simp add: r_def)
  have "get32 (fold (\<lambda>k bs. put32 bs (base + 4 * k) (a ! k)) [0..<k] bs) (base + 4 * j) = a ! j" if "k \<le> m" "j < k" for k
    using that
  proof (induction k)
    case (Suc k)
    have b: "base + 4 * k + 4 \<le> length bs" "base + 4 * j + 4 \<le> length bs" using Suc.prems assms(1) by simp_all
    then show ?case using Suc l [of k] get_put32_other [of "base + 4 * k" _ "base + 4 * j"] by (cases "j = k") auto
  qed simp
  then show "j < m \<Longrightarrow> get32 r (base + 4 * j) = a ! j" by (simp add: r_def)
qed

lemma sub_put_dinode:
  assumes "off + DINODE \<le> length bs" "o' + n \<le> length bs" "o' + n \<le> off \<or> off + DINODE \<le> o'"
  shows "sub (put_dinode ip off bs) o' n = sub bs o' n"
  using assms unfolding put_dinode_def Let_def
  by (subst put_addrs(2)) (auto simp: DINODE_def NDIRECT_def sub_put)

lemma get_put_dinode:
  assumes "off + DINODE \<le> length bs" "length (i_addrs ip) = NDIRECT + 1"
  shows "get_dinode (put_dinode ip off bs) off jp =
    jp\<lparr>i_type := i_type ip, i_major := i_major ip, i_minor := i_minor ip, i_nlink := i_nlink ip, i_size := i_size ip, i_addrs := i_addrs ip\<rparr>"
proof -
  let ?b = "put32 (put16 (put16 (put16 (put16 bs off (i_type ip)) (off + 2) (i_major ip)) (off + 4) (i_minor ip)) (off + 6) (i_nlink ip)) (off + 8) (i_size ip)"
  have l: "off + 64 \<le> length bs" using assms(1) by (simp add: DINODE_def)
  have lb: "length ?b = length bs" using l by simp
  have p: "put_dinode ip off bs = fold (\<lambda>k bs. put32 bs (off + 12 + 4 * k) (i_addrs ip ! k)) [0..<NDIRECT + 1] ?b"
    by (simp add: put_dinode_def Let_def)
  have fit: "off + 12 + 4 * (NDIRECT + 1) \<le> length ?b" unfolding lb using l by (simp add: NDIRECT_def)
  note A = put_addrs [where a = "i_addrs ip", OF fit, folded p]
  have "map (\<lambda>k. get32 (put_dinode ip off bs) (off + 12 + 4 * k)) [0..<NDIRECT + 1] = i_addrs ip"
    using A(3) assms(2) by (intro nth_equalityI) (auto simp del: upt_Suc)
  moreover have "sub (put_dinode ip off bs) o' n = sub ?b o' n" if "o' + n \<le> off + 12" for o' n
    using A(2) [of o' n] that lb l by simp
  moreover have "sub ?b (off + 8) 4 = word_le 4 (i_size ip)" "sub ?b (off + 6) 2 = word_le 2 (i_nlink ip)" "sub ?b (off + 4) 2 = word_le 2 (i_minor ip)"
    "sub ?b (off + 2) 2 = word_le 2 (i_major ip)" "sub ?b off 2 = word_le 2 (i_type ip)"
    using l by (simp_all add: sub_put) (simp_all add: put16_def put32_def sub_patch_same)
  ultimately show ?thesis by (simp add: get_dinode_def get16_def get32_def le_word_word_le)
qed

text \<open>What an inode on the disk holds, and how writing one changes the others.\<close>

definition disk_inode :: "(block \<Rightarrow> byte list) \<Rightarrow> 32 word \<Rightarrow> inode" where
  "disk_inode V n = get_dinode (V (IBLOCK n mkfs_sb)) (dinode_off n) bss_inode"

lemma rinode_final: "n < 200 \<Longrightarrow> rinode n s = disk_inode (final s) n"
proof -
  assume "n < 200"
  then have "IBLOCK n mkfs_sb \<noteq> bmb" using IBLOCK_mkfs [of n] by (auto simp: word_less_nat_alt)
  then show ?thesis by (simp add: rinode_def disk_inode_def rsect_def final_def)
qed

lemma get_dinode_cong: "sub bs off DINODE = sub cs off DINODE \<Longrightarrow> get_dinode bs off jp = get_dinode cs off jp"
proof -
  assume a: "sub bs off DINODE = sub cs off DINODE"
  have "sub xs (off + i) n = sub (sub xs off DINODE) i n" if "i + n \<le> DINODE" for xs i n
    using that by (simp add: sub_def drop_take add.commute min_def)
  then have e: "sub bs (off + i) n = sub cs (off + i) n" if "i + n \<le> DINODE" for i n using a that by simp
  have "sub bs off 2 = sub cs off 2" "sub bs (off + 12 + 4 * k) 4 = sub cs (off + 12 + 4 * k) 4" if "k < 13" for k
    using e [of 0 2] e [of "12 + 4 * k" 4] that by (simp_all add: DINODE_def add.assoc)
  then show ?thesis using e [of 0 2] e [of 2 2] e [of 4 2] e [of 6 2] e [of 8 4] by (simp add: get_dinode_def get16_def get32_def DINODE_def NDIRECT_def)
qed

lemma winode_effect:
  assumes "blank_from s" "n < 200" "length (i_addrs ip) = NDIRECT + 1"
  defines "s' \<equiv> winode n ip s"
  shows "\<exists>x. length x = BSIZE \<and> final s' = (final s)(IBLOCK n mkfs_sb := x)" "blank_from s'" "freeblock s' = freeblock s" "freeinode s' = freeinode s"
    "disk_inode (final s') n = bss_inode\<lparr>i_type := i_type ip, i_major := i_major ip, i_minor := i_minor ip, i_nlink := i_nlink ip, i_size := i_size ip, i_addrs := i_addrs ip\<rparr>"
    "m < 200 \<Longrightarrow> m \<noteq> n \<Longrightarrow> disk_inode (final s') m = disk_inode (final s) m"
proof -
  let ?b = "IBLOCK n mkfs_sb" and ?x = "put_dinode ip (dinode_off n) (img s (IBLOCK n mkfs_sb))"
  have i: "unat ?b < 46" using IBLOCK_mkfs [OF assms(2)] assms(2) by (simp add: word_less_nat_alt)
  then have nb: "?b \<noteq> bmb" "?b < freeblock s" using assms(1) by (auto simp: blank_from_def word_less_nat_alt)
  have lx: "length (img s ?b) = BSIZE" using assms(1) by (simp add: blank_from_def)
  then have l: "length ?x = BSIZE" "dinode_off n + DINODE \<le> length (img s ?b)" using put_dinode_length dinode_off_fits [of n] by simp_all
  have e: "s' = wsect ?b ?x s" by (simp add: s'_def winode_def rsect_def Let_def)
  note W = final_wsect [OF assms(1) nb(2,1) l(1), folded e]
  show "\<exists>x. length x = BSIZE \<and> final s' = (final s)(?b := x)" "blank_from s'" "freeblock s' = freeblock s" "freeinode s' = freeinode s" using W l by auto
  show "disk_inode (final s') n = bss_inode\<lparr>i_type := i_type ip, i_major := i_major ip, i_minor := i_minor ip, i_nlink := i_nlink ip, i_size := i_size ip, i_addrs := i_addrs ip\<rparr>"
    using get_put_dinode [OF l(2) assms(3)] W(1) by (simp add: disk_inode_def)
  assume m: "m < 200" "m \<noteq> n"
  show "disk_inode (final s') m = disk_inode (final s) m"
  proof (cases "IBLOCK m mkfs_sb = ?b")
    case True
    then have "unat m div 16 = unat n div 16" using IBLOCK_mkfs [OF m(1)] IBLOCK_mkfs [OF assms(2)] by simp
    then have "unat m mod 16 \<noteq> unat n mod 16" using m(2) by (metis div_mult_mod_eq word_unat_eq_iff)
    then have "dinode_off m + DINODE \<le> dinode_off n \<or> dinode_off n + DINODE \<le> dinode_off m"
      by (auto simp: dinode_off_def DINODE_def IPB_def BSIZE_def)
    then have "sub ?x (dinode_off m) DINODE = sub (img s ?b) (dinode_off m) DINODE"
      using sub_put_dinode [OF l(2)] dinode_off_fits [of m] lx by simp
    moreover have "final s' ?b = ?x" "final s ?b = img s ?b" using W(1) nb(1) by (simp_all add: final_def)
    ultimately show ?thesis unfolding disk_inode_def True by (metis get_dinode_cong)
  next
    case False
    then show ?thesis using W(1) by (simp add: disk_inode_def)
  qed
qed

section \<open>Files of the image\<close>

text \<open>An inode with its type and contents; no byte after the contents is set, and the superblock is not one of its
  blocks.\<close>

definition file_at :: "(block \<Rightarrow> byte list) \<Rightarrow> inode \<Rightarrow> 16 word \<Rightarrow> byte list \<Rightarrow> bool" where
  "file_at V ip ty bs \<longleftrightarrow> file_ok V mkfs_sb ip \<and> shape V ip (nblk (length bs)) \<and> length bs \<le> MAXFILE * BSIZE \<and>
     ip = bss_inode\<lparr>i_type := ty, i_nlink := 1, i_size := of_nat (length bs), i_addrs := i_addrs ip\<rparr> \<and>
     (\<forall>j < MAXFILE * BSIZE. zbyte V ip j = (if j < length bs then bs ! j else 0)) \<and> 1 \<notin> fowns V ip"

lemma file_at_cong:
  assumes "file_at V ip ty bs" "file_ok V' mkfs_sb ip" "\<And>k. fblk V' ip k = fblk V ip k"
    "\<And>k. k < MAXFILE \<Longrightarrow> fblk V ip k \<noteq> 0 \<Longrightarrow> V' (fblk V ip k) = V (fblk V ip k)"
  shows "file_at V' ip ty bs" "fowns V' ip = fowns V ip"
proof -
  show f: "fowns V' ip = fowns V ip" by (simp add: fowns_def assms(3))
  have "zbyte V' ip j = zbyte V ip j" if "j < MAXFILE * BSIZE" for j
    using assms(3,4) less_mult_imp_div_less [OF that] by (simp add: zbyte_def fbyte_def)
  then show "file_at V' ip ty bs" using assms(1,2) f by (simp add: file_at_def shape_def assms(3))
qed

lemma file_at_size: "file_at V ip ty bs \<Longrightarrow> unat (i_size ip) = length bs" "file_at V ip ty bs \<Longrightarrow> i_type ip = ty" "file_at V ip ty bs \<Longrightarrow> i_nlink ip = 1"
proof -
  assume f: "file_at V ip ty bs"
  have "ip = bss_inode\<lparr>i_type := ty, i_nlink := 1, i_size := of_nat (length bs), i_addrs := i_addrs ip\<rparr>" and l: "length bs \<le> MAXFILE * BSIZE"
    using f by (simp_all add: file_at_def)
  then have "i_size ip = of_nat (length bs) \<and> i_type ip = ty \<and> i_nlink ip = 1" by (metis inode.select_convs(6,9,10) inode.surjective inode.update_convs(6,9,10,11))
  moreover have "unat (of_nat (length bs) :: 32 word) = length bs" by (rule unat_of_nat32) (use l in \<open>simp add: NDM BSIZE_def\<close>)
  ultimately show "unat (i_size ip) = length bs" "i_type ip = ty" "i_nlink ip = 1" by simp_all
qed

lemma file_at_bytes:
  assumes "file_at V ip ty bs"
  shows "has_bytes V ip (length bs)" "file_bytes V ip = bs"
proof -
  have b: "fblk V ip (j div BSIZE) \<noteq> 0 \<and> zbyte V ip j = bs ! j" if "j < length bs" for j
  proof -
    have j: "j < MAXFILE * BSIZE" using that assms by (simp add: file_at_def)
    have "j div BSIZE < nblk (length bs)" using that by (simp add: nblk_def BSIZE_def)
    then show ?thesis using assms j less_mult_imp_div_less [OF j] that by (simp add: file_at_def shape_def)
  qed
  then show "has_bytes V ip (length bs)" using assms by (auto simp: has_bytes_def file_at_def)
  have "fbyte V ip j = bs ! j" if "j < length bs" for j using b [OF that] by (simp add: zbyte_def split: if_splits)
  then show "file_bytes V ip = bs" using file_at_size(1) [OF assms] by (intro nth_equalityI) (simp_all add: file_bytes_def)
qed

lemma file_at_inode_block:
  assumes "file_at V ip ty bs" "fs_ok V mkfs_sb" "n < 200" "length x = BSIZE"
  shows "file_at (V(IBLOCK n mkfs_sb := x)) ip ty bs" "fowns (V(IBLOCK n mkfs_sb := x)) ip = fowns V ip"
proof -
  have ok: "file_ok V mkfs_sb ip" using assms(1) by (simp add: file_at_def)
  have n: "n < sb_ninodes mkfs_sb" using assms(3) by (simp add: mkfs_numbers)
  note F = inode_block_frame [OF assms(2) n assms(4)]
  note C = file_at_cong [OF assms(1) F(5) [OF ok] F(4) [OF ok] F(6) [OF ok]]
  show "file_at (V(IBLOCK n mkfs_sb := x)) ip ty bs" "fowns (V(IBLOCK n mkfs_sb := x)) ip = fowns V ip" by (rule C; assumption)+
qed

lemma file_at_grown:
  assumes "grown mkfs_sb V ip V' ip'" "file_at V jp ty bs" "apart_files V ip jp"
  shows "file_at V' jp ty bs" "fowns V' jp = fowns V jp" "apart_files V' ip' jp"
proof -
  have ok: "file_ok V mkfs_sb jp" using assms(2) by (simp add: file_at_def)
  note G = grown_other [OF assms(1) ok assms(3)]
  note C = file_at_cong [OF assms(2) G(2) G(1) G(4)]
  show "file_at V' jp ty bs" "fowns V' jp = fowns V jp" by (rule C; assumption)+
  show "apart_files V' ip' jp" by (rule G(3))
qed

lemma file_at_fresh:
  "file_at V (bss_inode\<lparr>i_type := ty, i_nlink := 1, i_size := 0\<rparr>) ty []" "fowns V (bss_inode\<lparr>i_type := ty, i_nlink := 1, i_size := 0\<rparr>) = {}"
proof -
  let ?ip = "bss_inode\<lparr>i_type := ty, i_nlink := 1, i_size := 0\<rparr>"
  have a: "i_addrs ?ip ! k = 0" if "k < NDIRECT + 1" for k using that by (simp add: bss_inode_def del: replicate_Suc)
  have i: "ind ?ip = 0" using a [of NDIRECT] by (simp add: ind_def)
  have f: "fblk V ?ip k = 0" for k using a [of k] i by (simp add: fblk_def)
  show o: "fowns V ?ip = {}" using i f by (auto simp: fowns_def)
  have "zbyte V ?ip j = 0" for j using f by (simp add: zbyte_def)
  then show "file_at V ?ip ty []" using f i o by (simp add: file_at_def file_ok_def shape_def nblk_def BSIZE_def bss_inode_def)
qed

text \<open>The state of the program when the inodes from 1 on hold the files of a list.\<close>

type_synonym files = "(16 word \<times> byte list) list"

abbreviation nth_inode :: "(block \<Rightarrow> byte list) \<Rightarrow> nat \<Rightarrow> inode" where
  "nth_inode V i \<equiv> disk_inode V (of_nat (Suc i))"

definition nblocks :: "files \<Rightarrow> nat" where
  "nblocks fl = sum_list (map (\<lambda>f. blocks_of (nblk (length (snd f)))) fl)"

definition holds :: "(block \<Rightarrow> byte list) \<Rightarrow> files \<Rightarrow> bool" where
  "holds V fl \<longleftrightarrow> length fl < 200 \<and> (\<forall>i < length fl. file_at V (nth_inode V i) (fst (fl ! i)) (snd (fl ! i))) \<and>
     (\<forall>i < length fl. \<forall>j < length fl. i \<noteq> j \<longrightarrow> apart_files V (nth_inode V i) (nth_inode V j))"

definition built :: "mkfs \<Rightarrow> files \<Rightarrow> bool" where
  "built s fl \<longleftrightarrow> blank_from s \<and> freeinode s = of_nat (Suc (length fl)) \<and> img s 1 = patch (replicate BSIZE 0) 0 (sb_bytes mkfs_sb) \<and>
     holds (final s) fl \<and> unat (freeblock s) = 47 + nblocks fl"

lemma inum_small: "i < 199 \<Longrightarrow> (of_nat (Suc i) :: 32 word) < 200" "i < 199 \<Longrightarrow> j < 199 \<Longrightarrow> of_nat (Suc i) = (of_nat (Suc j) :: 32 word) \<longleftrightarrow> i = j"
proof -
  have u: "unat (of_nat (Suc k) :: 32 word) = Suc k" if "k < 199" for k using that by (simp add: unat_of_nat32 del: of_nat_Suc)
  show "i < 199 \<Longrightarrow> (of_nat (Suc i) :: 32 word) < 200" using u by (simp add: word_less_nat_alt del: of_nat_Suc)
  show "i < 199 \<Longrightarrow> j < 199 \<Longrightarrow> of_nat (Suc i) = (of_nat (Suc j) :: 32 word) \<longleftrightarrow> i = j" using u by (metis Suc_inject)
qed

lemma holdsD:
  assumes "holds V fl" "i < length fl"
  shows "file_at V (nth_inode V i) (fst (fl ! i)) (snd (fl ! i))" "j < length fl \<Longrightarrow> i \<noteq> j \<Longrightarrow> apart_files V (nth_inode V i) (nth_inode V j)"
    "i < 199"
  using assms unfolding holds_def by auto

lemma superblock_kept:
  assumes "blank_from s" "file_at (final s) ip ty bs" "grown mkfs_sb (final s) ip (final s') ip'"
  shows "img s' 1 = img s 1" "1 \<notin> fowns (final s') ip'"
proof -
  have "IBLOCK n mkfs_sb \<noteq> 1" if "n < 200" for n using IBLOCK_mkfs [OF that] by auto
  moreover have "BBLOCK c mkfs_sb \<noteq> 1" if "c < 2000" for c using BBLOCK_mkfs [OF that] by simp
  moreover have "1 < freeblock s" using assms(1) by (simp add: blank_from_def word_less_nat_alt)
  ultimately have d: "data_block (final s) mkfs_sb 1" using used_final [OF assms(1), of 1] by (simp add: data_block_def mkfs_numbers)
  have n: "1 \<notin> fowns (final s) ip" using assms(2) by (simp add: file_at_def)
  show "1 \<notin> fowns (final s') ip'" using grownD(7) [OF assms(3)] d n by blast
  have "final s' 1 = final s 1" by (rule grownD(6) [OF assms(3) d n])
  then show "img s' 1 = img s 1" by (simp add: final_def)
qed

text \<open>A file of the list changes: its blocks grow, and then its inode is written.\<close>

lemma holds_update:
  assumes h: "holds V fl" and fs: "fs_ok V1 mkfs_sb" and i: "i < length fl" and g: "grown mkfs_sb V (nth_inode V i) V1 ip'"
    and V': "V' = V1(IBLOCK (of_nat (Suc i)) mkfs_sb := x)" "length x = BSIZE" and f: "file_at V1 ip'' ty bs" "fowns V1 ip'' = fowns V1 ip'"
    and d: "nth_inode V' i = ip''" "\<And>j. j < 199 \<Longrightarrow> j \<noteq> i \<Longrightarrow> nth_inode V' j = nth_inode V j"
  shows "holds V' (fl[i := (ty, bs)])"
proof -
  have n: "(of_nat (Suc i) :: 32 word) < 200" by (rule inum_small(1) [OF holdsD(3) [OF h i]])
  note I = file_at_inode_block [OF _ fs n V'(2), folded V'(1)]
  have o: "file_at V' (nth_inode V' j) (fst (fl ! j)) (snd (fl ! j))" "fowns V' (nth_inode V' j) = fowns V (nth_inode V j)"
      "apart_files V' (nth_inode V' i) (nth_inode V' j)" if j: "j < length fl" "j \<noteq> i" for j
  proof -
    note G = file_at_grown [OF g holdsD(1) [OF h j(1)] holdsD(2) [OF h i j(1) j(2) [symmetric]]]
    have e: "nth_inode V' j = nth_inode V j" by (rule d(2) [OF holdsD(3) [OF h j(1)] j(2)])
    show "file_at V' (nth_inode V' j) (fst (fl ! j)) (snd (fl ! j))" "fowns V' (nth_inode V' j) = fowns V (nth_inode V j)"
      using I [OF G(1)] G(2) unfolding e by simp_all
    then show "apart_files V' (nth_inode V' i) (nth_inode V' j)" using G(2,3) I(2) [OF f(1)] f(2) unfolding d(1) e apart_files_def by simp
  qed
  have "file_at V' (nth_inode V' j) (fst (fl[i := (ty, bs)] ! j)) (snd (fl[i := (ty, bs)] ! j))" if "j < length fl" for j
    using o(1) [OF that] I(1) [OF f(1)] d(1) i by (cases "j = i") simp_all
  moreover have "apart_files V' (nth_inode V' j) (nth_inode V' k)" if jk: "j < length fl" "k < length fl" "j \<noteq> k" for j k
  proof (cases "j = i \<or> k = i")
    case True
    then show ?thesis using o(3) [of j] o(3) [of k] jk by (auto simp: apart_files_def)
  next
    case False
    then show ?thesis using o(2) jk holdsD(2) [OF h jk(1,2)] by (simp add: apart_files_def)
  qed
  ultimately show ?thesis using h by (simp add: holds_def)
qed

abbreviation appendf :: "files \<Rightarrow> nat \<Rightarrow> byte list \<Rightarrow> files" where
  "appendf fl i p \<equiv> fl[i := (fst (fl ! i), snd (fl ! i) @ p)]"

lemma nblocks_update:
  assumes "i < length fl"
  shows "nblocks (appendf fl i p) = nblocks fl + (blocks_of (nblk (length (snd (fl ! i)) + length p)) - blocks_of (nblk (length (snd (fl ! i)))))"
proof -
  let ?xs = "map (\<lambda>f. blocks_of (nblk (length (snd f)))) fl" and ?y = "blocks_of (nblk (length (snd (fl ! i)) + length p))"
  have "nblocks (appendf fl i p) = sum_list (?xs[i := ?y])" by (simp add: nblocks_def map_update)
  moreover have "\<dots> = sum_list ?xs + ?y - ?xs ! i" using assms by (simp add: sum_list_update)
  moreover have "?xs ! i \<le> ?y" using assms by (simp add: blocks_of_mono nblk_mono)
  ultimately show ?thesis using assms by (simp add: nblocks_def)
qed

lemma file_at_appended:
  assumes f: "file_at V ip ty bs" and sh: "shape V1 ip' (nblk (length bs + length p))" and ok: "file_ok V1 mkfs_sb ip'" and i: "ip' = ip\<lparr>i_addrs := i_addrs ip'\<rparr>"
    and sz: "length bs + length p \<le> MAXFILE * BSIZE" and n1: "1 \<notin> fowns V1 ip'"
    and z: "\<And>j. j < MAXFILE * BSIZE \<Longrightarrow> zbyte V1 ip' j = (if length bs \<le> j \<and> j < length bs + length p then p ! (j - length bs) else zbyte V ip j)"
  defines "ip2 \<equiv> ip'\<lparr>i_size := of_nat (length bs + length p)\<rparr>"
  shows "file_at V1 ip2 ty (bs @ p)" "fowns V1 ip2 = fowns V1 ip'"
proof -
  have a: "i_addrs ip2 = i_addrs ip'" "ind ip2 = ind ip'" by (simp_all add: ip2_def ind_def)
  have fb: "fblk V1 ip2 k = fblk V1 ip' k" for k by (simp add: fblk_def a)
  show o: "fowns V1 ip2 = fowns V1 ip'" by (simp add: fowns_def fb a)
  have zb: "zbyte V1 ip2 j = zbyte V1 ip' j" for j by (simp add: zbyte_def fbyte_def fb)
  have f0: "ip = bss_inode\<lparr>i_type := ty, i_nlink := 1, i_size := of_nat (length bs), i_addrs := i_addrs ip\<rparr>"
    and z0: "\<And>j. j < MAXFILE * BSIZE \<Longrightarrow> zbyte V ip j = (if j < length bs then bs ! j else 0)" using f by (simp_all add: file_at_def)
  have "ip2 = bss_inode\<lparr>i_type := ty, i_nlink := 1, i_size := of_nat (length (bs @ p)), i_addrs := i_addrs ip2\<rparr>"
    unfolding ip2_def by (subst i, subst f0) simp
  moreover have "zbyte V1 ip2 j = (if j < length (bs @ p) then (bs @ p) ! j else 0)" if "j < MAXFILE * BSIZE" for j
    using z [OF that] z0 [OF that] by (simp add: zb nth_append)
  moreover have "file_ok V1 mkfs_sb ip2" "shape V1 ip2 (nblk (length (bs @ p)))" using ok sh by (simp_all add: file_ok_def shape_def fb a)
  ultimately show "file_at V1 ip2 ty (bs @ p)" using sz n1 by (simp add: file_at_def o)
qed

lemma inode_reread:
  "ip = bss_inode\<lparr>i_type := t, i_nlink := n, i_size := z, i_addrs := a\<rparr> \<Longrightarrow>
   bss_inode\<lparr>i_type := i_type ip, i_major := i_major ip, i_minor := i_minor ip, i_nlink := i_nlink ip, i_size := i_size ip, i_addrs := i_addrs ip\<rparr> = ip"
  by (simp add: bss_inode_def)

lemma iappend_spec:
  assumes "built s fl" "i < length fl" "length (snd (fl ! i)) + length p \<le> MAXFILE * BSIZE" "nblocks (appendf fl i p) \<le> 1953"
  shows "\<exists>s'. iappend (of_nat (Suc i)) p s = Ok () s' \<and> built s' (appendf fl i p)"
proof -
  let ?n = "of_nat (Suc i) :: 32 word" and ?ip = "nth_inode (final s) i" and ?bs = "snd (fl ! i)"
  have b: "blank_from s" and h: "holds (final s) fl" and fb: "unat (freeblock s) = 47 + nblocks fl" using assms(1) by (simp_all add: built_def)
  note f = holdsD(1) [OF h assms(2)] and i = holdsD(3) [OF h assms(2)]
  have ok: "file_ok (final s) mkfs_sb ?ip" and sh: "shape (final s) ?ip (nblk (length ?bs))" using f by (simp_all only: file_at_def)
  obtain ip' s1 where r: "iappend_from (length ?bs) ?ip p s = Ok (length ?bs + length p, ip') s1" and a: "append_result (length ?bs) p ?ip s ip' s1"
    using iappend_from_spec [OF b ok sh assms(3)] assms(4) nblocks_update [OF assms(2)] fb by auto
  have a: "blank_from s1" "grown mkfs_sb (final s) ?ip (final s1) ip'" "shape (final s1) ip' (nblk (length ?bs + length p))" "freeinode s1 = freeinode s"
    "\<And>j. j < MAXFILE * BSIZE \<Longrightarrow> zbyte (final s1) ip' j = (if length ?bs \<le> j \<and> j < length ?bs + length p then p ! (j - length ?bs) else zbyte (final s) ?ip j)"
    "unat (freeblock s1) = unat (freeblock s) + (blocks_of (nblk (length ?bs + length p)) - blocks_of (nblk (length ?bs)))"
    using a by (simp_all only: append_result_def)
  note g = grownD [OF a(2)] and k = superblock_kept [OF b f a(2)]
  define ip2 where "ip2 = ip'\<lparr>i_size := of_nat (length ?bs + length p)\<rparr>"
  note F = file_at_appended [OF f a(3) g(2,3) assms(3) k(2) a(5), folded ip2_def]
  have l: "length (i_addrs ip2) = NDIRECT + 1" using file_okD(1) [OF g(2)] by (simp add: ip2_def)
  note n = inum_small(1) [OF i]
  define s2 where "s2 = winode ?n ip2 s1"
  note W = winode_effect [OF a(1) n l, folded s2_def]
  obtain x where x: "length x = BSIZE" "final s2 = (final s1)(IBLOCK ?n mkfs_sb := x)" using W(1) by blast
  have "ip2 = bss_inode\<lparr>i_type := fst (fl ! i), i_nlink := 1, i_size := of_nat (length (?bs @ p)), i_addrs := i_addrs ip2\<rparr>" using F(1) by (simp only: file_at_def)
  then have "bss_inode\<lparr>i_type := i_type ip2, i_major := i_major ip2, i_minor := i_minor ip2, i_nlink := i_nlink ip2, i_size := i_size ip2, i_addrs := i_addrs ip2\<rparr> = ip2"
    by (metis inode_reread)
  then have d: "nth_inode (final s2) i = ip2" using W(5) by simp
  have e: "nth_inode (final s2) j = nth_inode (final s) j" if "j < 199" "j \<noteq> i" for j
    using W(6) [of "of_nat (Suc j)"] inum_small(1) [OF that(1)] inum_small(2) [OF that(1) i] that(2) g(8) by (simp add: disk_inode_def mkfs_numbers del: of_nat_Suc)
  have "holds (final s2) (appendf fl i p)" by (rule holds_update [OF h g(1) assms(2) a(2) x(2,1) F d e])
  moreover have "img s2 1 = img s 1" using k(1) IBLOCK_mkfs [OF n] by (auto simp: s2_def winode_def wsect_def Let_def)
  ultimately have "built s2 (appendf fl i p)" using W(2-4) a(4,6) fb nblocks_update [OF assms(2)] assms(1) by (simp add: built_def)
  moreover have "iappend ?n p s = Ok () s2" using r file_at_size(1) [OF f] by (simp add: iappend_def rinode_final [OF n] Let_def s2_def ip2_def del: of_nat_Suc)
  ultimately show ?thesis by blast
qed

lemma ialloc_spec:
  assumes "built s fl" "length fl < 199"
  shows "\<exists>s'. mkfs_ialloc ty s = (of_nat (Suc (length fl)), s') \<and> built s' (fl @ [(ty, [])])"
proof -
  let ?n = "of_nat (Suc (length fl)) :: 32 word" and ?ip = "bss_inode\<lparr>i_type := ty, i_nlink := 1, i_size := 0\<rparr>" and ?s = "s\<lparr>freeinode := freeinode s + 1\<rparr>"
  have b: "blank_from ?s" "final ?s = final s" using assms(1) by (simp_all add: built_def blank_from_def final_def)
  have h: "holds (final s) fl" and fi: "freeinode s = ?n" using assms(1) by (simp_all only: built_def)
  note n = inum_small(1) [OF assms(2)] and i = holdsD(3) [OF h]
  define s2 where "s2 = winode ?n ?ip ?s"
  have l: "length (i_addrs ?ip) = NDIRECT + 1" by (simp add: bss_inode_def)
  note W = winode_effect [OF b(1) n l, folded s2_def]
  obtain x where x: "length x = BSIZE" "final s2 = (final s)(IBLOCK ?n mkfs_sb := x)" using W(1) b(2) by auto
  have d: "nth_inode (final s2) (length fl) = ?ip" using W(5) by (simp add: bss_inode_def)
  have e: "nth_inode (final s2) j = nth_inode (final s) j" if "j < length fl" for j
    using W(6) [of "of_nat (Suc j)"] inum_small(1) [OF i [OF that]] inum_small(2) [OF i [OF that] assms(2)] that b(2) by (simp del: of_nat_Suc)
  have fs: "fs_ok (final s) mkfs_sb" using assms(1) by (simp add: built_def final_fs_ok)
  note I = file_at_inode_block [OF holdsD(1) [OF h] fs n x(1), folded x(2)]
  have "holds (final s2) (fl @ [(ty, [])])"
    using I e d h assms(2) file_at_fresh [of "final s2" ty] by (auto simp: holds_def nth_append less_Suc_eq apart_files_def simp del: of_nat_Suc)
  moreover have "img s2 1 = img s 1" using IBLOCK_mkfs [OF n] by (auto simp: s2_def winode_def wsect_def Let_def)
  moreover have "nblocks (fl @ [(ty, [])]) = nblocks fl" by (simp add: nblocks_def nblk_def blocks_of_def BSIZE_def)
  moreover have "freeinode s2 = of_nat (Suc (length (fl @ [(ty, [])])))" using W(4) fi by simp
  ultimately have "built s2 (fl @ [(ty, [])])" using W(2,3) assms(1) unfolding built_def by simp
  then show ?thesis using fi by (simp add: mkfs_ialloc_def s2_def Let_def del: of_nat_Suc)
qed

section \<open>The files of the command line\<close>

text \<open>What the image should hold: the root directory, and the files in the order of the command line.\<close>

definition root_entries :: "byte list list \<Rightarrow> (byte list \<times> 32 word) list" where
  "root_entries args = ([46], 1) # ([46, 46], 1) # zip (map file_name args) (map (\<lambda>k. of_nat (2 + k)) [0..<length args])"

definition dir_bytes :: "(byte list \<times> 32 word) list \<Rightarrow> byte list" where
  "dir_bytes es = concat (map (\<lambda>(name, inum). new_entry name inum) es)"

definition contents :: "(byte list \<Rightarrow> byte list list option) \<Rightarrow> byte list \<Rightarrow> byte list" where
  "contents host arg = concat (the (host arg))"

definition image_files :: "(byte list \<Rightarrow> byte list list option) \<Rightarrow> byte list list \<Rightarrow> files" where
  "image_files host args = (T_DIR, dir_bytes (root_entries args)) # map (\<lambda>a. (T_FILE, contents host a)) args"

lemma nblocks_mono: "i < length fl \<Longrightarrow> nblocks (appendf fl i p) \<le> nblocks (appendf fl i (p @ q))"
  by (simp add: nblocks_update diff_le_mono blocks_of_mono nblk_mono)

lemma chunks_spec:
  assumes "built s fl" "i < length fl" "length (snd (fl ! i)) + length (concat cs) \<le> MAXFILE * BSIZE" "nblocks (appendf fl i (concat cs)) \<le> 1953"
  shows "\<exists>s'. forM cs (iappend (of_nat (Suc i))) s = Ok () s' \<and> built s' (appendf fl i (concat cs))"
  using assms
proof (induction cs arbitrary: s fl)
  case (Cons c cs)
  have "nblocks (appendf fl i c) \<le> 1953" using nblocks_mono [OF Cons.prems(2), of c "concat cs"] Cons.prems(4) by simp
  then obtain s1 where s1: "iappend (of_nat (Suc i)) c s = Ok () s1" "built s1 (appendf fl i c)"
    using iappend_spec [OF Cons.prems(1,2), of c] Cons.prems(3) by auto
  then show ?case using Cons.IH [OF s1(2)] Cons.prems(2-4) by (simp del: of_nat_Suc)
qed simp

lemma length_dir_bytes: "length (dir_bytes es) = 16 * length es"
  by (induction es) (auto simp: dir_bytes_def new_entry_fields DIRENT_def)

lemma length_root_entries: "length (root_entries args) = 2 + length args"
  by (simp add: root_entries_def)

lemma root_entries_snoc: "root_entries (args @ [a]) = root_entries args @ [(file_name a, of_nat (2 + length args))]"
  by (simp add: root_entries_def)

lemma image_snoc:
  "image_files host (args @ [a]) =
     appendf (image_files host args) 0 (new_entry (file_name a) (of_nat (2 + length args))) @ [(T_FILE, contents host a)]"
  by (simp add: image_files_def root_entries_snoc dir_bytes_def)

lemma nblocks_append: "nblocks (fl @ gl) = nblocks fl + nblocks gl"
  by (simp add: nblocks_def)

lemma nblocks_image_mono: "nblocks (image_files host as) \<le> nblocks (image_files host (as @ bs))"
proof (induction bs arbitrary: as)
  case (Cons b bs)
  have "nblocks (image_files host as) \<le> nblocks (appendf (image_files host as) 0 p)" for p
    using nblocks_mono [of 0 "image_files host as" "[]" p] by (simp add: image_files_def)
  then have "nblocks (image_files host as) \<le> nblocks (image_files host (as @ [b]))" unfolding image_snoc nblocks_append by (metis trans_le_add1)
  then show ?case using Cons.IH [of "as @ [b]"] by simp
qed simp

text \<open>What the program asks of an argument, and the room it needs.\<close>

definition good_arg :: "(byte list \<Rightarrow> byte list list option) \<Rightarrow> byte list \<Rightarrow> bool" where
  "good_arg host a \<longleftrightarrow> host a \<noteq> None \<and> slash \<notin> set (short_name a) \<and> length (file_name a) \<le> DIRSIZ \<and> length (contents host a) \<le> MAXFILE * BSIZE"

lemma mkfs_file_spec:
  assumes "built s (image_files host args)" "good_arg host a" "length args < 198" "nblocks (image_files host (args @ [a])) \<le> 1953"
  shows "\<exists>s'. mkfs_file host a s = Ok () s' \<and> built s' (image_files host (args @ [a]))"
proof -
  let ?fl = "image_files host args" and ?n = "of_nat (2 + length args) :: 32 word"
  let ?e = "new_entry (file_name a) ?n"
  let ?f1 = "?fl @ [(T_FILE, [])]"
  have l: "length ?fl = Suc (length args)" by (simp add: image_files_def)
  obtain s1 where s1: "mkfs_ialloc T_FILE s = (?n, s1)" "built s1 ?f1" using ialloc_spec [OF assms(1), of T_FILE] assms(3) l by auto
  have f2: "appendf ?f1 0 ?e = appendf ?fl 0 ?e @ [(T_FILE, [])]" by (simp add: image_files_def)
  have f3: "appendf (appendf ?f1 0 ?e) (length ?fl) (contents host a) = image_files host (args @ [a])"
    unfolding f2 image_snoc by (simp add: image_files_def nth_append list_update_append)
  have t3: "nblocks (appendf (appendf ?f1 0 ?e) (length ?fl) (contents host a)) \<le> 1953" using assms(4) f3 by simp
  have t2: "nblocks (appendf ?f1 0 ?e) \<le> 1953"
    using t3 nblocks_mono [of "length ?fl" "appendf ?f1 0 ?e" "[]" "contents host a"] f2 by (simp add: image_files_def nblocks_append)
  have z: "length (snd (?f1 ! 0)) + length ?e \<le> MAXFILE * BSIZE"
    using assms(3) by (simp add: image_files_def length_dir_bytes length_root_entries new_entry_fields DIRENT_def NDM BSIZE_def)
  obtain s2 where s2: "iappend ROOTINO ?e s1 = Ok () s2" "built s2 (appendf ?f1 0 ?e)"
    using iappend_spec [OF s1(2) _ z t2] by (auto simp: ROOTINO_def)
  have cs: "contents host a = concat (the (host a))" by (simp add: contents_def)
  have "length (snd (appendf ?f1 0 ?e ! length ?fl)) + length (concat (the (host a))) \<le> MAXFILE * BSIZE"
    using assms(2) unfolding f2 by (simp add: good_arg_def contents_def nth_append)
  then obtain s3 where s3: "forM (the (host a)) (iappend ?n) s2 = Ok () s3" "built s3 (image_files host (args @ [a]))"
    using chunks_spec [OF s2(2), of "length ?fl" "the (host a)"] t3 f3 unfolding cs l by (auto simp: l simp del: of_nat_Suc)
  have "mkfs_file host a s = Ok () s3" using assms(2) s1(1) s2(1) s3(1) by (auto simp: mkfs_file_def good_arg_def)
  then show ?thesis using s3(2) by blast
qed

lemma mkfs_files_spec:
  assumes "built s (image_files host ps)" "\<forall>a \<in> set args. good_arg host a" "length ps + length args < 199" "nblocks (image_files host (ps @ args)) \<le> 1953"
  shows "\<exists>s'. forM args (mkfs_file host) s = Ok () s' \<and> built s' (image_files host (ps @ args))"
  using assms
proof (induction args arbitrary: s ps)
  case (Cons a args)
  have "nblocks (image_files host (ps @ [a])) \<le> 1953" using nblocks_image_mono [of host "ps @ [a]" args] Cons.prems(4) by simp
  then obtain s1 where "mkfs_file host a s = Ok () s1" "built s1 (image_files host (ps @ [a]))"
    using mkfs_file_spec [OF Cons.prems(1), of a] Cons.prems(2,3) by auto
  then show ?case using Cons.IH [of s1 "ps @ [a]"] Cons.prems(2-4) by simp
qed simp

section \<open>The root directory\<close>

lemma find_map: "find P (map f xs) = map_option f (find (P \<circ> f) xs)"
  by (induction xs) auto

lemma dir_map_Cons:
  assumes "length e = DIRENT"
  shows "dir_map (e @ bs) name = (if de_inum e \<noteq> 0 \<and> dname (de_name e) = dname name then Some (de_inum e) else dir_map bs name)"
proof -
  have n: "ndents (e @ bs) = Suc (ndents bs)" using assms by (simp add: ndents_def DIRENT_def)
  have d: "dent (e @ bs) 0 = e" "dent (e @ bs) (Suc k) = dent bs k" for k using assms by (simp_all add: dent_def sub_def)
  have "dir_match (e @ bs) name \<circ> Suc = dir_match bs name" by (simp add: fun_eq_iff dir_match_def d)
  moreover have "[0..<Suc (ndents bs)] = 0 # map Suc [0..<ndents bs]" by (simp add: upt_conv_Cons map_Suc_upt del: upt_Suc)
  ultimately have "dir_find (e @ bs) name = (if dir_match (e @ bs) name 0 then Some 0 else map_option Suc (dir_find bs name))"
    by (simp add: dir_find_def n find_map)
  then show ?thesis by (cases "dir_find bs name") (simp_all add: dir_map_def dir_match_def d)
qed

lemma dir_map_zero: "dir_map (replicate (16 * m) 0) name = None"
proof (induction m)
  case (Suc m)
  have "replicate (16 * Suc m) (0 :: byte) = replicate 16 0 @ replicate (16 * m) 0" by (simp only: replicate_add [symmetric]) simp
  moreover have "de_inum (replicate 16 0) = 0" by (simp add: de_inum_def get16_def sub_def numeral_eq_Suc)
  ultimately show ?case using Suc by (simp only: dir_map_Cons DIRENT_def length_replicate) simp
qed (simp add: dir_map_def dir_find_def ndents_def)

lemma dir_map_entries:
  assumes "\<forall>(n, i) \<in> set es. (ucast i :: 16 word) \<noteq> 0"
  shows "dir_map (dir_bytes es @ replicate (16 * m) 0) name = map_of (map (\<lambda>(n, i). (dname n, ucast i)) es) (dname name)"
  using assms
proof (induction es)
  case (Cons e es)
  then show ?case by (cases e) (auto simp: dir_bytes_def dir_map_Cons new_entry_fields)
qed (simp add: dir_bytes_def dir_map_zero)

lemma root_map:
  assumes "length args < 199"
  shows "dir_map (dir_bytes (root_entries args) @ replicate (16 * m) 0) name = map_of (map (\<lambda>(n, i). (dname n, ucast i)) (root_entries args)) (dname name)"
proof (rule dir_map_entries)
  have u: "unat (ucast w :: 16 word) = unat w" if "unat w < 300" for w :: "32 word" using that by (simp add: unsigned_ucast_eq take_bit_eq_mod)
  have "(ucast (of_nat (2 + k) :: 32 word) :: 16 word) \<noteq> 0" if "k < 199" for k
  proof -
    have e: "unat (of_nat (2 + k) :: 32 word) = 2 + k" by (rule unat_of_nat32) (use that in simp)
    have "unat (of_nat (2 + k) :: 32 word) < 300" unfolding e using that by simp
    from u [OF this] have "unat (ucast (of_nat (2 + k) :: 32 word) :: 16 word) = 2 + k" unfolding e .
    then show ?thesis by (intro notI) (simp only: unat_0 add_is_0 zero_neq_numeral numeral_neq_zero simp_thms)
  qed
  then show "\<forall>(n, i) \<in> set (root_entries args). (ucast i :: 16 word) \<noteq> 0"
    using assms by (auto simp: root_entries_def set_zip)
qed

text \<open>The size of the root directory is rounded up in its last block.\<close>

lemma file_at_padded:
  assumes f: "file_at V ip ty bs" and sz: "nblk (length bs + k) = nblk (length bs)" "length bs + k \<le> MAXFILE * BSIZE"
  defines "ip2 \<equiv> ip\<lparr>i_size := of_nat (length bs + k)\<rparr>"
  shows "file_at V ip2 ty (bs @ replicate k 0)" "fowns V ip2 = fowns V ip"
proof -
  let ?p = "replicate k (0 :: byte)"
  have z: "zbyte V ip j = (if length bs \<le> j \<and> j < length bs + length ?p then ?p ! (j - length bs) else zbyte V ip j)" if "j < MAXFILE * BSIZE" for j
    using f that by (auto simp: file_at_def)
  have g: "shape V ip (nblk (length bs + length ?p))" "file_ok V mkfs_sb ip" "ip = ip\<lparr>i_addrs := i_addrs ip\<rparr>" "length bs + length ?p \<le> MAXFILE * BSIZE"
    "1 \<notin> fowns V ip" using f sz by (simp_all add: file_at_def)
  note A = file_at_appended [OF f g z]
  have e: "ip2 = ip\<lparr>i_size := of_nat (length bs + length ?p)\<rparr>" by (simp add: ip2_def)
  show "file_at V ip2 ty (bs @ ?p)" unfolding e by (rule A(1))
  show "fowns V ip2 = fowns V ip" unfolding e by (rule A(2))
qed

section \<open>The image\<close>

lemma get_sb_bytes: "get_sb (patch (replicate BSIZE 0) 0 (sb_bytes q)) = q"
  by (simp add: get_sb_def get32_def sub_def patch_def sb_bytes_def le_word_word_le BSIZE_def)

lemma built_empty: "built (wsect 1 (patch (replicate BSIZE 0) 0 (sb_bytes mkfs_sb)) \<lparr>img = \<lambda>_. replicate BSIZE 0, freeinode = 1, freeblock = of_nat nmeta\<rparr>) []"
proof -
  have "length (patch (replicate BSIZE 0) 0 (sb_bytes mkfs_sb)) = BSIZE" by (simp add: length_patch sb_bytes_def BSIZE_def)
  then show ?thesis by (auto simp: built_def blank_from_def holds_def nblocks_def mkfs_numbers wsect_def word_le_nat_alt)
qed

lemma balloc_final: "blank_from s \<Longrightarrow> \<exists>s'. mkfs_balloc (unat (freeblock s)) s = Ok () s' \<and> img s' = final s"
  by (auto simp: mkfs_balloc_def blank_from_def wsect_def final_def bits_def mark_def mkfs_numbers BPB_def BSIZE_def)

lemma root_rounding:
  assumes "n < 201" "n mod 64 \<noteq> 0"
  shows "\<exists>m. (16 * n div BSIZE + 1) * BSIZE = 16 * n + 16 * m \<and> nblk (16 * n + 16 * m) = nblk (16 * n) \<and> 16 * n + 16 * m \<le> MAXFILE * BSIZE"
proof -
  define q where "q = n div 64"
  have "n = 64 * q + n mod 64" "n mod 64 < 64" by (simp_all add: q_def)
  then have n: "64 * q < n" "n < 64 * q + 64" "q < 4" using assms by linarith+
  obtain m where "64 * Suc q = n + m" using n(2) by (metis add.commute le_Suc_ex less_imp_le_nat mult_Suc_right)
  then have m: "16 * n + 16 * m = 1024 * Suc q" by simp
  have "16 * n div 1024 = q" "(16 * n + 1023) div 1024 = Suc q" "(1024 * Suc q + 1023) div 1024 = Suc q"
    using n by (intro div_nat_eqI; simp)+
  then have "(16 * n div BSIZE + 1) * BSIZE = 16 * n + 16 * m" "nblk (16 * n + 16 * m) = nblk (16 * n)" "16 * n + 16 * m \<le> MAXFILE * BSIZE"
    unfolding m using n(3) by (simp_all only: BSIZE_def nblk_def NDM) simp_all
  then show ?thesis by blast
qed

lemma built_root:
  "\<exists>s. mkfs_ialloc T_DIR (wsect 1 (patch (replicate BSIZE 0) 0 (sb_bytes mkfs_sb)) \<lparr>img = \<lambda>_. replicate BSIZE 0, freeinode = 1, freeblock = of_nat nmeta\<rparr>) = (ROOTINO, s) \<and>
    (\<exists>t. iappend ROOTINO (new_entry [46] ROOTINO) s = Ok () t \<and> (\<exists>u. iappend ROOTINO (new_entry [46, 46] ROOTINO) t = Ok () u \<and> built u (image_files host [])))"
proof -
  let ?e = "new_entry [46] 1" and ?f = "new_entry [46, 46] 1"
  have b: "nblocks [(T_DIR, bs)] \<le> 1953 \<and> length bs \<le> MAXFILE * BSIZE" if "length bs \<le> 32" for bs :: "byte list"
    using that nblk_mono [OF that] by (simp add: nblocks_def blocks_of_def nblk_def BSIZE_def NDIRECT_def NDM)
  have l: "length ?e = 16" "length ?f = 16" by (simp_all add: new_entry_fields DIRENT_def)
  obtain s where s: "mkfs_ialloc T_DIR (wsect 1 (patch (replicate BSIZE 0) 0 (sb_bytes mkfs_sb)) \<lparr>img = \<lambda>_. replicate BSIZE 0, freeinode = 1, freeblock = of_nat nmeta\<rparr>) = (1, s)"
      "built s [(T_DIR, [])]" using ialloc_spec [OF built_empty, of T_DIR] by auto
  obtain t where t: "iappend 1 ?e s = Ok () t" "built t [(T_DIR, ?e)]" using iappend_spec [OF s(2), of 0 ?e] b [of ?e] l by auto
  obtain u where "iappend 1 ?f t = Ok () u" "built u [(T_DIR, ?e @ ?f)]" using iappend_spec [OF t(2), of 0 ?f] b [of "?e @ ?f"] l by auto
  then show ?thesis using s(1) t(1) by (simp add: ROOTINO_def image_files_def root_entries_def dir_bytes_def)
qed

lemma round_size:
  assumes "built s fl" "0 < length fl" "nblk (length (snd (fl ! 0)) + k) = nblk (length (snd (fl ! 0)))" "length (snd (fl ! 0)) + k \<le> MAXFILE * BSIZE"
  shows "built (winode ROOTINO ((rinode ROOTINO s)\<lparr>i_size := of_nat (length (snd (fl ! 0)) + k)\<rparr>) s) (appendf fl 0 (replicate k 0))"
    "unat (i_size (rinode ROOTINO s)) = length (snd (fl ! 0))"
proof -
  let ?bs = "snd (fl ! 0)" and ?ip = "nth_inode (final s) 0"
  have b: "blank_from s" and h: "holds (final s) fl" using assms(1) by (simp_all add: built_def)
  note f = holdsD(1) [OF h assms(2)]
  have r: "rinode ROOTINO s = ?ip" by (simp add: rinode_final ROOTINO_def)
  show "unat (i_size (rinode ROOTINO s)) = length ?bs" unfolding r by (rule file_at_size(1) [OF f])
  define ip2 where "ip2 = ?ip\<lparr>i_size := of_nat (length ?bs + k)\<rparr>"
  note P = file_at_padded [OF f assms(3,4), folded ip2_def]
  have l: "length (i_addrs ip2) = NDIRECT + 1" using f by (simp add: file_at_def file_ok_def ip2_def)
  have n: "(of_nat (Suc 0) :: 32 word) < 200" by simp
  define s2 where "s2 = winode (of_nat (Suc 0)) ip2 s"
  note W = winode_effect [OF b n l, folded s2_def]
  obtain x where x: "length x = BSIZE" "final s2 = (final s)(IBLOCK (of_nat (Suc 0)) mkfs_sb := x)" using W(1) by blast
  have "ip2 = bss_inode\<lparr>i_type := fst (fl ! 0), i_nlink := 1, i_size := of_nat (length (?bs @ replicate k 0)), i_addrs := i_addrs ip2\<rparr>"
    using P(1) by (simp only: file_at_def)
  from inode_reread [OF this] have d: "nth_inode (final s2) 0 = ip2" using W(5) by simp
  have e: "nth_inode (final s2) j = nth_inode (final s) j" if "j < 199" "j \<noteq> 0" for j
    using W(6) [of "of_nat (Suc j)"] inum_small(1) [OF that(1)] inum_small(2) [OF that(1), of 0] that(2) by (simp del: of_nat_Suc)
  have g: "grown mkfs_sb (final s) ?ip (final s) ?ip" using f by (intro grown_refl final_fs_ok b) (simp add: file_at_def)
  have "holds (final s2) (appendf fl 0 (replicate k 0))"
    by (rule holds_update [OF h final_fs_ok [OF b] assms(2) g x(2,1) P d e])
  moreover have "img s2 1 = img s 1" using IBLOCK_mkfs [OF n] by (auto simp: s2_def winode_def wsect_def Let_def)
  moreover have "nblocks (appendf fl 0 (replicate k 0)) = nblocks fl" using nblocks_update [OF assms(2), of "replicate k 0"] assms(3) by simp
  ultimately have "built s2 (appendf fl 0 (replicate k 0))" using W(2-4) assms(1) by (simp add: built_def)
  then show "built (winode ROOTINO ((rinode ROOTINO s)\<lparr>i_size := of_nat (length ?bs + k)\<rparr>) s) (appendf fl 0 (replicate k 0))"
    unfolding r by (simp add: s2_def ip2_def ROOTINO_def)
qed

lemma mkfs_main_built:
  assumes "\<forall>a \<in> set args. good_arg host a" "length args < 199" "(length args + 2) mod 64 \<noteq> 0" "nblocks (image_files host args) \<le> 1953"
  shows "\<exists>s t m. mkfs_main host args = Ok () t \<and> img t = final s \<and> built s (appendf (image_files host args) 0 (replicate (16 * m) 0)) \<and>
    nblocks (appendf (image_files host args) 0 (replicate (16 * m) 0)) = nblocks (image_files host args)"
proof -
  let ?fl = "image_files host args"
  obtain s1 s2 s3 where s: "mkfs_ialloc T_DIR (wsect 1 (patch (replicate BSIZE 0) 0 (sb_bytes mkfs_sb)) \<lparr>img = \<lambda>_. replicate BSIZE 0, freeinode = 1, freeblock = of_nat nmeta\<rparr>) = (ROOTINO, s1)"
      "iappend ROOTINO (new_entry [46] ROOTINO) s1 = Ok () s2" "iappend ROOTINO (new_entry [46, 46] ROOTINO) s2 = Ok () s3" "built s3 (image_files host [])"
    using built_root [of host] by blast
  obtain s4 where s4: "forM args (mkfs_file host) s3 = Ok () s4" "built s4 ?fl" using mkfs_files_spec [OF s(4) assms(1)] assms(2,4) by auto
  have l: "length (snd (?fl ! 0)) = 16 * (2 + length args)" "0 < length ?fl" by (simp_all add: image_files_def length_dir_bytes length_root_entries)
  obtain m where m: "(16 * (2 + length args) div BSIZE + 1) * BSIZE = 16 * (2 + length args) + 16 * m"
      "nblk (16 * (2 + length args) + 16 * m) = nblk (16 * (2 + length args))" "16 * (2 + length args) + 16 * m \<le> MAXFILE * BSIZE"
    using root_rounding [of "2 + length args"] assms(2,3) by (auto simp: add.commute)
  note R = round_size [OF s4(2) l(2), unfolded l(1), OF m(2,3)]
  define s5 where "s5 = winode ROOTINO ((rinode ROOTINO s4)\<lparr>i_size := of_nat (16 * (2 + length args) + 16 * m)\<rparr>) s4"
  have b: "built s5 (appendf ?fl 0 (replicate (16 * m) 0))" unfolding s5_def by (rule R(1))
  obtain t where t: "mkfs_balloc (unat (freeblock s5)) s5 = Ok () t" "img t = final s5" using balloc_final [of s5] b by (auto simp: built_def)
  have "mkfs_main host args = Ok () t"
    unfolding mkfs_main_def Let_def s(1) using s(2,3) s4(1) t(1) R(2) m(1) by (simp add: s5_def del: of_nat_add of_nat_mult)
  moreover have "nblocks (appendf ?fl 0 (replicate (16 * m) 0)) = nblocks ?fl" using nblocks_update [OF l(2), of "replicate (16 * m) 0"] m(2) l(1) by simp
  ultimately show ?thesis using b t(2) by blast
qed

text \<open>
  C9. If every file can be opened, has a name of at most 14 bytes without a slash and fits a file, there are at most 198 of
  them, they fit the disk, and the root directory does not fill its last block exactly, then mkfs ends and the image is a
  file system as the kernel reads it. The superblock is the one the layout says; the bitmap marks the blocks in use, which
  are the metadata and the blocks of the files; the root is a directory that maps ``.'', ``..'' and the names to the inode
  numbers; inode \<open>k + 2\<close> is a regular file with the contents of argument \<open>k\<close>; and no block is in two files.
\<close>

theorem mkfs_image:
  assumes "\<forall>a \<in> set args. good_arg host a" "length args < 199" "(length args + 2) mod 64 \<noteq> 0"
    "nblocks (image_files host args) \<le> FSSIZE - nmeta"
  shows "\<exists>t V. mkfs_main host args = Ok () t \<and> V = img t \<and> get_sb (V 1) = mkfs_sb \<and> fs_ok V mkfs_sb \<and>
    (\<forall>b < of_nat FSSIZE. used V mkfs_sb b \<longleftrightarrow> unat b < nmeta + nblocks (image_files host args)) \<and>
    (\<forall>k \<le> length args. let ip = nth_inode V k in file_ok V mkfs_sb ip \<and> has_bytes V ip (unat (i_size ip)) \<and> i_nlink ip = 1 \<and>
      (\<forall>j \<le> length args. j \<noteq> k \<longrightarrow> apart_files V ip (nth_inode V j))) \<and>
    i_type (disk_inode V ROOTINO) = T_DIR \<and>
    (\<forall>name. dir_map (file_bytes V (disk_inode V ROOTINO)) name = map_of (map (\<lambda>(n, i). (dname n, ucast i)) (root_entries args)) (dname name)) \<and>
    (\<forall>k < length args. let ip = nth_inode V (Suc k) in i_type ip = T_FILE \<and> file_bytes V ip = contents host (args ! k))"
proof -
  let ?fl = "image_files host args"
  have fit: "nblocks ?fl \<le> 1953" using assms(4) by (simp add: mkfs_numbers FSSIZE_def)
  obtain s t m where mt: "mkfs_main host args = Ok () t" and i: "img t = final s" and bu: "built s (appendf ?fl 0 (replicate (16 * m) 0))"
      and nb: "nblocks (appendf ?fl 0 (replicate (16 * m) 0)) = nblocks ?fl" using mkfs_main_built [OF assms(1-3) fit] by blast
  let ?gl = "appendf ?fl 0 (replicate (16 * m) 0)"
  let ?V = "final s"
  have b: "blank_from s" and h: "holds ?V ?gl" and sb: "get_sb (?V 1) = mkfs_sb" and fr: "unat (freeblock s) = 47 + nblocks ?fl"
    using bu nb get_sb_bytes by (simp_all add: built_def) (simp add: final_def)
  have l: "length ?gl = Suc (length args)" by (simp add: image_files_def)
  have g0: "?gl ! 0 = (T_DIR, dir_bytes (root_entries args) @ replicate (16 * m) 0)" by (simp add: image_files_def)
  have gS: "?gl ! Suc k = (T_FILE, contents host (args ! k))" if "k < length args" for k using that by (simp add: image_files_def)
  have F: "file_at ?V (nth_inode ?V k) (fst (?gl ! k)) (snd (?gl ! k))" if "k \<le> length args" for k using holdsD(1) [OF h] l that by simp
  have ok: "let ip = nth_inode ?V k in file_ok ?V mkfs_sb ip \<and> has_bytes ?V ip (unat (i_size ip)) \<and> i_nlink ip = 1 \<and>
      (\<forall>j \<le> length args. j \<noteq> k \<longrightarrow> apart_files ?V ip (nth_inode ?V j))" if k: "k \<le> length args" for k
  proof -
    have "file_ok ?V mkfs_sb (nth_inode ?V k)" using F [OF k] by (simp only: file_at_def)
    moreover have "has_bytes ?V (nth_inode ?V k) (unat (i_size (nth_inode ?V k)))" unfolding file_at_size(1) [OF F [OF k]] by (rule file_at_bytes(1) [OF F [OF k]])
    moreover have "apart_files ?V (nth_inode ?V k) (nth_inode ?V j)" if "j \<le> length args" "j \<noteq> k" for j using holdsD(2) [OF h] l k that by simp
    ultimately show ?thesis using file_at_size(3) [OF F [OF k]] by (simp add: Let_def del: of_nat_Suc)
  qed
  have root: "i_type (disk_inode ?V ROOTINO) = T_DIR" "file_bytes ?V (disk_inode ?V ROOTINO) = dir_bytes (root_entries args) @ replicate (16 * m) 0"
    using file_at_size(2) [OF F [of 0]] file_at_bytes(2) [OF F [of 0]] unfolding g0 by (simp_all add: ROOTINO_def)
  have files: "let ip = nth_inode ?V (Suc k) in i_type ip = T_FILE \<and> file_bytes ?V ip = contents host (args ! k)" if "k < length args" for k
    using file_at_size(2) [OF F [of "Suc k"]] file_at_bytes(2) [OF F [of "Suc k"]] gS [OF that] that by (simp add: Let_def del: of_nat_Suc)
  have us: "used ?V mkfs_sb c \<longleftrightarrow> unat c < nmeta + nblocks ?fl" if "c < of_nat FSSIZE" for c
    using used_final [OF b, of c] that fr by (simp add: FSSIZE_def mkfs_numbers word_less_nat_alt)
  show ?thesis
    by (intro exI [of _ t] exI [of _ ?V] conjI allI impI mt i [symmetric] sb final_fs_ok [OF b] us ok files root(1); assumption?)
      (unfold root(2), rule root_map [OF assms(2)])
qed

theorem mkfs_image_witness:
  "\<exists>t V. mkfs_main (\<lambda>_. Some [[104, 105]]) [chars ''user/_a''] = Ok () t \<and> V = img t \<and> i_type (disk_inode V ROOTINO) = T_DIR \<and>
    dir_map (file_bytes V (disk_inode V ROOTINO)) (chars ''a'') = Some 2 \<and> file_bytes V (disk_inode V 2) = [104, 105]"
proof -
  let ?a = "chars ''user/_a''" and ?host = "\<lambda>_ :: byte list. Some [[104, 105]] :: byte list list option"
  have n: "short_name ?a = [95, 97]" "file_name ?a = [97]" by (simp_all add: chars_def short_name_def file_name_def)
  have c: "contents ?host ?a = [104, 105]" by (simp add: contents_def)
  have g: "\<forall>a \<in> set [?a]. good_arg ?host a" using n c by (simp add: good_arg_def DIRSIZ_def NDM BSIZE_def)
  have "nblocks (image_files ?host [?a]) \<le> FSSIZE - nmeta"
    by (simp add: nblocks_def image_files_def length_dir_bytes length_root_entries c nblk_def blocks_of_def BSIZE_def NDIRECT_def FSSIZE_def mkfs_numbers)
  then obtain t V where t: "mkfs_main ?host [?a] = Ok () t" "V = img t" "i_type (disk_inode V ROOTINO) = T_DIR"
      "\<forall>name. dir_map (file_bytes V (disk_inode V ROOTINO)) name = map_of (map (\<lambda>(n, i). (dname n, ucast i)) (root_entries [?a])) (dname name)"
      "\<forall>k < 1. let ip = nth_inode V (Suc k) in i_type ip = T_FILE \<and> file_bytes V ip = contents ?host ([?a] ! k)"
    using mkfs_image [of "[?a]" ?host, OF g] by auto
  have r: "root_entries [?a] = [([46], 1), ([46, 46], 1), ([97], 2)]" using n(2) by (simp add: root_entries_def)
  have "dir_map (file_bytes V (disk_inode V ROOTINO)) (chars ''a'') = Some 2" unfolding t(4) [rule_format] r
    by (simp add: chars_def dname_def cstr_def DIRSIZ_def)
  moreover have "file_bytes V (disk_inode V 2) = [104, 105]" using t(5) c by (simp add: Let_def)
  ultimately show ?thesis using t(1-3) by blast
qed

end
