(* ===== verification/Umalloc.thy ===== *)
theory Umalloc
  imports Ulib
begin

text \<open>
  The memory allocator of user programs, user/umalloc.c: a circular list of free blocks in the order of their
  addresses. Shown: allocated blocks never overlap, freeing merges with both neighbours so that no two free blocks
  touch, and both loops end.
\<close>

section \<open>The allocator\<close>

text \<open>The headers are a store from addresses to their two fields; a header has 16 bytes, the unit of the sizes. The end
  of the memory of the process is part of the state.\<close>

record uheap =
  h_ptr :: "nat \<Rightarrow> nat"
  h_size :: "nat \<Rightarrow> 32 word"
  freep :: nat
  brk :: nat

text \<open>The address \<open>p + p->s.size\<close> behind a block.\<close>

definition hend :: "uheap \<Rightarrow> nat \<Rightarrow> nat" where
  "hend s p = p + 16 * unat (h_size s p)"

text \<open>The loop of \<open>free\<close> that looks for the place of a block in the list.\<close>

partial_function (option) free_find :: "nat \<Rightarrow> nat \<Rightarrow> uheap \<Rightarrow> nat option" where
  "free_find bp p s =
     (if bp > p \<and> bp < h_ptr s p then Some p
      else if p \<ge> h_ptr s p \<and> (bp > p \<or> bp < h_ptr s p) then Some p
      else free_find bp (h_ptr s p) s)"

definition ufree :: "nat \<Rightarrow> uheap \<Rightarrow> uheap option" where
  "ufree ap s =
     (let bp = ap - 16 in
      case free_find bp (freep s) s of
        None \<Rightarrow> None
      | Some p \<Rightarrow>
          let s = (if hend s bp = h_ptr s p
                   then s\<lparr>h_size := (h_size s)(bp := h_size s bp + h_size s (h_ptr s p)), h_ptr := (h_ptr s)(bp := h_ptr s (h_ptr s p))\<rparr>
                   else s\<lparr>h_ptr := (h_ptr s)(bp := h_ptr s p)\<rparr>);
              s = (if hend s p = bp
                   then s\<lparr>h_size := (h_size s)(p := h_size s p + h_size s bp), h_ptr := (h_ptr s)(p := h_ptr s bp)\<rparr>
                   else s\<lparr>h_ptr := (h_ptr s)(p := bp)\<rparr>)
          in Some (s\<lparr>freep := p\<rparr>))"

text \<open>\<open>sbrk\<close> as a program sees it. Whether the kernel has the memory is an argument. A negative size that is larger
  than the memory of the process changes nothing, and the call succeeds.\<close>

definition usbrk :: "(nat \<Rightarrow> int \<Rightarrow> bool) \<Rightarrow> 32 word \<Rightarrow> uheap \<Rightarrow> nat option \<times> uheap" where
  "usbrk admit n s =
     (if \<not> admit (brk s) (sint n) then (None, s)
      else (Some (brk s), s\<lparr>brk := (if int (brk s) + sint n < 0 then brk s else nat (int (brk s) + sint n))\<rparr>))"

definition morecore :: "(nat \<Rightarrow> int \<Rightarrow> bool) \<Rightarrow> 32 word \<Rightarrow> uheap \<Rightarrow> (nat \<times> uheap) option" where
  "morecore admit nu s =
     (let nu = (if nu < 4096 then 4096 else nu) in
      case usbrk admit (of_nat (unat nu * 16)) s of
        (None, s) \<Rightarrow> Some (0, s)
      | (Some p, s) \<Rightarrow>
          (case ufree (p + 16) (s\<lparr>h_size := (h_size s)(p := nu)\<rparr>) of
             None \<Rightarrow> None
           | Some s \<Rightarrow> Some (freep s, s)))"

text \<open>The block at \<open>p\<close>, after \<open>prevp\<close> in the list, is large enough: unlink it or cut off its tail.\<close>

definition take_block :: "32 word \<Rightarrow> nat \<Rightarrow> nat \<Rightarrow> uheap \<Rightarrow> nat \<times> uheap" where
  "take_block nunits prevp p s =
     (let (p, s) = (if h_size s p = nunits then (p, s\<lparr>h_ptr := (h_ptr s)(prevp := h_ptr s p)\<rparr>)
                    else let s = s\<lparr>h_size := (h_size s)(p := h_size s p - nunits)\<rparr>;
                             p = hend s p
                         in (p, s\<lparr>h_size := (h_size s)(p := nunits)\<rparr>))
      in (p + 16, s\<lparr>freep := prevp\<rparr>))"

partial_function (option) malloc_loop :: "(nat \<Rightarrow> int \<Rightarrow> bool) \<Rightarrow> 32 word \<Rightarrow> nat \<Rightarrow> nat \<Rightarrow> uheap \<Rightarrow> (nat \<times> uheap) option" where
  "malloc_loop admit nunits prevp p s =
     (if h_size s p \<ge> nunits then Some (take_block nunits prevp p s)
      else if p = freep s
           then (case morecore admit nunits s of
                   None \<Rightarrow> None
                 | Some (p, s) \<Rightarrow> if p = 0 then Some (0, s) else malloc_loop admit nunits p (h_ptr s p) s)
           else malloc_loop admit nunits p (h_ptr s p) s)"

definition nunits :: "32 word \<Rightarrow> 32 word" where
  "nunits nbytes = of_nat ((unat nbytes + 16 - 1) div 16 + 1)"

text \<open>The address of the static variable \<open>base\<close> is an argument.\<close>

definition malloc :: "nat \<Rightarrow> (nat \<Rightarrow> int \<Rightarrow> bool) \<Rightarrow> 32 word \<Rightarrow> uheap \<Rightarrow> (nat \<times> uheap) option" where
  "malloc base admit nbytes s =
     (let s = (if freep s = 0 then s\<lparr>freep := base, h_ptr := (h_ptr s)(base := base), h_size := (h_size s)(base := 0)\<rparr> else s);
          prevp = freep s
      in malloc_loop admit (nunits nbytes) prevp (h_ptr s prevp) s)"

section \<open>The list\<close>

primrec links :: "(nat \<Rightarrow> nat) \<Rightarrow> nat list \<Rightarrow> nat \<Rightarrow> bool" where
  "links f [] z \<longleftrightarrow> True"
| "links f (x # xs) z \<longleftrightarrow> f x = hd (xs @ [z]) \<and> links f xs z"

lemma links_append: "links f (xs @ ys) z \<longleftrightarrow> links f xs (hd (ys @ [z])) \<and> links f ys z"
  by (induction xs) (auto simp: hd_append)

lemma links_cong: "\<forall>x \<in> set xs. f x = g x \<Longrightarrow> links f xs z \<longleftrightarrow> links g xs z"
  by (induction xs) auto

lemma links_upd [simp]: "p \<notin> set xs \<Longrightarrow> links (f(p := x)) xs z \<longleftrightarrow> links f xs z"
  by (rule links_cong) auto

lemma links_map: "xs \<noteq> [] \<Longrightarrow> links f xs z \<longleftrightarrow> map f xs = tl xs @ [z]"
proof (induction xs)
  case (Cons x xs)
  then show ?case by (cases xs) auto
qed simp

lemma links_inj: "links f L (hd L) \<Longrightarrow> distinct L \<Longrightarrow> inj_on f (set L)"
proof (cases L)
  case (Cons x xs)
  assume "links f L (hd L)" "distinct L"
  then have "map f L = xs @ [x]" "distinct (xs @ [x])" using Cons links_map [of L f x] by auto
  then show ?thesis by (metis distinct_map)
qed simp

text \<open>The list read from any of its elements.\<close>

lemma links_rotate: "links f (us @ p # vs) (hd (us @ p # vs)) \<Longrightarrow> links f (p # vs @ us) p"
  by (cases us) (auto simp: links_append hd_append)

definition span :: "uheap \<Rightarrow> nat \<Rightarrow> nat set" where
  "span s p = {p..<hend s p}"

text \<open>The free blocks are \<open>xs\<close> behind \<open>base\<close>, in order and with room between any two; the allocated blocks are \<open>A\<close>.\<close>

definition heap_ok :: "nat \<Rightarrow> uheap \<Rightarrow> nat list \<Rightarrow> nat set \<Rightarrow> bool" where
  "heap_ok base s xs A \<longleftrightarrow> sorted_wrt (\<lambda>p q. hend s p < q) (base # xs) \<and> links (h_ptr s) (base # xs) base \<and> freep s \<in> set (base # xs) \<and>
     h_size s base = 0 \<and> (\<forall>p \<in> set xs \<union> A. 0 < h_size s p \<and> base + 16 \<le> p \<and> hend s p \<le> brk s) \<and>
     (\<forall>a \<in> A. \<forall>q \<in> set xs \<union> A. q \<noteq> a \<longrightarrow> span s a \<inter> span s q = {}) \<and> A \<inter> set xs = {} \<and> 0 < base \<and> base + 16 \<le> brk s \<and> brk s \<le> 2 ^ 36"

lemma heap_okD:
  assumes "heap_ok base s xs A"
  shows "sorted_wrt (\<lambda>p q. hend s p < q) (base # xs)" "links (h_ptr s) (base # xs) base" "freep s \<in> set (base # xs)" "h_size s base = 0"
    "p \<in> set xs \<union> A \<Longrightarrow> 0 < h_size s p" "p \<in> set xs \<union> A \<Longrightarrow> base + 16 \<le> p" "p \<in> set xs \<union> A \<Longrightarrow> hend s p \<le> brk s"
    "a \<in> A \<Longrightarrow> q \<in> set xs \<union> A \<Longrightarrow> q \<noteq> a \<Longrightarrow> span s a \<inter> span s q = {}" "A \<inter> set xs = {}" "0 < base" "base + 16 \<le> brk s" "brk s \<le> 2 ^ 36"
  using assms by (auto simp: heap_ok_def)

lemma hend_gt: "0 < h_size s p \<Longrightarrow> p < hend s p"
  by (simp add: hend_def unat_gt_0 word_greater_zero_iff)

lemma hend_ge: "p \<le> hend s p"
  by (simp add: hend_def)

lemma span_apart: "span s a \<inter> span s q = {} \<Longrightarrow> 0 < h_size s a \<Longrightarrow> 0 < h_size s q \<Longrightarrow> q < a \<Longrightarrow> hend s q \<le> a"
proof (rule ccontr)
  assume "span s a \<inter> span s q = {}" "0 < h_size s a" "0 < h_size s q" "q < a" "\<not> hend s q \<le> a"
  then have "a \<in> span s a \<inter> span s q" using hend_gt [of s a] by (auto simp: span_def)
  then show False using \<open>span s a \<inter> span s q = {}\<close> by blast
qed

lemma sorted_blocks:
  assumes "sorted_wrt (\<lambda>p q. hend s p < q) L"
  shows "distinct L" "sorted_wrt (<) L"
proof -
  show "sorted_wrt (<) L" using assms by (rule sorted_wrt_mono_rel [rotated]) (meson hend_ge le_less_trans)
  then show "distinct L" by (simp add: strict_sorted_iff)
qed

lemma sorted_hend_cong: "\<forall>x \<in> set xs. hend s' x = hend s x \<Longrightarrow> sorted_wrt (\<lambda>p q. hend s p < q) xs \<Longrightarrow> sorted_wrt (\<lambda>p q. hend s' p < q) xs"
  by (rule sorted_wrt_mono_rel [where P = "\<lambda>p q. hend s p < q"]) auto

text \<open>The place of an allocated block in the list.\<close>

lemma split_at:
  assumes "heap_ok base s xs A" "bp \<in> A"
  obtains us p vs where "base # xs = us @ p # vs" "\<forall>u \<in> set (us @ [p]). u < bp \<and> hend s u \<le> bp" "\<forall>v \<in> set vs. hend s bp \<le> v"
proof -
  note H = heap_okD [OF assms(1)]
  let ?L = "base # xs"
  define ws where "ws = takeWhile (\<lambda>x. x < bp) ?L"
  define vs where "vs = dropWhile (\<lambda>x. x < bp) ?L"
  have b: "base < bp" using H(6) [of bp] assms(2) by simp
  then have "ws \<noteq> []" by (simp add: ws_def)
  then obtain us p where w: "ws = us @ [p]" by (metis rev_exhaust)
  have e: "?L = us @ p # vs" using takeWhile_dropWhile_id [of "\<lambda>x. x < bp" ?L] w by (simp add: ws_def vs_def)
  have bpn: "bp \<notin> set ?L" using H(9) assms(2) b by auto
  have pos: "0 < h_size s bp" using H(5) assms(2) by simp
  have lo: "u < bp \<and> hend s u \<le> bp" if u: "u \<in> set (us @ [p])" for u
  proof -
    have lt: "u < bp" using u w set_takeWhileD [of u "\<lambda>x. x < bp" ?L] by (simp add: ws_def)
    moreover have "u \<in> set ?L" unfolding e using u by auto
    ultimately show ?thesis using span_apart [OF H(8) [OF assms(2), of u] pos H(5) [of u]] H(4) by (auto simp: hend_def)
  qed
  have hi: "hend s bp \<le> v" if v: "v \<in> set vs" for v
  proof -
    have vn: "vs \<noteq> []" using v by auto
    then have vb: "\<not> hd vs < bp" unfolding vs_def by (rule hd_dropWhile)
    have "sorted_wrt (<) vs" using sorted_blocks(2) [OF H(1)] unfolding e by (simp add: sorted_wrt_append)
    then have "hd vs \<le> v" using v vn by (cases vs) auto
    moreover have "v \<in> set ?L" "v \<noteq> base" unfolding e using v sorted_blocks(1) [OF H(1)] e by (auto simp: Cons_eq_append_conv)
    ultimately have "v \<in> set xs" "bp \<le> v" "v \<noteq> bp" using vb bpn by auto
    then have "bp < v" "v \<in> set xs" by simp_all
    then show ?thesis using span_apart [of s v bp] H(8) [OF assms(2), of v] H(5) [of v] pos by (simp add: Int_commute)
  qed
  show ?thesis using that [OF e] lo hi by blast
qed

lemma free_find_spec:
  assumes "base # xs = us @ p # vs" "links (h_ptr s) (base # xs) base" "sorted_wrt (<) (base # xs)" "\<forall>u \<in> set (us @ [p]). u < bp" "\<forall>v \<in> set vs. bp < v" "q \<in> set (base # xs)"
  shows "free_find bp q s = Some p"
proof -
  let ?L = "us @ p # vs"
  have l: "links (h_ptr s) ?L base" "sorted_wrt (<) ?L" using assms(1-3) by simp_all
  have base: "base = hd ?L" using assms(1) by (metis list.sel(1))
  have bl: "base \<le> x" if "x \<in> set ?L" for x using assms(3) that unfolding assms(1) [symmetric] by auto
  have at_p: "free_find bp p s = Some p"
  proof -
    have "h_ptr s p = hd (vs @ [base])" using l(1) by (simp add: links_append)
    moreover have "base \<le> p" "p < bp" using bl assms(4) by auto
    ultimately show ?thesis using assms(5) by (cases vs) (auto simp: free_find.simps [of bp p])
  qed
  have before: "free_find bp (hd (ws @ [p])) s = Some p" if "us = zs @ ws" for zs ws
    using that
  proof (induction ws arbitrary: zs)
    case (Cons w ws)
    let ?n = "hd (ws @ [p])"
    have n: "h_ptr s w = ?n" using l(1) Cons.prems by (simp add: links_append hd_append split: if_splits)
    have "?n < bp" "w < bp" using assms(4) Cons.prems by (cases ws; simp)+
    moreover have "w < ?n" using l(2) Cons.prems by (cases ws) (simp_all add: sorted_wrt_append)
    ultimately have "free_find bp w s = free_find bp ?n s" using n by (simp add: free_find.simps [of bp w])
    then show ?case using Cons.IH [of "zs @ [w]"] Cons.prems by simp
  qed (simp add: at_p)
  have start: "free_find bp base s = Some p" using before [of "[]" us] base by (simp add: hd_append split: if_splits)
  have after: "free_find bp (hd (ws @ [base])) s = Some p" if "vs = zs @ ws" for zs ws
    using that
  proof (induction ws arbitrary: zs)
    case (Cons w ws)
    let ?n = "hd (ws @ [base])"
    have n: "h_ptr s w = ?n" using l(1) Cons.prems by (simp add: links_append hd_append split: if_splits)
    have b: "base < bp" "bp < w" using bl [of p] assms(4,5) Cons.prems by auto
    have "free_find bp w s = free_find bp ?n s"
    proof (cases ws)
      case Nil
      then show ?thesis using n b by (simp add: free_find.simps [of bp w])
    next
      case (Cons y ys)
      then have "w < ?n" using l(2) Cons.prems by (simp add: sorted_wrt_append)
      then show ?thesis using n b by (simp add: free_find.simps [of bp w])
    qed
    then show ?case using Cons.IH [of "zs @ [w]"] Cons.prems by simp
  qed (simp add: start)
  have "q \<in> set us \<or> q = p \<or> q \<in> set vs" using assms(1,6) by auto
  then show ?thesis
  proof (elim disjE)
    assume "q \<in> set us"
    then obtain zs ws where "us = zs @ q # ws" by (meson split_list)
    then show ?thesis using before [of zs "q # ws"] by simp
  next
    assume "q \<in> set vs"
    then obtain zs ws where "vs = zs @ q # ws" by (meson split_list)
    then show ?thesis using after [of zs "q # ws"] by simp
  qed (simp add: at_p)
qed

text \<open>The invariant after a step that only moves memory between the free and the allocated blocks.\<close>

lemma heap_okI:
  assumes h: "heap_ok base s xs A" and keep: "\<forall>b \<in> B \<inter> A. h_size s' b = h_size s b"
    and new: "\<forall>q \<in> set xs' \<union> (B - A). 0 < h_size s' q \<and> span s' q \<subseteq> (\<Union>p \<in> set xs \<union> (A - B). span s p)"
    and apart: "\<forall>b \<in> B - A. \<forall>q \<in> set xs' \<union> (B - A). q \<noteq> b \<longrightarrow> span s' b \<inter> span s' q = {}" "(B - A) \<inter> set xs' = {}"
    and list: "sorted_wrt (\<lambda>p q. hend s' p < q) (base # xs')" "links (h_ptr s') (base # xs') base" "freep s' \<in> set (base # xs')" "h_size s' base = 0" "brk s' = brk s"
  shows "heap_ok base s' xs' B"
proof -
  note H = heap_okD [OF h]
  have old: "base + 16 \<le> x \<and> x < brk s" if "x \<in> (\<Union>p \<in> set xs \<union> (A - B). span s p)" for x
    using that H(6,7) by (auto simp: span_def) (meson le_trans less_le_trans UnI1 UnI2)+
  have q: "q \<in> span s' q" "base + 16 \<le> q" "hend s' q \<le> brk s" if "q \<in> set xs' \<union> (B - A)" for q
  proof -
    have g: "q < hend s' q" using new that hend_gt by blast
    then show i: "q \<in> span s' q" by (simp add: span_def)
    have sub: "span s' q \<subseteq> (\<Union>p \<in> set xs \<union> (A - B). span s p)" using new that by blast
    show "base + 16 \<le> q" using old i sub by blast
    have "hend s' q - 1 \<in> span s' q" using g by (simp add: span_def)
    then show "hend s' q \<le> brk s" using old sub g by fastforce
  qed
  have a: "h_size s' b = h_size s b" "span s' b = span s b" "hend s' b = hend s b" if "b \<in> B" "b \<in> A" for b
    using keep that by (simp_all add: span_def hend_def)
  have d: "span s b \<inter> span s' q = {}" if "b \<in> B" "b \<in> A" "q \<in> set xs' \<union> (B - A)" for b q
  proof -
    have "span s b \<inter> span s p = {}" if "p \<in> set xs \<union> (A - B)" for p
      using H(8) [OF \<open>b \<in> A\<close>, of p] H(9) that \<open>b \<in> B\<close> \<open>b \<in> A\<close> by auto
    then show ?thesis using new that(3) by blast
  qed
  have self: "b \<in> span s b" if "b \<in> A" for b using hend_gt [of s b] H(5) that by (simp add: span_def)
  have "span s' b \<inter> span s' q = {}" if "b \<in> B" "q \<in> set xs' \<union> B" "q \<noteq> b" for b q
  proof (cases "q \<in> set xs' \<union> (B - A)")
    case True
    then show ?thesis using that a(2) [of b] d [of b q] apart(1) by (cases "b \<in> A") auto
  next
    case False
    then show ?thesis using that a(2) [of b] a(2) [of q] d [of q b] H(8) [of b q] by (cases "b \<in> A") auto
  qed
  moreover have "B \<inter> set xs' = {}" using apart(2) d self q(1) by fastforce
  moreover have "0 < h_size s' p \<and> base + 16 \<le> p \<and> hend s' p \<le> brk s" if "p \<in> set xs' \<union> B" for p
    using that new q a H(5-7) by (cases "p \<in> A \<and> p \<in> B") auto
  ultimately show ?thesis using list H(10-12) by (auto simp: heap_ok_def)
qed

lemma unat_sum: "p + 16 * (unat (m :: 32 word) + unat n) \<le> 2 ^ 36 \<Longrightarrow> 0 < p \<Longrightarrow> unat (m + n) = unat m + unat n"
  by (simp add: unat_word_ariths(1))

section \<open>Freeing\<close>

text \<open>The first half of \<open>free\<close> puts the block in front of the blocks behind it, merged with the first of them if they
  touch.\<close>

definition half_freed :: "nat \<Rightarrow> uheap \<Rightarrow> nat \<Rightarrow> nat list \<Rightarrow> uheap \<Rightarrow> nat list \<Rightarrow> bool" where
  "half_freed base s bp vs s1 vs1 \<longleftrightarrow> set vs1 \<subseteq> set vs \<and> links (h_ptr s1) (bp # vs1) base \<and> sorted_wrt (\<lambda>p q. hend s1 p < q) (bp # vs1) \<and>
     unat (h_size s bp) \<le> unat (h_size s1 bp) \<and> span s1 bp \<union> (\<Union>v \<in> set vs1. span s v) = span s bp \<union> (\<Union>v \<in> set vs. span s v) \<and>
     (\<forall>x. x \<noteq> bp \<longrightarrow> h_ptr s1 x = h_ptr s x \<and> h_size s1 x = h_size s x) \<and> brk s1 = brk s \<and> freep s1 = freep s"

lemma merge_next:
  assumes h: "heap_ok base s xs A" and bp: "bp \<in> A" and e: "base # xs = us @ p # vs" and hi: "\<forall>v \<in> set vs. hend s bp \<le> v"
  defines "s1 \<equiv> (if hend s bp = h_ptr s p
      then s\<lparr>h_size := (h_size s)(bp := h_size s bp + h_size s (h_ptr s p)), h_ptr := (h_ptr s)(bp := h_ptr s (h_ptr s p))\<rparr>
      else s\<lparr>h_ptr := (h_ptr s)(bp := h_ptr s p)\<rparr>)"
  shows "\<exists>vs1. half_freed base s bp vs s1 vs1"
proof -
  note H = heap_okD [OF h]
  have nx: "h_ptr s p = hd (vs @ [base])" and lv: "links (h_ptr s) vs base" and sv: "sorted_wrt (\<lambda>p q. hend s p < q) vs"
    using H(1,2) unfolding e by (auto simp: links_append sorted_wrt_append)
  have bpn: "bp \<notin> set vs" "base < hend s bp" using H(6) [of bp] H(9) bp e hend_ge [of bp s] by (auto simp: Cons_eq_append_conv)
  have l1: "links f vs' base = links (h_ptr s) vs' base" if "\<forall>x. x \<noteq> bp \<longrightarrow> f x = h_ptr s x" "set vs' \<subseteq> set vs" for f vs'
    by (rule links_cong) (use that bpn(1) in auto)
  show ?thesis
  proof (cases "hend s bp = h_ptr s p")
    case False
    then have s1: "s1 = s\<lparr>h_ptr := (h_ptr s)(bp := h_ptr s p)\<rparr>" by (simp add: s1_def)
    have he: "hend s1 = hend s" "span s1 = span s" by (simp_all add: s1 hend_def span_def fun_eq_iff)
    have "hend s bp < v" if "v \<in> set vs" for v
    proof (cases vs)
      case (Cons q vs')
      then have "hend s bp < q" using False nx hi by auto
      moreover have "q \<le> v" using that sv hend_ge [of q s] unfolding Cons by auto
      ultimately show ?thesis by simp
    qed (use that in simp)
    then show ?thesis using l1 [of "h_ptr s1" vs] lv nx sv by (intro exI [of _ vs]) (auto simp: half_freed_def he, auto simp: s1)
  next
    case True
    then obtain q vs' where v: "vs = q # vs'" and q: "hend s bp = q" using nx bpn(2) by (cases vs) auto
    have s1: "s1 = s\<lparr>h_size := (h_size s)(bp := h_size s bp + h_size s q), h_ptr := (h_ptr s)(bp := h_ptr s q)\<rparr>" using True q by (simp add: s1_def)
    have "q \<in> set xs" using e v H(1) by (cases us) auto
    then have "hend s q \<le> 2 ^ 36" using H(7) [of q] H(12) by simp
    then have u: "unat (h_size s bp + h_size s q) = unat (h_size s bp) + unat (h_size s q)"
      using q H(6) [of bp] bp by (intro unat_sum [of bp]) (auto simp: hend_def)
    have hb: "hend s1 bp = hend s q" using u q by (simp add: s1 hend_def)
    have he: "hend s1 x = hend s x" "span s1 x = span s x" if "x \<noteq> bp" for x using that by (simp_all add: s1 hend_def span_def)
    have sp: "span s1 bp = span s bp \<union> span s q" using hb q hend_ge [of bp s] hend_ge [of q s] by (auto simp: span_def)
    have "sorted_wrt (\<lambda>p q. hend s p < q) vs'" using sv unfolding v by simp
    then have "sorted_wrt (\<lambda>p q. hend s1 p < q) vs'" by (rule sorted_hend_cong [rotated]) (metis he(1) bpn(1) v list.set_intros(2))
    then have "sorted_wrt (\<lambda>p q. hend s1 p < q) (bp # vs')" using sv unfolding v by (simp add: hb)
    moreover have "links (h_ptr s1) (bp # vs') base" using l1 [of "h_ptr s1" vs'] lv unfolding v by (auto simp: s1)
    ultimately show ?thesis using sp u by (intro exI [of _ vs']) (auto simp: half_freed_def v, auto simp: s1)
  qed
qed

lemma freed_ok:
  assumes h: "heap_ok base s xs A" and bp: "bp \<in> A" and list: "sorted_wrt (\<lambda>p q. hend s' p < q) L" "links (h_ptr s') L base" "freep s' \<in> set L" "L = base # ys"
    and keep: "\<forall>b \<in> A - {bp}. h_size s' b = h_size s b" "h_size s' base = 0" "brk s' = brk s" and pos: "\<forall>q \<in> set ys. 0 < h_size s' q"
    and un: "(\<Union>q \<in> set L. span s' q) = (\<Union>x \<in> set (base # xs). span s x) \<union> span s bp"
  shows "heap_ok base s' ys (A - {bp})" "(\<Union>q \<in> set ys. span s' q) = (\<Union>x \<in> set xs. span s x) \<union> span s bp"
proof -
  have "span s' base = {}" "span s base = {}" using keep(2) heap_okD(4) [OF h] by (simp_all add: span_def hend_def)
  then show u: "(\<Union>q \<in> set ys. span s' q) = (\<Union>x \<in> set xs. span s x) \<union> span s bp" using un unfolding list(4) by simp
  show "heap_ok base s' ys (A - {bp})"
  proof (rule heap_okI [OF h])
    show "\<forall>q \<in> set ys \<union> (A - {bp} - A). 0 < h_size s' q \<and> span s' q \<subseteq> (\<Union>p \<in> set xs \<union> (A - (A - {bp})). span s p)" using pos u bp by blast
  qed (use list keep in auto)
qed

text \<open>The second half puts it behind the blocks in front of it.\<close>

lemma half_freedD:
  assumes "half_freed base s bp vs s1 vs1"
  shows "set vs1 \<subseteq> set vs" "links (h_ptr s1) (bp # vs1) base" "sorted_wrt (\<lambda>p q. hend s1 p < q) (bp # vs1)"
      "unat (h_size s bp) \<le> unat (h_size s1 bp)" "span s1 bp \<union> (\<Union>v \<in> set vs1. span s v) = span s bp \<union> (\<Union>v \<in> set vs. span s v)"
      "\<forall>x. x \<noteq> bp \<longrightarrow> h_ptr s1 x = h_ptr s x \<and> h_size s1 x = h_size s x" "brk s1 = brk s" "freep s1 = freep s"
  using assms by (simp_all add: half_freed_def)

lemma half_freed_list:
  assumes h: "heap_ok base s xs A" and bp: "bp \<in> A" and e: "base # xs = us @ p # vs" and lo: "\<forall>u \<in> set (us @ [p]). u < bp \<and> hend s u \<le> bp"
    and m: "half_freed base s bp vs s1 vs1"
  shows "distinct (us @ p # vs)" "bp \<notin> set (us @ p # vs)" "hd (us @ p # ws) = base" "set xs = set (us @ p # vs) - {base}"
    "x \<in> set (us @ p # vs) \<Longrightarrow> hend s1 x = hend s x" "x \<in> set (us @ p # vs) \<Longrightarrow> span s1 x = span s x" "x \<in> set (us @ p # vs) \<Longrightarrow> h_size s1 x = h_size s x"
    "links (h_ptr s1) us p" "sorted_wrt (\<lambda>p q. hend s p < q) us" "u \<in> set us \<Longrightarrow> hend s u < p" "p \<notin> set vs1" "bp \<notin> set vs1"
proof -
  note H = heap_okD [OF h] and v = half_freedD [OF m]
  show dL: "distinct (us @ p # vs)" using sorted_blocks(1) [OF H(1)] unfolding e .
  have "bp \<noteq> base" "bp \<notin> set xs" using H(6) [of bp] H(9) bp by auto
  then show nb: "bp \<notin> set (us @ p # vs)" unfolding e [symmetric] by simp
  show "hd (us @ p # ws) = base" using e by (cases us) auto
  have "base \<notin> set xs" using sorted_blocks(1) [OF H(1)] by simp
  then show "set xs = set (us @ p # vs) - {base}" unfolding e [symmetric] by auto
  have o: "h_ptr s1 x = h_ptr s x" "h_size s1 x = h_size s x" if "x \<in> set (us @ p # vs)" for x using v(6) nb that by metis+
  then show "x \<in> set (us @ p # vs) \<Longrightarrow> hend s1 x = hend s x" "x \<in> set (us @ p # vs) \<Longrightarrow> span s1 x = span s x" "x \<in> set (us @ p # vs) \<Longrightarrow> h_size s1 x = h_size s x"
    by (simp_all add: hend_def span_def)
  have "links (h_ptr s) us p" using H(2) unfolding e by (simp add: links_append)
  then show "links (h_ptr s1) us p" using links_cong [of us "h_ptr s1" "h_ptr s" p] o(1) by simp
  show "sorted_wrt (\<lambda>p q. hend s p < q) us" "u \<in> set us \<Longrightarrow> hend s u < p" using H(1) unfolding e by (auto simp: sorted_wrt_append)
  show "p \<notin> set vs1" "bp \<notin> set vs1" using v(1) dL nb by auto
qed

lemma half_freed_block:
  assumes h: "heap_ok base s xs A" and bp: "bp \<in> A" and e: "base # xs = us @ p # vs" and lo: "\<forall>u \<in> set (us @ [p]). u < bp \<and> hend s u \<le> bp"
    and m: "half_freed base s bp vs s1 vs1"
  shows "0 < h_size s1 bp" "bp < hend s1 bp" "hend s1 bp \<le> brk s" "h_size s1 base = 0" "b \<in> A - {bp} \<Longrightarrow> h_size s1 b = h_size s b"
    "q \<in> set (tl M) \<Longrightarrow> M = base # tl M \<Longrightarrow> distinct M \<Longrightarrow> set M \<subseteq> insert bp (set (us @ p # vs)) \<Longrightarrow> q = bp \<or> q \<in> set xs \<and> h_size s1 q = h_size s q"
proof -
  note H = heap_okD [OF h] and v = half_freedD [OF m] and F = half_freed_list [OF h bp e lo m]
  have "0 < h_size s bp" using H(5) bp by simp
  then show pos: "0 < h_size s1 bp" using v(4) by (simp add: word_less_nat_alt)
  have "set vs \<subseteq> set xs" using F(4) F(1) F(3) [of vs] by (cases us) auto
  then have sub: "span s1 bp \<subseteq> (\<Union>x \<in> set xs \<union> {bp}. span s x)" using v(5) by blast
  show g: "bp < hend s1 bp" by (rule hend_gt [OF pos])
  then have "hend s1 bp - 1 \<in> span s1 bp" by (auto simp: span_def)
  then show "hend s1 bp \<le> brk s" using sub H(7) bp g by (fastforce simp: span_def)
  show "h_size s1 base = 0" using F(7) [of base] H(4) e by (metis list.set_intros(1))
  show "b \<in> A - {bp} \<Longrightarrow> h_size s1 b = h_size s b" using v(6) by simp
  assume q: "q \<in> set (tl M)" "M = base # tl M" "distinct M" "set M \<subseteq> insert bp (set (us @ p # vs))"
  have "q \<in> set M" "q \<noteq> base" using q(1-3) by (metis list.set_intros(2), metis distinct.simps(2))
  then show "q = bp \<or> q \<in> set xs \<and> h_size s1 q = h_size s q" using q(4) F(4) F(7) [of q] by blast
qed

lemma merge_apart:
  assumes h: "heap_ok base s xs A" and bp: "bp \<in> A" and e: "base # xs = us @ p # vs" and lo: "\<forall>u \<in> set (us @ [p]). u < bp \<and> hend s u \<le> bp"
    and m: "half_freed base s bp vs s1 vs1"
    and gap: "hend s1 p \<noteq> bp"
  defines "s2 \<equiv> s1\<lparr>h_ptr := (h_ptr s1)(p := bp), freep := p\<rparr>"
  shows "\<exists>xs'. heap_ok base s2 xs' (A - {bp}) \<and> (\<Union>p \<in> set xs'. span s2 p) = (\<Union>p \<in> set xs. span s p) \<union> span s bp \<and> (\<exists>p \<in> set xs'. h_size s bp \<le> h_size s2 p)"
proof -
  note H = heap_okD [OF h] and v = half_freedD [OF m] and F = half_freed_list [OF h bp e lo m] and B = half_freed_block [OF h bp e lo m]
  let ?L = "us @ p # bp # vs1"
  have he: "hend s2 = hend s1" "span s2 = span s1" by (simp_all add: s2_def hend_def span_def fun_eq_iff)
  have L: "?L = base # tl ?L" using F(3) [of "bp # vs1"] by (cases us) auto
  have su: "sorted_wrt (\<lambda>p q. hend s2 p < q) us" by (rule sorted_hend_cong [OF _ F(9)]) (simp add: he F(5))
  have pb: "hend s2 p < bp" using lo gap F(5) [of p] he by simp
  have "hend s2 u < p" "hend s2 u < bp" if "u \<in> set us" for u using that F(10) [of u] lo F(5) [of u] he by auto
  moreover have "bp < v" if "v \<in> set vs1" for v using v(3) B(2) that by auto
  ultimately have so: "sorted_wrt (\<lambda>p q. hend s2 p < q) ?L" using su pb v(3) by (force simp: sorted_wrt_append he(1))
  have li: "links (h_ptr s2) ?L base" using F(1,2,8,11) v(2) by (simp add: s2_def links_append)
  have ss: "set ?L \<subseteq> insert bp (set (us @ p # vs))" using v(1) by auto
  have pos2: "0 < h_size s2 q" if "q \<in> set (tl ?L)" for q
    using B(6) [OF that L sorted_blocks(1) [OF so] ss] H(5) [of q] B(1) by (auto simp: s2_def)
  have "(\<Union>q \<in> set ?L. span s2 q) = (\<Union>x \<in> set (us @ [p]). span s x) \<union> (span s1 bp \<union> (\<Union>x \<in> set vs1. span s x))"
    using F(6) v(1) by (auto simp: subset_eq he(2))
  then have un: "(\<Union>q \<in> set ?L. span s2 q) = (\<Union>x \<in> set (base # xs). span s x) \<union> span s bp" unfolding v(5) e by auto
  have k: "freep s2 \<in> set ?L" "\<forall>b \<in> A - {bp}. h_size s2 b = h_size s b" "h_size s2 base = 0" "brk s2 = brk s" "\<forall>q \<in> set (tl ?L). 0 < h_size s2 q"
    using B(4,5) v(7) pos2 by (simp_all add: s2_def)
  have "bp \<in> set (tl ?L)" by (cases us) auto
  then have "\<exists>q \<in> set (tl ?L). h_size s bp \<le> h_size s2 q" using v(4) by (intro bexI [of _ bp]) (simp_all add: s2_def word_le_nat_alt)
  then show ?thesis using freed_ok [OF h bp so li k(1) L k(2-5) un] by blast
qed

lemma merge_touch:
  assumes h: "heap_ok base s xs A" and bp: "bp \<in> A" and e: "base # xs = us @ p # vs" and lo: "\<forall>u \<in> set (us @ [p]). u < bp \<and> hend s u \<le> bp"
    and m: "half_freed base s bp vs s1 vs1"
    and touch: "hend s1 p = bp"
  defines "s2 \<equiv> s1\<lparr>h_size := (h_size s1)(p := h_size s1 p + h_size s1 bp), h_ptr := (h_ptr s1)(p := h_ptr s1 bp), freep := p\<rparr>"
  shows "\<exists>xs'. heap_ok base s2 xs' (A - {bp}) \<and> (\<Union>p \<in> set xs'. span s2 p) = (\<Union>p \<in> set xs. span s p) \<union> span s bp \<and> (\<exists>p \<in> set xs'. h_size s bp \<le> h_size s2 p)"
proof -
  note H = heap_okD [OF h] and v = half_freedD [OF m] and F = half_freed_list [OF h bp e lo m] and B = half_freed_block [OF h bp e lo m]
  let ?L = "us @ p # vs1"
  have pn: "p \<noteq> base" "hend s p = bp" using touch F(5) [of p] H(4) H(6) [of bp] bp by (auto simp: hend_def)
  then have px: "p \<in> set xs" using F(4) by simp
  have L: "?L = base # tl ?L" using F(3) [of vs1] by (cases us) auto
  have u: "unat (h_size s1 p + h_size s1 bp) = unat (h_size s1 p) + unat (h_size s1 bp)"
    using B(3) H(6) [of p] H(10,12) px touch by (intro unat_sum [of p]) (auto simp: hend_def)
  have hp: "hend s2 p = hend s1 bp" "span s2 p = span s p \<union> span s1 bp"
    using u touch pn(2) B(2) hend_ge [of p s] by (auto simp: s2_def hend_def span_def)
  have he: "hend s2 x = hend s x" "span s2 x = span s x" if "x \<in> set us \<union> set vs1" for x
    using that F(5,6) [of x] F(1,11) v(1) by (auto simp: s2_def hend_def span_def)
  have "sorted_wrt (\<lambda>p q. hend s2 p < q) us" by (rule sorted_hend_cong [OF _ F(9)]) (simp add: he)
  moreover have "sorted_wrt (\<lambda>p q. hend s2 p < q) vs1"
    by (rule sorted_hend_cong [of _ s2 s1]) (use v(3) he(1) F(5) v(1) in \<open>auto simp: subset_eq\<close>)
  ultimately have so: "sorted_wrt (\<lambda>p q. hend s2 p < q) ?L" using F(10) lo v(3) B(2) by (force simp: sorted_wrt_append he hp)
  have li: "links (h_ptr s2) ?L base" using F(1,8,11) v(2) by (simp add: s2_def links_append)
  have ss: "set ?L \<subseteq> insert bp (set (us @ p # vs))" using v(1) by auto
  have pos2: "0 < h_size s2 q" if "q \<in> set (tl ?L)" for q
    using B(6) [OF that L sorted_blocks(1) [OF so] ss] H(5) [of q] B(1) u by (auto simp: s2_def word_less_nat_alt)
  have "(\<Union>q \<in> set ?L. span s2 q) = (\<Union>x \<in> set (us @ [p]). span s x) \<union> (span s1 bp \<union> (\<Union>x \<in> set vs1. span s x))"
    using he(2) hp(2) by auto
  then have un: "(\<Union>q \<in> set ?L. span s2 q) = (\<Union>x \<in> set (base # xs). span s x) \<union> span s bp" unfolding v(5) e by auto
  have "p \<notin> A" using H(9) px by auto
  then have k: "freep s2 \<in> set ?L" "\<forall>b \<in> A - {bp}. h_size s2 b = h_size s b" "h_size s2 base = 0" "brk s2 = brk s" "\<forall>q \<in> set (tl ?L). 0 < h_size s2 q"
    using B(4,5) v(7) pos2 pn(1) by (auto simp: s2_def)
  have "p \<in> set (tl ?L)" using L pn(1) by (cases us) auto
  then have "\<exists>q \<in> set (tl ?L). h_size s bp \<le> h_size s2 q" using v(4) u by (intro bexI [of _ p]) (simp_all add: s2_def word_le_nat_alt)
  then show ?thesis using freed_ok [OF h bp so li k(1) L k(2-5) un] by blast
qed

lemma ufree_spec:
  assumes h: "heap_ok base s xs A" and bp: "bp \<in> A"
  shows "\<exists>s' xs'. ufree (bp + 16) s = Some s' \<and> heap_ok base s' xs' (A - {bp}) \<and> brk s' = brk s \<and> (\<forall>a \<in> A - {bp}. h_size s' a = h_size s a) \<and>
    (\<Union>p \<in> set xs'. span s' p) = (\<Union>p \<in> set xs. span s p) \<union> span s bp \<and> (\<exists>p \<in> set xs'. h_size s bp \<le> h_size s' p)"
proof -
  note H = heap_okD [OF h]
  obtain us p vs where e: "base # xs = us @ p # vs" and lo: "\<forall>u \<in> set (us @ [p]). u < bp \<and> hend s u \<le> bp" and hi: "\<forall>v \<in> set vs. hend s bp \<le> v"
    using split_at [OF h bp] by blast
  define s1 where "s1 = (if hend s bp = h_ptr s p
      then s\<lparr>h_size := (h_size s)(bp := h_size s bp + h_size s (h_ptr s p)), h_ptr := (h_ptr s)(bp := h_ptr s (h_ptr s p))\<rparr>
      else s\<lparr>h_ptr := (h_ptr s)(bp := h_ptr s p)\<rparr>)"
  obtain vs1 where m: "half_freed base s bp vs s1 vs1" using merge_next [OF h bp e hi, folded s1_def] by blast
  note v = half_freedD [OF m]
  have pos: "0 < h_size s bp" using H(5) bp by simp
  have "\<forall>v \<in> set vs. bp < v" using hi hend_gt [OF pos] by auto
  then have ff: "free_find bp (freep s) s = Some p" using free_find_spec [OF e H(2) sorted_blocks(2) [OF H(1)] _ _ H(3)] lo by blast
  define s2 where "s2 = (if hend s1 p = bp
      then s1\<lparr>h_size := (h_size s1)(p := h_size s1 p + h_size s1 bp), h_ptr := (h_ptr s1)(p := h_ptr s1 bp)\<rparr>
      else s1\<lparr>h_ptr := (h_ptr s1)(p := bp)\<rparr>)\<lparr>freep := p\<rparr>"
  have r: "ufree (bp + 16) s = Some s2" using ff by (simp add: ufree_def Let_def s1_def s2_def)
  obtain xs' where x: "heap_ok base s2 xs' (A - {bp})" "(\<Union>p \<in> set xs'. span s2 p) = (\<Union>p \<in> set xs. span s p) \<union> span s bp" "\<exists>p \<in> set xs'. h_size s bp \<le> h_size s2 p"
    using merge_apart [OF h bp e lo m] merge_touch [OF h bp e lo m] by (cases "hend s1 p = bp") (auto simp: s2_def)
  have "h_size s2 a = h_size s a" if "a \<in> A - {bp}" for a
    using that v(6) H(9) e sorted_blocks(1) [OF H(1)] H(6) [of a] by (cases us) (auto simp: s2_def)
  moreover have "brk s2 = brk s" using v(7) by (simp add: s2_def)
  ultimately show ?thesis using r x by blast
qed

section \<open>Allocating\<close>

text \<open>The two ways in which \<open>malloc\<close> takes a block, behind the block in front of it in the list.\<close>

lemma take_whole:
  assumes h: "heap_ok base s xs A" and q: "q \<in> set xs" "q' \<in> set (base # xs)" "h_ptr s q' = q"
  defines "s' \<equiv> s\<lparr>h_ptr := (h_ptr s)(q' := h_ptr s q), freep := q'\<rparr>"
  shows "\<exists>ys. heap_ok base s' ys (insert q A)"
proof -
  note H = heap_okD [OF h]
  obtain us vs where x: "xs = us @ q # vs" using q(1) by (meson split_list)
  obtain ws w where w: "base # us = ws @ [w]" by (metis rev_exhaust list.distinct(1))
  have L: "base # xs = ws @ w # q # vs" using w x by (metis append.assoc append_Cons append_Nil)
  have d: "distinct (ws @ w # q # vs)" using sorted_blocks(1) [OF H(1)] unfolding L .
  have "h_ptr s w = q" using H(2) unfolding L by (simp add: links_append)
  moreover have "inj_on (h_ptr s) (set (base # xs))" by (rule links_inj) (use H(2) sorted_blocks(1) [OF H(1)] in simp_all)
  moreover have "w \<in> set (base # xs)" unfolding L by simp
  ultimately have "w = q'" using q(2,3) by (metis inj_onD)
  note L = L [unfolded this] and d = d [unfolded this] and w = w [unfolded this]
  have e: "base # (us @ vs) = ws @ q' # vs" using w by (metis append.assoc append_Cons append_Nil)
  have sp: "hend s' = hend s" "span s' = span s" by (simp_all add: s'_def hend_def span_def fun_eq_iff)
  have so: "sorted_wrt (\<lambda>p q. hend s' p < q) (base # us @ vs)" using H(1) unfolding x sp by (auto simp: sorted_wrt_append)
  have li: "links (h_ptr s') (base # us @ vs) base" using H(2) d unfolding e L by (simp add: s'_def links_append)
  have n: "span s q \<inter> span s y = {}" if "y \<in> set (us @ vs)" for y
    using H(1) that unfolding x by (auto simp: sorted_wrt_append span_def)
  have "q \<notin> A" using H(9) q(1) by auto
  then have B: "insert q A - A = {q}" "insert q A \<inter> A = A" "A - insert q A = {}" by auto
  have "heap_ok base s' (us @ vs) (insert q A)"
  proof (rule heap_okI [OF h]; (unfold B)?)
    show "\<forall>y \<in> set (us @ vs) \<union> {q}. 0 < h_size s' y \<and> span s' y \<subseteq> (\<Union>p \<in> set xs \<union> {}. span s p)" using H(5) x by (auto simp: sp) (auto simp: s'_def)
    show "\<forall>b \<in> {q}. \<forall>y \<in> set (us @ vs) \<union> {q}. y \<noteq> b \<longrightarrow> span s' b \<inter> span s' y = {}" using n by (auto simp: sp)
    show "{q} \<inter> set (us @ vs) = {}" using sorted_blocks(1) [OF H(1)] x by auto
    show "freep s' \<in> set (base # us @ vs)" unfolding e by (simp add: s'_def)
  qed (use so li H(4) in \<open>auto simp: s'_def\<close>)
  then show ?thesis by blast
qed

lemma take_tail:
  assumes h: "heap_ok base s xs A" and q: "q \<in> set xs" "q' \<in> set (base # xs)" and n: "0 < n" "n < h_size s q"
  defines "s1 \<equiv> s\<lparr>h_size := (h_size s)(q := h_size s q - n)\<rparr>"
  defines "r \<equiv> hend s1 q"
  defines "s' \<equiv> s1\<lparr>h_size := (h_size s1)(r := n), freep := q'\<rparr>"
  shows "heap_ok base s' xs (insert r A)" "r \<notin> A" "\<forall>a \<in> A. h_size s' a = h_size s a" "h_size s' r = n"
proof -
  note H = heap_okD [OF h]
  have u: "unat (h_size s q - n) = unat (h_size s q) - unat n" "unat n < unat (h_size s q)" "0 < unat n" using n by (simp_all add: unat_sub word_less_nat_alt word_le_nat_alt)
  have r: "q < r" "r + 16 * unat n = hend s q" using u by (simp_all add: r_def s1_def hend_def)
  then have rq: "r \<in> span s q" using u(3) by (simp add: span_def)
  have rA: "r \<noteq> a" if "a \<in> A" for a
  proof -
    have "a \<in> span s a" using hend_gt [of s a] H(5) [of a] that by (simp add: span_def)
    moreover have "q \<noteq> a" using H(9) q(1) that by auto
    then have "span s a \<inter> span s q = {}" using H(8) [OF that, of q] q(1) by simp
    ultimately show ?thesis using rq by blast
  qed
  then show "r \<notin> A" by blast
  have sL: "hend s x < q \<or> hend s q < x" if "x \<in> set (base # xs)" "x \<noteq> q" for x
  proof -
    obtain us vs where "base # xs = us @ q # vs" using q(1) by (meson split_list list.set_intros(2))
    then show ?thesis using H(1) that by (auto simp: sorted_wrt_append)
  qed
  have rL: "r \<notin> set (base # xs)" using sL r u(3) hend_ge by (metis leD le_less_trans less_add_same_cancel1 less_not_refl2 less_trans nat_0_less_mult_iff zero_less_numeral)
  have z: "h_size s' x = (if x = r then n else if x = q then h_size s q - n else h_size s x)" for x by (simp add: s'_def s1_def)
  have hq: "hend s' q = r" "span s' q \<subseteq> span s q" "span s' r \<subseteq> span s q" "span s' q \<inter> span s' r = {}" "hend s' r = hend s q"
    using r u z by (auto simp: hend_def span_def)
  have ho: "hend s' x = hend s x" "span s' x = span s x" if "x \<noteq> r" "x \<noteq> q" for x using z that by (simp_all add: hend_def span_def)
  show "\<forall>a \<in> A. h_size s' a = h_size s a" using z rA H(9) q(1) by auto
  show "h_size s' r = n" using z by simp
  have "hend s' x \<le> hend s x" if "x \<in> set (base # xs)" for x
  proof -
    have "x \<noteq> r" using rL that by blast
    then show ?thesis using ho(1) [of x] hq(1) r by (cases "x = q") simp_all
  qed
  then have so: "sorted_wrt (\<lambda>p q. hend s' p < q) (base # xs)" by (intro sorted_wrt_mono_rel [OF _ H(1)]) (meson le_less_trans)
  have B: "insert r A - A = {r}" "insert r A \<inter> A = A" "A - insert r A = {}" using rA by auto
  show "heap_ok base s' xs (insert r A)"
  proof (rule heap_okI [OF h]; (unfold B)?)
    show "\<forall>b \<in> A. h_size s' b = h_size s b" by fact
    have "0 < h_size s' y \<and> span s' y \<subseteq> (\<Union>p \<in> set xs. span s p)" if "y \<in> set xs \<union> {r}" for y
      using that z [of y] n H(5) [of y] hq(2,3) ho(2) [of y] q(1) u by (cases "y = r"; cases "y = q") (auto simp: word_less_nat_alt)
    then show "\<forall>y \<in> set xs \<union> {r}. 0 < h_size s' y \<and> span s' y \<subseteq> (\<Union>p \<in> set xs \<union> {}. span s p)" by simp
    have "span s' r \<inter> span s' y = {}" if "y \<in> set xs" "y \<noteq> r" for y
      using that sL [of y] ho [of y] hq(3,4) by (cases "y = q") (auto simp: span_def)
    then show "\<forall>b \<in> {r}. \<forall>y \<in> set xs \<union> {r}. y \<noteq> b \<longrightarrow> span s' b \<inter> span s' y = {}" by simp
    show "{r} \<inter> set xs = {}" using rL by simp
    show "h_size s' base = 0" using z [of base] H(4) rL q(1) sorted_blocks(1) [OF H(1)] by auto
  qed (use so H(2) q(2) in \<open>auto simp: s'_def s1_def\<close>)
qed

lemma take_block_spec:
  assumes h: "heap_ok base s xs A" and q: "q \<in> set xs" "q' \<in> set (base # xs)" "h_ptr s q' = q" and n: "0 < n" "n \<le> h_size s q"
  shows "\<exists>r s' ys. take_block n q' q s = (r + 16, s') \<and> heap_ok base s' ys (insert r A) \<and> r \<notin> A \<and> h_size s' r = n \<and> (\<forall>a \<in> A. h_size s' a = h_size s a)"
proof (cases "h_size s q = n")
  case True
  let ?s = "s\<lparr>h_ptr := (h_ptr s)(q' := h_ptr s q), freep := q'\<rparr>"
  have "take_block n q' q s = (q + 16, ?s)" using True by (simp add: take_block_def)
  moreover have "q \<notin> A" using heap_okD(9) [OF h] q(1) by auto
  ultimately show ?thesis using take_whole [OF h q] True by (intro exI [of _ q] exI [of _ ?s]) auto
next
  case False
  then have "n < h_size s q" using n(2) by simp
  note T = take_tail [OF h q(1,2) n(1) this]
  show ?thesis using False T by (auto simp: take_block_def Let_def)
qed

lemma search_found:
  assumes "links (h_ptr s) (prevp # todo) z" "distinct todo" "last todo = freep s" "\<exists>q \<in> set todo. n \<le> h_size s q"
  shows "\<exists>q' q. malloc_loop admit n prevp (hd todo) s = Some (take_block n q' q s) \<and> q \<in> set todo \<and> n \<le> h_size s q \<and> q' \<in> set (prevp # todo) \<and> h_ptr s q' = q"
  using assms
proof (induction todo arbitrary: prevp)
  case (Cons p todo)
  show ?case
  proof (cases "n \<le> h_size s p")
    case True
    then show ?thesis using Cons.prems(1) by (intro exI [of _ prevp] exI [of _ p]) (simp add: malloc_loop.simps [of admit n prevp p])
  next
    case False
    then have t: "todo \<noteq> []" "\<exists>q \<in> set todo. n \<le> h_size s q" using Cons.prems(4) by auto
    then have "freep s \<in> set todo" using Cons.prems(3) by (metis last_ConsR last_in_set)
    then have "p \<noteq> freep s" using Cons.prems(2) by auto
    then have "malloc_loop admit n prevp p s = malloc_loop admit n p (h_ptr s p) s" using False by (simp add: malloc_loop.simps [of admit n prevp p])
    moreover have "h_ptr s p = hd todo" "links (h_ptr s) (p # todo) z" using Cons.prems(1) t(1) by (simp_all add: hd_append)
    moreover have "distinct todo" "last todo = freep s" using Cons.prems(2,3) t(1) by simp_all
    ultimately obtain q' q where "malloc_loop admit n prevp p s = Some (take_block n q' q s)" "q \<in> set todo" "n \<le> h_size s q" "q' \<in> set (p # todo)" "h_ptr s q' = q"
      using Cons.IH [of p] t(2) by auto
    then show ?thesis by (intro exI [of _ q'] exI [of _ q]) auto
  qed
qed simp

lemma search_not_found:
  assumes "links (h_ptr s) (prevp # todo) z" "distinct todo" "last todo = freep s" "todo \<noteq> []" "\<forall>q \<in> set todo. \<not> n \<le> h_size s q"
  shows "malloc_loop admit n prevp (hd todo) s =
    (case morecore admit n s of None \<Rightarrow> None | Some (p, s) \<Rightarrow> if p = 0 then Some (0, s) else malloc_loop admit n p (h_ptr s p) s)"
  using assms
proof (induction todo arbitrary: prevp)
  case (Cons p todo)
  show ?case
  proof (cases "todo = []")
    case True
    then show ?thesis using Cons.prems by (simp add: malloc_loop.simps [of admit n prevp "freep s"])
  next
    case False
    then have "freep s \<in> set todo" using Cons.prems(3) by (metis last_ConsR last_in_set)
    then have "p \<noteq> freep s" using Cons.prems(2) by auto
    then have "malloc_loop admit n prevp p s = malloc_loop admit n p (hd todo) s"
      using Cons.prems(1,5) False by (simp add: malloc_loop.simps [of admit n prevp p] hd_append)
    then show ?thesis using Cons.IH [of p] Cons.prems False by simp
  qed
qed simp

text \<open>The list from the block behind \<open>freep\<close>, where the search begins, back to \<open>freep\<close>.\<close>

lemma search_order:
  assumes "heap_ok base s xs A"
  obtains todo where "links (h_ptr s) (freep s # todo) (h_ptr s (freep s))" "distinct todo" "last todo = freep s" "todo \<noteq> []" "set todo = set (base # xs)" "hd todo = h_ptr s (freep s)"
proof -
  note H = heap_okD [OF assms]
  let ?f = "freep s"
  obtain us vs where e: "base # xs = us @ ?f # vs" using H(3) by (meson split_list)
  have "links (h_ptr s) (?f # vs @ us) ?f" using links_rotate [of "h_ptr s" us ?f vs] H(2) e by (metis list.sel(1))
  then have "links (h_ptr s) ((?f # vs @ us) @ [?f]) (h_ptr s ?f)" unfolding links_append by simp
  then have l: "links (h_ptr s) (?f # vs @ us @ [?f]) (h_ptr s ?f)" by simp
  have "distinct (vs @ us @ [?f])" "set (vs @ us @ [?f]) = set (base # xs)" using sorted_blocks(1) [OF H(1)] unfolding e by auto
  moreover have "hd (vs @ us @ [?f]) = h_ptr s ?f" using l by (simp add: hd_append split: if_splits)
  ultimately show ?thesis using that [of "vs @ us @ [?f]"] l by simp
qed

lemma malloc_loop_found:
  assumes h: "heap_ok base s xs A" and n: "0 < n" "\<exists>q \<in> set xs. n \<le> h_size s q"
  shows "\<exists>r s' ys. malloc_loop admit n (freep s) (h_ptr s (freep s)) s = Some (r + 16, s') \<and> heap_ok base s' ys (insert r A) \<and> r \<notin> A \<and>
    h_size s' r = n \<and> (\<forall>a \<in> A. h_size s' a = h_size s a)"
proof -
  obtain todo where t: "links (h_ptr s) (freep s # todo) (h_ptr s (freep s))" "distinct todo" "last todo = freep s" "todo \<noteq> []" "set todo = set (base # xs)" "hd todo = h_ptr s (freep s)"
    using search_order [OF h] by blast
  have "\<exists>q \<in> set todo. n \<le> h_size s q" using n(2) t(5) by auto
  then obtain q' q where q: "malloc_loop admit n (freep s) (hd todo) s = Some (take_block n q' q s)" "q \<in> set todo" "n \<le> h_size s q" "q' \<in> set (freep s # todo)" "h_ptr s q' = q"
    using search_found [OF t(1-3)] by blast
  have "q \<noteq> base" using q(3) n(1) heap_okD(4) [OF h] by (auto simp: word_le_nat_alt word_less_nat_alt)
  then have "q \<in> set xs" "q' \<in> set (base # xs)" using q(2,4) t(5) heap_okD(3) [OF h] by auto
  then show ?thesis using take_block_spec [OF h _ _ q(5) n(1) q(3)] q(1) unfolding t(6) by auto
qed

lemma morecore_spec:
  assumes h: "heap_ok base s xs A" and n: "16 * unat n < 2 ^ 31" and adm: "\<forall>b k. admit b k \<longrightarrow> int b + k \<le> 2 ^ 36"
  shows "morecore admit n s = Some (0, s) \<or>
    (\<exists>s' ys. morecore admit n s = Some (freep s', s') \<and> freep s' \<noteq> 0 \<and> heap_ok base s' ys A \<and> (\<exists>q \<in> set ys. n \<le> h_size s' q) \<and> (\<forall>a \<in> A. h_size s' a = h_size s a))"
proof -
  note H = heap_okD [OF h]
  define nu where "nu = (if n < 4096 then 4096 else n)"
  have nu: "16 * unat nu < 2 ^ 31" "n \<le> nu" "0 < unat nu" using n by (auto simp: nu_def word_less_nat_alt word_le_nat_alt)
  have si: "sint (of_nat (unat nu * 16) :: 32 word) = int (unat nu * 16)" using nu(1) by (intro sint_of_nat32) simp
  let ?p = "brk s"
  show ?thesis
  proof (cases "admit ?p (int (unat nu * 16))")
    case False
    then show ?thesis using si by (simp add: morecore_def usbrk_def nu_def [symmetric] Let_def)
  next
    case True
    let ?t = "s\<lparr>brk := ?p + unat nu * 16, h_size := (h_size s)(?p := nu)\<rparr>"
    have e: "hend s x \<le> ?p" "x < ?p" if "x \<in> set xs \<union> A" for x using H(7) [OF that] hend_gt [OF H(5) [OF that]] by simp_all
    then have x: "h_size ?t x = h_size s x" "hend ?t x = hend s x" "span ?t x = span s x" if "x \<in> set xs \<union> A \<union> {base}" for x
      using that H(11) by (auto simp: hend_def span_def)
    have pend: "hend ?t ?p = ?p + unat nu * 16" "span ?t ?p = {?p..<?p + unat nu * 16}" by (simp_all add: hend_def span_def mult.commute)
    have "int (?p + unat nu * 16) \<le> 2 ^ 36" using adm True by force
    then have top: "?p + unat nu * 16 \<le> 2 ^ 36" by (metis of_nat_le_iff of_nat_numeral of_nat_power)
    have pn: "?p \<notin> set xs \<union> A" using e(2) by blast
    have ap: "span s y \<inter> {?p..<?p + unat nu * 16} = {}" if "y \<in> set xs \<union> A" for y using e(1) [OF that] by (auto simp: span_def)
    have fit: "0 < h_size ?t y" "base + 16 \<le> y" "hend ?t y \<le> brk ?t" if "y \<in> set xs \<union> insert ?p A" for y
      using that H(5,6) [of y] H(11) nu(3) x(1,2) [of y] e(1) [of y] pend(1) by (cases "y = ?p"; simp add: word_less_nat_alt)+
    have "heap_ok base ?t xs (insert ?p A)"
      unfolding heap_ok_def
    proof (intro conjI ballI impI)
      show "sorted_wrt (\<lambda>p q. hend ?t p < q) (base # xs)" by (rule sorted_hend_cong [OF _ H(1)]) (use x(2) in auto)
      show "base + 16 \<le> brk ?t" using H(11) by simp
      fix a q assume a: "a \<in> insert ?p A" "q \<in> set xs \<union> insert ?p A" "q \<noteq> a"
      show "span ?t a \<inter> span ?t q = {}"
        using a ap [of a] ap [of q] x(3) [of a] x(3) [of q] H(8) [of a q] pend(2) by (cases "a = ?p"; cases "q = ?p") auto
    qed (use H fit top pn x(1) [of base] in auto)
    from ufree_spec [OF this insertI1] obtain s' ys where f: "ufree (?p + 16) ?t = Some s'" "heap_ok base s' ys (insert ?p A - {?p})"
        "\<forall>a \<in> insert ?p A - {?p}. h_size s' a = h_size ?t a" "\<exists>q \<in> set ys. h_size ?t ?p \<le> h_size s' q" by (elim exE conjE) (rule that; assumption)
    have "insert ?p A - {?p} = A" using pn by auto
    note f = f [unfolded this]
    have "morecore admit n s = Some (freep s', s')"
      using True f(1) si by (simp add: morecore_def usbrk_def nu_def [symmetric] Let_def nat_add_distrib flip: of_nat_mult)
    moreover have "freep s' \<noteq> 0" using heap_okD(3,10) [OF f(2)] heap_okD(6) [OF f(2)] by force
    moreover have "\<exists>q \<in> set ys. n \<le> h_size s' q" using f(4) nu(2) by (auto intro: order_trans)
    ultimately show ?thesis using f(2,3) x(1) by auto
  qed
qed

section \<open>Programs that use the allocator\<close>

text \<open>The heap of a program: before the first call, or with a list of free blocks.\<close>

definition heap :: "nat \<Rightarrow> uheap \<Rightarrow> nat set \<Rightarrow> bool" where
  "heap base s A \<longleftrightarrow> freep s = 0 \<and> A = {} \<and> 0 < base \<and> base + 16 \<le> brk s \<and> brk s \<le> 2 ^ 36 \<or> (\<exists>xs. heap_ok base s xs A)"

lemma nunits_bounds:
  assumes "unat nbytes + 31 < 2 ^ 31"
  shows "16 * unat (nunits nbytes) < 2 ^ 31" "unat nbytes \<le> 16 * (unat (nunits nbytes) - 1)" "0 < nunits nbytes"
proof -
  have b: "(unat nbytes + 15) div 16 + 1 < 2 ^ 27" using assms by (simp add: less_mult_imp_div_less)
  then have u: "unat (nunits nbytes) = (unat nbytes + 15) div 16 + 1" unfolding nunits_def by (subst unat_of_nat32) simp_all
  show "16 * unat (nunits nbytes) < 2 ^ 31" unfolding u using b by simp
  show "unat nbytes \<le> 16 * (unat (nunits nbytes) - 1)" unfolding u by simp
  show "0 < nunits nbytes" unfolding word_less_nat_alt u by simp
qed

lemma malloc_spec:
  assumes h: "heap base s A" and n: "unat nbytes + 31 < 2 ^ 31" and adm: "\<forall>b k. admit b k \<longrightarrow> int b + k \<le> 2 ^ 36"
  shows "(\<exists>s'. malloc base admit nbytes s = Some (0, s') \<and> heap base s' A \<and> (\<forall>a \<in> A. h_size s' a = h_size s a)) \<or>
    (\<exists>r s'. malloc base admit nbytes s = Some (r + 16, s') \<and> heap base s' (insert r A) \<and> r \<notin> A \<and> h_size s' r = nunits nbytes \<and> (\<forall>a \<in> A. h_size s' a = h_size s a))"
proof -
  let ?n = "nunits nbytes"
  note N = nunits_bounds [OF n]
  define t where "t = (if freep s = 0 then s\<lparr>freep := base, h_ptr := (h_ptr s)(base := base), h_size := (h_size s)(base := 0)\<rparr> else s)"
  have m: "malloc base admit nbytes s = malloc_loop admit ?n (freep t) (h_ptr t (freep t)) t" by (simp add: malloc_def t_def Let_def)
  have "\<exists>xs. heap_ok base t xs A \<and> (\<forall>a \<in> A. h_size t a = h_size s a)"
  proof (cases "freep s = 0")
    case True
    then have "\<not> heap_ok base s xs A" for xs using heap_okD(3,6,10) [of base s xs A] by (cases "freep s = base") force+
    then have "A = {}" "0 < base" "base + 16 \<le> brk s" "brk s \<le> 2 ^ 36" using h by (auto simp: heap_def)
    then show ?thesis using True by (intro exI [of _ "[]"]) (simp add: heap_ok_def t_def)
  next
    case False
    then show ?thesis using h by (auto simp: heap_def t_def)
  qed
  then obtain xs where t: "heap_ok base t xs A" "\<forall>a \<in> A. h_size t a = h_size s a" by blast
  show ?thesis
  proof (cases "\<exists>q \<in> set xs. ?n \<le> h_size t q")
    case True
    from malloc_loop_found [OF t(1) N(3) this] obtain r s' ys where "malloc_loop admit ?n (freep t) (h_ptr t (freep t)) t = Some (r + 16, s')"
      "heap_ok base s' ys (insert r A)" "r \<notin> A" "h_size s' r = ?n" "\<forall>a \<in> A. h_size s' a = h_size t a" by blast
    then show ?thesis using m t(2) by (intro disjI2 exI [of _ r] exI [of _ s']) (auto simp: heap_def)
  next
    case False
    obtain todo where o: "links (h_ptr t) (freep t # todo) (h_ptr t (freep t))" "distinct todo" "last todo = freep t" "todo \<noteq> []" "set todo = set (base # xs)" "hd todo = h_ptr t (freep t)"
      using search_order [OF t(1)] by blast
    have "\<forall>q \<in> set todo. \<not> ?n \<le> h_size t q" using False o(5) heap_okD(4) [OF t(1)] N(3) by auto
    note S = search_not_found [OF o(1-4) this, of admit, unfolded o(6)]
    from morecore_spec [OF t(1) N(1) adm] show ?thesis
    proof (elim disjE exE conjE)
      assume "morecore admit ?n t = Some (0, t)"
      then show ?thesis using S m t by (intro disjI1 exI [of _ t]) (auto simp: heap_def)
    next
      fix u ys assume u: "morecore admit ?n t = Some (freep u, u)" "freep u \<noteq> 0" "heap_ok base u ys A" "\<exists>q \<in> set ys. ?n \<le> h_size u q" "\<forall>a \<in> A. h_size u a = h_size t a"
      from malloc_loop_found [OF u(3) N(3) u(4)] obtain r s' zs where "malloc_loop admit ?n (freep u) (h_ptr u (freep u)) u = Some (r + 16, s')"
        "heap_ok base s' zs (insert r A)" "r \<notin> A" "h_size s' r = ?n" "\<forall>a \<in> A. h_size s' a = h_size u a" by blast
      then show ?thesis using S m u(1,2,5) t(2) by (intro disjI2 exI [of _ r] exI [of _ s']) (auto simp: heap_def)
    qed
  qed
qed

lemma free_spec:
  assumes "heap base s A" "a \<in> A"
  shows "\<exists>s'. ufree (a + 16) s = Some s' \<and> heap base s' (A - {a}) \<and> (\<forall>b \<in> A - {a}. h_size s' b = h_size s b)"
proof -
  obtain xs where "heap_ok base s xs A" using assms by (auto simp: heap_def)
  from ufree_spec [OF this assms(2)] show ?thesis by (auto simp: heap_def)
qed

text \<open>What a program can do with its heap: call \<open>malloc\<close> with a size below two gigabytes, free a block that it holds, and
  write to the memory it was given, which is everything in its blocks behind the headers.\<close>

definition payload :: "uheap \<Rightarrow> nat set \<Rightarrow> nat set" where
  "payload s A = (\<Union>a \<in> A. {a + 16..<hend s a})"

inductive heap_run :: "nat \<Rightarrow> (nat \<Rightarrow> int \<Rightarrow> bool) \<Rightarrow> uheap \<Rightarrow> nat set \<Rightarrow> bool" for base admit where
  run_start: "freep s = 0 \<Longrightarrow> 0 < base \<Longrightarrow> base + 16 \<le> brk s \<Longrightarrow> brk s \<le> 2 ^ 36 \<Longrightarrow> heap_run base admit s {}"
| run_malloc: "heap_run base admit s A \<Longrightarrow> unat nbytes + 31 < 2 ^ 31 \<Longrightarrow> malloc base admit nbytes s = Some (p, s') \<Longrightarrow>
    heap_run base admit s' (if p = 0 then A else insert (p - 16) A)"
| run_free: "heap_run base admit s A \<Longrightarrow> a \<in> A \<Longrightarrow> ufree (a + 16) s = Some s' \<Longrightarrow> heap_run base admit s' (A - {a})"
| run_write: "heap_run base admit s A \<Longrightarrow> \<forall>x. x \<notin> payload s A \<longrightarrow> h_ptr s' x = h_ptr s x \<and> h_size s' x = h_size s x \<Longrightarrow>
    freep s' = freep s \<Longrightarrow> brk s' = brk s \<Longrightarrow> heap_run base admit s' A"

lemma payload_write:
  assumes h: "heap_ok base s xs A" and w: "\<forall>x. x \<notin> payload s A \<longrightarrow> h_ptr s' x = h_ptr s x \<and> h_size s' x = h_size s x" and k: "freep s' = freep s" "brk s' = brk s"
  shows "heap_ok base s' xs A"
proof -
  note H = heap_okD [OF h]
  have out: "x \<notin> payload s A" if x: "x \<in> set xs \<union> A \<union> {base}" for x
  proof
    assume "x \<in> payload s A"
    then obtain a where a: "a \<in> A" "a + 16 \<le> x" "x < hend s a" by (auto simp: payload_def)
    then have "x \<noteq> base" "x \<noteq> a" using H(6) [of a] by auto
    then have x: "x \<in> set xs \<union> A" using x by blast
    have "x \<in> span s a" "x \<in> span s x" using a hend_gt [OF H(5) [OF x]] by (auto simp: span_def)
    then show False using H(8) [OF a(1) x \<open>x \<noteq> a\<close>] by blast
  qed
  have e: "h_ptr s' x = h_ptr s x" "h_size s' x = h_size s x" "hend s' x = hend s x" "span s' x = span s x" if "x \<in> set xs \<union> A \<union> {base}" for x
    using w out [OF that] by (simp_all add: hend_def span_def)
  have "sorted_wrt (\<lambda>p q. hend s' p < q) (base # xs)" by (rule sorted_hend_cong [OF _ H(1)]) (use e(3) in auto)
  moreover have "links (h_ptr s') (base # xs) base" using H(2) links_cong [of "base # xs" "h_ptr s'" "h_ptr s" base] e(1) by auto
  ultimately show ?thesis using h e(2-4) k by (auto simp: heap_ok_def)
qed

lemma heap_run_heap:
  assumes "heap_run base admit s A" "\<forall>b k. admit b k \<longrightarrow> int b + k \<le> 2 ^ 36"
  shows "heap base s A"
  using assms
proof induction
  case (run_malloc s A nbytes p s')
  then show ?case using malloc_spec [OF run_malloc.IH [OF run_malloc.prems] run_malloc.hyps(2) run_malloc.prems] run_malloc.hyps(3) by auto
next
  case (run_free s A a s')
  then show ?case using free_spec [OF run_free.IH [OF run_free.prems] run_free.hyps(2)] by auto
next
  case (run_write s A s')
  have "\<exists>xs. heap_ok base s' xs A" if "heap_ok base s xs A" for xs using payload_write [OF that run_write.hyps(2-4)] by blast
  moreover have "heap base s A" by (rule run_write.IH [OF run_write.prems])
  ultimately show ?case using run_write.hyps(3,4) by (auto simp: heap_def)
qed (simp add: heap_def)

text \<open>
  C12. Whatever a program does with its heap, the blocks that it holds lie between the static variable and the end of its
  memory and no two of them overlap, headers included. The next \<open>malloc\<close> returns: it fails without effect on them, or it
  gives a block of at least the size asked for that is none of them and overlaps none of them. And \<open>free\<close> of a block that it
  holds returns. The memory that the kernel gives is at most 64 gigabytes.
\<close>

theorem malloc_blocks_apart:
  assumes "heap_run base admit s A" "\<forall>b k. admit b k \<longrightarrow> int b + k \<le> 2 ^ 36"
  shows "(\<forall>a \<in> A. base + 16 \<le> a \<and> hend s a \<le> brk s \<and> (\<forall>b \<in> A. b \<noteq> a \<longrightarrow> {a..<hend s a} \<inter> {b..<hend s b} = {})) \<and>
    (\<forall>nbytes. unat nbytes + 31 < 2 ^ 31 \<longrightarrow> (\<exists>p s'. malloc base admit nbytes s = Some (p, s') \<and> (\<forall>a \<in> A. h_size s' a = h_size s a) \<and>
      (p = 0 \<or> base + 32 \<le> p \<and> p + unat nbytes \<le> hend s' (p - 16) \<and> hend s' (p - 16) \<le> brk s' \<and>
        (\<forall>a \<in> A. a \<noteq> p - 16 \<and> {a..<hend s' a} \<inter> {p - 16..<hend s' (p - 16)} = {})))) \<and>
    (\<forall>a \<in> A. \<exists>s'. ufree (a + 16) s = Some s')"
proof (intro conjI allI impI)
  have h: "heap base s A" by (rule heap_run_heap [OF assms])
  have apart: "base + 16 \<le> a \<and> hend t a \<le> brk t \<and> (\<forall>b \<in> B. b \<noteq> a \<longrightarrow> {a..<hend t a} \<inter> {b..<hend t b} = {})" if hb: "heap base t B" and a: "a \<in> B" for t B a
  proof -
    obtain xs where "heap_ok base t xs B" using hb a by (auto simp: heap_def)
    then show ?thesis using heap_okD(6-8) [of base t xs B] a by (auto simp: span_def)
  qed
  show "\<forall>a \<in> A. base + 16 \<le> a \<and> hend s a \<le> brk s \<and> (\<forall>b \<in> A. b \<noteq> a \<longrightarrow> {a..<hend s a} \<inter> {b..<hend s b} = {})" using apart [OF h] by blast
  show "\<forall>a \<in> A. \<exists>s'. ufree (a + 16) s = Some s'" using free_spec [OF h] by blast
  fix nbytes :: "32 word" assume n: "unat nbytes + 31 < 2 ^ 31"
  note N = nunits_bounds [OF n]
  show "\<exists>p s'. malloc base admit nbytes s = Some (p, s') \<and> (\<forall>a \<in> A. h_size s' a = h_size s a) \<and>
      (p = 0 \<or> base + 32 \<le> p \<and> p + unat nbytes \<le> hend s' (p - 16) \<and> hend s' (p - 16) \<le> brk s' \<and>
        (\<forall>a \<in> A. a \<noteq> p - 16 \<and> {a..<hend s' a} \<inter> {p - 16..<hend s' (p - 16)} = {}))"
    using malloc_spec [OF h n assms(2)]
  proof (elim disjE exE conjE)
    fix r s' assume r: "malloc base admit nbytes s = Some (r + 16, s')" "heap base s' (insert r A)" "r \<notin> A" "h_size s' r = nunits nbytes" "\<forall>a \<in> A. h_size s' a = h_size s a"
    have "0 < unat (nunits nbytes)" using N(3) by (simp add: word_less_nat_alt)
    then have "r + 16 + unat nbytes \<le> hend s' r" using N(2) r(4) by (simp add: hend_def)
    moreover have "base + 16 \<le> r" "hend s' r \<le> brk s'" using apart [OF r(2), of r] by simp_all
    moreover have "a \<noteq> r \<and> {a..<hend s' a} \<inter> {r..<hend s' r} = {}" if "a \<in> A" for a using apart [OF r(2), of a] r(3) that by auto
    ultimately show ?thesis using r(1,5) by (intro exI [of _ "r + 16"] exI [of _ s']) simp
  qed blast
qed

theorem malloc_blocks_apart_witness:
  "heap_run 4096 (\<lambda>b k. int b + k \<le> 2 ^ 36) \<lparr>h_ptr = \<lambda>_. 0, h_size = \<lambda>_. 0, freep = 0, brk = 8192\<rparr> {} \<and>
   (\<exists>p s'. malloc 4096 (\<lambda>b k. int b + k \<le> 2 ^ 36) 100 \<lparr>h_ptr = \<lambda>_. 0, h_size = \<lambda>_. 0, freep = 0, brk = 8192\<rparr> = Some (p, s') \<and>
     (p = 0 \<or> 4128 \<le> p \<and> p + 100 \<le> hend s' (p - 16)))"
proof -
  let ?s = "\<lparr>h_ptr = \<lambda>_. 0, h_size = \<lambda>_. 0, freep = 0, brk = 8192\<rparr>" and ?admit = "\<lambda>b k. int b + k \<le> 2 ^ 36"
  have r: "heap_run 4096 ?admit ?s {}" by (rule heap_run.run_start) simp_all
  have "unat (100 :: 32 word) + 31 < 2 ^ 31" by simp
  then show ?thesis using r malloc_blocks_apart [OF r] by fastforce
qed

text \<open>
  C40. A request of nearly four gigabytes succeeds without memory: the number of bytes is cut to 32 bits on the way to
  \<open>sbrk\<close>, which grows the process by 16 bytes, and \<open>malloc\<close> returns the address behind them.
\<close>

theorem malloc_huge_overlaps:
  assumes "freep s = 0" "0 < base" "base < brk s" "admit (brk s) 16"
  shows "\<exists>s'. malloc base admit 0xFFFFFFFF s = Some (brk s + 16, s') \<and> brk s' = brk s + 16"
proof -
  let ?n = "268435457 :: 32 word"
  let ?t = "s\<lparr>freep := base, h_ptr := (h_ptr s)(base := base), h_size := (h_size s)(base := 0)\<rparr>"
  let ?u = "?t\<lparr>brk := brk s + 16, h_size := (h_size ?t)(brk s := ?n), h_ptr := (h_ptr ?t)(brk s := base, base := brk s)\<rparr>"
  have n: "nunits 0xFFFFFFFF = ?n" by (simp add: nunits_def)
  have "free_find (brk s) base s' = Some base" if "h_ptr s' base = base" for s' using assms(3) that by (simp add: free_find.simps [of "brk s" base])
  then have "ufree (brk s + 16) (?t\<lparr>brk := brk s + 16, h_size := (h_size ?t)(brk s := ?n)\<rparr>) = Some ?u"
    using assms(3) by (simp add: ufree_def hend_def Let_def)
  moreover have "usbrk admit (of_nat (unat ?n * 16)) ?t = (Some (brk s), ?t\<lparr>brk := brk s + 16\<rparr>)" using assms(4) by (simp add: usbrk_def nat_add_distrib)
  ultimately have "morecore admit ?n ?t = Some (base, ?u)" by (simp add: morecore_def)
  moreover have "malloc base admit 0xFFFFFFFF s = malloc_loop admit ?n base base ?t" unfolding malloc_def n using assms(1) by simp
  ultimately have "malloc base admit 0xFFFFFFFF s = malloc_loop admit ?n base (brk s) ?u"
    using assms(2) by (simp add: malloc_loop.simps [of admit ?n base base ?t])
  moreover have "malloc_loop admit ?n base p u = Some (take_block ?n base p u)" if "h_size u p = ?n" for u p
    using that by (simp add: malloc_loop.simps [of admit ?n base p])
  ultimately show ?thesis by (simp add: take_block_def)
qed

theorem malloc_huge_overlaps_witness:
  "\<exists>s'. malloc 4096 (\<lambda>_ _. True) 0xFFFFFFFF \<lparr>h_ptr = \<lambda>_. 0, h_size = \<lambda>_. 0, freep = 0, brk = 8192\<rparr> = Some (8208, s') \<and> brk s' = 8208"
  using malloc_huge_overlaps [of "\<lparr>h_ptr = \<lambda>_. 0, h_size = \<lambda>_. 0, freep = 0, brk = 8192\<rparr>" 4096 "\<lambda>_ _. True"] by simp

end
