(* ===== verification/Spec2Isabelle.thy ===== *)
theory Spec2Isabelle
  imports Kstring Kalloc Spinlock Procs Sched Vm Pagetable Bio Klog Fs Console File Proclife Exec Sysfile Virtio Trap
    Pipes Tty Frames Lifecycle Refs Pinfo Traps Vdisk Dirs Ulib Grep Shparse Shrun Boot Mkfs Umalloc
begin

text \<open>
  \<^bold>\<open>A verification of the xv6 kernel with a priority scheduler\<close>

  The program is the teaching kernel xv6 for RISC-V, changed by its authors: the scheduler picks the runnable
  processes of the best priority in turn, \<open>set_priority\<close> changes a priority and \<open>getpinfo\<close> reports the process
  table to user space. The sources are under src/code: kernel/ is the kernel, user/ the programs and their library,
  mkfs/ the program that makes the first disk image.

  \<^bold>\<open>The parts and how they interact.\<close> A user program enters the kernel by a trap (kernel/trap.c), which
  dispatches a system call (syscall.c, sysproc.c, sysfile.c), serves a device or ends a time slice. Processes and the
  scheduler are in proc.c, their address spaces in vm.c on pages of kalloc.c, programs are loaded by exec.c. Files are
  layers: descriptors and pipes (file.c, pipe.c), inodes, directories and paths (fs.c), the log that makes a group of
  block writes atomic (log.c), the cache of blocks (bio.c) and the disk driver (virtio_disk.c). The console
  (console.c, uart.c, printf.c) is a device file. Spin locks and sleep locks protect all of it.

  \<^bold>\<open>Conventions.\<close>
  \<^item> A C function is a HOL function from the state to an outcome \<open>('s, 'a) res\<close> (theory Prelude): a result and the new
    state, a panic with its message, a process that goes to sleep inside the call, or no end within the bound of a
    recursion. A critical section under a spin lock is one step; where the interleaving itself is the point (spin
    locks, the scheduler on several processors, the log, the disk driver) there is a step relation between them.
  \<^item> The kernel state is one record that grows with the layers: memory and free list (\<open>kmem\<close>), processes (\<open>pstate\<close>), cache
    and disk (\<open>bstate\<close>), log (\<open>lstate\<close>), superblock and inodes (\<open>fstate\<close>), console (\<open>cstate\<close>), files and pipes
    (\<open>iostate\<close>), disk driver (\<open>vstate\<close>), traps (\<open>tstate\<close>). Each operation is polymorphic in the layers above it, so the
    type says what it cannot touch.
  \<^item> Pointers to array elements are indices; kernel memory is a function from 64-bit addresses to bytes, and page
    tables and the free list live in it. Machine integers are words of their width, a C \<open>int\<close> is read by \<open>sint\<close>.
  \<^item> Registers of devices that are read, the clock, and the claims of the interrupt controller are arguments.

  \<^bold>\<open>The kernel, from the bottom.\<close>
  \<^item> Kstring (kernel/string.c): the loops over memory, and list versions. \<open>memmove\<close> is a block copy also when the
    ranges overlap, \<open>safestrcpy\<close> stays in its buffer.
  \<^item> Kalloc (kalloc.c): the free list threaded through the pages; every page is free or owned, once. The locale
    \<open>page_allocator\<close> is what the page tables rely on.
  \<^item> Spinlock (spinlock.c): \<open>acquire\<close> and \<open>release\<close> split at their atomic instructions; mutual exclusion on any number of
    processors.
  \<^item> Procs and Sched (proc.c): process states, sleep and wakeup, the two-pass scheduler. Shown are the round robin
    among the best priority, that lower priorities can starve, that two processors never run one process, and the lock
    discipline at a context switch.
  \<^item> Vm and Pagetable (vm.c): the Sv39 walk and every function on page tables; tables are trees whose pages are
    disjoint, \<open>mappages\<close> makes \<open>walkaddr\<close> answer, and what \<open>copyout\<close> writes \<open>copyin\<close> reads.
  \<^item> Bio (bio.c, sleeplock.c): the cache refines a disk with held blocks; the locale \<open>buffer_cache\<close> states it and is
    interpreted on the functions of the model.
  \<^item> Klog (log.c): a crash between any two disk writes of a commit leaves the old or the new contents after recovery,
    the log never overflows, and the last \<open>end_op\<close> wakes the waiting calls.
  \<^item> Txn, Bitmap, Contents, Dirs (log.c and fs.c): inside a transaction the locale \<open>logged_blocks\<close> gives contents that reads
    and logged writes act on. Over it: the block bitmap, files as byte lists for \<open>bmap\<close>, \<open>readi\<close>, \<open>writei\<close> and
    \<open>iupdate\<close>, directories as maps for \<open>dirlookup\<close> and \<open>dirlink\<close>, and the elements of paths. Fs has all functions of fs.c.
  \<^item> Virtio and Vdisk (virtio_disk.c): the driver, and the device as its specification has it; for any interleaving of
    requests, device steps and interrupts, descriptors are never shared and a finished request has moved its own block.
  \<^item> File, Pipes (file.c, pipe.c), Console, Tty (console.c, uart.c, printf.c): pipes are bounded queues, console input
    is an edited line and a queue of completed lines, printed numbers denote their argument.
  \<^item> Proclife, Lifecycle (the rest of proc.c), Exec (exec.c), Sysfile (sysfile.c), Trap (trap.c, syscall.c, sysproc.c,
    plic.c, main.c), Boot (start.c): creation, exit and wait of processes, and every system call.
  \<^item> Frames is a calculus of what an operation leaves alone; Refs uses it for exact reference counts of open files and
    inodes, Pinfo for the report of \<open>getpinfo\<close> (and the old stack bytes it gives away), Traps for the return to user mode
    and the bounds of \<open>sbrk\<close>.

  \<^bold>\<open>User programs.\<close> Ulib has the library (user/ulib.c, user/printf.c), Grep the program grep with its matcher, Shparse
  the parser of the shell and Shrun what the shell then does, as a tree of system calls. A program that reads is given
  the pieces its reads return. Umalloc is the allocator behind \<open>malloc\<close> and \<open>free\<close> (user/umalloc.c), the headers a store from
  addresses to their fields: for every sequence of calls and writes of a program its blocks never overlap and both
  loops end; a request that does not fit the \<open>int\<close> of \<open>sbrk\<close> is shown to succeed without memory.

  \<^bold>\<open>The disk image.\<close> Mkfs is the program of mkfs/mkfs.c. Its image is shown to be a file system in the sense of Contents
  and Dirs: taking the next block of its counter is the block allocation of the kernel, so its files and its root
  directory are the ones the kernel reads.

  \<^bold>\<open>Bounds.\<close> Recursions whose depth the data decides carry a bound. The page walk and \<open>freewalk\<close> have the three levels of
  Sv39; \<open>free_chain\<close> has the number of descriptors and is shown to end within it; the parser of the shell has four
  calls for each character left, shown to be enough on every line. All other loops are HOL functions with a termination
  proof, or partial functions into \<open>option\<close> (\<open>strlen\<close>, \<open>free\<close>, \<open>malloc\<close>) for which it is shown when they return. A bound that is too small is the
  outcome \<open>Diverge\<close>, so a theorem that an operation returns is not satisfied by running out of it.

  \<^bold>\<open>Not modelled.\<close> The assembly files (entry.S, trampoline.S, kernelvec.S, swtch.S, the generated usys.S): they move
  registers; their effect on the modelled state is in the functions that use them (a context switch is the change of the
  running process). The accessors of riscv.h are the fields of records or arguments; defs.h and user.h only declare.
  Caches, memory ordering and the timing of the hardware are not in the model. user/usertests.c, grind.c, forktest.c and the
  other test programs exercise the system calls and have no behaviour of their own to verify. The small programs (cat,
  echo, init, kill, ln, ls, mkdir, rm, setprioridade, wc) pass their arguments to one or two system calls and print messages.
\<close>

end
